(* ===== verification/Prelude.thy ===== *)
theory Prelude
  imports Main "HOL-Library.Word" "HOL-Library.Monad_Syntax"
begin

text \<open>
  Shared vocabulary of the development: the machine types of the Cortex-M4F target, the
  null pointer, the failure monad of the kernel model and the lemma collections.

  A kernel operation returns \<open>'a option\<close>. \<open>None\<close> stands for a call that never
  returns to its caller: a pointer-chasing loop on a cyclic structure, or a NULL dereference
  (a bus fault on this target). Every theorem about an operation therefore states that the
  operation returns \<open>Some\<close>.
\<close>

unbundle bit_operations_syntax

type_synonym u8 = "8 word"
type_synonym u16 = "16 word"
type_synonym u32 = "32 word"
type_synonym u64 = "64 word"
type_synonym ptr = "32 word"

abbreviation NULL :: ptr where
  "NULL \<equiv> 0"

named_theorems frame \<open>what an operation leaves unchanged\<close>
named_theorems spec_simps \<open>closed functional specifications of operations\<close>

text \<open>Dereferencing is only defined away from NULL.\<close>

definition guard :: "bool \<Rightarrow> unit option" where
  "guard b = (if b then Some () else None)"

lemma guard_simps [simp]: "guard True = Some ()" "guard False = None"
  by (simp_all add: guard_def)

lemma guard_bind_eq_Some [simp]:
  "(guard b \<bind> f = Some y) \<longleftrightarrow> b \<and> f () = Some y"
  by (cases b) simp_all

lemma guard_eq_Some [simp]: "guard b = Some u \<longleftrightarrow> b"
  by (cases b) simp_all

text \<open>A C \<open>int8_t\<close> conversion: keep the low eight bits, read as two's complement.\<close>

definition to_int8 :: "int \<Rightarrow> int" where
  "to_int8 x = (x + 128) mod 256 - 128"

lemma to_int8_id [simp]: "-128 \<le> x \<Longrightarrow> x < 128 \<Longrightarrow> to_int8 x = x"
  by (simp add: to_int8_def)

lemma to_int8_range: "-128 \<le> to_int8 x" "to_int8 x < 128"
  by (simp_all add: to_int8_def)

end
