(* ===== verification/RtxState.thy ===== *)
theory RtxState
  imports Prelude
begin

text \<open>
  Data model of the RTX5 kernel (rtos/TARGET_CORTEX/rtx5/RTX/Include/rtx_os.h).

  The kernel's objects are control blocks linked by pointers, so memory is split by field: a
  field \<open>f\<close> of a control block type is a function from addresses to values, and the C
  expression \<open>p->f\<close> is \<open>f s p\<close>. The first twelve bytes of every control block have the
  same layout (osRtxObject_t): identifier, state, flags, one attribute byte, name, and at offset
  8 the link \<open>thread_next\<close> of a thread, which is the list head \<open>thread_list\<close> of any other
  object. The kernel relies on it, using an object as the sentinel of its thread list; sharing
  these fields between all types makes the sentinel work in the model as it does in C.
  \<open>mem\<close> is raw memory, read and written in 32-bit words: stacks, saved registers and the
  block headers of the memory managers. \<open>bytes\<close> is the memory of message contents and timer
  callbacks, which the kernel only copies. Like the fields, these are separate memories: an
  address used at one type is not read at another (a freed block's first word holds the free
  list's link and not the identifier of the object that was there). The single global osRtxInfo is the last layer.
  Event recorder calls (Evr...) only trace and are left out.
\<close>

unbundle bit_operations_syntax

section \<open>Control blocks\<close>

record os_object =
  ob_id :: "ptr \<Rightarrow> u8"
  ob_state :: "ptr \<Rightarrow> u8"
  ob_flags :: "ptr \<Rightarrow> u8"
  ob_attr :: "ptr \<Rightarrow> u8"
  ob_name :: "ptr \<Rightarrow> ptr"
  thread_next :: "ptr \<Rightarrow> ptr"

abbreviation (input) thread_list :: "'a os_object_scheme \<Rightarrow> ptr \<Rightarrow> ptr" where
  "thread_list \<equiv> thread_next"

record os_thread = os_object +
  thread_prev :: "ptr \<Rightarrow> ptr"
  delay_next :: "ptr \<Rightarrow> ptr"
  delay_prev :: "ptr \<Rightarrow> ptr"
  thread_join :: "ptr \<Rightarrow> ptr"
  delay :: "ptr \<Rightarrow> u32"
  priority :: "ptr \<Rightarrow> int"
  priority_base :: "ptr \<Rightarrow> int"
  stack_frame :: "ptr \<Rightarrow> u8"
  flags_options :: "ptr \<Rightarrow> u8"
  wait_flags :: "ptr \<Rightarrow> u32"
  thread_flags :: "ptr \<Rightarrow> u32"
  mutex_list :: "ptr \<Rightarrow> ptr"
  stack_mem :: "ptr \<Rightarrow> ptr"
  stack_size :: "ptr \<Rightarrow> u32"
  sp :: "ptr \<Rightarrow> u32"
  thread_addr :: "ptr \<Rightarrow> u32"
  context_ptr :: "ptr \<Rightarrow> ptr"

record os_sync = os_thread +
  owner_thread :: "ptr \<Rightarrow> ptr"
  owner_prev :: "ptr \<Rightarrow> ptr"
  owner_next :: "ptr \<Rightarrow> ptr"
  lock_count :: "ptr \<Rightarrow> u8"
  event_flags :: "ptr \<Rightarrow> u32"
  tokens :: "ptr \<Rightarrow> u16"
  max_tokens :: "ptr \<Rightarrow> u16"

record os_pools = os_sync +
  max_blocks :: "ptr \<Rightarrow> u32"
  used_blocks :: "ptr \<Rightarrow> u32"
  block_size :: "ptr \<Rightarrow> u32"
  block_base :: "ptr \<Rightarrow> ptr"
  block_lim :: "ptr \<Rightarrow> ptr"
  block_free :: "ptr \<Rightarrow> ptr"
  msg_size :: "ptr \<Rightarrow> u32"
  msg_count :: "ptr \<Rightarrow> u32"
  msg_first :: "ptr \<Rightarrow> ptr"
  msg_last :: "ptr \<Rightarrow> ptr"
  msg_prev :: "ptr \<Rightarrow> ptr"
  msg_next :: "ptr \<Rightarrow> ptr"
  msg_priority :: "ptr \<Rightarrow> u8"
  timer_prev :: "ptr \<Rightarrow> ptr"
  timer_next :: "ptr \<Rightarrow> ptr"
  timer_ticks :: "ptr \<Rightarrow> u32"
  timer_load :: "ptr \<Rightarrow> u32"
  msg_mq :: "ptr \<Rightarrow> ptr" \<comment> \<open>the queue, stored over the payload by isrRtxMessageQueueGet\<close>
  mem :: "ptr \<Rightarrow> u32"
  bytes :: "ptr \<Rightarrow> u8"

section \<open>osRtxInfo and the processor\<close>

record rtx = os_pools +
  kernel_state :: u8
  kernel_blocked :: u8
  kernel_pendSV :: u8
  kernel_tick :: u32
  run_curr :: ptr
  run_next :: ptr
  ready :: ptr \<comment> \<open>the address of osRtxInfo.thread.ready\<close>
  idle_thread :: ptr
  delay_list :: ptr
  wait_list :: ptr
  terminate_list :: ptr
  robin_thread :: ptr
  robin_tick :: u32
  robin_timeout :: u32
  timer_list :: ptr
  timer_thread :: ptr
  timer_mq :: ptr
  timer_tick_set :: bool \<comment> \<open>osRtxInfo.timer.tick holds osRtxTimerTick, not NULL\<close>
  isr_max :: u16
  isr_cnt :: u16
  isr_in :: u16
  isr_out :: u16
  isr_data :: "u16 \<Rightarrow> ptr"
  mem_stack :: ptr
  mem_mp_data :: ptr
  mem_mq_data :: ptr
  mem_common :: ptr
  mpi_stack :: ptr
  mpi_thread :: ptr
  mpi_timer :: ptr
  mpi_event_flags :: ptr
  mpi_mutex :: ptr
  mpi_semaphore :: ptr
  mpi_memory_pool :: ptr
  mpi_message_queue :: ptr
  config_flags :: u32
  config_stack_size :: u32
  ipsr :: u32
  primask :: u32
  basepri :: u32
  psp :: u32
  pendsv_set :: bool

section \<open>Constants\<close>

abbreviation (input) "osRtxIdInvalid \<equiv> 0 :: u8"
abbreviation (input) "osRtxIdThread \<equiv> 1 :: u8"
abbreviation (input) "osRtxIdTimer \<equiv> 2 :: u8"
abbreviation (input) "osRtxIdEventFlags \<equiv> 3 :: u8"
abbreviation (input) "osRtxIdMutex \<equiv> 4 :: u8"
abbreviation (input) "osRtxIdSemaphore \<equiv> 5 :: u8"
abbreviation (input) "osRtxIdMemoryPool \<equiv> 6 :: u8"
abbreviation (input) "osRtxIdMessage \<equiv> 7 :: u8"
abbreviation (input) "osRtxIdMessageQueue \<equiv> 8 :: u8"

abbreviation (input) "osRtxObjectInactive \<equiv> 0 :: u8"
abbreviation (input) "osRtxObjectActive \<equiv> 1 :: u8"
abbreviation (input) "osRtxFlagSystemObject \<equiv> 1 :: u8"
abbreviation (input) "osRtxFlagSystemMemory \<equiv> 2 :: u8"
abbreviation (input) "osRtxThreadFlagDefStack \<equiv> 0x10 :: u8"

abbreviation (input) "osRtxKernelInactive \<equiv> 0 :: u8"
abbreviation (input) "osRtxKernelReady \<equiv> 1 :: u8"
abbreviation (input) "osRtxKernelRunning \<equiv> 2 :: u8"
abbreviation (input) "osRtxKernelLocked \<equiv> 3 :: u8"
abbreviation (input) "osRtxKernelSuspended \<equiv> 4 :: u8"

abbreviation (input) "osRtxThreadStateMask \<equiv> 0x0F :: u8"
abbreviation (input) "osRtxThreadInactive \<equiv> 0 :: u8"
abbreviation (input) "osRtxThreadReady \<equiv> 1 :: u8"
abbreviation (input) "osRtxThreadRunning \<equiv> 2 :: u8"
abbreviation (input) "osRtxThreadBlocked \<equiv> 3 :: u8"
abbreviation (input) "osRtxThreadTerminated \<equiv> 4 :: u8"
abbreviation (input) "osRtxThreadWaitingDelay \<equiv> 0x13 :: u8"
abbreviation (input) "osRtxThreadWaitingJoin \<equiv> 0x23 :: u8"
abbreviation (input) "osRtxThreadWaitingThreadFlags \<equiv> 0x33 :: u8"
abbreviation (input) "osRtxThreadWaitingEventFlags \<equiv> 0x43 :: u8"
abbreviation (input) "osRtxThreadWaitingMutex \<equiv> 0x53 :: u8"
abbreviation (input) "osRtxThreadWaitingSemaphore \<equiv> 0x63 :: u8"
abbreviation (input) "osRtxThreadWaitingMemoryPool \<equiv> 0x73 :: u8"
abbreviation (input) "osRtxThreadWaitingMessageGet \<equiv> 0x83 :: u8"
abbreviation (input) "osRtxThreadWaitingMessagePut \<equiv> 0x93 :: u8"

abbreviation (input) "osWaitForever \<equiv> 0xFFFFFFFF :: u32"
abbreviation (input) "osFlagsWaitAny \<equiv> 0 :: u32"
abbreviation (input) "osFlagsWaitAll \<equiv> 1 :: u32"
abbreviation (input) "osFlagsNoClear \<equiv> 2 :: u32"
abbreviation (input) "osThreadJoinable \<equiv> 1 :: u8"
abbreviation (input) "osPriorityNone \<equiv> 0 :: int"
abbreviation (input) "osPriorityIdle \<equiv> 1 :: int"
abbreviation (input) "osPriorityNormal \<equiv> 24 :: int"
abbreviation (input) "osPriorityISR \<equiv> 56 :: int"
abbreviation (input) "osPriorityError \<equiv> -1 :: int"
abbreviation (input) "osRtxStackMagicWord \<equiv> 0xE25A2EA5 :: u32"
abbreviation (input) "osRtxStackFillPattern \<equiv> 0xCCCCCCCC :: u32"
abbreviation (input) "osRtxConfigPrivilegedMode \<equiv> 1 :: u32"
abbreviation (input) "osRtxConfigStackCheck \<equiv> 2 :: u32"
abbreviation (input) "osRtxConfigStackWatermark \<equiv> 4 :: u32"

text \<open>Status codes of cmsis_os2.h; a flags function returns the same codes as unsigned words.\<close>

datatype osStatus = osOK | osError | osErrorTimeout | osErrorResource | osErrorParameter
  | osErrorNoMemory | osErrorISR

fun status_word :: "osStatus \<Rightarrow> u32" where
  "status_word osOK = 0"
| "status_word osError = - 1"
| "status_word osErrorTimeout = - 2"
| "status_word osErrorResource = - 3"
| "status_word osErrorParameter = - 4"
| "status_word osErrorNoMemory = - 5"
| "status_word osErrorISR = - 6"

section \<open>Processor helpers (rtx_core_cm.h)\<close>

definition IsIrqMode :: "'a rtx_scheme \<Rightarrow> bool" where
  "IsIrqMode s \<longleftrightarrow> ipsr s \<noteq> 0"

definition IsIrqMasked :: "'a rtx_scheme \<Rightarrow> bool" where
  "IsIrqMasked s \<longleftrightarrow> primask s \<noteq> 0 \<or> basepri s \<noteq> 0"

definition SetPendSV :: "rtx \<Rightarrow> rtx" where
  "SetPendSV s = s\<lparr>pendsv_set := True\<rparr>"

definition StackOffsetR0 :: "u8 \<Rightarrow> u32" where
  "StackOffsetR0 frame = (if frame AND 0x10 = 0 then (16 + 8) * 4 else 8 * 4)"

definition xPSR_InitVal :: "bool \<Rightarrow> bool \<Rightarrow> u32" where
  "xPSR_InitVal privileged thumb = 0x01000000"

abbreviation (input) "STACK_FRAME_INIT_VAL \<equiv> 0xFD :: u8"

text \<open>
  The exclusive-access loops (ldrex/strex) of rtx_core_cm.h retry until the store succeeds, so
  each is one atomic step. A function takes the word's value and returns the C result and the
  value left in memory.
\<close>

definition atomic_set32 :: "u32 \<Rightarrow> u32 \<Rightarrow> u32 \<times> u32" where
  "atomic_set32 v bits = (v OR bits, v OR bits)"

definition atomic_clr32 :: "u32 \<Rightarrow> u32 \<Rightarrow> u32 \<times> u32" where
  "atomic_clr32 v bits = (v, v AND NOT bits)"

definition atomic_chk32_all :: "u32 \<Rightarrow> u32 \<Rightarrow> u32 \<times> u32" where
  "atomic_chk32_all v bits = (if v AND bits = bits then (v, v AND NOT bits) else (0, v))"

definition atomic_chk32_any :: "u32 \<Rightarrow> u32 \<Rightarrow> u32 \<times> u32" where
  "atomic_chk32_any v bits = (if v AND bits \<noteq> 0 then (v, v AND NOT bits) else (0, v))"

definition atomic_inc32 :: "u32 \<Rightarrow> u32 \<times> u32" where
  "atomic_inc32 v = (v, v + 1)"

definition atomic_inc32_lt :: "u32 \<Rightarrow> u32 \<Rightarrow> u32 \<times> u32" where
  "atomic_inc32_lt v lim = (if v < lim then (v, v + 1) else (v, v))"

definition atomic_inc16_lt :: "u16 \<Rightarrow> u16 \<Rightarrow> u16 \<times> u16" where
  "atomic_inc16_lt v lim = (if v < lim then (v, v + 1) else (v, v))"

definition atomic_inc16_lim :: "u16 \<Rightarrow> u16 \<Rightarrow> u16 \<times> u16" where
  "atomic_inc16_lim v lim =
     (v, if unat v + 1 < unat lim then v + 1 else 0)"

definition atomic_dec32_nz :: "u32 \<Rightarrow> u32 \<times> u32" where
  "atomic_dec32_nz v = (if v \<noteq> 0 then (v, v - 1) else (v, v))"

definition atomic_dec16_nz :: "u16 \<Rightarrow> u16 \<times> u16" where
  "atomic_dec16_nz v = (if v \<noteq> 0 then (v, v - 1) else (v, v))"

end
