(* ===== verification/Links.thy ===== *)
theory Links
  imports Prelude
begin

text \<open>
  Doubly linked lists in the field heap, independent of any kernel structure. \<open>dll n b p xs\<close> says that the
  links \<open>n\<close> (forward) and \<open>b\<close> (backward) hold the list \<open>xs\<close> hanging off the sentinel
  \<open>p\<close>. A list whose head is a global variable \<open>h\<close> is the case \<open>p = NULL\<close> over the links
  \<open>n(NULL := h)\<close>. \<open>lists_ok n b Q\<close> describes all lists that share one pair of link fields.
\<close>

section \<open>One list\<close>

fun forward :: "(ptr \<Rightarrow> ptr) \<Rightarrow> ptr \<Rightarrow> ptr list \<Rightarrow> bool" where
  "forward n p [] \<longleftrightarrow> n p = NULL"
| "forward n p (x # xs) \<longleftrightarrow> n p = x \<and> x \<noteq> NULL \<and> forward n x xs"

fun backward :: "(ptr \<Rightarrow> ptr) \<Rightarrow> ptr \<Rightarrow> ptr list \<Rightarrow> bool" where
  "backward b p [] \<longleftrightarrow> True"
| "backward b p (x # xs) \<longleftrightarrow> b x = p \<and> backward b x xs"

definition dll :: "(ptr \<Rightarrow> ptr) \<Rightarrow> (ptr \<Rightarrow> ptr) \<Rightarrow> ptr \<Rightarrow> ptr list \<Rightarrow> bool" where
  "dll n b p xs \<longleftrightarrow> forward n p xs \<and> backward b p xs \<and> distinct (p # xs)"

text \<open>The neighbours of position \<open>length xs\<close> in \<open>xs @ ys\<close>.\<close>

abbreviation before :: "ptr \<Rightarrow> ptr list \<Rightarrow> ptr" where
  "before p xs \<equiv> last (p # xs)"

abbreviation after :: "ptr list \<Rightarrow> ptr" where
  "after ys \<equiv> hd (ys @ [NULL])"

lemma forward_cong: "(\<And>x. x \<in> set (p # xs) \<Longrightarrow> n x = n' x) \<Longrightarrow> forward n p xs = forward n' p xs"
  by (induction xs arbitrary: p) auto

lemma backward_cong: "(\<And>x. x \<in> set xs \<Longrightarrow> b x = b' x) \<Longrightarrow> backward b p xs = backward b' p xs"
  by (induction xs arbitrary: p) auto

lemma forward_upd [simp]: "a \<noteq> p \<Longrightarrow> a \<notin> set xs \<Longrightarrow> forward (n(a := v)) p xs = forward n p xs"
  by (rule forward_cong) auto

lemma backward_upd [simp]: "a \<notin> set xs \<Longrightarrow> backward (b(a := v)) p xs = backward b p xs"
  by (rule backward_cong) auto

lemma forward_nonnull: "forward n p xs \<Longrightarrow> NULL \<notin> set xs"
  by (induction xs arbitrary: p) auto

lemma forward_det: "forward n p xs \<Longrightarrow> forward n p ys \<Longrightarrow> xs = ys"
proof (induction xs arbitrary: p ys)
  case Nil then show ?case by (cases ys) auto
next
  case (Cons x xs) then show ?case by (cases ys) auto
qed

lemma before_in: "before p xs \<in> set (p # xs)"
  using last_in_set [of "p # xs"] by simp

lemma forward_insert:
  assumes "forward n p (xs @ ys)" "distinct (p # xs @ ys)" "t \<notin> set (p # xs @ ys)" "t \<noteq> NULL"
    and "n' t = after ys" "n' (before p xs) = t"
    and "\<And>x. x \<noteq> t \<Longrightarrow> x \<noteq> before p xs \<Longrightarrow> n' x = n x"
  shows "forward n' p (xs @ t # ys)"
  using assms
proof (induction xs arbitrary: p)
  case Nil
  have "n' x = n x" if "x \<in> set ys" for x
    using Nil.prems(2,3) that by (intro Nil.prems(7)) auto
  then have "forward n' y zs = forward n y zs" if "ys = y # zs" for y zs
    using that by (intro forward_cong) auto
  with Nil show ?case by (cases ys) auto
next
  case (Cons x xs)
  have ne: "before x xs \<noteq> p"
    using Cons.prems(2) before_in [of x xs] by auto
  then have "forward n' x (xs @ t # ys)"
    using Cons.prems by (intro Cons.IH) (auto simp: last_ConsR)
  moreover have "n' p = n p"
    using Cons.prems(2,3) ne by (intro Cons.prems(7)) (auto simp: last_ConsR)
  ultimately show ?case using Cons.prems(1) by simp
qed

lemma backward_insert:
  assumes "backward b p (xs @ ys)" "distinct (p # xs @ ys)" "t \<notin> set (xs @ ys)"
    and "b' t = before p xs" "ys \<noteq> [] \<Longrightarrow> b' (hd ys) = t"
    and "\<And>x. x \<noteq> t \<Longrightarrow> ys = [] \<or> x \<noteq> hd ys \<Longrightarrow> b' x = b x"
  shows "backward b' p (xs @ t # ys)"
  using assms
proof (induction xs arbitrary: p)
  case Nil
  have "backward b' y zs = backward b y zs" if "ys = y # zs" for y zs
    using Nil.prems(2,3) that by (intro backward_cong Nil.prems(6)) auto
  with Nil show ?case by (cases ys) auto
next
  case (Cons x xs)
  then have "backward b' x (xs @ t # ys)"
    by (intro Cons.IH) (auto simp: last_ConsR)
  moreover have "b' x = b x"
    using Cons.prems by (cases ys) auto
  ultimately show ?case using Cons.prems(1) by simp
qed

lemma forward_at: "forward n p (xs @ ys) \<Longrightarrow> n (before p xs) = after ys"
proof (induction xs arbitrary: p)
  case Nil then show ?case by (cases ys) auto
qed (auto simp: last_ConsR)

lemma backward_at: "backward b p (xs @ t # ys) \<Longrightarrow> b t = before p xs"
  by (induction xs arbitrary: p) (auto simp: last_ConsR)

lemma forward_remove:
  assumes "forward n p (xs @ t # ys)" "distinct (p # xs @ t # ys)"
    and "n' (before p xs) = n t" "\<And>x. x \<noteq> t \<Longrightarrow> x \<noteq> before p xs \<Longrightarrow> n' x = n x"
  shows "forward n' p (xs @ ys)"
  using assms
proof (induction xs arbitrary: p)
  case Nil
  have "n' x = n x" if "x \<in> set ys" for x
    using Nil.prems(2) that by (intro Nil.prems(4)) auto
  then have "forward n' y zs = forward n y zs" if "ys = y # zs" for y zs
    using that by (intro forward_cong) auto
  with Nil show ?case by (cases ys) auto
next
  case (Cons x xs)
  have ne: "before x xs \<noteq> p"
    using Cons.prems(2) before_in [of x xs] by auto
  then have "forward n' x (xs @ ys)"
    using Cons.prems by (intro Cons.IH) (auto simp: last_ConsR)
  moreover have "n' p = n p"
    using Cons.prems ne by (auto simp: last_ConsR)
  ultimately show ?case using Cons.prems(1) by simp
qed

lemma backward_remove:
  assumes "backward b p (xs @ t # ys)" "distinct (p # xs @ t # ys)"
    and "ys \<noteq> [] \<Longrightarrow> b' (hd ys) = before p xs"
    and "\<And>x. x \<noteq> t \<Longrightarrow> ys = [] \<or> x \<noteq> hd ys \<Longrightarrow> b' x = b x"
  shows "backward b' p (xs @ ys)"
  using assms
proof (induction xs arbitrary: p)
  case Nil
  have "backward b' y zs = backward b y zs" if "ys = y # zs" for y zs
    using Nil.prems(2) that by (intro backward_cong Nil.prems(4)) auto
  with Nil show ?case by (cases ys) auto
next
  case (Cons x xs)
  then have "backward b' x (xs @ ys)"
    by (intro Cons.IH) (auto simp: last_ConsR)
  moreover have "b' x = b x"
    using Cons.prems by (cases ys) auto
  ultimately show ?case using Cons.prems(1) by simp
qed

lemma dll_cong:
  "(\<And>x. x \<in> set (p # xs) \<Longrightarrow> n x = n' x) \<Longrightarrow> (\<And>x. x \<in> set xs \<Longrightarrow> b x = b' x) \<Longrightarrow>
   dll n b p xs = dll n' b' p xs"
  using forward_cong [of p xs n n'] backward_cong [of xs b b' p] by (simp add: dll_def)

lemma dll_Nil [simp]: "dll n b p [] \<longleftrightarrow> n p = NULL"
  by (simp add: dll_def)

lemma dll_nonnull: "dll n b p xs \<Longrightarrow> NULL \<notin> set xs"
  by (auto simp: dll_def dest: forward_nonnull)

lemma dll_det: "dll n b p xs \<Longrightarrow> dll n b' p ys \<Longrightarrow> xs = ys"
  by (auto simp: dll_def dest: forward_det)

lemma dll_distinct: "dll n b p xs \<Longrightarrow> distinct xs \<and> p \<notin> set xs"
  by (simp add: dll_def)

lemma dll_hd: "dll n b p xs \<Longrightarrow> n p = after xs"
  using forward_at [of n p "[]" xs] by (simp add: dll_def)

lemma dll_head_null: "dll n b p xs \<Longrightarrow> n p = NULL \<longleftrightarrow> xs = []"
  by (cases xs) (auto simp: dll_def)

lemma dll_head_Cons: "dll n b p xs \<Longrightarrow> n p = t \<Longrightarrow> t \<noteq> NULL \<Longrightarrow> \<exists>ys. xs = t # ys"
  by (cases xs) (auto simp: dll_def)

lemma dll_links:
  assumes "dll n b p (xs @ t # ys)"
  shows "b t = before p xs" "n t = after ys" "n (before p xs) = t" "t \<noteq> NULL"
  using assms forward_at [of n p xs "t # ys"] forward_at [of n p "xs @ [t]" ys] backward_at [of b p xs t ys]
    forward_nonnull [of n p "xs @ t # ys"]
  by (auto simp: dll_def)

lemma dll_insert:
  assumes "dll n b p (xs @ ys)" "t \<notin> set (p # xs @ ys)" "t \<noteq> NULL"
    and "n' t = after ys" "n' (before p xs) = t" "\<And>x. x \<noteq> t \<Longrightarrow> x \<noteq> before p xs \<Longrightarrow> n' x = n x"
    and "b' t = before p xs" "ys \<noteq> [] \<Longrightarrow> b' (hd ys) = t"
    and "\<And>x. x \<noteq> t \<Longrightarrow> ys = [] \<or> x \<noteq> hd ys \<Longrightarrow> b' x = b x"
  shows "dll n' b' p (xs @ t # ys)"
proof -
  have "forward n' p (xs @ t # ys)"
    by (rule forward_insert [of n]) (use assms in \<open>auto simp: dll_def\<close>)
  moreover have "backward b' p (xs @ t # ys)"
    by (rule backward_insert [of b]) (use assms in \<open>auto simp: dll_def\<close>)
  ultimately show ?thesis using assms(1,2) by (auto simp: dll_def)
qed

lemma dll_remove:
  assumes "dll n b p (xs @ t # ys)"
    and "n' (before p xs) = n t" "\<And>x. x \<noteq> t \<Longrightarrow> x \<noteq> before p xs \<Longrightarrow> n' x = n x"
    and "ys \<noteq> [] \<Longrightarrow> b' (hd ys) = before p xs"
    and "\<And>x. x \<noteq> t \<Longrightarrow> ys = [] \<or> x \<noteq> hd ys \<Longrightarrow> b' x = b x"
  shows "dll n' b' p (xs @ ys)"
proof -
  have "forward n' p (xs @ ys)"
    by (rule forward_remove [of n]) (use assms in \<open>auto simp: dll_def\<close>)
  moreover have "backward b' p (xs @ ys)"
    by (rule backward_remove [of b]) (use assms in \<open>auto simp: dll_def\<close>)
  ultimately show ?thesis using assms(1) by (auto simp: dll_def)
qed

section \<open>A list whose head is a global variable\<close>

text \<open>
  The links and the head \<open>h\<close> after \<open>t\<close> has been put between \<open>us\<close> and \<open>vs\<close>, and after the element between
  \<open>us\<close> and \<open>vs\<close> has been taken out.
\<close>

definition head_in :: "ptr \<Rightarrow> ptr list \<Rightarrow> ptr \<Rightarrow> ptr" where
  "head_in t us h = (if us = [] then t else h)"

definition next_in :: "ptr \<Rightarrow> ptr list \<Rightarrow> ptr list \<Rightarrow> (ptr \<Rightarrow> ptr) \<Rightarrow> ptr \<Rightarrow> ptr" where
  "next_in t us vs n = (if us = [] then n(t := after vs) else n(t := after vs, last us := t))"

definition prev_in :: "ptr \<Rightarrow> ptr list \<Rightarrow> ptr list \<Rightarrow> (ptr \<Rightarrow> ptr) \<Rightarrow> ptr \<Rightarrow> ptr" where
  "prev_in t us vs b = (if vs = [] then b(t := before NULL us) else b(t := before NULL us, hd vs := t))"

definition head_out :: "ptr list \<Rightarrow> ptr list \<Rightarrow> ptr \<Rightarrow> ptr" where
  "head_out us vs h = (if us = [] then after vs else h)"

definition next_out :: "ptr list \<Rightarrow> ptr list \<Rightarrow> (ptr \<Rightarrow> ptr) \<Rightarrow> ptr \<Rightarrow> ptr" where
  "next_out us vs n = (if us = [] then n else n(last us := after vs))"

definition prev_out :: "ptr list \<Rightarrow> ptr list \<Rightarrow> (ptr \<Rightarrow> ptr) \<Rightarrow> ptr \<Rightarrow> ptr" where
  "prev_out us vs b = (if vs = [] then b else b(hd vs := before NULL us))"

lemma next_in_other: "x \<notin> insert t (set us) \<Longrightarrow> next_in t us vs n x = n x"
  by (auto simp: next_in_def)

lemma prev_in_other: "x \<notin> insert t (set vs) \<Longrightarrow> prev_in t us vs b x = b x"
  by (auto simp: prev_in_def)

lemma next_out_other: "x \<notin> set us \<Longrightarrow> next_out us vs n x = n x"
  by (auto simp: next_out_def)

lemma prev_out_other: "x \<notin> set vs \<Longrightarrow> prev_out us vs b x = b x"
  by (auto simp: prev_out_def)

lemma ends_in: "us \<noteq> [] \<Longrightarrow> t \<notin> set us \<Longrightarrow> last us \<noteq> t" "vs \<noteq> [] \<Longrightarrow> t \<notin> set vs \<Longrightarrow> hd vs \<noteq> t"
  by (auto dest: hd_in_set last_in_set)

lemma dll_head_insert:
  assumes D: "dll (n(NULL := h)) b NULL (us @ vs)" and t: "t \<notin> set (us @ vs)" "t \<noteq> NULL"
  shows "dll ((next_in t us vs n)(NULL := head_in t us h)) (prev_in t us vs b) NULL (us @ t # vs)"
proof -
  have nn: "NULL \<notin> set us" "NULL \<notin> set vs" using dll_nonnull [OF D] by simp_all
  have e: "us \<noteq> [] \<Longrightarrow> last us \<noteq> t" "us \<noteq> [] \<Longrightarrow> last us \<noteq> NULL" "vs \<noteq> [] \<Longrightarrow> hd vs \<noteq> t"
    using ends_in(1) [OF _ nn(1)] ends_in(1) [of us t] ends_in(2) [of vs t] t(1) by auto
  show ?thesis
    by (rule dll_insert [OF D]) (use t e in \<open>auto simp: head_in_def next_in_def prev_in_def\<close>)
qed

lemma dll_head_remove:
  assumes D: "dll (n(NULL := h)) b NULL (us @ t # vs)"
  shows "dll ((next_out us vs n)(NULL := head_out us vs h)) (prev_out us vs b) NULL (us @ vs)"
    "n t = after vs" "b t = before NULL us" "us = [] \<Longrightarrow> h = t"
proof -
  have nn: "NULL \<notin> set us" "NULL \<notin> set vs" "t \<noteq> NULL" using dll_nonnull [OF D] by auto
  have d: "t \<notin> set us" "t \<notin> set vs" using dll_distinct [OF D] by auto
  note lk = dll_links [OF D]
  show l: "n t = after vs" "b t = before NULL us" "us = [] \<Longrightarrow> h = t" using lk nn(3) by auto
  have e: "us \<noteq> [] \<Longrightarrow> last us \<noteq> NULL" using ends_in(1) [OF _ nn(1)] by blast
  show "dll ((next_out us vs n)(NULL := head_out us vs h)) (prev_out us vs b) NULL (us @ vs)"
    by (rule dll_remove [OF D]) (use l e nn in \<open>auto simp: head_out_def next_out_def prev_out_def\<close>)
qed

section \<open>All lists over one pair of link fields\<close>

definition members :: "(ptr \<rightharpoonup> ptr list) \<Rightarrow> ptr set" where
  "members Q = \<Union> (set ` ran Q)"

definition lists_ok :: "(ptr \<Rightarrow> ptr) \<Rightarrow> (ptr \<Rightarrow> ptr) \<Rightarrow> (ptr \<rightharpoonup> ptr list) \<Rightarrow> bool" where
  "lists_ok n b Q \<longleftrightarrow>
     (\<forall>p xs. Q p = Some xs \<longrightarrow> dll n b p xs) \<and>
     (\<forall>p q xs ys. Q p = Some xs \<longrightarrow> Q q = Some ys \<longrightarrow> p \<noteq> q \<longrightarrow> set xs \<inter> set ys = {}) \<and>
     members Q \<inter> dom Q = {}"

lemma in_members: "x \<in> members Q \<longleftrightarrow> (\<exists>p xs. Q p = Some xs \<and> x \<in> set xs)"
  by (auto simp: members_def ran_def)

lemma members_sub: "Q p = Some xs \<Longrightarrow> set xs \<subseteq> members Q"
  unfolding members_def ran_def by blast

lemma lists_ok_dll: "lists_ok n b Q \<Longrightarrow> Q p = Some xs \<Longrightarrow> dll n b p xs"
  by (simp add: lists_ok_def)

lemma lists_ok_other:
  assumes "lists_ok n b Q" "Q p = Some xs" "Q q = Some ys" "p \<noteq> q"
  shows "set (q # ys) \<inter> set (p # xs) = {}"
proof -
  have "p \<in> dom Q" "q \<in> dom Q" "set xs \<subseteq> members Q" "set ys \<subseteq> members Q"
    using assms(2,3) members_sub by auto
  moreover have "set xs \<inter> set ys = {}" "members Q \<inter> dom Q = {}"
    using assms unfolding lists_ok_def by blast+
  ultimately show ?thesis using assms(4) by auto
qed

lemma lists_ok_replace:
  assumes ok: "lists_ok n b Q" and Q: "Q p = Some xs" and new: "dll n' b' p ys"
    and sub: "set ys \<subseteq> insert t (set xs)" and t: "t \<notin> members Q - set xs" "t \<notin> dom Q"
    and n: "\<And>x. x \<notin> insert t (insert p (set xs)) \<Longrightarrow> n' x = n x"
    and b: "\<And>x. x \<notin> insert t (set xs) \<Longrightarrow> b' x = b x"
  shows "lists_ok n' b' (Q(p \<mapsto> ys))"
proof -
  have other: "dll n' b' q zs" if "Q q = Some zs" "q \<noteq> p" for q zs
  proof -
    have d: "set (q # zs) \<inter> set (p # xs) = {}"
      using lists_ok_other [OF ok Q that(1)] that(2) by auto
    have "t \<notin> set (q # zs)"
      using t that d by (auto simp: in_members domIff)
    with d have "dll n' b' q zs = dll n b q zs"
      by (intro dll_cong) (auto intro!: n b)
    with ok that show ?thesis by (simp add: lists_ok_def)
  qed
  have mem: "members (Q(p \<mapsto> ys)) \<subseteq> insert t (members Q)"
    using sub Q by (auto simp: in_members split: if_splits)
  have disj: "set ys \<inter> set zs = {}" if "Q q = Some zs" "q \<noteq> p" for q zs
    using lists_ok_other [OF ok Q that(1)] that sub t by (auto simp: in_members)
  have "members Q \<inter> dom Q = {}" using ok by (simp add: lists_ok_def)
  with mem t Q have "members (Q(p \<mapsto> ys)) \<inter> dom (Q(p \<mapsto> ys)) = {}" by auto
  with other new disj ok show ?thesis
    unfolding lists_ok_def by (auto simp: Int_commute)
qed

lemma lists_ok_insert:
  assumes ok: "lists_ok n b Q" and Q: "Q p = Some (xs @ ys)"
    and t: "t \<notin> members Q" "t \<notin> dom Q" "t \<noteq> NULL"
    and n: "n' t = after ys" "n' (before p xs) = t" "\<And>x. x \<noteq> t \<Longrightarrow> x \<noteq> before p xs \<Longrightarrow> n' x = n x"
    and b: "b' t = before p xs" "ys \<noteq> [] \<Longrightarrow> b' (hd ys) = t"
      "\<And>x. x \<noteq> t \<Longrightarrow> ys = [] \<or> x \<noteq> hd ys \<Longrightarrow> b' x = b x"
  shows "lists_ok n' b' (Q(p \<mapsto> xs @ t # ys))"
proof (rule lists_ok_replace [OF ok Q])
  have "p \<in> dom Q" "set (xs @ ys) \<subseteq> members Q" using Q members_sub by blast+
  then have "t \<notin> set (p # xs @ ys)"
    using t by auto
  then show "dll n' b' p (xs @ t # ys)"
    by (rule dll_insert [where xs = xs and ys = ys, OF lists_ok_dll [OF ok Q] _ t(3) n b])
  show "set (xs @ t # ys) \<subseteq> insert t (set (xs @ ys))" by auto
  show "t \<notin> members Q - set (xs @ ys)" "t \<notin> dom Q" using t by auto
  show "n' x = n x" if "x \<notin> insert t (insert p (set (xs @ ys)))" for x
    using that before_in [of p xs] by (intro n) auto
  show "b' x = b x" if "x \<notin> insert t (set (xs @ ys))" for x
    using that by (intro b) (cases ys, auto)
qed

lemma lists_ok_remove:
  assumes ok: "lists_ok n b Q" and Q: "Q p = Some (xs @ t # ys)"
    and n: "n' (before p xs) = n t" "\<And>x. x \<noteq> t \<Longrightarrow> x \<noteq> before p xs \<Longrightarrow> n' x = n x"
    and b: "ys \<noteq> [] \<Longrightarrow> b' (hd ys) = before p xs"
      "\<And>x. x \<noteq> t \<Longrightarrow> ys = [] \<or> x \<noteq> hd ys \<Longrightarrow> b' x = b x"
  shows "lists_ok n' b' (Q(p \<mapsto> xs @ ys))"
proof (rule lists_ok_replace [OF ok Q])
  show "dll n' b' p (xs @ ys)"
    by (rule dll_remove [where xs = xs and t = t and ys = ys, OF lists_ok_dll [OF ok Q] n b])
  show "set (xs @ ys) \<subseteq> insert t (set (xs @ t # ys))" by auto
  have "set (xs @ t # ys) \<subseteq> members Q" using Q members_sub by blast
  then show "t \<notin> members Q - set (xs @ t # ys)" "t \<notin> dom Q"
    using ok by (auto simp: lists_ok_def)
  show "n' x = n x" if "x \<notin> insert t (insert p (set (xs @ t # ys)))" for x
    using that before_in [of p xs] by (intro n) auto
  show "b' x = b x" if "x \<notin> insert t (set (xs @ t # ys))" for x
    using that by (intro b) (cases ys, auto)
qed

lemma lists_ok_frame:
  assumes "lists_ok n b Q" "\<And>x. x \<in> members Q \<union> dom Q \<Longrightarrow> n' x = n x"
    "\<And>x. x \<in> members Q \<Longrightarrow> b' x = b x"
  shows "lists_ok n' b' Q"
proof -
  have "dll n' b' p xs = dll n b p xs" if "Q p = Some xs" for p xs
    by (rule dll_cong) (use assms(2,3) that in \<open>auto simp: in_members\<close>)
  with assms(1) show ?thesis by (auto simp: lists_ok_def)
qed

lemma lists_ok_upd_None:
  assumes "lists_ok n b Q"
  shows "lists_ok n b (Q(p := None))"
  using assms unfolding lists_ok_def by (fastforce simp: in_members split: if_splits)

lemma lists_ok_new:
  assumes "lists_ok n b Q" "p \<notin> members Q" "n p = NULL"
  shows "lists_ok n b (Q(p \<mapsto> []))"
  using assms unfolding lists_ok_def by (fastforce simp: in_members split: if_splits)

lemma after_null: "NULL \<notin> set ys \<Longrightarrow> after ys = NULL \<longleftrightarrow> ys = []"
  by (cases ys) auto

lemma null_before: "NULL \<notin> set xs \<Longrightarrow> before NULL xs = NULL \<longleftrightarrow> xs = []"
  by (metis last_ConsL last_ConsR last_in_set)

end
