(* ===== verification/PrioQueue.thy ===== *)
theory PrioQueue
  imports Prelude
begin

text \<open>
  Queues ordered by a key, as the kernel and the HAL keep them: insertion behind (\<open>pinsert\<close>) or in
  front of (\<open>binsert\<close>) the elements with an equal key, and the interfaces \<open>prio_queue\<close>, which the thread lists
  (RtxLists), the message queues (RtxMsgQueue) and the ticker events (TickerInv) implement, and \<open>deadline_queue\<close>,
  which the event queue (EQueueInv) implements.
\<close>

section \<open>Ordered insertion\<close>

fun pinsert :: "('a \<Rightarrow> int) \<Rightarrow> 'a \<Rightarrow> 'a list \<Rightarrow> 'a list" where
  "pinsert f t [] = [t]"
| "pinsert f t (x # xs) = (if f x \<ge> f t then x # pinsert f t xs else t # x # xs)"

fun binsert :: "('a \<Rightarrow> int) \<Rightarrow> 'a \<Rightarrow> 'a list \<Rightarrow> 'a list" where
  "binsert f t [] = [t]"
| "binsert f t (x # xs) = (if f x > f t then x # binsert f t xs else t # x # xs)"

abbreviation by_priority :: "('a \<Rightarrow> int) \<Rightarrow> 'a list \<Rightarrow> bool" where
  "by_priority f \<equiv> sorted_wrt (\<lambda>x y. f x \<ge> f y)"

text \<open>Filling and draining a queue.\<close>

fun put_all :: "('a \<Rightarrow> 's \<Rightarrow> 's option) \<Rightarrow> 'a list \<Rightarrow> 's \<Rightarrow> 's option" where
  "put_all put [] s = Some s"
| "put_all put (x # xs) s = do { s \<leftarrow> put x s; put_all put xs s }"

fun get_all :: "('s \<Rightarrow> ('a \<times> 's) option) \<Rightarrow> nat \<Rightarrow> 's \<Rightarrow> ('a list \<times> 's) option" where
  "get_all get 0 s = Some ([], s)"
| "get_all get (Suc n) s = do { (x, s) \<leftarrow> get s; (xs, s) \<leftarrow> get_all get n s; Some (x # xs, s) }"

lemma pinsert_split:
  "pinsert f t xs = takeWhile (\<lambda>x. f x \<ge> f t) xs @ t # dropWhile (\<lambda>x. f x \<ge> f t) xs"
  by (induction xs) auto

lemma set_pinsert [simp]: "set (pinsert f t xs) = insert t (set xs)"
  by (induction xs) auto

lemma set_binsert [simp]: "set (binsert f t xs) = insert t (set xs)"
  by (induction xs) auto

lemma sorted_pinsert: "by_priority f xs \<Longrightarrow> by_priority f (pinsert f t xs)"
  by (induction xs) auto

lemma sorted_binsert: "by_priority f xs \<Longrightarrow> by_priority f (binsert f t xs)"
  by (induction xs) auto

lemma sorted_remove: "by_priority f xs \<Longrightarrow> by_priority f (remove1 t xs)"
  using set_remove1_subset [of t] by (induction xs) fastforce+

lemma pinsert_last: "\<forall>x\<in>set xs. f x \<ge> f t \<Longrightarrow> \<forall>x\<in>set ys. f x < f t \<Longrightarrow> pinsert f t (xs @ ys) = xs @ t # ys"
proof (induction xs)
  case Nil then show ?case by (cases ys) auto
qed simp

section \<open>Priority queues\<close>

text \<open>
  What the kernel expects of a list of waiting threads or queued messages: \<open>put\<close> inserts behind
  the elements of the same priority, \<open>get\<close> takes the first element. A \<open>deadline_queue\<close> has \<open>expire\<close> instead:
  it takes out all elements up to a time at once; \<open>out r s xs\<close> says that the result \<open>r\<close> stands for \<open>xs\<close>.
\<close>

locale put_queue =
  fixes rep :: "'s \<Rightarrow> 'a list \<Rightarrow> bool" and put :: "'a \<Rightarrow> 's \<Rightarrow> 's option"
    and pri :: "'a \<Rightarrow> int" and fresh :: "'a \<Rightarrow> bool"
  assumes put: "rep s xs \<Longrightarrow> fresh x \<Longrightarrow> x \<notin> set xs \<Longrightarrow> \<exists>s'. put x s = Some s' \<and> rep s' (pinsert pri x xs)"
begin

lemma fill:
  "rep s xs \<Longrightarrow> distinct ts \<Longrightarrow> set ts \<inter> set xs = {} \<Longrightarrow> (\<And>t. t \<in> set ts \<Longrightarrow> fresh t) \<Longrightarrow>
   \<exists>s'. put_all put ts s = Some s' \<and> rep s' (fold (pinsert pri) ts xs)"
proof (induction ts arbitrary: s xs)
  case (Cons t ts)
  obtain s1 where 1: "put t s = Some s1" "rep s1 (pinsert pri t xs)"
    using put [of s xs t] Cons.prems by auto
  have "\<exists>s'. put_all put ts s1 = Some s' \<and> rep s' (fold (pinsert pri) ts (pinsert pri t xs))"
    using Cons.prems by (intro Cons.IH 1(2)) auto
  with 1(1) show ?case by simp
qed simp

end

locale prio_queue = put_queue where rep = rep and put = put for rep :: "'s \<Rightarrow> 'a list \<Rightarrow> bool" and put +
  fixes get :: "'s \<Rightarrow> ('a \<times> 's) option"
  assumes get: "rep s (x # xs) \<Longrightarrow> \<exists>s'. get s = Some (x, s') \<and> rep s' xs"
begin

lemma drain: "rep s xs \<Longrightarrow> \<exists>s'. get_all get (length xs) s = Some (xs, s') \<and> rep s' []"
proof (induction xs arbitrary: s)
  case (Cons x xs)
  obtain s1 where 1: "get s = Some (x, s1)" "rep s1 xs" using get [OF Cons.prems] by auto
  obtain s' where "get_all get (length xs) s1 = Some (xs, s')" "rep s' []" using Cons.IH [OF 1(2)] by auto
  with 1(1) show ?case by auto
qed simp

end

lemma insort_pinsert:
  "by_priority f xs \<Longrightarrow>
   insort_key (\<lambda>t. - f t) a (pinsert f t xs) = pinsert f t (insort_key (\<lambda>t. - f t) a xs)"
  by (induction xs) auto

lemma sorted_insort: "by_priority f xs \<Longrightarrow> by_priority f (insort_key (\<lambda>t. - f t) a xs)"
  by (induction xs) (auto simp: set_insort_key)

lemma fold_pinsert_insort:
  "by_priority f xs \<Longrightarrow>
   fold (pinsert f) ts (insort_key (\<lambda>t. - f t) a xs) = insort_key (\<lambda>t. - f t) a (fold (pinsert f) ts xs)"
proof (induction ts arbitrary: xs)
  case (Cons t ts)
  have "fold (pinsert f) ts (insort_key (\<lambda>t. - f t) a (pinsert f t xs)) =
      insort_key (\<lambda>t. - f t) a (fold (pinsert f) ts (pinsert f t xs))"
    by (rule Cons.IH [OF sorted_pinsert [OF Cons.prems]])
  then show ?case using insort_pinsert [OF Cons.prems, of a t] by simp
qed simp

lemma fold_pinsert_sort: "fold (pinsert f) ts [] = sort_key (\<lambda>t. - f t) ts"
proof (induction ts)
  case (Cons a ts)
  have "fold (pinsert f) (a # ts) [] = fold (pinsert f) ts (insort_key (\<lambda>t. - f t) a [])" by simp
  also have "\<dots> = insort_key (\<lambda>t. - f t) a (fold (pinsert f) ts [])" by (rule fold_pinsert_insort) simp
  finally show ?case by (simp add: Cons)
qed simp

locale deadline_queue = put_queue where rep = rep and put = put for rep :: "'s \<Rightarrow> 'a list \<Rightarrow> bool" and put +
  fixes expire :: "'t \<Rightarrow> 's \<Rightarrow> ('r \<times> 's) option" and time :: "'t \<Rightarrow> int" and valid :: "'t \<Rightarrow> bool"
    and out :: "'r \<Rightarrow> 's \<Rightarrow> 'a list \<Rightarrow> bool"
  assumes expire: "rep s xs \<Longrightarrow> valid t \<Longrightarrow> \<exists>r s'. expire t s = Some (r, s') \<and>
    out r s' (takeWhile (\<lambda>x. - pri x \<le> time t) xs) \<and> rep s' (dropWhile (\<lambda>x. - pri x \<le> time t) xs)"
begin

text \<open>Filled in any order, an empty queue hands out what has expired in the order of the times.\<close>

lemma in_order:
  assumes "rep s []" "distinct xs" "\<And>x. x \<in> set xs \<Longrightarrow> fresh x" "valid t"
  shows "\<exists>s1 r s2. put_all put xs s = Some s1 \<and> expire t s1 = Some (r, s2) \<and>
    out r s2 (takeWhile (\<lambda>x. - pri x \<le> time t) (sort_key (\<lambda>x. - pri x) xs)) \<and>
    rep s2 (dropWhile (\<lambda>x. - pri x \<le> time t) (sort_key (\<lambda>x. - pri x) xs))"
proof -
  obtain s1 where 1: "put_all put xs s = Some s1" "rep s1 (sort_key (\<lambda>x. - pri x) xs)"
    using fill [OF assms(1,2) _ assms(3)] fold_pinsert_sort [of pri xs] by auto
  with expire [OF 1(2) assms(4)] show ?thesis by auto
qed

end

end
