(* ===== verification/RtxLists.thy ===== *)
theory RtxLists
  imports RtxState Links PrioQueue
begin

text \<open>
  The thread lists of rtx_thread.c: the priority-sorted object lists (ready list and the waiting
  lists of the synchronisation objects) and the delay and wait lists. Definitions first,
  statement by statement from the C; then their specifications on the lists they represent.
\<close>

unbundle bit_operations_syntax

section \<open>Object lists\<close>

text \<open>The search loop of osRtxThreadListPut: past every thread of at least this priority.\<close>

partial_function (option) list_put_pos ::
    "(ptr \<Rightarrow> int) \<Rightarrow> (ptr \<Rightarrow> ptr) \<Rightarrow> int \<Rightarrow> ptr \<Rightarrow> ptr \<Rightarrow> (ptr \<times> ptr) option" where
  "list_put_pos pri nxt prio prev next =
     (if next \<noteq> NULL \<and> pri next \<ge> prio then list_put_pos pri nxt prio next (nxt next)
      else Some (prev, next))"

definition osRtxThreadListPut :: "ptr \<Rightarrow> ptr \<Rightarrow> rtx \<Rightarrow> rtx option" where
  "osRtxThreadListPut object thread s =
     (if thread = NULL then Some s
      else do {
        guard (object \<noteq> NULL);
        (prev, next) \<leftarrow> list_put_pos (priority s) (thread_next s) (priority s thread) object
          (thread_list s object);
        let s = s\<lparr>thread_prev := (thread_prev s)(thread := prev)\<rparr>;
        let s = s\<lparr>thread_next := (thread_next s)(thread := next)\<rparr>;
        let s = s\<lparr>thread_next := (thread_next s)(prev := thread)\<rparr>;
        Some (if next \<noteq> NULL then s\<lparr>thread_prev := (thread_prev s)(next := thread)\<rparr> else s)
      })"

definition osRtxThreadListGet :: "ptr \<Rightarrow> rtx \<Rightarrow> (ptr \<times> rtx) option" where
  "osRtxThreadListGet object s = do {
     guard (object \<noteq> NULL);
     let thread = thread_list s object;
     (if thread \<noteq> NULL then do {
        let s = s\<lparr>thread_next := (thread_next s)(object := thread_next s thread)\<rparr>;
        let s = (if thread_next s thread \<noteq> NULL
                 then s\<lparr>thread_prev := (thread_prev s)(thread_next s thread := object)\<rparr> else s);
        let s = s\<lparr>thread_prev := (thread_prev s)(thread := NULL)\<rparr>;
        Some (thread, s)
      } else Some (thread, s))
   }"

text \<open>Walking back to the list's object: the first block that is not a thread.\<close>

partial_function (option) list_root :: "(ptr \<Rightarrow> u8) \<Rightarrow> (ptr \<Rightarrow> ptr) \<Rightarrow> ptr \<Rightarrow> ptr option" where
  "list_root ids prv thread0 =
     (if thread0 \<noteq> NULL \<and> ids thread0 = osRtxIdThread then list_root ids prv (prv thread0)
      else Some thread0)"

definition osRtxThreadListRoot :: "ptr \<Rightarrow> rtx \<Rightarrow> ptr option" where
  "osRtxThreadListRoot thread s = list_root (ob_id s) (thread_prev s) thread"

definition osRtxThreadListRemove :: "ptr \<Rightarrow> rtx \<Rightarrow> rtx option" where
  "osRtxThreadListRemove thread s = do {
     guard (thread \<noteq> NULL);
     (if thread_prev s thread \<noteq> NULL then do {
        let s = s\<lparr>thread_next := (thread_next s)(thread_prev s thread := thread_next s thread)\<rparr>;
        let s = (if thread_next s thread \<noteq> NULL
                 then s\<lparr>thread_prev := (thread_prev s)(thread_next s thread := thread_prev s thread)\<rparr>
                 else s);
        Some (s\<lparr>thread_prev := (thread_prev s)(thread := NULL)\<rparr>)
      } else Some s)
   }"

definition osRtxThreadListSort :: "ptr \<Rightarrow> rtx \<Rightarrow> rtx option" where
  "osRtxThreadListSort thread s = do {
     object \<leftarrow> list_root (ob_id s) (thread_prev s) thread;
     (if object \<noteq> NULL then do {
        s \<leftarrow> osRtxThreadListRemove thread s;
        osRtxThreadListPut object thread s
      } else Some s)
   }"

text \<open>Unlinking from the list whose head is the variable \<open>head\<close>; the new head is returned.\<close>

definition osRtxThreadListUnlink :: "ptr \<Rightarrow> ptr \<Rightarrow> rtx \<Rightarrow> (ptr \<times> rtx) option" where
  "osRtxThreadListUnlink head thread s = do {
     guard (thread \<noteq> NULL);
     let s = (if thread_next s thread \<noteq> NULL
              then s\<lparr>thread_prev := (thread_prev s)(thread_next s thread := thread_prev s thread)\<rparr>
              else s);
     (if thread_prev s thread \<noteq> NULL then do {
        let s = s\<lparr>thread_next := (thread_next s)(thread_prev s thread := thread_next s thread)\<rparr>;
        Some (head, s\<lparr>thread_prev := (thread_prev s)(thread := NULL)\<rparr>)
      } else Some (thread_next s thread, s))
   }"

definition osRtxThreadReadyPut :: "ptr \<Rightarrow> rtx \<Rightarrow> rtx option" where
  "osRtxThreadReadyPut thread s = do {
     guard (thread \<noteq> NULL);
     let s = s\<lparr>ob_state := (ob_state s)(thread := osRtxThreadReady)\<rparr>;
     osRtxThreadListPut (ready s) thread s
   }"

section \<open>Delay and wait lists\<close>

text \<open>The two search loops of osRtxThreadDelayInsert.\<close>

partial_function (option) wait_list_end :: "(ptr \<Rightarrow> ptr) \<Rightarrow> ptr \<Rightarrow> ptr \<Rightarrow> ptr option" where
  "wait_list_end nxt prev next =
     (if next \<noteq> NULL then wait_list_end nxt next (nxt next) else Some prev)"

partial_function (option) delay_pos ::
    "(ptr \<Rightarrow> u32) \<Rightarrow> (ptr \<Rightarrow> ptr) \<Rightarrow> u32 \<Rightarrow> ptr \<Rightarrow> ptr \<Rightarrow> (u32 \<times> ptr \<times> ptr) option" where
  "delay_pos dly nxt d prev next =
     (if next \<noteq> NULL \<and> dly next \<le> d then delay_pos dly nxt (d - dly next) next (nxt next)
      else Some (d, prev, next))"

definition osRtxThreadDelayInsert :: "ptr \<Rightarrow> u32 \<Rightarrow> rtx \<Rightarrow> rtx option" where
  "osRtxThreadDelayInsert thread d s = do {
     guard (thread \<noteq> NULL);
     (if d = osWaitForever then do {
        prev \<leftarrow> wait_list_end (delay_next s) NULL (wait_list s);
        let s = s\<lparr>delay := (delay s)(thread := d)\<rparr>;
        let s = s\<lparr>delay_prev := (delay_prev s)(thread := prev)\<rparr>;
        let s = s\<lparr>delay_next := (delay_next s)(thread := NULL)\<rparr>;
        Some (if prev \<noteq> NULL then s\<lparr>delay_next := (delay_next s)(prev := thread)\<rparr>
              else s\<lparr>wait_list := thread\<rparr>)
      } else do {
        (d, prev, next) \<leftarrow> delay_pos (delay s) (delay_next s) d NULL (delay_list s);
        let s = s\<lparr>delay := (delay s)(thread := d)\<rparr>;
        let s = s\<lparr>delay_prev := (delay_prev s)(thread := prev)\<rparr>;
        let s = s\<lparr>delay_next := (delay_next s)(thread := next)\<rparr>;
        let s = (if prev \<noteq> NULL then s\<lparr>delay_next := (delay_next s)(prev := thread)\<rparr>
                 else s\<lparr>delay_list := thread\<rparr>);
        Some (if next \<noteq> NULL
              then s\<lparr>delay := (delay s)(next := delay s next - d),
                     delay_prev := (delay_prev s)(next := thread)\<rparr>
              else s)
      })
   }"

definition osRtxThreadDelayRemove :: "ptr \<Rightarrow> rtx \<Rightarrow> rtx option" where
  "osRtxThreadDelayRemove thread s = do {
     guard (thread \<noteq> NULL);
     (if delay s thread = osWaitForever then
        (if delay_prev s thread \<noteq> NULL \<or> wait_list s = thread then do {
           let s = (if delay_next s thread \<noteq> NULL
                    then s\<lparr>delay_prev := (delay_prev s)(delay_next s thread := delay_prev s thread)\<rparr>
                    else s);
           Some (if delay_prev s thread \<noteq> NULL
                 then s\<lparr>delay_next := (delay_next s)(delay_prev s thread := delay_next s thread),
                        delay_prev := (delay_prev s)(thread := NULL)\<rparr>
                 else s\<lparr>wait_list := delay_next s thread\<rparr>)
         } else Some s)
      else
        (if delay_prev s thread \<noteq> NULL \<or> delay_list s = thread then do {
           let s = (if delay_next s thread \<noteq> NULL
                    then s\<lparr>delay := (delay s)(delay_next s thread :=
                                       delay s (delay_next s thread) + delay s thread),
                           delay_prev := (delay_prev s)(delay_next s thread := delay_prev s thread)\<rparr>
                    else s);
           Some (if delay_prev s thread \<noteq> NULL
                 then s\<lparr>delay_next := (delay_next s)(delay_prev s thread := delay_next s thread),
                        delay_prev := (delay_prev s)(thread := NULL)\<rparr>
                 else s\<lparr>delay_list := delay_next s thread\<rparr>)
         } else Some s))
   }"

text \<open>The do-while loop of osRtxThreadDelayTick; its switch on the state only records events.\<close>

partial_function (option) delay_expire :: "ptr \<Rightarrow> rtx \<Rightarrow> (ptr \<times> rtx) option" where
  "delay_expire thread s = do {
     s \<leftarrow> osRtxThreadListRemove thread s;
     s \<leftarrow> osRtxThreadReadyPut thread s;
     let thread = delay_next s thread;
     (if thread \<noteq> NULL \<and> delay s thread = 0 then delay_expire thread s
      else Some (thread, s))
   }"

definition osRtxThreadDelayTick :: "rtx \<Rightarrow> rtx option" where
  "osRtxThreadDelayTick s =
     (let thread = delay_list s
      in if thread = NULL then Some s
         else do {
           let s = s\<lparr>delay := (delay s)(thread := delay s thread - 1)\<rparr>;
           (if delay s thread = 0 then do {
              (thread, s) \<leftarrow> delay_expire thread s;
              let s = (if thread \<noteq> NULL then s\<lparr>delay_prev := (delay_prev s)(thread := NULL)\<rparr> else s);
              Some (s\<lparr>delay_list := thread\<rparr>)
            } else Some s)
         })"

section \<open>Specification vocabulary\<close>

text \<open>
  \<open>tnext\<close> is the thread link with the head of the list of terminated threads as the link of
  address NULL; \<open>dnext\<close> and \<open>wnext\<close> do the same for the delay and the wait list. \<open>due_times\<close> turns the relative
  delays of a delay list into times from now; \<open>delays_ok s D W\<close> says that \<open>s\<close> represents the delay
  list \<open>D\<close> (every thread due between 1 and 2^32 - 2 ticks) and the list \<open>W\<close> of threads waiting
  for ever.
\<close>

definition tnext :: "rtx \<Rightarrow> ptr \<Rightarrow> ptr" where
  "tnext s = (thread_next s)(NULL := terminate_list s)"

definition dnext :: "rtx \<Rightarrow> ptr \<Rightarrow> ptr" where
  "dnext s = (delay_next s)(NULL := delay_list s)"

definition wnext :: "rtx \<Rightarrow> ptr \<Rightarrow> ptr" where
  "wnext s = (delay_next s)(NULL := wait_list s)"

fun due_times :: "(ptr \<Rightarrow> u32) \<Rightarrow> nat \<Rightarrow> ptr list \<Rightarrow> (ptr \<times> nat) list" where
  "due_times dly a [] = []"
| "due_times dly a (x # xs) = (x, a + unat (dly x)) # due_times dly (a + unat (dly x)) xs"

fun due_insert :: "ptr \<Rightarrow> nat \<Rightarrow> (ptr \<times> nat) list \<Rightarrow> (ptr \<times> nat) list" where
  "due_insert t d [] = [(t, d)]"
| "due_insert t d ((x, e) # xs) = (if e \<le> d then (x, e) # due_insert t d xs else (t, d) # (x, e) # xs)"

abbreviation "delta_sum dly xs \<equiv> sum_list (map (\<lambda>x. unat ((dly :: ptr \<Rightarrow> u32) x)) xs)"

definition delay_ok :: "rtx \<Rightarrow> ptr list \<Rightarrow> bool" where
  "delay_ok s D \<longleftrightarrow> dll (dnext s) (delay_prev s) NULL D \<and>
     (\<forall>p\<in>set (due_times (delay s) 0 D). 0 < snd p \<and> snd p < 0xFFFFFFFF)"

definition wait_ok :: "rtx \<Rightarrow> ptr list \<Rightarrow> bool" where
  "wait_ok s W \<longleftrightarrow> dll (wnext s) (delay_prev s) NULL W \<and> (\<forall>t\<in>set W. delay s t = osWaitForever)"

definition delays_ok :: "rtx \<Rightarrow> ptr list \<Rightarrow> ptr list \<Rightarrow> bool" where
  "delays_ok s D W \<longleftrightarrow> delay_ok s D \<and> wait_ok s W \<and> set D \<inter> set W = {}"

text \<open>The relative times after \<open>t\<close> has been put before, and taken out from before, \<open>vs\<close>.\<close>

definition times_in :: "ptr \<Rightarrow> u32 \<Rightarrow> ptr list \<Rightarrow> (ptr \<Rightarrow> u32) \<Rightarrow> ptr \<Rightarrow> u32" where
  "times_in t e vs dly = (if vs = [] then dly(t := e) else dly(t := e, hd vs := dly (hd vs) - e))"

definition times_out :: "ptr \<Rightarrow> ptr list \<Rightarrow> (ptr \<Rightarrow> u32) \<Rightarrow> ptr \<Rightarrow> u32" where
  "times_out t vs dly = (if vs = [] then dly else dly(hd vs := dly (hd vs) + dly t))"

text \<open>osRtxThreadDelayRemove also clears the back link of an element that is not the first.\<close>

definition prev_cleared :: "ptr \<Rightarrow> ptr list \<Rightarrow> ptr list \<Rightarrow> (ptr \<Rightarrow> ptr) \<Rightarrow> ptr \<Rightarrow> ptr" where
  "prev_cleared t us vs b = (if us = [] then prev_out us vs b else (prev_out us vs b)(t := NULL))"

text \<open>The queue of an object's list as an abstract queue.\<close>

definition list_rep :: "ptr \<Rightarrow> (ptr \<rightharpoonup> ptr list) \<Rightarrow> (ptr \<Rightarrow> int) \<Rightarrow> rtx \<Rightarrow> ptr list \<Rightarrow> bool" where
  "list_rep obj Q pri s xs \<longleftrightarrow> lists_ok (tnext s) (thread_prev s) (Q(obj \<mapsto> xs)) \<and> obj \<noteq> NULL \<and> priority s = pri"

definition list_fresh :: "ptr \<Rightarrow> (ptr \<rightharpoonup> ptr list) \<Rightarrow> ptr \<Rightarrow> bool" where
  "list_fresh obj Q t \<longleftrightarrow> t \<notin> members (Q(obj \<mapsto> [])) \<and> t \<notin> dom Q \<and> t \<noteq> obj \<and> t \<noteq> NULL"

section \<open>Object lists as priority queues\<close>

lemma put_pos:
  "forward n p xs \<Longrightarrow> list_put_pos pri n k p (n p) =
     Some (before p (takeWhile (\<lambda>x. pri x \<ge> k) xs), after (dropWhile (\<lambda>x. pri x \<ge> k) xs))"
proof (induction xs arbitrary: p)
  case Nil then show ?case by (subst list_put_pos.simps) simp
next
  case (Cons x xs)
  then have "list_put_pos pri n k x (n x) =
      Some (before x (takeWhile (\<lambda>x. pri x \<ge> k) xs), after (dropWhile (\<lambda>x. pri x \<ge> k) xs))"
    by simp
  with Cons.prems show ?case by (subst list_put_pos.simps) simp
qed

lemma tnext_dll: "p \<noteq> NULL \<Longrightarrow> dll (tnext s) b p xs \<longleftrightarrow> dll (thread_next s) b p xs"
proof -
  assume p: "p \<noteq> NULL"
  have "dll (tnext s) b p xs = dll (thread_next s) b p xs" if "NULL \<notin> set xs"
    by (rule dll_cong) (use that p in \<open>auto simp: tnext_def\<close>)
  then show ?thesis using dll_nonnull [of _ b p xs] by blast
qed

lemma takeWhile_set: "set xs = set (takeWhile P xs) \<union> set (dropWhile P xs)"
  by (metis set_append takeWhile_dropWhile_id)

lemma after_hd [simp]: "ys \<noteq> [] \<Longrightarrow> after ys = hd ys"
  by (cases ys) auto

lemma insert_at:
  assumes L: "lists_ok (tnext s) (thread_prev s) Q" and Q: "Q obj = Some (xs @ ys)" and obj: "obj \<noteq> NULL"
    and t: "t \<notin> members Q" "t \<notin> dom Q" "t \<noteq> NULL"
    and n: "n = (thread_next s)(t := after ys, before obj xs := t)"
    and b: "b = (if after ys \<noteq> NULL then (thread_prev s)(t := before obj xs, after ys := t)
                 else (thread_prev s)(t := before obj xs))"
  shows "lists_ok (n(NULL := terminate_list s)) b (Q(obj \<mapsto> xs @ t # ys)) \<and>
     (\<forall>x. x \<notin> insert t (set ys) \<longrightarrow> b x = thread_prev s x) \<and> b t \<noteq> NULL"
proof -
  have d: "dll (tnext s) (thread_prev s) obj (xs @ ys)"
    by (rule lists_ok_dll [OF L Q])
  have nn: "before obj xs \<noteq> NULL" "NULL \<notin> set ys"
    using before_in [of obj xs] dll_nonnull [OF d] obj by fastforce+
  have "set (xs @ ys) \<subseteq> members Q" using Q members_sub by blast
  then have tx: "t \<notin> set (obj # xs @ ys)" using t Q by auto
  have tb: "t \<noteq> before obj xs" "ys \<noteq> [] \<Longrightarrow> t \<noteq> hd ys"
    using tx before_in [of obj xs] by (fastforce dest: hd_in_set)+
  have "lists_ok (n(NULL := terminate_list s)) b (Q(obj \<mapsto> xs @ t # ys))"
  proof (rule lists_ok_insert [OF L Q t])
    show "(n(NULL := terminate_list s)) t = after ys" using t(3) tb n by simp
    show "(n(NULL := terminate_list s)) (before obj xs) = t" using nn(1) n by simp
    show "(n(NULL := terminate_list s)) x = tnext s x" if "x \<noteq> t" "x \<noteq> before obj xs" for x
      using that n by (simp add: tnext_def)
    show "b t = before obj xs" using tb(2) b nn(2) by (simp add: after_null)
    show "b (hd ys) = t" if "ys \<noteq> []" using that nn(2) b by (cases ys) auto
    show "b x = thread_prev s x" if "x \<noteq> t" "ys = [] \<or> x \<noteq> hd ys" for x
      using that b nn(2) by (cases ys) auto
  qed
  moreover have "b x = thread_prev s x" if "x \<notin> insert t (set ys)" for x
    using that b nn(2) by (auto simp: after_null)
  moreover have "b t \<noteq> NULL"
    using b nn t(3) by (auto simp: after_null)
  ultimately show ?thesis by blast
qed

lemma ListPut_spec:
  assumes L: "lists_ok (tnext s) (thread_prev s) Q" and Q: "Q obj = Some xs" and obj: "obj \<noteq> NULL"
    and t: "t \<notin> members Q" "t \<notin> dom Q" "t \<noteq> NULL"
  obtains n b where "osRtxThreadListPut obj t s = Some (s\<lparr>thread_next := n, thread_prev := b\<rparr>)"
    "lists_ok (n(NULL := terminate_list s)) b (Q(obj \<mapsto> pinsert (priority s) t xs))"
    "\<And>x. x \<notin> insert t (set xs) \<Longrightarrow> b x = thread_prev s x"
proof -
  let ?P = "\<lambda>x. priority s x \<ge> priority s t"
  let ?as = "takeWhile ?P xs" and ?bs = "dropWhile ?P xs"
  have "forward (thread_next s) obj xs"
    using obj tnext_dll lists_ok_dll [OF L Q] by (simp add: dll_def)
  note pos = put_pos [OF this, of "priority s" "priority s t"]
  have Q': "Q obj = Some (?as @ ?bs)" using Q by simp
  note ins = insert_at [OF L Q' obj t refl refl]
  show thesis
  proof (rule that)
    show "osRtxThreadListPut obj t s = Some (s\<lparr>thread_next := (thread_next s)(t := after ?bs, before obj ?as := t),
       thread_prev := (if after ?bs \<noteq> NULL then (thread_prev s)(t := before obj ?as, after ?bs := t)
                 else (thread_prev s)(t := before obj ?as))\<rparr>)"
      using t(3) obj pos by (simp add: osRtxThreadListPut_def Let_def)
  qed (use ins in \<open>auto simp: pinsert_split takeWhile_set [of xs ?P]\<close>)
qed

lemma remove_at:
  assumes L: "lists_ok (tnext s) (thread_prev s) Q" and Q: "Q obj = Some (xs @ t # ys)" and obj: "obj \<noteq> NULL"
    and n: "n = (thread_next s)(before obj xs := after ys)"
    and b: "b = (if after ys \<noteq> NULL then (thread_prev s)(after ys := before obj xs)
                 else thread_prev s)(t := NULL)"
  shows "lists_ok (n(NULL := terminate_list s)) b (Q(obj \<mapsto> xs @ ys))"
    and "\<forall>x. x \<notin> insert t (set ys) \<longrightarrow> b x = thread_prev s x"
    and "thread_next s t = after ys" "thread_prev s t = before obj xs" "before obj xs \<noteq> NULL" "t \<noteq> NULL"
    "t \<notin> set xs" "t \<notin> set ys" "t \<noteq> obj" "n t = thread_next s t"
proof -
  have d: "dll (tnext s) (thread_prev s) obj (xs @ t # ys)"
    by (rule lists_ok_dll [OF L Q])
  note lk = dll_links [OF d]
  have nn: "NULL \<notin> set ys" "NULL \<notin> set xs" using dll_nonnull [OF d] by simp_all
  have ds: "t \<notin> set (obj # xs @ ys)" using dll_distinct [OF d] by auto
  show b0: "before obj xs \<noteq> NULL" using before_in [of obj xs] nn(2) obj by fastforce
  show "thread_next s t = after ys" "thread_prev s t = before obj xs" "t \<noteq> NULL"
    using lk by (simp_all add: tnext_def)
  show "t \<notin> set xs" "t \<notin> set ys" "t \<noteq> obj" using ds by auto
  show "n t = thread_next s t"
    using n ds before_in [of obj xs] by auto
  show "lists_ok (n(NULL := terminate_list s)) b (Q(obj \<mapsto> xs @ ys))"
  proof (rule lists_ok_remove [OF L Q])
    show "(n(NULL := terminate_list s)) (before obj xs) = tnext s t" using n b0 lk by simp
    show "(n(NULL := terminate_list s)) x = tnext s x" if "x \<noteq> t" "x \<noteq> before obj xs" for x
      using that n by (simp add: tnext_def)
    show "b (hd ys) = before obj xs" if "ys \<noteq> []"
      using that b nn(1) ds by (cases ys) auto
    show "b x = thread_prev s x" if "x \<noteq> t" "ys = [] \<or> x \<noteq> hd ys" for x
      using that b nn(1) by (cases ys) auto
  qed
  show "\<forall>x. x \<notin> insert t (set ys) \<longrightarrow> b x = thread_prev s x"
    using b nn(1) by (cases ys) auto
qed

lemma remove1_at: "t \<notin> set xs \<Longrightarrow> remove1 t (xs @ t # ys) = xs @ ys"
  by (simp add: remove1_append)

lemma ListRemove_spec:
  assumes L: "lists_ok (tnext s) (thread_prev s) Q" and Q: "Q obj = Some xs" and obj: "obj \<noteq> NULL"
    and t: "t \<in> set xs"
  obtains n b where "osRtxThreadListRemove t s = Some (s\<lparr>thread_next := n, thread_prev := b\<rparr>)"
    "lists_ok (n(NULL := terminate_list s)) b (Q(obj \<mapsto> remove1 t xs))"
    "\<And>x. x \<notin> set xs \<Longrightarrow> b x = thread_prev s x" "b t = NULL" "t \<noteq> NULL"
proof -
  obtain us vs where xs: "xs = us @ t # vs" using t split_list by fast
  note Q' = Q [unfolded xs]
  note r = remove_at [OF L Q' obj refl refl]
  show thesis
  proof (rule that)
    show "osRtxThreadListRemove t s = Some (s\<lparr>thread_next := (thread_next s)(before obj us := after vs),
      thread_prev := (if after vs \<noteq> NULL then (thread_prev s)(after vs := before obj us)
                 else thread_prev s)(t := NULL)\<rparr>)"
      using r by (simp add: osRtxThreadListRemove_def Let_def)
    show "lists_ok (((thread_next s)(before obj us := after vs))(NULL := terminate_list s))
       ((if after vs \<noteq> NULL then (thread_prev s)(after vs := before obj us)
                 else thread_prev s)(t := NULL)) (Q(obj \<mapsto> remove1 t xs))"
      unfolding xs remove1_at [OF r(7)] by (rule r(1))
    show "((if after vs \<noteq> NULL then (thread_prev s)(after vs := before obj us)
                 else thread_prev s)(t := NULL)) x = thread_prev s x" if "x \<notin> set xs" for x
      using r(2) that by (simp add: xs)
  qed (use r(6) in auto)
qed

lemma ListRemove_unlinked:
  "t \<noteq> NULL \<Longrightarrow> thread_prev s t = NULL \<Longrightarrow> osRtxThreadListRemove t s = Some s"
  by (simp add: osRtxThreadListRemove_def)

lemma ListGet_spec:
  assumes L: "lists_ok (tnext s) (thread_prev s) Q" and Q: "Q obj = Some (t # xs)" and obj: "obj \<noteq> NULL"
  obtains n b where "osRtxThreadListGet obj s = Some (t, s\<lparr>thread_next := n, thread_prev := b\<rparr>)"
    "lists_ok (n(NULL := terminate_list s)) b (Q(obj \<mapsto> xs))"
    "\<And>x. x \<notin> set (t # xs) \<Longrightarrow> b x = thread_prev s x" "b t = NULL" "t \<noteq> NULL"
proof -
  have Q': "Q obj = Some ([] @ t # xs)" using Q by simp
  have "before obj [] = obj" by simp
  note r = remove_at [OF L Q' obj refl refl, unfolded this append_Nil]
  have h: "thread_next s obj = t"
    using dll_links(3) [of "tnext s" "thread_prev s" obj "[]" t xs] lists_ok_dll [OF L Q] obj
    by (simp add: tnext_def)
  show thesis
  proof (rule that)
    show "osRtxThreadListGet obj s = Some (t, s\<lparr>thread_next := (thread_next s)(obj := after xs),
       thread_prev := (if after xs \<noteq> NULL then (thread_prev s)(after xs := obj) else thread_prev s)(t := NULL)\<rparr>)"
      using r(3-9) h obj by (simp add: osRtxThreadListGet_def Let_def)
  qed (use r in simp_all)
qed

lemma ListGet_empty:
  assumes L: "lists_ok (tnext s) (thread_prev s) Q" and Q: "Q obj = Some []" and obj: "obj \<noteq> NULL"
  shows "osRtxThreadListGet obj s = Some (NULL, s)"
  using lists_ok_dll [OF L Q] obj by (simp add: osRtxThreadListGet_def Let_def tnext_def)

lemma list_head:
  assumes L: "lists_ok (tnext s) (thread_prev s) Q" and Q: "Q obj = Some xs" and obj: "obj \<noteq> NULL"
  shows "thread_next s obj = after xs"
  using dll_hd [OF lists_ok_dll [OF L Q]] obj by (simp add: tnext_def)

section \<open>Delay lists as due times\<close>

lemma unat_below_max: "unat (d :: u32) < 0xFFFFFFFF \<longleftrightarrow> d \<noteq> 0xFFFFFFFF"
  using unsigned_less [of d, where 'a = nat] by (auto simp: word_unat_eq_iff)

lemma due_times_Nil [simp]: "due_times dly a xs = [] \<longleftrightarrow> xs = []"
  by (cases xs) auto

lemma due_times_append:
  "due_times dly a (xs @ ys) = due_times dly a xs @ due_times dly (a + delta_sum dly xs) ys"
  by (induction xs arbitrary: a) (auto simp: add.assoc)

lemma due_times_cong: "(\<And>x. x \<in> set xs \<Longrightarrow> f x = g x) \<Longrightarrow> due_times f a xs = due_times g a xs"
  by (induction xs arbitrary: a) auto

lemma delay_frame:
  assumes "delay_ok s D" "delay_list s' = delay_list s"
    "\<And>x. x \<in> set D \<Longrightarrow> delay s' x = delay s x \<and> delay_next s' x = delay_next s x \<and> delay_prev s' x = delay_prev s x"
  shows "delay_ok s' D"
proof -
  have "dll (dnext s') (delay_prev s') NULL D = dll (dnext s) (delay_prev s) NULL D"
    by (rule dll_cong) (use assms(2,3) in \<open>auto simp: dnext_def\<close>)
  moreover have "due_times (delay s') 0 D = due_times (delay s) 0 D"
    using assms(3) by (intro due_times_cong) auto
  ultimately show ?thesis using assms(1) by (simp add: delay_ok_def)
qed

lemma wait_frame:
  assumes "wait_ok s W" "wait_list s' = wait_list s"
    "\<And>x. x \<in> set W \<Longrightarrow> delay s' x = delay s x \<and> delay_next s' x = delay_next s x \<and> delay_prev s' x = delay_prev s x"
  shows "wait_ok s' W"
proof -
  have "dll (wnext s') (delay_prev s') NULL W = dll (wnext s) (delay_prev s) NULL W"
    by (rule dll_cong) (use assms(2,3) in \<open>auto simp: wnext_def\<close>)
  then show ?thesis using assms by (simp add: wait_ok_def)
qed

lemma due_times_upd [simp]: "x \<notin> set xs \<Longrightarrow> due_times (f(x := v)) a xs = due_times f a xs"
  by (rule due_times_cong) auto

lemma delta_sum_upd [simp]:
  "t \<notin> set xs \<Longrightarrow> (\<Sum>x\<leftarrow>xs. unat (if x = t then e else (f :: ptr \<Rightarrow> u32) x)) = delta_sum f xs"
  by (intro arg_cong [of _ _ sum_list] map_cong) auto

lemma map_fst_due [simp]: "map fst (due_times dly a xs) = xs"
  by (induction xs arbitrary: a) auto

lemma due_insert_append:
  "\<forall>p\<in>set ps. snd p \<le> d \<Longrightarrow> due_insert t d (ps @ qs) = ps @ due_insert t d qs"
  by (induction ps) auto

lemma due_times_le: "p \<in> set (due_times dly a xs) \<Longrightarrow> snd p \<le> a + delta_sum dly xs"
proof (induction xs arbitrary: a)
  case (Cons x xs) then show ?case using Cons.IH [of "a + unat (dly x)"] by (auto simp: add.assoc)
qed simp

lemma wait_end: "forward n p xs \<Longrightarrow> (\<And>x. x \<in> set xs \<Longrightarrow> nxt x = n x) \<Longrightarrow>
    wait_list_end nxt p (n p) = Some (before p xs)"
proof (induction xs arbitrary: p)
  case Nil then show ?case by (subst wait_list_end.simps) simp
next
  case (Cons x xs)
  from Cons.prems have "wait_list_end nxt x (n x) = Some (before x xs)"
    by (intro Cons.IH) auto
  with Cons.prems show ?case by (subst wait_list_end.simps) (auto simp: last_ConsR)
qed

lemma delay_pos_spec:
  assumes "forward n p xs" "\<And>x. x \<in> set xs \<Longrightarrow> nxt x = n x"
  obtains us vs e where "xs = us @ vs" "delay_pos dly nxt d p (n p) = Some (e, before p us, after vs)"
    "unat e + delta_sum dly us = unat d" "vs \<noteq> [] \<longrightarrow> e < dly (hd vs)"
proof -
  have "\<exists>us vs e. xs = us @ vs \<and> delay_pos dly nxt d p (n p) = Some (e, before p us, after vs) \<and>
    unat e + delta_sum dly us = unat d \<and> (vs \<noteq> [] \<longrightarrow> e < dly (hd vs))"
    using assms
  proof (induction xs arbitrary: p d)
    case Nil then show ?case
      by (intro exI [of _ "[]"] exI [of _ d]) (subst delay_pos.simps, simp)
  next
    case (Cons x xs)
    show ?case
    proof (cases "dly x \<le> d")
      case True
      from Cons.prems obtain us vs e where *: "xs = us @ vs"
        "delay_pos dly nxt (d - dly x) x (n x) = Some (e, before x us, after vs)"
        "unat e + delta_sum dly us = unat (d - dly x)" "vs \<noteq> [] \<longrightarrow> e < dly (hd vs)"
        using Cons.IH [of x "d - dly x"] by auto
      have "unat (d - dly x) + unat (dly x) = unat d"
        using True by (simp add: unat_sub word_le_nat_alt)
      with * True Cons.prems show ?thesis
        by (intro exI [of _ "x # us"] exI [of _ vs] exI [of _ e])
          (subst delay_pos.simps, auto simp: last_ConsR)
    next
      case False
      with Cons.prems show ?thesis
        by (intro exI [of _ "[]"] exI [of _ "x # xs"] exI [of _ d]) (subst delay_pos.simps, auto)
    qed
  qed
  with that show thesis by blast
qed

lemma due_insert_split:
  assumes "xs = us @ vs" "t \<notin> set xs" "distinct xs" "unat e + delta_sum dly us = unat d"
    "vs \<noteq> [] \<Longrightarrow> e < dly (hd vs)"
  shows "due_times (if vs = [] then dly(t := e) else dly(t := e, hd vs := dly (hd vs) - e)) 0 (us @ t # vs)
    = due_insert t (unat d) (due_times dly 0 xs)"
proof -
  have le: "\<forall>p\<in>set (due_times dly 0 us). snd p \<le> unat d"
    using assms(4) by (auto dest: due_times_le)
  note ins = due_insert_append [OF le, of t]
  show ?thesis
  proof (cases vs)
    case Nil
    with assms have "due_times (dly(t := e)) 0 (us @ [t]) = due_times dly 0 us @ [(t, unat d)]"
      by (simp add: due_times_append due_times_cong [of us "dly(t := e)" dly] add.commute)
    with Nil assms(1) ins [of "[]"] show ?thesis by simp
  next
    case (Cons v ws)
    let ?g = "dly(t := e, v := dly v - e)"
    have lt: "e < dly v" using assms(5) Cons by simp
    then have v: "unat (dly v - e) + unat e = unat (dly v)"
      by (simp add: unat_sub word_less_nat_alt word_le_nat_alt)
    have "v \<noteq> t" "v \<notin> set us" "v \<notin> set ws" "t \<notin> set us" "t \<notin> set ws"
      using assms Cons by auto
    moreover from this have "map (\<lambda>x. unat (?g x)) us = map (\<lambda>x. unat (dly x)) us"
      by (intro map_cong) auto
    moreover have "unat d < unat (dly v) + delta_sum dly us"
      using lt assms(4) by (simp add: word_less_nat_alt)
    moreover have "unat d + unat (dly v - e) = unat (dly v) + delta_sum dly us"
      using v assms(4) by linarith
    then have "due_times dly (unat d + unat (dly v - e)) ws = due_times dly (unat (dly v) + delta_sum dly us) ws"
      by simp
    ultimately show ?thesis
      using assms(1,4) Cons v ins [of "due_times dly (delta_sum dly us) vs"]
      by (simp add: due_times_append add.commute add.left_commute)
  qed
qed

lemma set_due_insert [simp]: "set (due_insert t d ps) = insert (t, d) (set ps)"
  by (induction ps) (auto split: if_splits)

lemma due_times_sorted: "sorted (map snd (due_times dly a xs)) \<and> (\<forall>p\<in>set (due_times dly a xs). a \<le> snd p)"
  by (induction xs arbitrary: a) (auto, metis add_leD1 snd_conv)

lemma due_times_remove:
  assumes "xs = us @ t # vs" "distinct xs" "delta_sum dly xs < 2 ^ 32"
  shows "due_times (if vs = [] then dly else dly(hd vs := dly (hd vs) + dly t)) 0 (us @ vs)
    = filter (\<lambda>p. fst p \<noteq> t) (due_times dly 0 xs)"
proof -
  have keep: "filter (\<lambda>p. fst p \<noteq> t) (due_times dly a zs) = due_times dly a zs" if "t \<notin> set zs" for a zs
    using that by (induction zs arbitrary: a) auto
  show ?thesis
  proof (cases vs)
    case Nil then show ?thesis using assms(1,2) by (simp add: due_times_append keep)
  next
    case (Cons v ws)
    have ds: "v \<noteq> t" "v \<notin> set us" "v \<notin> set ws" "t \<notin> set us" "t \<notin> set ws"
      using assms(1,2) Cons by auto
    have "unat (dly v + dly t) = unat (dly v) + unat (dly t)"
      using assms(1,3) Cons by (simp add: unat_word_ariths)
    with ds Cons assms(1) show ?thesis
      by (simp add: due_times_append keep due_times_cong [of us "dly(v := dly v + dly t)" dly] ac_simps)
  qed
qed

lemma delta_sum_last: "xs \<noteq> [] \<Longrightarrow> a + delta_sum dly xs = snd (last (due_times dly a xs))"
proof (induction xs arbitrary: a)
  case (Cons x xs)
  show ?case
  proof (cases "xs = []")
    case False
    with Cons.IH [of "a + unat (dly x)"] show ?thesis by (simp add: add.assoc)
  qed simp
qed simp

lemma delta_sum_bound:
  assumes "\<forall>p\<in>set (due_times dly 0 xs). 0 < snd p \<and> snd p < 0xFFFFFFFF"
  shows "delta_sum dly xs < 0xFFFFFFFF"
proof (cases "xs = []")
  case False
  then have "due_times dly 0 xs \<noteq> []" by (cases xs) auto
  then have "last (due_times dly 0 xs) \<in> set (due_times dly 0 xs)" by simp
  with assms delta_sum_last [OF False, of 0 dly] show ?thesis by auto
qed simp

lemma times_in_other: "x \<notin> insert t (set vs) \<Longrightarrow> times_in t e vs dly x = dly x"
  by (auto simp: times_in_def)

lemma times_out_other: "x \<notin> set vs \<Longrightarrow> times_out t vs dly x = dly x"
  by (auto simp: times_out_def)

lemma delta_insert:
  assumes D: "dll (n(NULL := h)) b NULL D" and t: "t \<notin> set D" "t \<noteq> NULL"
  obtains us vs e where "D = us @ vs" "delay_pos dly n d NULL h = Some (e, before NULL us, after vs)"
    "dll ((next_in t us vs n)(NULL := head_in t us h)) (prev_in t us vs b) NULL (us @ t # vs)"
    "due_times (times_in t e vs dly) 0 (us @ t # vs) = due_insert t (unat d) (due_times dly 0 D)"
    "unat e \<le> unat d" "NULL \<notin> set us" "NULL \<notin> set vs" "t \<notin> set us" "t \<notin> set vs"
proof -
  have nn: "NULL \<notin> set D" using dll_nonnull [OF D] by simp
  obtain us vs e where 1: "D = us @ vs"
    "delay_pos dly n d NULL ((n(NULL := h)) NULL) = Some (e, before NULL us, after vs)"
    "unat e + delta_sum dly us = unat d" "vs \<noteq> [] \<longrightarrow> e < dly (hd vs)"
  proof (rule delay_pos_spec [where n = "n(NULL := h)" and p = NULL and xs = D and nxt = n and d = d and dly = dly])
    show "forward (n(NULL := h)) NULL D" using D by (simp add: dll_def)
    show "n x = (n(NULL := h)) x" if "x \<in> set D" for x using that nn by auto
  qed
  show thesis
  proof (rule that [OF 1(1)])
    show "delay_pos dly n d NULL h = Some (e, before NULL us, after vs)" using 1(2) by simp
    show "dll ((next_in t us vs n)(NULL := head_in t us h)) (prev_in t us vs b) NULL (us @ t # vs)"
      by (rule dll_head_insert) (use D t 1(1) in auto)
    show "due_times (times_in t e vs dly) 0 (us @ t # vs) = due_insert t (unat d) (due_times dly 0 D)"
      unfolding times_in_def by (rule due_insert_split [OF 1(1) t(1) _ 1(3)]) (use dll_distinct [OF D] 1(4) in auto)
  qed (use 1(1,3) nn t in auto)
qed

lemma delta_remove:
  assumes D: "dll (n(NULL := h)) b NULL (us @ t # vs)" and d: "delta_sum dly (us @ t # vs) < 2 ^ 32"
  shows "due_times (times_out t vs dly) 0 (us @ vs) = filter (\<lambda>p. fst p \<noteq> t) (due_times dly 0 (us @ t # vs))"
  unfolding times_out_def by (rule due_times_remove [OF refl _ d]) (use dll_distinct [OF D] in auto)

lemma DelayInsert_delay:
  assumes ok: "delays_ok s D W" and t: "t \<notin> set D" "t \<notin> set W" "t \<noteq> NULL"
    and d: "d \<noteq> 0" "d \<noteq> osWaitForever"
  obtains f n b h D' where
    "osRtxThreadDelayInsert t d s = Some (s\<lparr>delay := f, delay_next := n, delay_prev := b, delay_list := h\<rparr>)"
    "delays_ok (s\<lparr>delay := f, delay_next := n, delay_prev := b, delay_list := h\<rparr>) D' W"
    "due_times f 0 D' = due_insert t (unat d) (due_times (delay s) 0 D)" "set D' = insert t (set D)"
    "\<And>x. x \<notin> insert t (set D) \<Longrightarrow> f x = delay s x"
    "f t \<noteq> osWaitForever"
proof -
  have D: "dll ((delay_next s)(NULL := delay_list s)) (delay_prev s) NULL D"
    and due0: "\<forall>p\<in>set (due_times (delay s) 0 D). 0 < snd p \<and> snd p < 0xFFFFFFFF"
    and W: "wait_ok s W" and dj: "set D \<inter> set W = {}"
    using ok by (auto simp: delays_ok_def delay_ok_def dnext_def)
  obtain us vs e where 1: "D = us @ vs" "delay_pos (delay s) (delay_next s) d NULL (delay_list s) = Some (e, before NULL us, after vs)"
    "dll ((next_in t us vs (delay_next s))(NULL := head_in t us (delay_list s))) (prev_in t us vs (delay_prev s)) NULL (us @ t # vs)"
    "due_times (times_in t e vs (delay s)) 0 (us @ t # vs) = due_insert t (unat d) (due_times (delay s) 0 D)"
    "unat e \<le> unat d" "NULL \<notin> set us" "NULL \<notin> set vs" "t \<notin> set us" "t \<notin> set vs"
    by (rule delta_insert [OF D t(1,3), where d = d and dly = "delay s"]) blast
  note nb = null_before [OF 1(6)] and na = after_null [OF 1(7)]
  have tv: "vs \<noteq> [] \<Longrightarrow> hd vs \<noteq> t" "us \<noteq> [] \<Longrightarrow> last us \<noteq> t" using ends_in(1) [OF _ 1(8)] ends_in(2) [OF _ 1(9)] by blast+
  let ?f = "times_in t e vs (delay s)" and ?n = "next_in t us vs (delay_next s)"
    and ?b = "prev_in t us vs (delay_prev s)" and ?h = "head_in t us (delay_list s)"
  let ?s = "s\<lparr>delay := ?f, delay_next := ?n, delay_prev := ?b, delay_list := ?h\<rparr>"
  have ud: "0 < unat d" "unat d < 0xFFFFFFFF" using d by (simp_all add: unat_gt_0 unat_below_max)
  have o: "?f x = delay s x" "?n x = delay_next s x" "?b x = delay_prev s x" if "x \<notin> insert t (set D)" for x
    using that 1(1) by (auto simp: times_in_other next_in_other prev_in_other)
  have "delay_ok ?s (us @ t # vs)" using 1(3,4) due0 ud by (simp add: delay_ok_def dnext_def)
  moreover have "wait_ok ?s W"
  proof (rule wait_frame [OF W])
    fix x assume "x \<in> set W"
    then have "x \<notin> insert t (set D)" using dj t by auto
    with o [of x] show "delay ?s x = delay s x \<and> delay_next ?s x = delay_next s x \<and> delay_prev ?s x = delay_prev s x" by simp
  qed simp
  ultimately have "delays_ok ?s (us @ t # vs) W" using dj t 1(1) by (auto simp: delays_ok_def)
  moreover have "osRtxThreadDelayInsert t d s = Some ?s"
    using d t(3) 1(2) nb na tv
    by (auto simp: osRtxThreadDelayInsert_def Let_def times_in_def prev_in_def next_in_def head_in_def)
  moreover have "?f t = e" using tv by (auto simp: times_in_def)
  then have "?f t \<noteq> osWaitForever" using 1(5) ud by (metis unat_below_max leD le_less_trans)
  ultimately show thesis using 1(1,4) o(1) by (intro that [where f = ?f and n = ?n and b = ?b and h = ?h]) auto
qed

lemma DelayInsert_wait:
  assumes ok: "delays_ok s D W" and t: "t \<notin> set D" "t \<notin> set W" "t \<noteq> NULL"
  obtains n b h where
    "osRtxThreadDelayInsert t osWaitForever s =
       Some (s\<lparr>delay := (delay s)(t := osWaitForever), delay_next := n, delay_prev := b, wait_list := h\<rparr>)"
    "delays_ok (s\<lparr>delay := (delay s)(t := osWaitForever), delay_next := n, delay_prev := b, wait_list := h\<rparr>) D (W @ [t])"
proof -
  have D: "delay_ok s D" and W: "dll ((delay_next s)(NULL := wait_list s)) (delay_prev s) NULL (W @ [])"
    and dj: "set D \<inter> set W = {}" and wd: "\<forall>t\<in>set W. delay s t = osWaitForever"
    using ok by (auto simp: delays_ok_def wait_ok_def wnext_def)
  have nn: "NULL \<notin> set W" using dll_nonnull W by fastforce
  have fw: "forward ((delay_next s)(NULL := wait_list s)) NULL W" using W by (simp add: dll_def)
  have "wait_list_end (delay_next s) NULL (((delay_next s)(NULL := wait_list s)) NULL) = Some (before NULL W)"
    by (rule wait_end [OF fw]) (use nn in auto)
  then have e: "wait_list_end (delay_next s) NULL (wait_list s) = Some (before NULL W)" by simp
  let ?n = "next_in t W [] (delay_next s)" and ?b = "prev_in t W [] (delay_prev s)" and ?h = "head_in t W (wait_list s)"
  let ?s = "s\<lparr>delay := (delay s)(t := osWaitForever), delay_next := ?n, delay_prev := ?b, wait_list := ?h\<rparr>"
  have "wait_ok ?s (W @ [t])"
    using dll_head_insert [OF W] t wd by (simp add: wait_ok_def wnext_def)
  moreover have "delay_ok ?s D"
  proof (rule delay_frame [OF D])
    fix x assume "x \<in> set D"
    then have "x \<notin> insert t (set W)" "x \<notin> insert t (set [])" using dj t by auto
    then show "delay ?s x = delay s x \<and> delay_next ?s x = delay_next s x \<and> delay_prev ?s x = delay_prev s x"
      using next_in_other prev_in_other by auto
  qed simp
  ultimately have "delays_ok ?s D (W @ [t])"
    using dj t by (auto simp: delays_ok_def)
  moreover have "osRtxThreadDelayInsert t osWaitForever s = Some ?s"
    using t(3) e null_before [OF nn] ends_in(1) [OF _ t(2)]
    by (auto simp: osRtxThreadDelayInsert_def Let_def prev_in_def next_in_def head_in_def fun_upd_twist)
  ultimately show thesis by (intro that)
qed

lemma delay_unlinked:
  assumes D: "dll (n(NULL := h)) b NULL (us @ t # vs)"
  shows "dll ((next_out us vs n)(NULL := head_out us vs h)) (prev_cleared t us vs b) NULL (us @ vs)"
    "x \<notin> set (us @ t # vs) \<Longrightarrow> next_out us vs n x = n x \<and> prev_cleared t us vs b x = b x"
proof -
  have "t \<notin> set (us @ vs)" using dll_distinct [OF D] by auto
  then show "dll ((next_out us vs n)(NULL := head_out us vs h)) (prev_cleared t us vs b) NULL (us @ vs)"
    by (intro dll_cong [THEN iffD1, OF _ _ dll_head_remove(1) [OF D]]) (auto simp: prev_cleared_def)
  show "x \<notin> set (us @ t # vs) \<Longrightarrow> next_out us vs n x = n x \<and> prev_cleared t us vs b x = b x"
    by (auto simp: prev_cleared_def next_out_other prev_out_other)
qed

lemma DelayRemove_delay:
  assumes ok: "delays_ok s D W" and t: "t \<in> set D"
  obtains f n b h where
    "osRtxThreadDelayRemove t s = Some (s\<lparr>delay := f, delay_next := n, delay_prev := b, delay_list := h\<rparr>)"
    "delays_ok (s\<lparr>delay := f, delay_next := n, delay_prev := b, delay_list := h\<rparr>) (remove1 t D) W"
    "due_times f 0 (remove1 t D) = filter (\<lambda>p. fst p \<noteq> t) (due_times (delay s) 0 D)"
    "\<And>x. x \<notin> set D \<Longrightarrow> f x = delay s x"
proof -
  obtain us vs where xs: "D = us @ t # vs" using t split_list by fast
  have D: "dll ((delay_next s)(NULL := delay_list s)) (delay_prev s) NULL (us @ t # vs)"
    and due0: "\<forall>p\<in>set (due_times (delay s) 0 D). 0 < snd p \<and> snd p < 0xFFFFFFFF"
    and W: "wait_ok s W" and dj: "set D \<inter> set W = {}"
    using ok by (auto simp: delays_ok_def delay_ok_def dnext_def xs)
  have ds: "t \<notin> set us" "t \<notin> set vs" "t \<noteq> NULL" "NULL \<notin> set us" "NULL \<notin> set vs"
    using dll_distinct [OF D] dll_nonnull [OF D] by auto
  have sum: "delta_sum (delay s) (us @ t # vs) < 0xFFFFFFFF" using delta_sum_bound [OF due0] by (simp add: xs)
  then have "unat (delay s t) < 0xFFFFFFFF" by simp
  then have dly: "delay s t \<noteq> osWaitForever" by (simp add: unat_below_max)
  let ?f = "times_out t vs (delay s)" and ?n = "next_out us vs (delay_next s)"
    and ?b = "prev_cleared t us vs (delay_prev s)" and ?h = "head_out us vs (delay_list s)"
  let ?s = "s\<lparr>delay := ?f, delay_next := ?n, delay_prev := ?b, delay_list := ?h\<rparr>"
  note lk = dll_head_remove [OF D] and un = delay_unlinked [OF D]
  have due: "due_times ?f 0 (us @ vs) = filter (\<lambda>p. fst p \<noteq> t) (due_times (delay s) 0 D)"
    using delta_remove [OF D, of "delay s"] sum xs by simp
  have o: "?f x = delay s x" if "x \<notin> set D" for x using that xs by (simp add: times_out_other)
  have "delay_ok ?s (us @ vs)" using un(1) due0 by (simp add: delay_ok_def due dnext_def)
  moreover have "wait_ok ?s W"
  proof (rule wait_frame [OF W])
    fix x assume "x \<in> set W"
    then have "x \<notin> set D" using dj by auto
    then show "delay ?s x = delay s x \<and> delay_next ?s x = delay_next s x \<and> delay_prev ?s x = delay_prev s x"
      using o un(2) xs by simp
  qed simp
  ultimately have "delays_ok ?s (us @ vs) W" using dj xs by (auto simp: delays_ok_def)
  moreover have "osRtxThreadDelayRemove t s = Some ?s"
    using lk(2-4) ds dly null_before [OF ds(4)] after_null [OF ds(5)] ends_in(1) [OF _ ds(1)] ends_in(2) [OF _ ds(2)]
      ends_in(1) [OF _ ds(4)] ends_in(2) [OF _ ds(5)]
    by (cases "us = []"; cases "vs = []")
      (auto simp: osRtxThreadDelayRemove_def Let_def times_out_def prev_cleared_def prev_out_def next_out_def head_out_def)
  ultimately show thesis
    using due o xs ds(1) by (intro that [where f = ?f and n = ?n and b = ?b and h = ?h]) (simp_all add: remove1_append)
qed

lemma DelayRemove_wait:
  assumes ok: "delays_ok s D W" and t: "t \<in> set W"
  obtains n b h where
    "osRtxThreadDelayRemove t s = Some (s\<lparr>delay_next := n, delay_prev := b, wait_list := h\<rparr>)"
    "delays_ok (s\<lparr>delay_next := n, delay_prev := b, wait_list := h\<rparr>) D (remove1 t W)"
proof -
  obtain us vs where xs: "W = us @ t # vs" using t split_list by fast
  have W: "dll ((delay_next s)(NULL := wait_list s)) (delay_prev s) NULL (us @ t # vs)" and wd: "\<forall>t\<in>set W. delay s t = osWaitForever"
    and D: "delay_ok s D" and dj: "set D \<inter> set W = {}"
    using ok by (auto simp: delays_ok_def wait_ok_def wnext_def xs)
  have ds: "t \<notin> set us" "t \<notin> set vs" "t \<noteq> NULL" "NULL \<notin> set us" "NULL \<notin> set vs"
    using dll_distinct [OF W] dll_nonnull [OF W] by auto
  let ?n = "next_out us vs (delay_next s)" and ?b = "prev_cleared t us vs (delay_prev s)" and ?h = "head_out us vs (wait_list s)"
  let ?s = "s\<lparr>delay_next := ?n, delay_prev := ?b, wait_list := ?h\<rparr>"
  note lk = dll_head_remove [OF W] and un = delay_unlinked [OF W]
  have "wait_ok ?s (us @ vs)" using un(1) wd xs by (simp add: wait_ok_def wnext_def)
  moreover have "delay_ok ?s D"
  proof (rule delay_frame [OF D])
    fix x assume "x \<in> set D"
    then have "x \<notin> set (us @ t # vs)" using dj xs by auto
    from un(2) [OF this] show "delay ?s x = delay s x \<and> delay_next ?s x = delay_next s x \<and> delay_prev ?s x = delay_prev s x"
      by simp
  qed simp
  ultimately have "delays_ok ?s D (us @ vs)" using dj xs by (auto simp: delays_ok_def)
  moreover have "osRtxThreadDelayRemove t s = Some ?s"
    using lk(2-4) ds wd t null_before [OF ds(4)] after_null [OF ds(5)] ends_in(1) [OF _ ds(1)] ends_in(2) [OF _ ds(2)]
      ends_in(1) [OF _ ds(4)] ends_in(2) [OF _ ds(5)]
    by (cases "us = []"; cases "vs = []")
      (auto simp: osRtxThreadDelayRemove_def Let_def prev_cleared_def prev_out_def next_out_def head_out_def)
  ultimately show thesis using xs ds(1) by (intro that [where n = ?n and b = ?b and h = ?h]) (simp_all add: remove1_append)
qed

section \<open>Re-sorting\<close>

lemma list_root_spec:
  assumes "backward b p (us @ [t])" "ids p \<noteq> osRtxIdThread" "p \<noteq> NULL"
    "\<And>x. x \<in> set (us @ [t]) \<Longrightarrow> ids x = osRtxIdThread \<and> x \<noteq> NULL"
  shows "list_root ids b t = Some p"
proof -
  have p: "list_root ids b p = Some p"
    using assms(2) by (subst list_root.simps) simp
  show ?thesis
    using assms(1,4)
  proof (induction us arbitrary: t rule: rev_induct)
    case Nil
    then show ?case using p by (subst list_root.simps) auto
  next
    case (snoc u us)
    have "backward b p (us @ u # [t])" using snoc.prems(1) by simp
    then have "b t = u" using backward_at [of b p "us @ [u]" t "[]"] by simp
    moreover have "backward b p (us @ [u])"
      using snoc.prems(1) by (induction us arbitrary: p) auto
    then have "list_root ids b u = Some p"
      using snoc.prems(2) by (intro snoc.IH) auto
    ultimately show ?case using snoc.prems(2) [of t] by (subst list_root.simps) simp
  qed
qed

lemma ListSort_spec:
  assumes L: "lists_ok (tnext s) (thread_prev s) Q" and Q: "Q obj = Some xs" and obj: "obj \<noteq> NULL"
    and t: "t \<in> set xs" and ids: "ob_id s obj \<noteq> osRtxIdThread" "\<And>x. x \<in> set xs \<Longrightarrow> ob_id s x = osRtxIdThread"
  obtains n b where "osRtxThreadListSort t s = Some (s\<lparr>thread_next := n, thread_prev := b\<rparr>)"
    "lists_ok (n(NULL := terminate_list s)) b (Q(obj \<mapsto> pinsert (priority s) t (remove1 t xs)))"
    "\<And>x. x \<notin> set xs \<Longrightarrow> b x = thread_prev s x"
proof -
  have d: "dll (tnext s) (thread_prev s) obj xs" by (rule lists_ok_dll [OF L Q])
  obtain us vs where xs: "xs = us @ t # vs" using t split_list by fast
  have "backward (thread_prev s) obj (us @ t # vs)" using d xs by (simp add: dll_def)
  then have "backward (thread_prev s) obj (us @ [t])"
    by (induction us arbitrary: obj) auto
  then have root: "list_root (ob_id s) (thread_prev s) t = Some obj"
    using ids obj xs dll_nonnull [OF d] by (intro list_root_spec) auto
  obtain n1 b1 where 1: "osRtxThreadListRemove t s = Some (s\<lparr>thread_next := n1, thread_prev := b1\<rparr>)"
    and L1: "lists_ok (n1(NULL := terminate_list s)) b1 (Q(obj \<mapsto> remove1 t xs))"
    and b1: "\<And>x. x \<notin> set xs \<Longrightarrow> b1 x = thread_prev s x"
    by (rule ListRemove_spec [OF L Q obj t]) blast
  let ?s1 = "s\<lparr>thread_next := n1, thread_prev := b1\<rparr>"
  have tQ: "t \<notin> members (Q(obj \<mapsto> remove1 t xs))" "t \<notin> dom (Q(obj \<mapsto> remove1 t xs))" "t \<noteq> NULL"
  proof -
    have "t \<in> members Q" using t Q by (auto simp: in_members)
    then show "t \<notin> dom (Q(obj \<mapsto> remove1 t xs))"
      using L Q by (auto simp: lists_ok_def)
    show "t \<noteq> NULL" using dll_nonnull [OF d] t by auto
    show "t \<notin> members (Q(obj \<mapsto> remove1 t xs))"
      using dll_distinct [OF d] t lists_ok_other [OF L Q]
      by (auto simp: in_members xs split: if_splits)
  qed
  obtain n b where "osRtxThreadListPut obj t ?s1 = Some (?s1\<lparr>thread_next := n, thread_prev := b\<rparr>)"
    "lists_ok (n(NULL := terminate_list ?s1)) b ((Q(obj \<mapsto> remove1 t xs))(obj \<mapsto> pinsert (priority ?s1) t (remove1 t xs)))"
    and b: "\<And>x. x \<notin> insert t (set (remove1 t xs)) \<Longrightarrow> b x = thread_prev ?s1 x"
    by (rule ListPut_spec [of ?s1 "Q(obj \<mapsto> remove1 t xs)" obj "remove1 t xs" t])
      (use L1 obj tQ in \<open>auto simp: tnext_def\<close>)
  moreover have "b x = thread_prev s x" if "x \<notin> set xs" for x
    using that t b [of x] b1 [of x] set_remove1_subset [of t xs] by auto
  ultimately show thesis
    using 1 root obj by (intro that [where n = n and b = b]) (auto simp: osRtxThreadListSort_def)
qed

interpretation thread_queue: prio_queue where rep = "list_rep obj Q pri" and put = "osRtxThreadListPut obj"
    and get = "osRtxThreadListGet obj" and pri = pri and fresh = "list_fresh obj Q" for obj Q pri
proof
  fix s xs x assume r: "list_rep obj Q pri s xs" and f: "list_fresh obj Q x" and x: "x \<notin> set xs"
  have m: "x \<notin> members (Q(obj \<mapsto> xs))" "x \<notin> dom (Q(obj \<mapsto> xs))" "x \<noteq> NULL"
    using f x unfolding list_fresh_def in_members by (auto split: if_splits)
  have r': "lists_ok (tnext s) (thread_prev s) (Q(obj \<mapsto> xs))" "obj \<noteq> NULL" "priority s = pri"
    using r by (auto simp: list_rep_def)
  obtain n b where "osRtxThreadListPut obj x s = Some (s\<lparr>thread_next := n, thread_prev := b\<rparr>)"
    "lists_ok (n(NULL := terminate_list s)) b (Q(obj \<mapsto> xs, obj \<mapsto> pinsert (priority s) x xs))"
    by (rule ListPut_spec [OF r'(1) _ r'(2) m]) auto
  then show "\<exists>s'. osRtxThreadListPut obj x s = Some s' \<and> list_rep obj Q pri s' (pinsert pri x xs)"
    using r' by (simp add: list_rep_def tnext_def)
next
  fix s x xs assume "list_rep obj Q pri s (x # xs)"
  then have r': "lists_ok (tnext s) (thread_prev s) (Q(obj \<mapsto> x # xs))" "obj \<noteq> NULL" "priority s = pri"
    by (auto simp: list_rep_def)
  obtain n b where "osRtxThreadListGet obj s = Some (x, s\<lparr>thread_next := n, thread_prev := b\<rparr>)"
    "lists_ok (n(NULL := terminate_list s)) b (Q(obj \<mapsto> x # xs, obj \<mapsto> xs))"
    by (rule ListGet_spec [OF r'(1) _ r'(2)]) auto
  then show "\<exists>s'. osRtxThreadListGet obj s = Some (x, s') \<and> list_rep obj Q pri s' xs"
    using r' by (simp add: list_rep_def tnext_def)
qed

end
