(* ===== verification/RtxSched.thy ===== *)
theory RtxSched
  imports RtxLists
begin

text \<open>
  The scheduler of rtx_thread.c: choosing the thread to run, entering and leaving the wait state
  and the stack check. The context switch itself is the assembly of irq_cm4f.S: it makes
  \<open>run_next\<close> the running thread, after saving the stack pointer of the old one.
  osRtxErrorNotify does not return, so the branches that call it are \<open>None\<close>.
\<close>

unbundle bit_operations_syntax

section \<open>Operations\<close>

definition osRtxThreadRegPtr :: "rtx \<Rightarrow> ptr \<Rightarrow> ptr" where
  "osRtxThreadRegPtr s thread = sp s thread + StackOffsetR0 (stack_frame s thread)"

definition osRtxThreadStackCheck :: "rtx \<Rightarrow> rtx option" where
  "osRtxThreadStackCheck s =
     (let thread = run_curr s
      in if thread \<noteq> NULL
         then if sp s thread \<le> stack_mem s thread \<or> mem s (stack_mem s thread) \<noteq> osRtxStackMagicWord
              then None
              else Some s
         else Some s)"

text \<open>The search loop of osRtxThreadBlock: past every thread of higher priority only.\<close>

partial_function (option) block_pos ::
    "(ptr \<Rightarrow> int) \<Rightarrow> (ptr \<Rightarrow> ptr) \<Rightarrow> int \<Rightarrow> ptr \<Rightarrow> ptr \<Rightarrow> (ptr \<times> ptr) option" where
  "block_pos pri nxt prio prev next =
     (if next \<noteq> NULL \<and> pri next > prio then block_pos pri nxt prio next (nxt next)
      else Some (prev, next))"

definition osRtxThreadBlock :: "ptr \<Rightarrow> rtx \<Rightarrow> rtx option" where
  "osRtxThreadBlock thread s = do {
     guard (thread \<noteq> NULL);
     let s = s\<lparr>ob_state := (ob_state s)(thread := osRtxThreadReady)\<rparr>;
     (prev, next) \<leftarrow> block_pos (priority s) (thread_next s) (priority s thread) (ready s)
       (thread_next s (ready s));
     let s = s\<lparr>thread_prev := (thread_prev s)(thread := prev)\<rparr>;
     let s = s\<lparr>thread_next := (thread_next s)(thread := next)\<rparr>;
     let s = s\<lparr>thread_next := (thread_next s)(prev := thread)\<rparr>;
     Some (if next \<noteq> NULL then s\<lparr>thread_prev := (thread_prev s)(next := thread)\<rparr> else s)
   }"

definition osRtxThreadSwitch :: "ptr \<Rightarrow> rtx \<Rightarrow> rtx option" where
  "osRtxThreadSwitch thread s = do {
     guard (thread \<noteq> NULL);
     let s = s\<lparr>ob_state := (ob_state s)(thread := osRtxThreadRunning), run_next := thread\<rparr>;
     osRtxThreadStackCheck s
   }"

definition osRtxThreadDispatch :: "ptr \<Rightarrow> rtx \<Rightarrow> rtx option" where
  "osRtxThreadDispatch thread s =
     (let thread_running = run_curr s
      in if thread = NULL then
           let thread_ready = thread_list s (ready s)
           in if kernel_state s = osRtxKernelRunning \<and> thread_running \<noteq> NULL \<and> thread_ready \<noteq> NULL \<and>
                 priority s thread_ready > priority s thread_running
              then do {
                s \<leftarrow> osRtxThreadListRemove thread_ready s;
                s \<leftarrow> osRtxThreadBlock thread_running s;
                osRtxThreadSwitch thread_ready s
              }
              else Some s
         else if kernel_state s = osRtxKernelRunning \<and> thread_running \<noteq> NULL \<and>
                 priority s thread > priority s thread_running
              then do {
                s \<leftarrow> osRtxThreadBlock thread_running s;
                osRtxThreadSwitch thread s
              }
              else osRtxThreadReadyPut thread s)"

definition osRtxThreadWaitExit :: "ptr \<Rightarrow> u32 \<Rightarrow> bool \<Rightarrow> rtx \<Rightarrow> rtx option" where
  "osRtxThreadWaitExit thread ret_val dispatch s = do {
     guard (thread \<noteq> NULL);
     let reg = osRtxThreadRegPtr s thread;
     let s = s\<lparr>mem := (mem s)(reg := ret_val)\<rparr>;
     s \<leftarrow> osRtxThreadDelayRemove thread s;
     (if dispatch then osRtxThreadDispatch thread s else osRtxThreadReadyPut thread s)
   }"

definition osRtxThreadWaitEnter :: "u8 \<Rightarrow> u32 \<Rightarrow> rtx \<Rightarrow> (bool \<times> rtx) option" where
  "osRtxThreadWaitEnter state timeout s =
     (let thread = run_curr s
      in if kernel_state s \<noteq> osRtxKernelRunning then Some (False, s)
         else if thread = NULL then Some (False, s)
         else if thread_list s (ready s) = NULL then Some (False, s)
         else do {
           let s = s\<lparr>ob_state := (ob_state s)(thread := state)\<rparr>;
           s \<leftarrow> osRtxThreadDelayInsert thread timeout s;
           (thread, s) \<leftarrow> osRtxThreadListGet (ready s) s;
           s \<leftarrow> osRtxThreadSwitch thread s;
           Some (True, s)
         })"

text \<open>
  The tail of every exception handler (label SVC_Context of irq_cm4f.S): when another thread is
  to run, the registers \<open>regs\<close> that the hardware has not stacked (R4 to R11, preceded by
  S16 to S31 for a frame with floating point state) are pushed on the old thread's stack, its
  stack pointer and the low byte of EXC_RETURN are saved, and the process stack pointer is set
  from the new thread.
\<close>

fun store_words :: "ptr \<Rightarrow> u32 list \<Rightarrow> (ptr \<Rightarrow> u32) \<Rightarrow> ptr \<Rightarrow> u32" where
  "store_words p [] m = m"
| "store_words p (w # ws) m = store_words (p + 4) ws (m(p := w))"

definition context_switch :: "u32 list \<Rightarrow> u8 \<Rightarrow> rtx \<Rightarrow> rtx" where
  "context_switch regs exc_return s =
     (if run_curr s = run_next s then s
      else
        let s = (if run_curr s \<noteq> NULL
                 then let p = psp s - (if exc_return AND 0x10 = 0 then (16 + 8) * 4 else 8 * 4)
                      in s\<lparr>mem := store_words p regs (mem s), sp := (sp s)(run_curr s := p),
                           stack_frame := (stack_frame s)(run_curr s := exc_return)\<rparr>
                 else s);
            s = s\<lparr>run_curr := run_next s\<rparr>
        in s\<lparr>psp := sp s (run_next s) +
               (if stack_frame s (run_next s) AND 0x10 = 0 then (16 + 8) * 4 else 8 * 4)\<rparr>)"

text \<open>
  A service call (SVC_Handler): the service function runs, the registers R0 (its result) and R1
  (the arbitrary value \<open>r1\<close>) are stored in the caller's exception frame, and the switch above
  follows.
\<close>

definition service_call ::
    "(rtx \<Rightarrow> (u32 \<times> rtx) option) \<Rightarrow> u32 \<Rightarrow> u32 list \<Rightarrow> u8 \<Rightarrow> rtx \<Rightarrow> rtx option" where
  "service_call f r1 regs exc_return s = do {
     (r, s') \<leftarrow> f s;
     Some (context_switch regs exc_return (s'\<lparr>mem := (mem s')(psp s := r, psp s + 4 := r1)\<rparr>))
   }"

section \<open>Specification vocabulary\<close>

text \<open>
  \<open>touched s s'\<close>: only the fields of the thread, delay and wait lists, the thread states,
  \<open>run_next\<close> and raw memory may differ. \<open>sched s Q D W\<close> is the scheduler's invariant: every
  object \<open>p\<close> of \<open>dom Q\<close> heads the linked list \<open>Q p\<close> (address NULL stands for the list of terminated
  threads), no thread is in two of them, all but the list of terminated threads are sorted by
  priority, the delay list holds \<open>D\<close> and the wait list \<open>W\<close>; a thread of the ready list is in neither,
  a thread waiting for any other object is in one of them. \<open>loose\<close> threads, like the running one,
  are in no list. \<open>stack_ok\<close> is what osRtxThreadStackCheck tests of the running thread.
  \<open>delayed\<close> relates the delay and wait lists before and after inserting a thread.
\<close>

definition core :: "rtx \<Rightarrow> rtx" where
  "core s = s\<lparr>thread_next := \<lambda>_. NULL, thread_prev := \<lambda>_. NULL, delay := \<lambda>_. 0, delay_next := \<lambda>_. NULL,
     delay_prev := \<lambda>_. NULL, delay_list := NULL, wait_list := NULL, ob_state := \<lambda>_. 0, run_next := NULL,
     mem := \<lambda>_. 0\<rparr>"

definition touched :: "rtx \<Rightarrow> rtx \<Rightarrow> bool" where
  "touched s s' \<longleftrightarrow> core s' = core s"

definition sched :: "rtx \<Rightarrow> (ptr \<rightharpoonup> ptr list) \<Rightarrow> ptr list \<Rightarrow> ptr list \<Rightarrow> bool" where
  "sched s Q D W \<longleftrightarrow>
     lists_ok (tnext s) (thread_prev s) Q \<and> delays_ok s D W \<and>
     ready s \<noteq> NULL \<and> ready s \<in> dom Q \<and>
     (\<forall>t\<in>members Q \<union> set D \<union> set W. ob_id s t = osRtxIdThread) \<and>
     (\<forall>p\<in>dom Q. p \<noteq> NULL \<longrightarrow> ob_id s p \<noteq> osRtxIdThread) \<and>
     (\<forall>p xs. Q p = Some xs \<longrightarrow> p \<noteq> NULL \<longrightarrow> by_priority (priority s) xs) \<and>
     (\<forall>t. ob_id s t = osRtxIdThread \<longrightarrow> t \<notin> members Q \<longrightarrow> thread_prev s t = NULL) \<and>
     (\<forall>t\<in>set (the (Q (ready s))). ob_state s t = osRtxThreadReady \<and> t \<notin> set D \<and> t \<notin> set W) \<and>
     (\<forall>p xs. Q p = Some xs \<longrightarrow> p \<noteq> NULL \<longrightarrow> p \<noteq> ready s \<longrightarrow> set xs \<subseteq> set D \<union> set W) \<and>
     (\<forall>xs. Q NULL = Some xs \<longrightarrow> set xs \<inter> (set D \<union> set W) = {})"

definition stack_ok :: "rtx \<Rightarrow> bool" where
  "stack_ok s \<longleftrightarrow> run_curr s \<noteq> NULL \<longrightarrow>
     stack_mem s (run_curr s) < sp s (run_curr s) \<and>
     mem s (stack_mem s (run_curr s)) = osRtxStackMagicWord \<and>
     (\<forall>x. ob_id s x = osRtxIdThread \<longrightarrow> osRtxThreadRegPtr s x \<noteq> stack_mem s (run_curr s))"

definition loose :: "rtx \<Rightarrow> (ptr \<rightharpoonup> ptr list) \<Rightarrow> ptr list \<Rightarrow> ptr list \<Rightarrow> ptr \<Rightarrow> bool" where
  "loose s Q D W t \<longleftrightarrow> t \<noteq> NULL \<and> ob_id s t = osRtxIdThread \<and> t \<notin> members Q \<and> t \<notin> set D \<and> t \<notin> set W"

definition delayed :: "rtx \<Rightarrow> ptr list \<Rightarrow> ptr list \<Rightarrow> ptr \<Rightarrow> u32 \<Rightarrow> rtx \<Rightarrow> ptr list \<Rightarrow> ptr list \<Rightarrow> bool" where
  "delayed s D W t d s' D' W' \<longleftrightarrow>
     (if d = osWaitForever
      then D' = D \<and> W' = W @ [t] \<and> due_times (delay s') 0 D' = due_times (delay s) 0 D
      else W' = W \<and> due_times (delay s') 0 D' = due_insert t (unat d) (due_times (delay s) 0 D)) \<and>
     set D' \<union> set W' = insert t (set D \<union> set W)"

section \<open>Moving threads between lists\<close>

lemma touched_refl [simp]: "touched s s"
  by (simp add: touched_def)

lemma touched_trans [trans]: "touched s s1 \<Longrightarrow> touched s1 s2 \<Longrightarrow> touched s s2"
  by (simp add: touched_def)

lemma touched_upd [simp]:
  "touched s (thread_next_update f s') = touched s s'" "touched s (thread_prev_update f s') = touched s s'"
  "touched s (delay_update g s') = touched s s'" "touched s (delay_next_update f s') = touched s s'"
  "touched s (delay_prev_update f s') = touched s s'" "touched s (delay_list_update h s') = touched s s'"
  "touched s (wait_list_update h s') = touched s s'" "touched s (ob_state_update st s') = touched s s'"
  "touched s (run_next_update h s') = touched s s'" "touched s (mem_update m s') = touched s s'"
  by (simp_all add: touched_def core_def)

lemma touched_fields:
  assumes "touched s s'"
  shows "ob_id s' = ob_id s" "ob_flags s' = ob_flags s" "ob_attr s' = ob_attr s" "ob_name s' = ob_name s"
    "thread_join s' = thread_join s" "priority s' = priority s" "priority_base s' = priority_base s"
    "stack_frame s' = stack_frame s" "stack_mem s' = stack_mem s" "sp s' = sp s"
    "mutex_list s' = mutex_list s" "owner_thread s' = owner_thread s" "owner_next s' = owner_next s"
    "owner_prev s' = owner_prev s" "lock_count s' = lock_count s" "event_flags s' = event_flags s"
    "tokens s' = tokens s" "max_tokens s' = max_tokens s" "wait_flags s' = wait_flags s"
    "flags_options s' = flags_options s" "thread_flags s' = thread_flags s"
    "kernel_state s' = kernel_state s" "run_curr s' = run_curr s" "ready s' = ready s"
    "terminate_list s' = terminate_list s" "kernel_tick s' = kernel_tick s" "psp s' = psp s"
    "robin_timeout s' = robin_timeout s" "timer_tick_set s' = timer_tick_set s"
    "used_blocks s' = used_blocks s" "max_blocks s' = max_blocks s" "block_free s' = block_free s"
proof -
  have f: "g s' = g s" if "\<And>x. g (core x) = g x" for g :: "rtx \<Rightarrow> 'b"
    using that [of s] that [of s'] assms by (simp add: touched_def)
  show "ob_id s' = ob_id s" "ob_flags s' = ob_flags s" "ob_attr s' = ob_attr s" "ob_name s' = ob_name s"
    "thread_join s' = thread_join s" "priority s' = priority s" "priority_base s' = priority_base s"
    "stack_frame s' = stack_frame s" "stack_mem s' = stack_mem s" "sp s' = sp s"
    "mutex_list s' = mutex_list s" "owner_thread s' = owner_thread s" "owner_next s' = owner_next s"
    "owner_prev s' = owner_prev s" "lock_count s' = lock_count s" "event_flags s' = event_flags s"
    "tokens s' = tokens s" "max_tokens s' = max_tokens s" "wait_flags s' = wait_flags s"
    "flags_options s' = flags_options s" "thread_flags s' = thread_flags s"
    "kernel_state s' = kernel_state s" "run_curr s' = run_curr s" "ready s' = ready s"
    "terminate_list s' = terminate_list s" "kernel_tick s' = kernel_tick s" "psp s' = psp s"
    "robin_timeout s' = robin_timeout s" "timer_tick_set s' = timer_tick_set s"
    "used_blocks s' = used_blocks s" "max_blocks s' = max_blocks s" "block_free s' = block_free s"
    by (rule f, simp add: core_def)+
qed

lemma sched_mem [simp]: "sched (s\<lparr>mem := m\<rparr>) Q D W = sched s Q D W"
  by (simp add: sched_def tnext_def delays_ok_def delay_ok_def dnext_def wait_ok_def wnext_def)

lemma sched_run_next [simp]: "sched (s\<lparr>run_next := t\<rparr>) Q D W = sched s Q D W"
  by (simp add: sched_def tnext_def delays_ok_def delay_ok_def dnext_def wait_ok_def wnext_def)

lemma schedD:
  assumes "sched s Q D W"
  shows "lists_ok (tnext s) (thread_prev s) Q" "delays_ok s D W" "ready s \<noteq> NULL"
    "\<And>t. t \<in> members Q \<Longrightarrow> ob_id s t = osRtxIdThread" "\<And>t. t \<in> set D \<Longrightarrow> ob_id s t = osRtxIdThread"
    "\<And>t. t \<in> set W \<Longrightarrow> ob_id s t = osRtxIdThread"
    "\<And>p xs. Q p = Some xs \<Longrightarrow> p \<noteq> NULL \<Longrightarrow> ob_id s p \<noteq> osRtxIdThread"
    "\<And>p xs. Q p = Some xs \<Longrightarrow> p \<noteq> NULL \<Longrightarrow> by_priority (priority s) xs"
    "\<And>t. ob_id s t = osRtxIdThread \<Longrightarrow> t \<notin> members Q \<Longrightarrow> thread_prev s t = NULL"
    "\<And>t R. Q (ready s) = Some R \<Longrightarrow> t \<in> set R \<Longrightarrow> ob_state s t = osRtxThreadReady \<and> t \<notin> set D \<and> t \<notin> set W"
    "\<And>p xs. Q p = Some xs \<Longrightarrow> p \<noteq> NULL \<Longrightarrow> p \<noteq> ready s \<Longrightarrow> set xs \<subseteq> set D \<union> set W"
    "\<And>t xs. Q NULL = Some xs \<Longrightarrow> t \<in> set xs \<Longrightarrow> t \<notin> set D \<and> t \<notin> set W"
  using assms unfolding sched_def by (auto simp: domIff)

lemma sched_ready:
  assumes "sched s Q D W" obtains R where "Q (ready s) = Some R"
  using assms unfolding sched_def by auto

lemma sched_not_dom:
  assumes "sched s Q D W" "ob_id s t = osRtxIdThread" "t \<noteq> NULL" shows "t \<notin> dom Q"
  using assms by (auto dest: schedD(7))

lemma delays_lists [simp]:
  "delays_ok (s\<lparr>ob_state := st, thread_next := n, thread_prev := b\<rparr>) D W = delays_ok s D W"
  by (simp add: delays_ok_def delay_ok_def dnext_def wait_ok_def wnext_def)

lemma membersI: "Q p = Some xs \<Longrightarrow> x \<in> set xs \<Longrightarrow> x \<in> members Q"
  unfolding in_members by blast

lemma members_updI: "Q p = Some xs \<Longrightarrow> x \<in> set xs \<Longrightarrow> p \<noteq> obj \<Longrightarrow> x \<in> members (Q(obj \<mapsto> ys))"
  by (rule membersI [of _ p xs]) simp_all

lemma members_upd_sub:
  assumes "Q p = Some xs" "set ys \<subseteq> set xs" shows "members (Q(p \<mapsto> ys)) \<subseteq> members Q"
proof
  fix x assume "x \<in> members (Q(p \<mapsto> ys))"
  then obtain q zs where q: "(Q(p \<mapsto> ys)) q = Some zs" "x \<in> set zs" unfolding in_members by blast
  show "x \<in> members Q"
  proof (cases "q = p")
    case True
    then show ?thesis using q assms by (intro membersI [of Q p xs]) auto
  next
    case False
    then show ?thesis using q by (intro membersI [of Q q zs]) auto
  qed
qed

lemma sched_requeue:
  assumes S: "sched s Q D W" and Q: "Q obj = Some xs" and obj: "obj \<noteq> NULL"
    and L: "lists_ok (n(NULL := terminate_list s)) b (Q(obj \<mapsto> ys))"
    and sub: "set ys \<subseteq> insert t (set xs)" and srt: "by_priority (priority s) ys"
    and t: "ob_id s t = osRtxIdThread"
    and b: "\<And>x. x \<notin> insert t (set xs) \<Longrightarrow> b x = thread_prev s x"
      "\<And>x. x \<in> insert t (set xs) \<Longrightarrow> x \<notin> set ys \<Longrightarrow> b x = NULL"
    and st: "\<And>x. x \<noteq> t \<Longrightarrow> st x = ob_state s x"
    and rdy: "obj = ready s \<Longrightarrow> t \<in> set ys \<Longrightarrow> st t = osRtxThreadReady \<and> t \<notin> set D \<and> t \<notin> set W"
    and oth: "obj \<noteq> ready s \<Longrightarrow> t \<in> set ys \<Longrightarrow> t \<in> set D \<union> set W"
    and nr: "obj \<noteq> ready s \<Longrightarrow> st t = ob_state s t"
  shows "sched (s\<lparr>ob_state := st, thread_next := n, thread_prev := b\<rparr>) (Q(obj \<mapsto> ys)) D W"
proof -
  note D = schedD [OF S]
  obtain R where R: "Q (ready s) = Some R" by (rule sched_ready [OF S])
  have mem: "members (Q(obj \<mapsto> ys)) \<subseteq> insert t (members Q)"
    using sub Q by (auto simp: in_members split: if_splits)
  have prev: "b x = NULL" if "ob_id s x = osRtxIdThread" "x \<notin> members (Q(obj \<mapsto> ys))" for x
  proof (cases "x \<in> insert t (set xs)")
    case True
    moreover have "x \<notin> set ys" using that(2) unfolding in_members by (metis fun_upd_same)
    ultimately show ?thesis by (rule b(2))
  next
    case False
    have "x \<notin> members Q"
    proof
      assume "x \<in> members Q"
      then obtain p zs where p: "Q p = Some zs" "x \<in> set zs" by (auto simp: in_members)
      then have "p \<noteq> obj" using False Q by auto
      with p that(2) show False using members_updI by blast
    qed
    with False that(1) D(9) b(1) show ?thesis by simp
  qed
  have rdyl: "st x = osRtxThreadReady \<and> x \<notin> set D \<and> x \<notin> set W"
    if "x \<in> set (the ((Q(obj \<mapsto> ys)) (ready s)))" for x
  proof (cases "obj = ready s")
    case True
    then have xy: "x \<in> set ys" using that by simp
    show ?thesis
    proof (cases "x = t")
      case True then show ?thesis using rdy \<open>obj = ready s\<close> xy by simp
    next
      case False
      then have "x \<in> set xs" using xy sub by auto
      then show ?thesis using D(10) [of xs x] Q \<open>obj = ready s\<close> st False by simp
    qed
  next
    case False
    then have "x \<in> set R" using that R by simp
    then show ?thesis using D(10) [OF R] st nr False by (cases "x = t") auto
  qed
  have wl: "set zs \<subseteq> set D \<union> set W" if "(Q(obj \<mapsto> ys)) p = Some zs" "p \<noteq> NULL" "p \<noteq> ready s" for p zs
  proof (cases "p = obj")
    case True
    then have "set zs \<subseteq> insert t (set xs)" "zs = ys" using that sub by auto
    then show ?thesis using D(11) [of p xs] Q True that oth by auto
  next
    case False then show ?thesis using that D(11) [of p zs] by simp
  qed
  have dom: "\<And>p. p \<in> dom (Q(obj \<mapsto> ys)) \<Longrightarrow> p \<noteq> NULL \<Longrightarrow> ob_id s p \<noteq> osRtxIdThread"
    using D(7) Q by (auto split: if_splits)
  have srt': "by_priority (priority s) zs" if "(Q(obj \<mapsto> ys)) p = Some zs" "p \<noteq> NULL" for p zs
    using that srt D(8) [of p zs] by (auto split: if_splits)
  have ids: "\<forall>x\<in>members (Q(obj \<mapsto> ys)) \<union> set D \<union> set W. ob_id s x = osRtxIdThread"
    using mem D(4-6) t by auto
  have rd: "ready s \<in> dom (Q(obj \<mapsto> ys))" using R by auto
  have tl: "\<And>zs. (Q(obj \<mapsto> ys)) NULL = Some zs \<Longrightarrow> set zs \<inter> (set D \<union> set W) = {}"
    using D(12) obj by auto
  show ?thesis
    unfolding sched_def using L D(2,3) ids rd dom srt' prev rdyl wl tl
    by (simp add: tnext_def)
qed

lemma sched_delays:
  assumes S: "sched s Q D W"
    and ok: "delays_ok (s\<lparr>delay := d, delay_next := dn, delay_prev := dp, delay_list := dl, wait_list := wl\<rparr>) D' W'"
    and ids: "\<And>t. t \<in> set D' \<union> set W' \<Longrightarrow> ob_id s t = osRtxIdThread"
    and rdy: "\<And>p t R. Q p = Some R \<Longrightarrow> p = ready s \<or> p = NULL \<Longrightarrow> t \<in> set R \<Longrightarrow> t \<notin> set D' \<union> set W'"
    and oth: "\<And>p xs. Q p = Some xs \<Longrightarrow> p \<noteq> NULL \<Longrightarrow> p \<noteq> ready s \<Longrightarrow> set xs \<subseteq> set D' \<union> set W'"
  shows "sched (s\<lparr>delay := d, delay_next := dn, delay_prev := dp, delay_list := dl, wait_list := wl\<rparr>) Q D' W'"
proof -
  obtain R where R: "Q (ready s) = Some R" by (rule sched_ready [OF S])
  have r: "\<forall>t\<in>set R. t \<notin> set D' \<and> t \<notin> set W'" using rdy [OF R] by auto
  have tl: "\<And>xs. Q NULL = Some xs \<Longrightarrow> set xs \<inter> (set D' \<union> set W') = {}" using rdy by blast
  have o: "\<forall>p xs. Q p = Some xs \<longrightarrow> p \<noteq> NULL \<longrightarrow> p \<noteq> ready s \<longrightarrow> set xs \<subseteq> set D' \<union> set W'" using oth by blast
  have i: "\<forall>t\<in>members Q \<union> set D' \<union> set W'. ob_id s t = osRtxIdThread" using ids schedD(4) [OF S] by blast
  show ?thesis
    using S R ok r tl o i unfolding sched_def by (simp add: tnext_def)
qed

lemma sched_state:
  assumes S: "sched s Q D W" and R: "Q (ready s) = Some R" and t: "t \<notin> set R"
  shows "sched (s\<lparr>ob_state := (ob_state s)(t := v)\<rparr>) Q D W"
proof -
  have "delays_ok (s\<lparr>ob_state := (ob_state s)(t := v)\<rparr>) D W = delays_ok s D W"
    by (simp add: delays_ok_def delay_ok_def dnext_def wait_ok_def wnext_def)
  with S R t show ?thesis unfolding sched_def by (auto simp: tnext_def)
qed

lemma ReadyPut_spec:
  assumes S: "sched s Q D W" and R: "Q (ready s) = Some R" and t: "loose s Q D W t"
  obtains s' where "osRtxThreadReadyPut t s = Some s'" "touched s s'"
    "sched s' (Q(ready s \<mapsto> pinsert (priority s) t R)) D W"
    "ob_state s' = (ob_state s)(t := osRtxThreadReady)" "run_next s' = run_next s" "mem s' = mem s"
    "delay s' = delay s"
proof -
  let ?s = "s\<lparr>ob_state := (ob_state s)(t := osRtxThreadReady)\<rparr>"
  note D = schedD [OF S]
  have L: "lists_ok (tnext ?s) (thread_prev ?s) Q" using D(1) by (simp add: tnext_def)
  have t': "t \<notin> members Q" "t \<notin> dom Q" "t \<noteq> NULL" "ob_id s t = osRtxIdThread" "t \<notin> set D" "t \<notin> set W"
    using t sched_not_dom [OF S] by (auto simp: loose_def)
  obtain n b where put: "osRtxThreadListPut (ready s) t ?s = Some (?s\<lparr>thread_next := n, thread_prev := b\<rparr>)"
    and L': "lists_ok (n(NULL := terminate_list ?s)) b (Q(ready s \<mapsto> pinsert (priority ?s) t R))"
    and b: "\<And>x. x \<notin> insert t (set R) \<Longrightarrow> b x = thread_prev ?s x"
    by (rule ListPut_spec [OF L R D(3) t'(1-3)]) blast
  have "sched (s\<lparr>ob_state := (ob_state s)(t := osRtxThreadReady), thread_next := n, thread_prev := b\<rparr>)
      (Q(ready s \<mapsto> pinsert (priority s) t R)) D W"
    by (rule sched_requeue [OF S R D(3), where t = t])
      (use L' b t' D(8) [OF R D(3)] in \<open>auto intro: sorted_pinsert\<close>)
  then show thesis
    using put t' by (intro that [of "?s\<lparr>thread_next := n, thread_prev := b\<rparr>"])
      (simp_all add: osRtxThreadReadyPut_def)
qed

lemma ListGet_sched:
  assumes S: "sched s Q D W" and Q: "Q obj = Some (t # xs)" and obj: "obj \<noteq> NULL"
  obtains s' where "osRtxThreadListGet obj s = Some (t, s')" "touched s s'"
    "sched s' (Q(obj \<mapsto> xs)) D W" "ob_state s' = ob_state s" "run_next s' = run_next s" "mem s' = mem s"
    "delay s' = delay s" "t \<noteq> NULL" "t \<notin> members (Q(obj \<mapsto> xs))" "ob_id s t = osRtxIdThread"
proof -
  note D = schedD [OF S]
  obtain n b where g: "osRtxThreadListGet obj s = Some (t, s\<lparr>thread_next := n, thread_prev := b\<rparr>)"
    and L': "lists_ok (n(NULL := terminate_list s)) b (Q(obj \<mapsto> xs))"
    and b: "\<And>x. x \<notin> set (t # xs) \<Longrightarrow> b x = thread_prev s x" "b t = NULL" and tn: "t \<noteq> NULL"
    by (rule ListGet_spec [OF D(1) Q obj]) blast
  have tm: "t \<in> members Q" by (rule membersI [where p = obj and xs = "t # xs"]) (use Q in simp_all)
  have id: "ob_id s t = osRtxIdThread" by (rule D(4) [OF tm])
  have "t \<notin> set xs" using dll_distinct [OF lists_ok_dll [OF D(1) Q]] by auto
  moreover have "t \<notin> set zs" if "Q p = Some zs" "p \<noteq> obj" for p zs
    using lists_ok_other [OF D(1) Q that(1)] that(2) by auto
  ultimately have nm: "t \<notin> members (Q(obj \<mapsto> xs))"
    by (auto simp: in_members split: if_splits)
  have "sched (s\<lparr>ob_state := ob_state s, thread_next := n, thread_prev := b\<rparr>) (Q(obj \<mapsto> xs)) D W"
  proof (rule sched_requeue [OF S Q obj, where t = t])
    show "lists_ok (n(NULL := terminate_list s)) b (Q(obj \<mapsto> xs))" by (rule L')
    show "by_priority (priority s) xs" using D(8) [OF Q obj] by simp
    show "b x = NULL" if "x \<in> insert t (set (t # xs))" "x \<notin> set xs" for x
      using that b(2) by auto
    show "t \<in> set D \<union> set W" if "obj \<noteq> ready s" "t \<in> set xs"
      using \<open>t \<notin> set xs\<close> that by simp
  qed (use b id \<open>t \<notin> set xs\<close> in auto)
  then show thesis
    using g tn nm id by (intro that [where s' = "s\<lparr>thread_next := n, thread_prev := b\<rparr>"]) simp_all
qed

lemma ListRemove_sched:
  assumes S: "sched s Q D W" and Q: "Q obj = Some xs" and obj: "obj \<noteq> NULL" and t: "t \<in> set xs"
  obtains s' where "osRtxThreadListRemove t s = Some s'" "touched s s'"
    "sched s' (Q(obj \<mapsto> remove1 t xs)) D W" "ob_state s' = ob_state s" "run_next s' = run_next s"
    "mem s' = mem s" "delay s' = delay s" "t \<noteq> NULL" "t \<notin> members (Q(obj \<mapsto> remove1 t xs))"
    "ob_id s t = osRtxIdThread" "delay_next s' = delay_next s"
proof -
  note D = schedD [OF S]
  obtain n b where g: "osRtxThreadListRemove t s = Some (s\<lparr>thread_next := n, thread_prev := b\<rparr>)"
    and L': "lists_ok (n(NULL := terminate_list s)) b (Q(obj \<mapsto> remove1 t xs))"
    and b: "\<And>x. x \<notin> set xs \<Longrightarrow> b x = thread_prev s x" "b t = NULL" and tn: "t \<noteq> NULL"
    by (rule ListRemove_spec [OF D(1) Q obj t]) blast
  have tm: "t \<in> members Q" by (rule membersI [where p = obj and xs = xs]) (use Q t in simp_all)
  have id: "ob_id s t = osRtxIdThread" by (rule D(4) [OF tm])
  have dst: "distinct xs" using dll_distinct [OF lists_ok_dll [OF D(1) Q]] by auto
  then have tr: "t \<notin> set (remove1 t xs)" by simp
  moreover have "t \<notin> set zs" if "Q p = Some zs" "p \<noteq> obj" for p zs
    using lists_ok_other [OF D(1) Q that(1)] that(2) t by auto
  ultimately have nm: "t \<notin> members (Q(obj \<mapsto> remove1 t xs))"
    by (auto simp: in_members split: if_splits)
  have "sched (s\<lparr>ob_state := ob_state s, thread_next := n, thread_prev := b\<rparr>) (Q(obj \<mapsto> remove1 t xs)) D W"
  proof (rule sched_requeue [OF S Q obj, where t = t])
    show "lists_ok (n(NULL := terminate_list s)) b (Q(obj \<mapsto> remove1 t xs))" by (rule L')
    show "by_priority (priority s) (remove1 t xs)" by (rule sorted_remove [OF D(8) [OF Q obj]])
    show "b x = NULL" if "x \<in> insert t (set xs)" "x \<notin> set (remove1 t xs)" for x
      using that b(2) t dst by auto
    show "set (remove1 t xs) \<subseteq> insert t (set xs)" using set_remove1_subset by fast
  qed (use b id tr t in auto)
  then show thesis
    using g tn nm id by (intro that [where s' = "s\<lparr>thread_next := n, thread_prev := b\<rparr>"]) simp_all
qed

lemma block_position:
  "forward n p xs \<Longrightarrow> block_pos pri n k p (n p) =
     Some (before p (takeWhile (\<lambda>x. pri x > k) xs), after (dropWhile (\<lambda>x. pri x > k) xs))"
proof (induction xs arbitrary: p)
  case Nil then show ?case by (subst block_pos.simps) simp
next
  case (Cons x xs)
  then have "block_pos pri n k x (n x) =
      Some (before x (takeWhile (\<lambda>x. pri x > k) xs), after (dropWhile (\<lambda>x. pri x > k) xs))"
    by simp
  with Cons.prems show ?case by (subst block_pos.simps) simp
qed

lemma binsert_split:
  "binsert f t xs = takeWhile (\<lambda>x. f x > f t) xs @ t # dropWhile (\<lambda>x. f x > f t) xs"
  by (induction xs) auto

lemma Block_spec:
  assumes S: "sched s Q D W" and R: "Q (ready s) = Some R" and t: "loose s Q D W t"
  obtains s' where "osRtxThreadBlock t s = Some s'" "touched s s'"
    "sched s' (Q(ready s \<mapsto> binsert (priority s) t R)) D W"
    "ob_state s' = (ob_state s)(t := osRtxThreadReady)" "run_next s' = run_next s" "mem s' = mem s"
    "delay s' = delay s"
proof -
  let ?s = "s\<lparr>ob_state := (ob_state s)(t := osRtxThreadReady)\<rparr>"
  note D = schedD [OF S]
  let ?P = "\<lambda>x. priority s x > priority s t"
  let ?as = "takeWhile ?P R" and ?bs = "dropWhile ?P R"
  have L: "lists_ok (tnext ?s) (thread_prev ?s) Q" using D(1) by (simp add: tnext_def)
  have t': "t \<notin> members Q" "t \<notin> dom Q" "t \<noteq> NULL" "ob_id s t = osRtxIdThread" "t \<notin> set D" "t \<notin> set W"
    using t sched_not_dom [OF S] by (auto simp: loose_def)
  have "forward (thread_next s) (ready s) R"
    using D(3) tnext_dll lists_ok_dll [OF D(1) R] by (simp add: dll_def)
  note pos = block_position [OF this, of "priority s" "priority s t"]
  have R': "Q (ready s) = Some (?as @ ?bs)" using R by simp
  note ins = insert_at [OF D(1) R' D(3) t'(1-3) refl refl]
  let ?n = "(thread_next s)(t := after ?bs, before (ready s) ?as := t)"
  let ?b = "if after ?bs \<noteq> NULL then (thread_prev s)(t := before (ready s) ?as, after ?bs := t)
                 else (thread_prev s)(t := before (ready s) ?as)"
  have "sched (s\<lparr>ob_state := (ob_state s)(t := osRtxThreadReady), thread_next := ?n, thread_prev := ?b\<rparr>)
      (Q(ready s \<mapsto> binsert (priority s) t R)) D W"
  proof (rule sched_requeue [OF S R D(3), where t = t])
    show "lists_ok (?n(NULL := terminate_list s)) ?b (Q(ready s \<mapsto> binsert (priority s) t R))"
      unfolding binsert_split by (rule conjunct1 [OF ins])
    show "?b x = thread_prev s x" if "x \<notin> insert t (set R)" for x
    proof -
      have "x \<notin> insert t (set ?bs)" using that by (auto dest: set_dropWhileD)
      then show ?thesis using conjunct1 [OF conjunct2 [OF ins]] by blast
    qed
  qed (use t' D(8) [OF R D(3)] in \<open>auto intro: sorted_binsert\<close>)
  then show thesis
    using t' pos by (intro that [of "?s\<lparr>thread_next := ?n, thread_prev := ?b\<rparr>"])
      (simp_all add: osRtxThreadBlock_def Let_def)
qed

lemma Switch_spec:
  assumes "t \<noteq> NULL" "stack_ok s"
  shows "osRtxThreadSwitch t s = Some (s\<lparr>ob_state := (ob_state s)(t := osRtxThreadRunning), run_next := t\<rparr>)"
  using assms by (auto simp: osRtxThreadSwitch_def osRtxThreadStackCheck_def Let_def stack_ok_def)

lemma stack_ok_cong:
  assumes "touched s s'" "mem s' = mem s" shows "stack_ok s' = stack_ok s"
  using touched_fields [OF assms(1)] assms(2)
  by (simp add: stack_ok_def osRtxThreadRegPtr_def)

text \<open>Dispatching a loose thread.\<close>

lemma Dispatch_thread:
  assumes S: "sched s Q D W" and R: "Q (ready s) = Some R" and t: "loose s Q D W t" and st: "stack_ok s"
    and r: "run_curr s \<noteq> NULL \<Longrightarrow> loose s Q D W (run_curr s) \<and> run_curr s \<noteq> t"
  obtains s' where "osRtxThreadDispatch t s = Some s'" "touched s s'" "mem s' = mem s" "delay s' = delay s"
    "if kernel_state s = osRtxKernelRunning \<and> run_curr s \<noteq> NULL \<and> priority s t > priority s (run_curr s)
     then sched s' (Q(ready s \<mapsto> binsert (priority s) (run_curr s) R)) D W \<and> run_next s' = t \<and>
          ob_state s' = (ob_state s)(run_curr s := osRtxThreadReady, t := osRtxThreadRunning)
     else sched s' (Q(ready s \<mapsto> pinsert (priority s) t R)) D W \<and> run_next s' = run_next s \<and>
          ob_state s' = (ob_state s)(t := osRtxThreadReady)"
proof (cases "kernel_state s = osRtxKernelRunning \<and> run_curr s \<noteq> NULL \<and> priority s t > priority s (run_curr s)")
  case True
  then have r': "loose s Q D W (run_curr s)" "run_curr s \<noteq> t" using r by auto
  obtain s1 where 1: "osRtxThreadBlock (run_curr s) s = Some s1" "touched s s1"
    "sched s1 (Q(ready s \<mapsto> binsert (priority s) (run_curr s) R)) D W"
    "ob_state s1 = (ob_state s)(run_curr s := osRtxThreadReady)" "run_next s1 = run_next s" "mem s1 = mem s"
    "delay s1 = delay s"
    by (rule Block_spec [OF S R r'(1)]) blast
  note f = touched_fields [OF 1(2)]
  have tn: "t \<noteq> NULL" using t by (simp add: loose_def)
  note sw = Switch_spec [OF tn, of s1]
  have st1: "stack_ok s1" using st stack_ok_cong [OF 1(2) 1(6)] by simp
  let ?s = "s1\<lparr>ob_state := (ob_state s1)(t := osRtxThreadRunning), run_next := t\<rparr>"
  have "sched (s1\<lparr>ob_state := (ob_state s1)(t := osRtxThreadRunning)\<rparr>)
     (Q(ready s \<mapsto> binsert (priority s) (run_curr s) R)) D W"
  proof (rule sched_state [OF 1(3)])
    show "(Q(ready s \<mapsto> binsert (priority s) (run_curr s) R)) (ready s1) = Some (binsert (priority s) (run_curr s) R)"
      by (simp add: f)
    have "t \<notin> set R" using t membersI [where p = "ready s" and xs = R and Q = Q] R by (auto simp: loose_def)
    then show "t \<notin> set (binsert (priority s) (run_curr s) R)" using r'(2) by simp
  qed
  then have "sched ?s (Q(ready s \<mapsto> binsert (priority s) (run_curr s) R)) D W"
    by simp
  with True 1 sw [OF st1] tn f show thesis
    by (intro that [of ?s]) (simp_all add: osRtxThreadDispatch_def Let_def)
next
  case False
  obtain s' where 1: "osRtxThreadReadyPut t s = Some s'" "touched s s'"
    "sched s' (Q(ready s \<mapsto> pinsert (priority s) t R)) D W"
    "ob_state s' = (ob_state s)(t := osRtxThreadReady)" "run_next s' = run_next s" "mem s' = mem s"
    "delay s' = delay s"
    by (rule ReadyPut_spec [OF S R t]) blast
  have "t \<noteq> NULL" using t by (simp add: loose_def)
  with False 1 show thesis
    by (intro that [of s']) (auto simp: osRtxThreadDispatch_def Let_def)
qed

lemma Dispatch_NULL:
  assumes S: "sched s Q D W" and R: "Q (ready s) = Some R" and st: "stack_ok s"
    and r: "run_curr s \<noteq> NULL \<Longrightarrow> loose s Q D W (run_curr s)"
  obtains s' where "osRtxThreadDispatch NULL s = Some s'" "touched s s'" "mem s' = mem s" "delay s' = delay s"
    "if kernel_state s = osRtxKernelRunning \<and> run_curr s \<noteq> NULL \<and> R \<noteq> [] \<and> priority s (hd R) > priority s (run_curr s)
     then sched s' (Q(ready s \<mapsto> binsert (priority s) (run_curr s) (tl R))) D W \<and> run_next s' = hd R \<and>
          ob_state s' = (ob_state s)(run_curr s := osRtxThreadReady, hd R := osRtxThreadRunning)
     else s' = s"
proof -
  note D = schedD [OF S]
  have hd: "thread_next s (ready s) = after R" by (rule list_head [OF D(1) R D(3)])
  have nn: "NULL \<notin> set R" using dll_nonnull [OF lists_ok_dll [OF D(1) R]] .
  show thesis
  proof (cases "kernel_state s = osRtxKernelRunning \<and> run_curr s \<noteq> NULL \<and> R \<noteq> [] \<and>
      priority s (hd R) > priority s (run_curr s)")
    case False
    then have "osRtxThreadDispatch NULL s = Some s"
      using hd nn by (cases R) (auto simp: osRtxThreadDispatch_def Let_def)
    with False show ?thesis by (intro that [of s]) auto
  next
    case True
    then obtain x xs where Rx: "R = x # xs" by (cases R) auto
    let ?r = "run_curr s"
    have r': "loose s Q D W ?r" using r True by simp
    have xR: "x \<in> set R" using Rx by simp
    obtain s1 where 1: "osRtxThreadListRemove x s = Some s1" "touched s s1"
      "sched s1 (Q(ready s \<mapsto> remove1 x R)) D W" "ob_state s1 = ob_state s" "run_next s1 = run_next s"
      "mem s1 = mem s" "delay s1 = delay s" "x \<noteq> NULL" "x \<notin> members (Q(ready s \<mapsto> remove1 x R))"
      by (rule ListRemove_sched [OF S R D(3) xR]) blast
    have Q1: "Q(ready s \<mapsto> remove1 x R) = Q(ready s \<mapsto> xs)" using Rx by simp
    note f1 = touched_fields [OF 1(2)]
    have rR: "?r \<notin> set R" using r' membersI [where p = "ready s" and xs = R and Q = Q] R by (auto simp: loose_def)
    have l1: "loose s1 (Q(ready s \<mapsto> xs)) D W ?r"
      using r' rR Rx by (auto simp: loose_def f1 in_members split: if_splits)
    obtain s2 where 2: "osRtxThreadBlock ?r s1 = Some s2" "touched s1 s2"
      "sched s2 ((Q(ready s \<mapsto> xs))(ready s1 \<mapsto> binsert (priority s1) ?r xs)) D W"
      "ob_state s2 = (ob_state s1)(?r := osRtxThreadReady)" "run_next s2 = run_next s1" "mem s2 = mem s1"
      "delay s2 = delay s1"
      by (rule Block_spec [OF 1(3) [unfolded Q1], of xs ?r]) (use l1 f1 in auto)
    note f2 = touched_fields [OF 2(2)]
    have S2: "sched s2 (Q(ready s \<mapsto> binsert (priority s) ?r xs)) D W" using 2(3) by (simp add: f1)
    have "stack_ok s2" using st stack_ok_cong [OF 1(2,6)] stack_ok_cong [OF 2(2,6)] by simp
    note sw = Switch_spec [OF 1(8) this]
    have "x \<noteq> ?r" using rR xR by auto
    moreover have "x \<notin> set xs" using dll_distinct [OF lists_ok_dll [OF D(1) R]] Rx by auto
    ultimately have "sched (s2\<lparr>ob_state := (ob_state s2)(x := osRtxThreadRunning)\<rparr>)
        (Q(ready s \<mapsto> binsert (priority s) ?r xs)) D W"
      by (intro sched_state [OF S2, where R = "binsert (priority s) ?r xs"]) (simp_all add: f1 f2)
    then have S3: "sched (s2\<lparr>ob_state := (ob_state s2)(x := osRtxThreadRunning), run_next := x\<rparr>)
        (Q(ready s \<mapsto> binsert (priority s) ?r xs)) D W"
      by simp
    show ?thesis
      using True 1 2 sw S3 Rx hd touched_trans [OF 1(2) 2(2)]
      by (intro that [of "s2\<lparr>ob_state := (ob_state s2)(x := osRtxThreadRunning), run_next := x\<rparr>"])
        (simp_all add: osRtxThreadDispatch_def Let_def f1)
  qed
qed

lemma DelayRemove_sched:
  assumes S: "sched s Q D W" and t: "t \<in> set D \<union> set W" "t \<notin> members Q"
  obtains s' where "osRtxThreadDelayRemove t s = Some s'" "touched s s'"
    "sched s' Q (remove1 t D) (remove1 t W)" "loose s' Q (remove1 t D) (remove1 t W) t"
    "due_times (delay s') 0 (remove1 t D) = filter (\<lambda>p. fst p \<noteq> t) (due_times (delay s) 0 D)"
    "ob_state s' = ob_state s" "run_next s' = run_next s" "mem s' = mem s"
proof -
  note D = schedD [OF S]
  have dk: "delay_ok s D" "wait_ok s W" "set D \<inter> set W = {}" using D(2) by (auto simp: delays_ok_def)
  have dst: "distinct D" "distinct W" "NULL \<notin> set D" "NULL \<notin> set W"
    using dk dll_distinct dll_nonnull by (fastforce simp: delay_ok_def wait_ok_def)+
  have id: "ob_id s t = osRtxIdThread" using t(1) D(5,6) by auto
  have tn: "t \<noteq> NULL" using t(1) dst by auto
  have sub: "set (remove1 t D) \<union> set (remove1 t W) = (set D \<union> set W) - {t}"
    using dst by auto
  have keep: "set xs \<subseteq> set (remove1 t D) \<union> set (remove1 t W)" if "Q p = Some xs" "p \<noteq> NULL" "p \<noteq> ready s" for p xs
    unfolding sub using D(11) [OF that] t(2) that(1) by (auto simp: in_members)
  have rdy: "x \<notin> set (remove1 t D) \<union> set (remove1 t W)"
    if "Q p = Some R" "p = ready s \<or> p = NULL" "x \<in> set R" for x p R
    unfolding sub using D(10) [of R x] D(12) [of R x] that by auto
  have ids: "ob_id s x = osRtxIdThread" if "x \<in> set (remove1 t D) \<union> set (remove1 t W)" for x
    using that D(5,6) unfolding sub by auto
  show thesis
  proof (cases "t \<in> set D")
    case True
    then have tW: "t \<notin> set W" using dk(3) by auto
    obtain f n b h where 1:
      "osRtxThreadDelayRemove t s = Some (s\<lparr>delay := f, delay_next := n, delay_prev := b, delay_list := h\<rparr>)"
      and ok: "delays_ok (s\<lparr>delay := f, delay_next := n, delay_prev := b, delay_list := h\<rparr>) (remove1 t D) W"
      and due: "due_times f 0 (remove1 t D) = filter (\<lambda>p. fst p \<noteq> t) (due_times (delay s) 0 D)"
      by (rule DelayRemove_delay [OF D(2) True]) blast
    have "sched (s\<lparr>delay := f, delay_next := n, delay_prev := b, delay_list := h, wait_list := wait_list s\<rparr>)
       Q (remove1 t D) (remove1 t W)"
      by (rule sched_delays [OF S _ ids rdy keep]) (use ok tW in \<open>simp_all add: remove1_idem\<close>)
    then show ?thesis
      using 1 due tW id tn t(2) dst
      by (intro that [of "s\<lparr>delay := f, delay_next := n, delay_prev := b, delay_list := h\<rparr>"])
        (simp_all add: loose_def remove1_idem)
  next
    case False
    then have tW: "t \<in> set W" using t(1) by auto
    obtain n b h where 1:
      "osRtxThreadDelayRemove t s = Some (s\<lparr>delay_next := n, delay_prev := b, wait_list := h\<rparr>)"
      and ok: "delays_ok (s\<lparr>delay_next := n, delay_prev := b, wait_list := h\<rparr>) D (remove1 t W)"
      by (rule DelayRemove_wait [OF D(2) tW]) blast
    have "sched (s\<lparr>delay := delay s, delay_next := n, delay_prev := b, delay_list := delay_list s, wait_list := h\<rparr>)
       Q (remove1 t D) (remove1 t W)"
      by (rule sched_delays [OF S _ ids rdy keep]) (use ok False in \<open>simp_all add: remove1_idem\<close>)
    moreover have "filter (\<lambda>p. fst p \<noteq> t) (due_times (delay s) a D) = due_times (delay s) a D" for a
      using False by (induction D arbitrary: a) auto
    ultimately show ?thesis
      using 1 False id tn t(2) dst
      by (intro that [of "s\<lparr>delay_next := n, delay_prev := b, wait_list := h\<rparr>"])
        (simp_all add: loose_def remove1_idem)
  qed
qed

lemma sched_mem_touched: "touched s (s\<lparr>mem := m\<rparr>)"
  by simp

lemma stack_ok_reg:
  assumes "stack_ok s" "ob_id s t = osRtxIdThread"
  shows "stack_ok (s\<lparr>mem := (mem s)(osRtxThreadRegPtr s t := v)\<rparr>)"
  using assms by (auto simp: stack_ok_def osRtxThreadRegPtr_def)

lemma loose_touched: "touched s s' \<Longrightarrow> loose s' Q D W t = loose s Q D W t"
  by (simp add: loose_def touched_fields)

lemma WaitExit_ready:
  assumes S: "sched s Q D W" and R: "Q (ready s) = Some R" and t: "t \<in> set D \<union> set W" "t \<notin> members Q"
  obtains s' where "osRtxThreadWaitExit t ret False s = Some s'" "touched s s'"
    "sched s' (Q(ready s \<mapsto> pinsert (priority s) t R)) (remove1 t D) (remove1 t W)"
    "ob_state s' = (ob_state s)(t := osRtxThreadReady)" "run_next s' = run_next s"
    "mem s' = (mem s)(osRtxThreadRegPtr s t := ret)"
    "due_times (delay s') 0 (remove1 t D) = filter (\<lambda>p. fst p \<noteq> t) (due_times (delay s) 0 D)"
proof -
  let ?s = "s\<lparr>mem := (mem s)(osRtxThreadRegPtr s t := ret)\<rparr>"
  have S0: "sched ?s Q D W" using S by simp
  obtain s1 where 1: "osRtxThreadDelayRemove t ?s = Some s1" "touched ?s s1"
    "sched s1 Q (remove1 t D) (remove1 t W)" "loose s1 Q (remove1 t D) (remove1 t W) t"
    "due_times (delay s1) 0 (remove1 t D) = filter (\<lambda>p. fst p \<noteq> t) (due_times (delay ?s) 0 D)"
    "ob_state s1 = ob_state ?s" "run_next s1 = run_next ?s" "mem s1 = mem ?s"
    by (rule DelayRemove_sched [OF S0 t]) blast
  note f = touched_fields [OF 1(2)]
  obtain s2 where 2: "osRtxThreadReadyPut t s1 = Some s2" "touched s1 s2"
    "sched s2 (Q(ready s1 \<mapsto> pinsert (priority s1) t R)) (remove1 t D) (remove1 t W)"
    "ob_state s2 = (ob_state s1)(t := osRtxThreadReady)" "run_next s2 = run_next s1" "mem s2 = mem s1"
    "delay s2 = delay s1"
    by (rule ReadyPut_spec [OF 1(3) _ 1(4), of R]) (use R f in auto)
  have "t \<noteq> NULL" using 1(4) by (simp add: loose_def)
  with 1 2 f touched_trans [OF _ 2(2), of s] touched_trans [OF sched_mem_touched 1(2)] show thesis
    by (intro that [of s2]) (simp_all add: osRtxThreadWaitExit_def Let_def)
qed

lemma WaitExit_dispatch:
  assumes S: "sched s Q D W" and R: "Q (ready s) = Some R" and t: "t \<in> set D \<union> set W" "t \<notin> members Q"
    and st: "stack_ok s" and r: "run_curr s \<noteq> NULL \<Longrightarrow> loose s Q D W (run_curr s)"
  obtains s' where "osRtxThreadWaitExit t ret True s = Some s'" "touched s s'"
    "mem s' = (mem s)(osRtxThreadRegPtr s t := ret)"
    "due_times (delay s') 0 (remove1 t D) = filter (\<lambda>p. fst p \<noteq> t) (due_times (delay s) 0 D)"
    "if kernel_state s = osRtxKernelRunning \<and> run_curr s \<noteq> NULL \<and> priority s t > priority s (run_curr s)
     then sched s' (Q(ready s \<mapsto> binsert (priority s) (run_curr s) R)) (remove1 t D) (remove1 t W) \<and>
          run_next s' = t \<and>
          ob_state s' = (ob_state s)(run_curr s := osRtxThreadReady, t := osRtxThreadRunning)
     else sched s' (Q(ready s \<mapsto> pinsert (priority s) t R)) (remove1 t D) (remove1 t W) \<and>
          run_next s' = run_next s \<and> ob_state s' = (ob_state s)(t := osRtxThreadReady)"
proof -
  let ?s = "s\<lparr>mem := (mem s)(osRtxThreadRegPtr s t := ret)\<rparr>"
  have S0: "sched ?s Q D W" using S by simp
  have id: "ob_id s t = osRtxIdThread" using t(1) schedD(5,6) [OF S] by auto
  obtain s1 where 1: "osRtxThreadDelayRemove t ?s = Some s1" "touched ?s s1"
    "sched s1 Q (remove1 t D) (remove1 t W)" "loose s1 Q (remove1 t D) (remove1 t W) t"
    "due_times (delay s1) 0 (remove1 t D) = filter (\<lambda>p. fst p \<noteq> t) (due_times (delay ?s) 0 D)"
    "ob_state s1 = ob_state ?s" "run_next s1 = run_next ?s" "mem s1 = mem ?s"
    by (rule DelayRemove_sched [OF S0 t]) blast
  note f = touched_fields [OF 1(2)]
  have st1: "stack_ok s1"
    using stack_ok_reg [OF st id] stack_ok_cong [OF 1(2,8)] by simp
  have r1: "loose s1 Q (remove1 t D) (remove1 t W) (run_curr s1) \<and> run_curr s1 \<noteq> t" if "run_curr s1 \<noteq> NULL"
    using r that t(1) f by (auto simp: loose_def dest: notin_set_remove1)
  obtain s2 where 2: "osRtxThreadDispatch t s1 = Some s2" "touched s1 s2" "mem s2 = mem s1" "delay s2 = delay s1"
    "if kernel_state s1 = osRtxKernelRunning \<and> run_curr s1 \<noteq> NULL \<and> priority s1 t > priority s1 (run_curr s1)
     then sched s2 (Q(ready s1 \<mapsto> binsert (priority s1) (run_curr s1) R)) (remove1 t D) (remove1 t W) \<and> run_next s2 = t \<and>
          ob_state s2 = (ob_state s1)(run_curr s1 := osRtxThreadReady, t := osRtxThreadRunning)
     else sched s2 (Q(ready s1 \<mapsto> pinsert (priority s1) t R)) (remove1 t D) (remove1 t W) \<and> run_next s2 = run_next s1 \<and>
          ob_state s2 = (ob_state s1)(t := osRtxThreadReady)"
    by (rule Dispatch_thread [OF 1(3) _ 1(4) st1 r1, of R]) (use R f in auto)
  have "t \<noteq> NULL" using 1(4) by (simp add: loose_def)
  then show thesis
    using 1 2(5) [unfolded f 1(6,7)] 2(1-4) touched_trans [OF _ 2(2), of s] touched_trans [OF sched_mem_touched 1(2)]
    by (intro that [of s2])
      (simp_all add: osRtxThreadWaitExit_def Let_def cong: if_cong)
qed

lemma DelayInsert_sched:
  assumes S: "sched s Q D W" and t: "loose s Q D W t" and d: "d \<noteq> 0"
  obtains s' D' W' where "osRtxThreadDelayInsert t d s = Some s'" "touched s s'" "sched s' Q D' W'"
    "delayed s D W t d s' D' W'" "ob_state s' = ob_state s" "run_next s' = run_next s" "mem s' = mem s"
proof -
  note D = schedD [OF S]
  have t': "t \<noteq> NULL" "ob_id s t = osRtxIdThread" "t \<notin> members Q" "t \<notin> set D" "t \<notin> set W"
    using t by (auto simp: loose_def)
  have sub: "set xs \<subseteq> set D' \<union> set W'"
    if "Q p = Some xs" "p \<noteq> NULL" "p \<noteq> ready s" "set D' \<union> set W' = insert t (set D \<union> set W)" for p xs D' W'
    unfolding that(4) using D(11) [OF that(1-3)] by auto
  have rdy: "x \<notin> set D' \<union> set W'"
    if "Q p = Some R" "p = ready s \<or> p = NULL" "x \<in> set R" "set D' \<union> set W' = insert t (set D \<union> set W)" for x p R D' W'
    unfolding that(4) using D(10) [of R x] D(12) [of R x] t'(3) membersI [where p = p and xs = R and x = x and Q = Q] that
    by auto
  have ids: "ob_id s x = osRtxIdThread" if "x \<in> set D' \<union> set W'" "set D' \<union> set W' = insert t (set D \<union> set W)" for x D' W'
    using that(1) D(5,6) t'(2) unfolding that(2) by auto
  show thesis
  proof (cases "d = osWaitForever")
    case False
    obtain f n b h D' where 1:
      "osRtxThreadDelayInsert t d s = Some (s\<lparr>delay := f, delay_next := n, delay_prev := b, delay_list := h\<rparr>)"
      and ok: "delays_ok (s\<lparr>delay := f, delay_next := n, delay_prev := b, delay_list := h\<rparr>) D' W"
      and due: "due_times f 0 D' = due_insert t (unat d) (due_times (delay s) 0 D)" "set D' = insert t (set D)"
      by (rule DelayInsert_delay [OF D(2) t'(4,5,1) d False]) blast
    have u: "set D' \<union> set W = insert t (set D \<union> set W)" using due(2) by simp
    have "sched (s\<lparr>delay := f, delay_next := n, delay_prev := b, delay_list := h, wait_list := wait_list s\<rparr>) Q D' W"
      by (rule sched_delays [OF S _ ids [OF _ u] rdy [OF _ _ _ u] sub [OF _ _ _ u]]) (use ok in simp_all)
    with 1 due False u show ?thesis
      by (intro that [of "s\<lparr>delay := f, delay_next := n, delay_prev := b, delay_list := h\<rparr>" D' W])
        (simp_all add: delayed_def)
  next
    case True
    obtain n b h where 1: "osRtxThreadDelayInsert t osWaitForever s =
       Some (s\<lparr>delay := (delay s)(t := osWaitForever), delay_next := n, delay_prev := b, wait_list := h\<rparr>)"
      and ok: "delays_ok (s\<lparr>delay := (delay s)(t := osWaitForever), delay_next := n, delay_prev := b, wait_list := h\<rparr>)
         D (W @ [t])"
      by (rule DelayInsert_wait [OF D(2) t'(4,5,1)]) blast
    have u: "set D \<union> set (W @ [t]) = insert t (set D \<union> set W)" by auto
    have "sched (s\<lparr>delay := (delay s)(t := osWaitForever), delay_next := n, delay_prev := b,
        delay_list := delay_list s, wait_list := h\<rparr>) Q D (W @ [t])"
      by (rule sched_delays [OF S _ ids [OF _ u] rdy [OF _ _ _ u] sub [OF _ _ _ u]]) (use ok in simp_all)
    with 1 True u t'(4) show ?thesis
      by (intro that [of "s\<lparr>delay := (delay s)(t := osWaitForever), delay_next := n, delay_prev := b, wait_list := h\<rparr>"
            D "W @ [t]"]) (simp_all add: delayed_def)
  qed
qed

lemma delayed_cong:
  "delay s1 = delay s \<Longrightarrow> delay s2 = delay s' \<Longrightarrow> delayed s1 D W t d s2 D' W' = delayed s D W t d s' D' W'"
  by (simp add: delayed_def)

lemma WaitEnter_no:
  "kernel_state s \<noteq> osRtxKernelRunning \<or> run_curr s = NULL \<or> thread_next s (ready s) = NULL \<Longrightarrow>
   osRtxThreadWaitEnter st d s = Some (False, s)"
  by (auto simp: osRtxThreadWaitEnter_def Let_def)

lemma WaitEnter_spec:
  assumes S: "sched s Q D W" and R: "Q (ready s) = Some (x # xs)" and d: "d \<noteq> 0"
    and t: "loose s Q D W (run_curr s)" and k: "kernel_state s = osRtxKernelRunning" and so: "stack_ok s"
  obtains s' D' W' where "osRtxThreadWaitEnter st d s = Some (True, s')" "touched s s'"
    "sched s' (Q(ready s \<mapsto> xs)) D' W'" "delayed s D W (run_curr s) d s' D' W'"
    "ob_state s' = (ob_state s)(run_curr s := st, x := osRtxThreadRunning)" "run_next s' = x" "mem s' = mem s"
    "x \<notin> members (Q(ready s \<mapsto> xs))" "x \<noteq> run_curr s" "run_curr s \<notin> members (Q(ready s \<mapsto> xs))"
    "x \<notin> set D'" "x \<notin> set W'"
proof -
  let ?r = "run_curr s" and ?s = "s\<lparr>ob_state := (ob_state s)(run_curr s := st)\<rparr>"
  note DD = schedD [OF S]
  have r: "?r \<notin> members Q" "?r \<noteq> NULL" using t by (auto simp: loose_def)
  have rR: "?r \<notin> set (x # xs)" using r(1) R unfolding in_members by blast
  have S0: "sched ?s Q D W" by (rule sched_state [OF S R rR])
  have t0: "loose ?s Q D W ?r" using t by (simp add: loose_def)
  obtain s1 D' W' where 1: "osRtxThreadDelayInsert ?r d ?s = Some s1" "touched ?s s1" "sched s1 Q D' W'"
    "delayed ?s D W ?r d s1 D' W'" "ob_state s1 = ob_state ?s" "run_next s1 = run_next ?s" "mem s1 = mem ?s"
    by (rule DelayInsert_sched [OF S0 t0 d]) blast
  note f = touched_fields [OF 1(2)]
  have R1: "Q (ready s1) = Some (x # xs)" "ready s1 \<noteq> NULL" using R DD(3) f by simp_all
  obtain s2 where 2: "osRtxThreadListGet (ready s1) s1 = Some (x, s2)" "touched s1 s2"
    "sched s2 (Q(ready s1 \<mapsto> xs)) D' W'" "ob_state s2 = ob_state s1" "run_next s2 = run_next s1" "mem s2 = mem s1"
    "delay s2 = delay s1" "x \<noteq> NULL" "x \<notin> members (Q(ready s1 \<mapsto> xs))" "ob_id s1 x = osRtxIdThread"
    by (rule ListGet_sched [OF 1(3) R1]) blast
  note f2 = touched_fields [OF 2(2)]
  have so2: "stack_ok s2"
    using so stack_ok_cong [OF 1(2,7)] stack_ok_cong [OF 2(2,6)] by (simp add: stack_ok_def osRtxThreadRegPtr_def)
  have xs: "x \<notin> set xs" using dll_distinct [OF lists_ok_dll [OF DD(1) R]] by simp
  have "sched (s2\<lparr>ob_state := (ob_state s2)(x := osRtxThreadRunning)\<rparr>) (Q(ready s1 \<mapsto> xs)) D' W'"
    by (rule sched_state [OF 2(3), where R = xs]) (simp_all add: f2 xs)
  then have S3: "sched (s2\<lparr>ob_state := (ob_state s2)(x := osRtxThreadRunning), run_next := x\<rparr>)
      (Q(ready s1 \<mapsto> xs)) D' W'" by simp
  have hd: "thread_next s (ready s) = x"
    using dll_hd [OF lists_ok_dll [OF DD(1) R]] DD(3) by (simp add: tnext_def)
  have xD: "x \<notin> set D \<union> set W" using DD(10) [OF R, of x] by simp
  have u: "set D' \<union> set W' = insert ?r (set D \<union> set W)" using 1(4) by (simp add: delayed_def)
  have xDW: "x \<notin> set D' \<union> set W'" unfolding u using xD rR by auto
  have tr: "touched s s1" using 1(2) by (simp add: touched_def core_def)
  have dl3: "delayed s D W ?r d (s2\<lparr>ob_state := (ob_state s2)(x := osRtxThreadRunning), run_next := x\<rparr>) D' W'"
    using 1(4) by (rule delayed_cong [THEN iffD1, rotated 2]) (simp_all add: 2(7))
  have "members (Q(ready s \<mapsto> xs)) \<subseteq> members Q"
    by (rule members_upd_sub [of Q "ready s" "x # xs"]) (use R in auto)
  with r(1) have rm: "?r \<notin> members (Q(ready s \<mapsto> xs))" by blast
  show thesis
    using 1 2 k r(2) hd f xDW Switch_spec [OF 2(8) so2] S3 rR touched_trans [OF tr 2(2)] dl3 rm
    by (intro that [of "s2\<lparr>ob_state := (ob_state s2)(x := osRtxThreadRunning), run_next := x\<rparr>" D' W'])
      (auto simp: osRtxThreadWaitEnter_def Let_def)
qed

end
