(* ===== verification/SchedInv.thy ===== *)
theory SchedInv
  imports RtxSched
begin

text \<open>
  What the kernel's handlers keep: the tick on the delay list and the invariant \<open>settled\<close>, that
  the thread chosen to run is in no list, is in state Running and no ready thread has a higher
  priority. The lemmas on blocking on an object, waking its first waiter and unblocking all of
  them are shared by semaphores, mutexes, event flags, memory pools and message queues.
\<close>

unbundle bit_operations_syntax

section \<open>Specification vocabulary\<close>

text \<open>Waking a thread that may wait in an object's list: it moves to the ready list.\<close>

definition strip :: "ptr \<Rightarrow> (ptr \<rightharpoonup> ptr list) \<Rightarrow> ptr \<rightharpoonup> ptr list" where
  "strip t Q = map_option (remove1 t) \<circ> Q"

definition wake :: "(ptr \<Rightarrow> int) \<Rightarrow> ptr \<Rightarrow> ptr \<Rightarrow> (ptr \<rightharpoonup> ptr list) \<Rightarrow> ptr \<rightharpoonup> ptr list" where
  "wake pri rdy t Q = (strip t Q)(rdy \<mapsto> pinsert pri t (the (Q rdy)))"

definition timers :: "(ptr \<Rightarrow> u32) \<Rightarrow> (ptr \<Rightarrow> ptr) \<Rightarrow> ptr \<Rightarrow> rtx \<Rightarrow> rtx" where
  "timers d p h s = s\<lparr>delay := d, delay_prev := p, delay_list := h\<rparr>"

text \<open>The threads due at the next tick, and the due times of the others after it.\<close>

definition due_now :: "rtx \<Rightarrow> ptr list \<Rightarrow> ptr list" where
  "due_now s D = map fst (filter (\<lambda>p. snd p = 1) (due_times (delay s) 0 D))"

definition due_later :: "rtx \<Rightarrow> ptr list \<Rightarrow> (ptr \<times> nat) list" where
  "due_later s D = map (\<lambda>(t, e). (t, e - 1)) (filter (\<lambda>p. snd p \<noteq> 1) (due_times (delay s) 0 D))"

text \<open>The state between two handlers; the context switch then makes \<open>run_next\<close> the running thread.\<close>

definition settled :: "rtx \<Rightarrow> (ptr \<rightharpoonup> ptr list) \<Rightarrow> ptr list \<Rightarrow> ptr list \<Rightarrow> bool" where
  "settled s Q D W \<longleftrightarrow> sched s Q D W \<and> loose s Q D W (run_next s) \<and>
     kernel_state s = osRtxKernelRunning \<and> ob_state s (run_next s) = osRtxThreadRunning \<and>
     (\<forall>x\<in>set (the (Q (ready s))). priority s x \<le> priority s (run_next s))"

text \<open>A handler starts with no switch pending and an intact stack of the running thread.\<close>

definition entered :: "rtx \<Rightarrow> (ptr \<rightharpoonup> ptr list) \<Rightarrow> ptr list \<Rightarrow> ptr list \<Rightarrow> bool" where
  "entered s Q D W \<longleftrightarrow> settled s Q D W \<and> run_curr s = run_next s \<and> stack_ok s"

text \<open>
  A thread's state tells where it is: a ready thread is in the ready list, only the chosen thread is
  running, a blocked one is in the delay or the wait list. The threads of \<open>X\<close> are on their way.
\<close>

definition tstates :: "ptr set \<Rightarrow> rtx \<Rightarrow> (ptr \<rightharpoonup> ptr list) \<Rightarrow> ptr list \<Rightarrow> ptr list \<Rightarrow> bool" where
  "tstates X s Q D W \<longleftrightarrow> (\<forall>t. ob_id s t = osRtxIdThread \<longrightarrow> t \<notin> X \<longrightarrow>
     (ob_state s t AND osRtxThreadStateMask = osRtxThreadReady \<longrightarrow> t \<in> set (the (Q (ready s)))) \<and>
     (ob_state s t AND osRtxThreadStateMask = osRtxThreadRunning \<longrightarrow> t = run_next s) \<and>
     (ob_state s t AND osRtxThreadStateMask = osRtxThreadBlocked \<longrightarrow> t \<in> set D \<union> set W))"

text \<open>Repeated ticks; the delay lists as a timed queue whose released threads join the ready list.\<close>

fun repeat_tick :: "('s \<Rightarrow> 's option) \<Rightarrow> nat \<Rightarrow> 's \<Rightarrow> 's option" where
  "repeat_tick tick 0 s = Some s"
| "repeat_tick tick (Suc n) s = do { s \<leftarrow> repeat_tick tick n s; tick s }"

definition timed_rep :: "ptr list \<Rightarrow> ptr set \<Rightarrow> rtx \<Rightarrow> (ptr \<times> nat) list \<Rightarrow> ptr list \<Rightarrow> bool" where
  "timed_rep W R0 s ps rs \<longleftrightarrow>
     (\<exists>Q D R. sched s Q D W \<and> due_times (delay s) 0 D = ps \<and> Q (ready s) = Some R \<and> set R = R0 \<union> set rs)"

section \<open>A concrete configuration\<close>

text \<open>
  Five threads: 0x1000 runs at normal priority (24), 0x2000 (24) and the idle thread 0x3000 (1)
  are ready, 0x4000 (40) waits for ever on the semaphore 0x5000, 0x6000 (24) is delayed by five
  ticks. The other objects have no waiters. It is the input of most concrete instances below.
\<close>

definition blank :: rtx where
  "blank = \<lparr>ob_id = \<lambda>_. 0, ob_state = \<lambda>_. 0, ob_flags = \<lambda>_. 0, ob_attr = \<lambda>_. 0, ob_name = \<lambda>_. 0,
     thread_next = \<lambda>_. 0, thread_prev = \<lambda>_. 0, delay_next = \<lambda>_. 0, delay_prev = \<lambda>_. 0,
     thread_join = \<lambda>_. 0, delay = \<lambda>_. 0, priority = \<lambda>_. 0, priority_base = \<lambda>_. 0, stack_frame = \<lambda>_. 0xFD,
     flags_options = \<lambda>_. 0, wait_flags = \<lambda>_. 0, thread_flags = \<lambda>_. 0, mutex_list = \<lambda>_. 0, stack_mem = \<lambda>_. 0,
     stack_size = \<lambda>_. 0, sp = \<lambda>_. 0, thread_addr = \<lambda>_. 0, context_ptr = \<lambda>_. 0, owner_thread = \<lambda>_. 0,
     owner_prev = \<lambda>_. 0, owner_next = \<lambda>_. 0, lock_count = \<lambda>_. 0, event_flags = \<lambda>_. 0, tokens = \<lambda>_. 0,
     max_tokens = \<lambda>_. 0, max_blocks = \<lambda>_. 0, used_blocks = \<lambda>_. 0, block_size = \<lambda>_. 0, block_base = \<lambda>_. 0,
     block_lim = \<lambda>_. 0, block_free = \<lambda>_. 0, msg_size = \<lambda>_. 0, msg_count = \<lambda>_. 0, msg_first = \<lambda>_. 0,
     msg_last = \<lambda>_. 0, msg_prev = \<lambda>_. 0, msg_next = \<lambda>_. 0, msg_priority = \<lambda>_. 0, timer_prev = \<lambda>_. 0,
     timer_next = \<lambda>_. 0, timer_ticks = \<lambda>_. 0, timer_load = \<lambda>_. 0, msg_mq = \<lambda>_. 0, mem = \<lambda>_. 0, bytes = \<lambda>_. 0,
     kernel_state = 0, kernel_blocked = 0, kernel_pendSV = 0, kernel_tick = 0, run_curr = 0, run_next = 0,
     ready = 0x100, idle_thread = 0, delay_list = 0, wait_list = 0, terminate_list = 0, robin_thread = 0,
     robin_tick = 0, robin_timeout = 0, timer_list = 0, timer_thread = 0, timer_mq = 0, timer_tick_set = False,
     isr_max = 16, isr_cnt = 0, isr_in = 0, isr_out = 0, isr_data = \<lambda>_. 0, mem_stack = 0, mem_mp_data = 0,
     mem_mq_data = 0, mem_common = 0, mpi_stack = 0, mpi_thread = 0, mpi_timer = 0, mpi_event_flags = 0,
     mpi_mutex = 0, mpi_semaphore = 0, mpi_memory_pool = 0, mpi_message_queue = 0, config_flags = 0,
     config_stack_size = 1024, ipsr = 0, primask = 0, basepri = 0, psp = 0, pendsv_set = False\<rparr>"

definition demo :: rtx where
  "demo = blank
     \<lparr>ob_id := (\<lambda>_. 0)(0x1000 := 1, 0x2000 := 1, 0x3000 := 1, 0x4000 := 1, 0x6000 := 1,
         0x5000 := 5, 0x5100 := 4, 0x5200 := 3, 0x5300 := 6, 0x5400 := 8),
      ob_state := (\<lambda>_. 0)(0x1000 := osRtxThreadRunning, 0x2000 := osRtxThreadReady, 0x3000 := osRtxThreadReady,
         0x4000 := osRtxThreadWaitingSemaphore, 0x6000 := osRtxThreadWaitingDelay,
         0x5000 := 1, 0x5100 := 1, 0x5200 := 1, 0x5300 := 1, 0x5400 := 1),
      priority := (\<lambda>_. 0)(0x1000 := 24, 0x2000 := 24, 0x3000 := 1, 0x4000 := 40, 0x6000 := 24),
      priority_base := (\<lambda>_. 0)(0x1000 := 24, 0x2000 := 24, 0x3000 := 1, 0x4000 := 40, 0x6000 := 24),
      thread_next := (\<lambda>_. 0)(0x100 := 0x2000, 0x2000 := 0x3000, 0x5000 := 0x4000),
      thread_prev := (\<lambda>_. 0)(0x2000 := 0x100, 0x3000 := 0x2000, 0x4000 := 0x5000),
      delay := (\<lambda>_. 0)(0x4000 := osWaitForever, 0x6000 := 5),
      delay_list := 0x6000, wait_list := 0x4000,
      stack_mem := (\<lambda>_. 0)(0x1000 := 0x10000, 0x2000 := 0x20000, 0x3000 := 0x30000, 0x4000 := 0x40000, 0x6000 := 0x60000),
      stack_size := (\<lambda>_. 1024),
      sp := (\<lambda>_. 0)(0x1000 := 0x10200, 0x2000 := 0x20200, 0x3000 := 0x30200, 0x4000 := 0x40200, 0x6000 := 0x60200),
      mem := (\<lambda>_. 0)(0x10000 := osRtxStackMagicWord, 0x20000 := osRtxStackMagicWord, 0x30000 := osRtxStackMagicWord,
         0x40000 := osRtxStackMagicWord, 0x60000 := osRtxStackMagicWord),
      max_tokens := (\<lambda>_. 0)(0x5000 := 3),
      kernel_state := osRtxKernelRunning, run_curr := 0x1000, run_next := 0x1000, psp := 0x10220\<rparr>"

definition demo_lists :: "ptr \<rightharpoonup> ptr list" where
  "demo_lists = [0 \<mapsto> [], 0x100 \<mapsto> [0x2000, 0x3000], 0x5000 \<mapsto> [0x4000], 0x5100 \<mapsto> [], 0x5200 \<mapsto> [],
     0x5300 \<mapsto> [], 0x5400 \<mapsto> []]"

section \<open>The tick on the delay list\<close>

lemma strip_none: "t \<notin> members Q \<Longrightarrow> strip t Q = Q"
  by (rule ext) (auto simp: strip_def in_members remove1_idem map_option_case split: option.split)

lemma strip_one:
  assumes "lists_ok n b Q" "Q p = Some xs" "t \<in> set xs" shows "strip t Q = Q(p \<mapsto> remove1 t xs)"
proof
  fix q show "strip t Q q = (Q(p \<mapsto> remove1 t xs)) q"
  proof (cases "q = p")
    case True then show ?thesis using assms(2) by (simp add: strip_def)
  next
    case False
    then have "t \<notin> set ys" if "Q q = Some ys" for ys
      using lists_ok_other [OF assms(1,2) that] assms(3) by auto
    with False show ?thesis by (cases "Q q") (auto simp: strip_def remove1_idem)
  qed
qed

lemma ListRemove_strip:
  assumes S: "sched s Q D W" and t: "t \<in> set D \<union> set W"
  obtains s' where "osRtxThreadListRemove t s = Some s'" "touched s s'" "sched s' (strip t Q) D W"
    "ob_state s' = ob_state s" "run_next s' = run_next s" "mem s' = mem s" "delay s' = delay s"
    "delay_next s' = delay_next s" "t \<notin> members (strip t Q)"
proof (cases "t \<in> members Q")
  case False
  note D = schedD [OF S]
  have id: "ob_id s t = osRtxIdThread" using t D(5,6) by auto
  have dk: "delay_ok s D" "wait_ok s W" using D(2) by (auto simp: delays_ok_def)
  have tn: "t \<noteq> NULL"
    using t dk dll_nonnull unfolding delay_ok_def wait_ok_def by blast
  have "osRtxThreadListRemove t s = Some s"
    by (rule ListRemove_unlinked) (use tn D(9) [OF id False] in auto)
  then show ?thesis using S False strip_none [OF False] by (intro that [of s]) auto
next
  case True
  then obtain p xs where p: "Q p = Some xs" "t \<in> set xs" by (auto simp: in_members)
  have pn: "p \<noteq> NULL" using schedD(12) [OF S] p t by auto
  obtain s' where "osRtxThreadListRemove t s = Some s'" "touched s s'"
    "sched s' (Q(p \<mapsto> remove1 t xs)) D W" "ob_state s' = ob_state s" "run_next s' = run_next s"
    "mem s' = mem s" "delay s' = delay s" "t \<notin> members (Q(p \<mapsto> remove1 t xs))"
    "delay_next s' = delay_next s"
    by (rule ListRemove_sched [OF S p(1) pn p(2)]) blast
  then show ?thesis by (intro that [of s']) (simp_all add: strip_one [OF schedD(1) [OF S] p])
qed

lemma ListRemove_timers:
  "osRtxThreadListRemove t (timers d p h s) = map_option (timers d p h) (osRtxThreadListRemove t s)"
  by (simp add: osRtxThreadListRemove_def timers_def Let_def guard_def)

lemma ReadyPut_timers:
  "osRtxThreadReadyPut t (timers d p h s) = map_option (timers d p h) (osRtxThreadReadyPut t s)"
  by (simp add: osRtxThreadReadyPut_def osRtxThreadListPut_def timers_def Let_def guard_def split: Option.bind_split prod.split)

lemma timers_timers [simp]: "timers d p h (timers d' p' h' s) = timers d p h s"
  by (simp add: timers_def)

lemma timers_sel [simp]:
  "delay (timers d p h s) = d" "delay_prev (timers d p h s) = p" "delay_list (timers d p h s) = h"
  "delay_next (timers d p h s) = delay_next s" "wait_list (timers d p h s) = wait_list s"
  "ready (timers d p h s) = ready s" "priority (timers d p h s) = priority s"
  "ob_state (timers d p h s) = ob_state s" "ob_id (timers d p h s) = ob_id s"
  "run_next (timers d p h s) = run_next s" "mem (timers d p h s) = mem s"
  "touched s' (timers d p h s) = touched s' s"
  "touched (timers d p h s) s' = touched s s'"
  by (simp_all add: timers_def touched_def core_def)

lemma expire_head:
  assumes S: "sched s Q (x # xs) W" and x: "delay s x = 1"
  defines "y \<equiv> after xs"
  shows "osRtxThreadDelayRemove x s = Some (timers (if y \<noteq> NULL then (delay s)(y := delay s y + 1) else delay s)
      (if y \<noteq> NULL then (delay_prev s)(y := NULL) else delay_prev s) y s)"
    "delay_next s x = y" "x \<notin> set W"
proof -
  have dk: "delay_ok s (x # xs)" "set (x # xs) \<inter> set W = {}" using schedD(2) [OF S] by (auto simp: delays_ok_def)
  then have dl: "dll (dnext s) (delay_prev s) NULL ([] @ x # xs)" by (simp add: delay_ok_def)
  note L = dll_links [OF dl]
  have "x \<noteq> NULL" using L(4) .
  then show "delay_next s x = y" using L(2) by (simp add: dnext_def y_def)
  moreover have "delay_list s = x" using L(3) by (simp add: dnext_def)
  moreover have "delay_prev s x = NULL" using L(1) by simp
  ultimately show "osRtxThreadDelayRemove x s = Some (timers (if y \<noteq> NULL then (delay s)(y := delay s y + 1) else delay s)
      (if y \<noteq> NULL then (delay_prev s)(y := NULL) else delay_prev s) y s)"
    using \<open>x \<noteq> NULL\<close> x
    by (cases "y = x") (simp_all add: osRtxThreadDelayRemove_def Let_def timers_def)
  show "x \<notin> set W" using dk(2) by auto
qed

lemma expire_step:
  assumes S: "sched (timers d p x s) Q (x # xs) W" and x: "d x = 1" and y: "y = after xs"
  obtains s1 s' where "osRtxThreadListRemove x s = Some s1" "osRtxThreadReadyPut x s1 = Some s'"
    "touched s s'" "delay_next s' x = y" "delay s' = delay s" "delay_prev s' = delay_prev s" 
    "sched (timers (if y \<noteq> NULL then d(y := d y + 1) else d) (if y \<noteq> NULL then p(y := NULL) else p) y s')
       (wake (priority s) (ready s) x Q) xs W"
    "ob_state s' = (ob_state s)(x := osRtxThreadReady)" "run_next s' = run_next s" "mem s' = mem s"
proof -
  let ?A = "timers d p x s"
  have xD: "x \<in> set (x # xs) \<union> set W" by simp
  obtain A1 where 1: "osRtxThreadListRemove x ?A = Some A1" "touched ?A A1" "sched A1 (strip x Q) (x # xs) W"
    "ob_state A1 = ob_state ?A" "run_next A1 = run_next ?A" "mem A1 = mem ?A" "delay A1 = delay ?A"
    "delay_next A1 = delay_next ?A" "x \<notin> members (strip x Q)"
    by (rule ListRemove_strip [OF S xD]) blast
  from 1(1) obtain s1 where s1: "osRtxThreadListRemove x s = Some s1" "A1 = timers d p x s1"
    by (auto simp: ListRemove_timers)
  note f1 = touched_fields [OF 1(2)]
  have fr: "delay s1 = delay s" "delay_prev s1 = delay_prev s"
    using s1(1) by (auto simp: osRtxThreadListRemove_def Let_def split: if_splits)
  let ?d = "if y \<noteq> NULL then d(y := d y + 1) else d" and ?p = "if y \<noteq> NULL then p(y := NULL) else p"
  have "delay A1 x = 1" using x 1(7) by simp
  note e = expire_head [OF 1(3) this]
  have rm: "osRtxThreadDelayRemove x A1 = Some (timers ?d ?p y s1)" using e(1) y by (simp add: s1(2))
  obtain A2 where 2: "osRtxThreadDelayRemove x A1 = Some A2"
    "sched A2 (strip x Q) (remove1 x (x # xs)) (remove1 x W)" "loose A2 (strip x Q) (remove1 x (x # xs)) (remove1 x W) x"
    by (rule DelayRemove_sched [OF 1(3) xD 1(9)]) blast
  have A2: "A2 = timers ?d ?p y s1" using 2(1) rm by simp
  have S2: "sched (timers ?d ?p y s1) (strip x Q) xs W" and l2: "loose (timers ?d ?p y s1) (strip x Q) xs W x"
    using 2(2,3) e(3) by (simp_all add: A2 remove1_idem)
  obtain R where R: "Q (ready s) = Some R" by (rule sched_ready [OF S]) simp
  have xR: "x \<notin> set R" using schedD(10) [OF S, of R x] R by auto
  have R2: "strip x Q (ready (timers ?d ?p y s1)) = Some R" using R xR f1 s1(2) by (simp add: strip_def remove1_idem)
  obtain A3 where 3: "osRtxThreadReadyPut x (timers ?d ?p y s1) = Some A3" "touched (timers ?d ?p y s1) A3"
    "sched A3 ((strip x Q)(ready (timers ?d ?p y s1) \<mapsto> pinsert (priority (timers ?d ?p y s1)) x R)) xs W"
    "ob_state A3 = (ob_state (timers ?d ?p y s1))(x := osRtxThreadReady)" "run_next A3 = run_next (timers ?d ?p y s1)"
    "mem A3 = mem (timers ?d ?p y s1)"
    by (rule ReadyPut_spec [OF S2 R2 l2]) blast
  from 3(1) obtain s2 where s2: "osRtxThreadReadyPut x s1 = Some s2" "A3 = timers ?d ?p y s2"
    by (auto simp: ReadyPut_timers simp del: timers_sel split: if_splits)
  have fr2: "delay s2 = delay s1" "delay_prev s2 = delay_prev s1" "delay_next s2 = delay_next s1"
    using s2(1) by (auto simp: osRtxThreadReadyPut_def osRtxThreadListPut_def Let_def split: if_splits Option.bind_splits)
  have n: "delay_next s2 x = y" using e(2) fr2 y by (simp add: s1(2))
  show thesis
    by (rule that [OF s1(1) s2(1)])
      (use 3 1 f1 s1(2) s2(2) fr fr2 n R touched_trans [of s s1 s2] in \<open>simp_all add: wake_def\<close>)
qed


lemma wake_ready [simp]: "\<exists>R. wake pri rdy x Q rdy = Some R"
  by (simp add: wake_def)

lemma delay_expire_spec:
  assumes "sched (timers d p x s) Q (x # xs) W" "d x = 1"
    "\<And>t. t \<in> set xs \<union> set W \<Longrightarrow> d t = delay s t \<and> p t = delay_prev s t"
  obtains d' p' s' where
    "delay_expire x s = Some (after (dropWhile (\<lambda>t. delay s t = 0) xs), s')"
    "touched s s'" "delay s' = delay s" "delay_prev s' = delay_prev s"
    "sched (timers d' p' (after (dropWhile (\<lambda>t. delay s t = 0) xs)) s')
       (fold (wake (priority s) (ready s)) (x # takeWhile (\<lambda>t. delay s t = 0) xs) Q)
       (dropWhile (\<lambda>t. delay s t = 0) xs) W"
    "\<forall>t. t \<in> set W \<or> t \<in> set (tl (dropWhile (\<lambda>t. delay s t = 0) xs)) \<longrightarrow> d' t = delay s t \<and> p' t = delay_prev s t"
    "\<forall>y ys. dropWhile (\<lambda>t. delay s t = 0) xs = y # ys \<longrightarrow> d' y = delay s y + 1 \<and> p' y = NULL"
    "ob_state s' = (\<lambda>t. if t \<in> set (x # takeWhile (\<lambda>t. delay s t = 0) xs) then osRtxThreadReady else ob_state s t)"
    "run_next s' = run_next s" "mem s' = mem s"
  using assms
proof (induction xs arbitrary: x s Q d p thesis)
  case Nil
  obtain s1 s' where 1: "osRtxThreadListRemove x s = Some s1" "osRtxThreadReadyPut x s1 = Some s'"
    "touched s s'" "delay_next s' x = after []" "delay s' = delay s" "delay_prev s' = delay_prev s"
    "sched (timers (if after [] \<noteq> NULL then d(after [] := d (after []) + 1) else d)
       (if after [] \<noteq> NULL then p(after [] := NULL) else p) (after []) s')
       (wake (priority s) (ready s) x Q) [] W"
    "ob_state s' = (ob_state s)(x := osRtxThreadReady)" "run_next s' = run_next s" "mem s' = mem s"
    by (rule expire_step [OF Nil(2,3) refl]) blast
  show ?case
    by (rule Nil(1) [of s' d p]) (use 1 Nil(4) in \<open>auto simp: delay_expire.simps [of x]\<close>)
next
  case (Cons y ys)
  have dk: "delay_ok (timers d p x s) (x # y # ys)" "set (x # y # ys) \<inter> set W = {}"
    using schedD(2) [OF Cons.prems(2)] by (auto simp: delays_ok_def)
  then have dl: "dll (dnext (timers d p x s)) p NULL (x # y # ys)" by (simp add: delay_ok_def)
  have yn: "y \<noteq> NULL" using dll_nonnull [OF dl] by auto
  have dst: "y \<notin> set ys" "x \<noteq> y" "y \<notin> set W" using dll_distinct [OF dl] dk(2) by auto
  obtain s1 s2 where 1: "osRtxThreadListRemove x s = Some s1" "osRtxThreadReadyPut x s1 = Some s2"
    "touched s s2" "delay_next s2 x = y" "delay s2 = delay s" "delay_prev s2 = delay_prev s"
    "sched (timers (d(y := d y + 1)) (p(y := NULL)) y s2) (wake (priority s) (ready s) x Q) (y # ys) W"
    "ob_state s2 = (ob_state s)(x := osRtxThreadReady)" "run_next s2 = run_next s" "mem s2 = mem s"
    by (rule expire_step [OF Cons.prems(2,3) refl]) (simp add: yn)
  define d2 p2 where d2: "d2 = d(y := d y + 1)" and p2: "p2 = p(y := NULL)"
  have S2: "sched (timers d2 p2 y s2) (wake (priority s) (ready s) x Q) (y # ys) W" using 1(7) by (simp add: d2 p2)
  have ag: "d2 t = delay s t \<and> p2 t = delay_prev s t" if "t \<in> set ys \<union> set W" for t
    using that Cons.prems(4) [of t] dst by (auto simp: d2 p2)
  have y2: "d2 y = delay s y + 1" "p2 y = NULL" using Cons.prems(4) [of y] by (auto simp: d2 p2)
  note f = touched_fields [OF 1(3)]
  show ?case
  proof (cases "delay s y = 0")
    case False
    have "delay_expire x s = Some (y, s2)" using 1 False by (simp add: delay_expire.simps [of x])
    then show ?thesis
      by (intro Cons.prems(1) [of s2 d2 p2]) (use 1(1-6,8-) S2 ag y2 False in auto)
  next
    case True
    have d1: "d2 y = 1" using y2 True by simp
    have ag2: "d2 t = delay s2 t \<and> p2 t = delay_prev s2 t" if "t \<in> set ys \<union> set W" for t
      using ag [OF that] 1(5,6) by simp
    obtain d' p' s' where 2: "delay_expire y s2 = Some (after (dropWhile (\<lambda>t. delay s2 t = 0) ys), s')"
    "touched s2 s'" "delay s' = delay s2" "delay_prev s' = delay_prev s2"
    "sched (timers d' p' (after (dropWhile (\<lambda>t. delay s2 t = 0) ys)) s')
       (fold (wake (priority s2) (ready s2)) (y # takeWhile (\<lambda>t. delay s2 t = 0) ys) (wake (priority s) (ready s) x Q))
       (dropWhile (\<lambda>t. delay s2 t = 0) ys) W"
    "\<forall>t. t \<in> set W \<or> t \<in> set (tl (dropWhile (\<lambda>t. delay s2 t = 0) ys)) \<longrightarrow> d' t = delay s2 t \<and> p' t = delay_prev s2 t"
    "\<forall>z zs. dropWhile (\<lambda>t. delay s2 t = 0) ys = z # zs \<longrightarrow> d' z = delay s2 z + 1 \<and> p' z = NULL"
    "ob_state s' = (\<lambda>t. if t \<in> set (y # takeWhile (\<lambda>t. delay s2 t = 0) ys) then osRtxThreadReady else ob_state s2 t)"
    "run_next s' = run_next s2" "mem s' = mem s2"
      by (rule Cons.IH [OF _ S2 d1 ag2]) blast
    have "delay_expire x s = delay_expire y s2" using 1 True yn by (simp add: delay_expire.simps [of x])
    then show ?thesis
      by (intro Cons.prems(1) [of s' d' p'])
        (use 1(1-6,8-) 2 True f touched_trans [OF 1(3) 2(2)] in \<open>auto simp: fun_eq_iff\<close>)
  qed
qed


lemma due_ge: "p \<in> set (due_times d a xs) \<Longrightarrow> a \<le> snd p"
  using due_times_sorted [of d a xs] by auto

lemma due_split_zero:
  "filter (\<lambda>p. snd p = a) (due_times d a xs) = map (\<lambda>t. (t, a)) (takeWhile (\<lambda>t. d t = 0) xs)"
  "filter (\<lambda>p. snd p \<noteq> a) (due_times d a xs) = due_times d a (dropWhile (\<lambda>t. d t = 0) xs)"
proof (induction xs)
  case (Cons x xs)
  have no: "snd p \<noteq> a" if "d x \<noteq> 0" "p \<in> set (due_times d (a + unat (d x)) xs)" for p
    using due_ge [OF that(2)] that(1) unat_gt_0 [of "d x"] by linarith
  { case 1 show ?case
      using Cons no by (cases "d x = 0") (auto simp: unat_eq_0 filter_empty_conv)
  next
    case 2 show ?case
      using Cons no by (cases "d x = 0") (auto simp: unat_eq_0 filter_id_conv)
  }
qed auto

lemma due_dec: "map (\<lambda>(t, e). (t, e - 1)) (due_times d (Suc a) xs) = due_times d a xs"
  by (induction xs arbitrary: a) auto

lemma due_later_bounds:
  assumes "delay_ok s D" "q \<in> set (due_later s D)" shows "0 < snd q \<and> snd q < 0xFFFFFFFF"
proof -
  from assms(2) obtain t e where q: "(t, e) \<in> set (due_times (delay s) 0 D)" "e \<noteq> 1" "q = (t, e - 1)"
    by (auto simp: due_later_def)
  have "0 < e \<and> e < 0xFFFFFFFF" using assms(1) q(1) by (auto simp: delay_ok_def)
  with q(2,3) show ?thesis by auto
qed

lemma after_cases: "after ys = NULL \<or> after ys \<in> set ys"
  by (cases ys) auto

lemma sched_retime:
  assumes S: "sched (timers d p h s) Q D W" and D: "\<And>t. t \<in> set D \<Longrightarrow> p' t = p t"
    and W: "\<And>t. t \<in> set W \<Longrightarrow> d' t = d t \<and> p' t = p t"
    and due: "\<And>q. q \<in> set (due_times d' 0 D) \<Longrightarrow> 0 < snd q \<and> snd q < 0xFFFFFFFF"
  shows "sched (timers d' p' h s) Q D W"
proof -
  note DD = schedD [OF S]
  have dk: "delay_ok (timers d p h s) D" "wait_ok (timers d p h s) W" "set D \<inter> set W = {}"
    using DD(2) by (auto simp: delays_ok_def)
  have n: "dnext (timers d p h s) = dnext (timers d' p' h s)" by (simp add: dnext_def)
  have "dll (dnext (timers d p h s)) p NULL D = dll (dnext (timers d' p' h s)) p' NULL D"
    by (rule dll_cong) (simp_all add: n D)
  then have "delay_ok (timers d' p' h s) D" using dk(1) due by (simp add: delay_ok_def)
  moreover have "wait_ok (timers d' p' h s) W" by (rule wait_frame [OF dk(2)]) (simp_all add: W)
  ultimately have ok: "delays_ok (timers d' p' h s) D W" using dk(3) by (simp add: delays_ok_def)
  have e: "timers d' p' h s = (timers d p h s)\<lparr>delay := d', delay_next := delay_next s, delay_prev := p',
      delay_list := h, wait_list := wait_list s\<rparr>" by (simp add: timers_def)
  show ?thesis unfolding e
    by (rule sched_delays [OF S]) (use ok DD(5,6,10-12) in \<open>auto simp: e [symmetric]\<close>)
qed

lemma DelayTick_spec:
  assumes S: "sched s Q D W"
  obtains s' where "osRtxThreadDelayTick s = Some s'" "touched s s'"
    "sched s' (fold (wake (priority s) (ready s)) (due_now s D) Q) (map fst (due_later s D)) W"
    "due_times (delay s') 0 (map fst (due_later s D)) = due_later s D"
    "ob_state s' = (\<lambda>t. if t \<in> set (due_now s D) then osRtxThreadReady else ob_state s t)"
    "run_next s' = run_next s" "mem s' = mem s"
proof (cases D)
  case Nil
  have dk: "delay_ok s D" using schedD(2) [OF S] by (auto simp: delays_ok_def)
  have "delay_list s = NULL" using dk Nil by (simp add: delay_ok_def dnext_def)
  then show ?thesis using S Nil
    by (intro that [of s]) (simp_all add: osRtxThreadDelayTick_def due_now_def due_later_def)
next
  case (Cons x xs)
  have dk: "delay_ok s (x # xs)" "wait_ok s W" "set (x # xs) \<inter> set W = {}"
    using schedD(2) [OF S] Cons by (auto simp: delays_ok_def)
  have dl: "dll (dnext s) (delay_prev s) NULL ([] @ x # xs)" using dk by (simp add: delay_ok_def)
  have xn: "x \<noteq> NULL" and hd: "delay_list s = x" and pv: "delay_prev s x = NULL"
    using dll_links [OF dl] by (simp_all add: dnext_def)
  have dst: "x \<notin> set xs" "distinct xs" using dll_distinct [OF dl] by auto
  have pos: "delay s x \<noteq> 0" using dk(1) by (auto simp: delay_ok_def unat_gt_0)
  have due: "due_times (delay s) 0 D = (x, unat (delay s x)) # due_times (delay s) (unat (delay s x)) xs"
    by (simp add: Cons)
  let ?s = "s\<lparr>delay := (delay s)(x := delay s x - 1)\<rparr>"
  show ?thesis
  proof (cases "delay s x = 1")
    case True
    let ?E = "takeWhile (\<lambda>t. delay s t = 0) xs" and ?L = "dropWhile (\<lambda>t. delay s t = 0) xs"
    have now: "due_now s D = x # ?E"
      using due_split_zero(1) [of 1 "delay s" xs] by (simp add: due_now_def due True comp_def)
    have later: "due_later s D = due_times (delay s) 0 ?L"
      using due_split_zero(2) [of 1 "delay s" xs] due_dec [of "delay s" 0 ?L]
      by (simp add: due_later_def due True)
    have A: "timers (delay s) (delay_prev s) x ?s = s" by (simp add: timers_def flip: hd)
    have S0: "sched (timers (delay s) (delay_prev s) x ?s) Q (x # xs) W" using S Cons by (simp add: A)
    have ag: "delay s t = delay ?s t \<and> delay_prev s t = delay_prev ?s t" if "t \<in> set xs \<union> set W" for t
      using that dst dk(3) by auto
    have tw: "takeWhile (\<lambda>t. delay ?s t = 0) xs = ?E" "dropWhile (\<lambda>t. delay ?s t = 0) xs = ?L"
      using dst(1) by (auto intro!: takeWhile_cong dropWhile_cong)
    define u where u: "u = ?s"
    obtain d' p' s' where 1: "delay_expire x u = Some (after ?L, s')"
      "touched u s'" "delay s' = delay u" "delay_prev s' = delay_prev u"
      "sched (timers d' p' (after ?L) s') (fold (wake (priority u) (ready u)) (x # ?E) Q) ?L W"
      "\<forall>t. t \<in> set W \<or> t \<in> set (tl ?L) \<longrightarrow> d' t = delay u t \<and> p' t = delay_prev u t"
      "\<forall>y ys. ?L = y # ys \<longrightarrow> d' y = delay u y + 1 \<and> p' y = NULL"
      "ob_state s' = (\<lambda>t. if t \<in> set (x # ?E) then osRtxThreadReady else ob_state u t)"
      "run_next s' = run_next u" "mem s' = mem u"
      by (rule delay_expire_spec [OF S0 True ag, unfolded tw, folded u]) blast
    let ?h = "after ?L" and ?Q = "fold (wake (priority s) (ready s)) (x # ?E) Q"
    let ?p = "if after ?L \<noteq> NULL then (delay_prev s')(after ?L := NULL) else delay_prev s'"
    have S1: "sched (timers d' p' ?h s') ?Q ?L W" using 1(5) by (simp add: u)
    have dk1: "delay_ok (timers d' p' ?h s') ?L" "set ?L \<inter> set W = {}"
      using schedD(2) [OF S1] by (auto simp: delays_ok_def)
    have dl1: "dll (dnext (timers d' p' ?h s')) p' NULL ?L" using dk1(1) by (simp add: delay_ok_def)
    have nn: "NULL \<notin> set ?L" "distinct ?L" using dll_nonnull [OF dl1] dll_distinct [OF dl1] by auto
    have hW: "t \<noteq> ?h \<or> ?h = NULL" if "t \<in> set W" for t using dk1(2) that after_cases [of ?L] by auto
    have xL: "x \<notin> set ?L" using dst(1) set_dropWhileD by fastforce
    have dd: "due_times (delay s') 0 ?L = due_later s D" using xL 1(3) by (simp add: later u)
    have b: "0 < snd q \<and> snd q < 0xFFFFFFFF" if "q \<in> set (due_times (delay s') 0 ?L)" for q
      using that dk(1) due_later_bounds [of s D] unfolding dd Cons by blast
    have "sched (timers (delay s') ?p ?h s') ?Q ?L W"
    proof (rule sched_retime [OF S1 _ _ b])
      fix t assume "t \<in> set ?L"
      then show "?p t = p' t" using 1(4,6,7) nn by (cases ?L) auto
    next
      fix t assume "t \<in> set W"
      then show "delay s' t = d' t \<and> ?p t = p' t" using 1(3,4,6) hW [of t] by auto
    qed
    moreover have "osRtxThreadDelayTick s = Some (timers (delay s') ?p ?h s')"
      using 1(1) hd xn True by (simp add: osRtxThreadDelayTick_def Let_def timers_def u)
    moreover have "touched s s'" using 1(2) by (simp add: u touched_def core_def)
    ultimately show ?thesis
      using dd 1(8-10) by (intro that [of "timers (delay s') ?p ?h s'"]) (simp_all add: now later u cong: if_cong)
  next
    case False
    have u2: "unat (delay s x - 1) = unat (delay s x) - 1" using pos by (simp add: unat_minus_one)
    have ge: "unat (delay s x) \<ge> 2" using False pos unat_gt_0 [of "delay s x"] by (metis One_nat_def Suc_1 Suc_leI le_neq_implies_less unat_1 word_unat_eq_iff)
    have d2: "2 \<le> snd p" if "p \<in> set (due_times (delay s) 0 D)" for p
      using that due_ge [of p "delay s" "unat (delay s x)" xs] ge by (auto simp: due)
    have keep: "filter (\<lambda>p. snd p \<noteq> 1) (due_times (delay s) 0 D) = due_times (delay s) 0 D"
      unfolding filter_id_conv using d2 by fastforce
    have none: "due_now s D = []" "due_later s D = map (\<lambda>(t, e). (t, e - 1)) (due_times (delay s) 0 D)"
      using d2 by (fastforce simp: due_now_def filter_empty_conv) (simp only: due_later_def keep)
    have later: "due_times (delay ?s) 0 D = due_later s D"
      using due_dec [of "delay s" "unat (delay s x) - 1" xs] ge dst(1) unfolding none(2) due by (simp add: Cons u2)
    have fst: "map fst (due_later s D) = D" unfolding none(2) by (simp add: comp_def split_def)
    have "osRtxThreadDelayTick s = Some ?s"
      using hd xn False pos by (simp add: osRtxThreadDelayTick_def Let_def)
    moreover have "sched ?s Q D W"
    proof -
      have e: "timers (delay s) (delay_prev s) (delay_list s) s = s"
        "timers ((delay s)(x := delay s x - 1)) (delay_prev s) (delay_list s) s = ?s" by (simp_all add: timers_def)
      have b: "0 < snd q \<and> snd q < 0xFFFFFFFF" if "q \<in> set (due_times ((delay s)(x := delay s x - 1)) 0 D)" for q
        using that dk(1) due_later_bounds [of s D q] unfolding later [symmetric] by (simp add: Cons)
      have "sched (timers ((delay s)(x := delay s x - 1)) (delay_prev s) (delay_list s) s) Q D W"
        by (rule sched_retime [of "delay s" "delay_prev s" "delay_list s", OF _ _ _ b])
          (use S dk(3) in \<open>auto simp: e\<close>)
      then show ?thesis by (simp add: e)
    qed
    ultimately show ?thesis
      by (intro that [of ?s]) (use later in \<open>simp_all add: none(1) fst\<close>)
  qed
qed

section \<open>Settled states\<close>

lemma by_priority_hd: "by_priority f xs \<Longrightarrow> x \<in> set xs \<Longrightarrow> f x \<le> f (hd xs)"
  by (cases xs) auto

lemma loose_upd:
  assumes "loose s Q D W t" "t \<notin> set ys" shows "loose s (Q(p \<mapsto> ys)) D W t"
  using assms unfolding loose_def in_members by (auto split: if_splits)

lemma tstatesD:
  assumes "tstates X s Q D W" "ob_id s t = osRtxIdThread" "t \<notin> X"
  shows "ob_state s t AND osRtxThreadStateMask = osRtxThreadReady \<Longrightarrow> Q (ready s) = Some R \<Longrightarrow> t \<in> set R"
    "ob_state s t AND osRtxThreadStateMask = osRtxThreadRunning \<Longrightarrow> t = run_next s"
    "ob_state s t AND osRtxThreadStateMask = osRtxThreadBlocked \<Longrightarrow> t \<in> set D \<union> set W"
  using assms unfolding tstates_def by fastforce+

text \<open>The threads of \<open>Y\<close> change their place, the others keep theirs.\<close>

lemma tstates_step:
  assumes T: "tstates X s Q D W" and R: "Q (ready s) = Some R" "Q' (ready s) = Some R'"
    and f: "ob_id s' = ob_id s" "ready s' = ready s"
    and o: "\<And>t. ob_id s t = osRtxIdThread \<Longrightarrow> t \<notin> Y \<union> X' \<Longrightarrow> ob_state s' t = ob_state s t \<and> (t \<in> set R \<longrightarrow> t \<in> set R') \<and>
      (t \<in> set D \<union> set W \<longrightarrow> t \<in> set D' \<union> set W') \<and> (t = run_next s \<longrightarrow> t = run_next s')"
    and X: "X \<subseteq> Y \<union> X'"
    and y: "\<And>t. t \<in> Y \<Longrightarrow> t \<notin> X' \<Longrightarrow> ob_state s' t = osRtxThreadReady \<and> t \<in> set R' \<or>
      ob_state s' t = osRtxThreadRunning \<and> t = run_next s' \<or>
      ob_state s' t AND osRtxThreadStateMask = osRtxThreadBlocked \<and> t \<in> set D' \<union> set W' \<or>
      ob_state s' t = osRtxThreadInactive \<or> ob_state s' t = osRtxThreadTerminated"
  shows "tstates X' s' Q' D' W'"
  unfolding tstates_def
proof (intro allI impI)
  fix t assume t: "ob_id s' t = osRtxIdThread" "t \<notin> X'"
  show "(ob_state s' t AND osRtxThreadStateMask = osRtxThreadReady \<longrightarrow> t \<in> set (the (Q' (ready s')))) \<and>
     (ob_state s' t AND osRtxThreadStateMask = osRtxThreadRunning \<longrightarrow> t = run_next s') \<and>
     (ob_state s' t AND osRtxThreadStateMask = osRtxThreadBlocked \<longrightarrow> t \<in> set D' \<union> set W')"
  proof (cases "t \<in> Y")
    case True
    from y [OF this t(2)] show ?thesis using R(2) f(2) by (elim disjE conjE) auto
  next
    case False
    then have "t \<notin> X" "t \<notin> Y \<union> X'" using X t(2) by auto
    note d = tstatesD [OF T _ \<open>t \<notin> X\<close>] and k = o [OF _ \<open>t \<notin> Y \<union> X'\<close>]
    have i: "ob_id s t = osRtxIdThread" using t(1) f(1) by simp
    show ?thesis unfolding f(2) using d [OF i] k [OF i] R by auto
  qed
qed

lemma tstates_cong:
  "ob_id s' = ob_id s \<Longrightarrow> ob_state s' = ob_state s \<Longrightarrow> ready s' = ready s \<Longrightarrow> run_next s' = run_next s \<Longrightarrow>
   tstates X s' Q D W = tstates X s Q D W"
  by (simp add: tstates_def)

lemma settled_dispatch:
  assumes S: "sched s Q D W" and r: "loose s Q D W (run_curr s)" and n: "run_curr s = run_next s"
    and k: "kernel_state s = osRtxKernelRunning" and st: "ob_state s (run_next s) = osRtxThreadRunning"
    and so: "stack_ok s"
  obtains s' R' where "osRtxThreadDispatch NULL s = Some s'" "touched s s'"
    "settled s' (Q(ready s \<mapsto> R')) D W" "mem s' = mem s" "delay s' = delay s"
    "Q (ready s) = Some R \<Longrightarrow> R \<noteq> [] \<Longrightarrow> priority s (hd R) > priority s (run_curr s) \<Longrightarrow> run_next s' = hd R"
    "Q (ready s) = Some R \<Longrightarrow> R = [] \<or> \<not> priority s (hd R) > priority s (run_curr s) \<Longrightarrow> s' = s"
    "insert (run_next s') (set R') = insert (run_next s) (set (the (Q (ready s))))"
    "\<forall>x. ob_id s x \<noteq> osRtxIdThread \<longrightarrow> ob_state s' x = ob_state s x"
    "tstates {} s Q D W \<Longrightarrow> tstates {} s' (Q(ready s \<mapsto> R')) D W"
proof -
  note D = schedD [OF S]
  obtain R0 where R: "Q (ready s) = Some R0" by (rule sched_ready [OF S])
  let ?r = "run_curr s"
  have rn: "?r \<noteq> NULL" using r by (simp add: loose_def)
  have srt: "by_priority (priority s) R0" by (rule D(8) [OF R D(3)])
  have rR: "?r \<notin> set R0" using r R unfolding loose_def in_members by blast
  have dst: "distinct R0" using dll_distinct [OF lists_ok_dll [OF D(1) R]] by simp
  let ?c = "kernel_state s = osRtxKernelRunning \<and> ?r \<noteq> NULL \<and> R0 \<noteq> [] \<and> priority s (hd R0) > priority s ?r"
  obtain s' where 1: "osRtxThreadDispatch NULL s = Some s'" "touched s s'" "mem s' = mem s" "delay s' = delay s"
    "if ?c then sched s' (Q(ready s \<mapsto> binsert (priority s) ?r (tl R0))) D W \<and> run_next s' = hd R0 \<and>
          ob_state s' = (ob_state s)(?r := osRtxThreadReady, hd R0 := osRtxThreadRunning)
     else s' = s"
    by (rule Dispatch_NULL [OF S R so r]) blast
  note f = touched_fields [OF 1(2)]
  show thesis
  proof (cases ?c)
    case False
    then have "s' = s" using 1(5) by (simp only: if_False)
    moreover have "\<forall>x\<in>set R0. priority s x \<le> priority s ?r"
      using False k rn by_priority_hd [OF srt] by (cases R0) fastforce+
    moreover have "Q(ready s \<mapsto> R0) = Q" using R by auto
    ultimately show ?thesis using 1 S r n k st R False rn
      by (intro that [of s R0]) (auto simp: settled_def)
  next
    case True
    then obtain x xs where Rx: "R0 = x # xs" by (cases R0) auto
    let ?Q = "Q(ready s \<mapsto> binsert (priority s) ?r xs)"
    have 2: "sched s' ?Q D W" "run_next s' = x"
      "ob_state s' = (ob_state s)(?r := osRtxThreadReady, x := osRtxThreadRunning)"
      using 1(5) True by (simp_all add: Rx)
    have xm: "x \<in> members Q" using R Rx unfolding in_members by fastforce
    have "x \<notin> set (binsert (priority s) ?r xs)" using rR dst Rx by auto
    moreover have "x \<notin> set ys" if "Q p = Some ys" "p \<noteq> ready s" for p ys
      using lists_ok_other [OF D(1) R that(1)] that(2) Rx by auto
    ultimately have "x \<notin> members ?Q" unfolding in_members by (auto split: if_splits)
    then have "loose s' ?Q D W x"
      using D(4) [OF xm] D(10) [OF R, of x] dll_nonnull [OF lists_ok_dll [OF D(1) R]] Rx f
      by (auto simp: loose_def)
    moreover have "\<forall>y\<in>set (binsert (priority s) ?r xs). priority s y \<le> priority s x"
      using srt True Rx by auto
    ultimately have "settled s' ?Q D W" using 2 k f by (simp add: settled_def)
    moreover have "ob_id s ?r = osRtxIdThread" "ob_id s x = osRtxIdThread"
      using r D(4) [OF xm] by (simp_all add: loose_def)
    moreover have "tstates {} s' ?Q D W" if "tstates {} s Q D W"
      by (rule tstates_step [OF that R, of _ "binsert (priority s) ?r xs" s' "{x, ?r}"]) (use 2 f(1,24) n Rx in auto)
    ultimately show ?thesis using 1(1-4) 2(2,3) Rx R True n
      by (intro that [of s' "binsert (priority s) ?r xs"]) auto
  qed
qed


lemma settledD:
  assumes "settled s Q D W"
  shows "sched s Q D W" "loose s Q D W (run_next s)" "kernel_state s = osRtxKernelRunning"
    "ob_state s (run_next s) = osRtxThreadRunning"
    "\<And>R x. Q (ready s) = Some R \<Longrightarrow> x \<in> set R \<Longrightarrow> priority s x \<le> priority s (run_next s)"
  using assms by (auto simp: settled_def)

lemma enteredD:
  assumes "entered s Q D W"
  shows "settled s Q D W" "run_curr s = run_next s" "stack_ok s" "run_curr s \<noteq> NULL"
    "loose s Q D W (run_curr s)" "sched s Q D W" "kernel_state s = osRtxKernelRunning"
  using assms by (auto simp: entered_def settled_def loose_def)

text \<open>Dispatching one loose thread.\<close>

lemma settled_dispatch_thread:
  assumes E: "entered s Q D W" and t: "loose s Q D W t" "t \<noteq> run_curr s" and R: "Q (ready s) = Some R"
  obtains s' R' where "osRtxThreadDispatch t s = Some s'" "touched s s'" "settled s' (Q(ready s \<mapsto> R')) D W"
    "mem s' = mem s" "delay s' = delay s"
    "run_next s' = (if priority s t > priority s (run_curr s) then t else run_curr s)"
    "\<forall>x. ob_id s x \<noteq> osRtxIdThread \<longrightarrow> ob_state s' x = ob_state s x"
    "tstates {t} s Q D W \<Longrightarrow> tstates {} s' (Q(ready s \<mapsto> R')) D W"
proof -
  note e = enteredD [OF E] and sd = settledD [OF enteredD(1) [OF E]]
  let ?r = "run_curr s" and ?c = "priority s t > priority s (run_curr s)"
  obtain s' where 1: "osRtxThreadDispatch t s = Some s'" "touched s s'" "mem s' = mem s" "delay s' = delay s"
    "if kernel_state s = osRtxKernelRunning \<and> ?r \<noteq> NULL \<and> ?c
     then sched s' (Q(ready s \<mapsto> binsert (priority s) ?r R)) D W \<and> run_next s' = t \<and>
          ob_state s' = (ob_state s)(?r := osRtxThreadReady, t := osRtxThreadRunning)
     else sched s' (Q(ready s \<mapsto> pinsert (priority s) t R)) D W \<and> run_next s' = run_next s \<and>
          ob_state s' = (ob_state s)(t := osRtxThreadReady)"
    by (rule Dispatch_thread [OF e(6) R t(1) e(3)]) (use e(5) t(2) in blast)+
  note f = touched_fields [OF 1(2)]
  have ids: "ob_id s t = osRtxIdThread" "ob_id s ?r = osRtxIdThread" using t(1) e(5) by (simp_all add: loose_def)
  have mx: "\<forall>x\<in>set R. priority s x \<le> priority s ?r" using sd(5) [OF R] e(2) by simp
  have nr: "t \<notin> set R" "?r \<notin> set R" using t(1) e(5) R membersI unfolding loose_def by metis+
  have lo: "loose s' (Q(ready s \<mapsto> R')) D W u" if "loose s Q D W u" "u \<notin> set R'" for u R'
    using that f unfolding loose_def in_members by (auto split: if_splits)
  show thesis
  proof (cases ?c)
    case True
    let ?R = "binsert (priority s) ?r R"
    have 3: "sched s' (Q(ready s \<mapsto> ?R)) D W" "run_next s' = t"
      "ob_state s' = (ob_state s)(?r := osRtxThreadReady, t := osRtxThreadRunning)"
      using 1(5) True e(4,7) by simp_all
    have "loose s' (Q(ready s \<mapsto> ?R)) D W t" using nr t by (intro lo) auto
    moreover have "\<forall>x\<in>set ?R. priority s x \<le> priority s t" using mx True by auto
    ultimately have "settled s' (Q(ready s \<mapsto> ?R)) D W" using 3 e(7) f(6,22,24) by (simp add: settled_def)
    moreover have "tstates {} s' (Q(ready s \<mapsto> ?R)) D W" if "tstates {t} s Q D W"
      by (rule tstates_step [OF that R, of _ ?R s' "{t, ?r}"]) (use 3 f(1,24) e(2) in auto)
    ultimately show ?thesis using 1(1-4) 3(2,3) True ids by (intro that [of s' ?R]) auto
  next
    case False
    let ?R = "pinsert (priority s) t R"
    have 3: "sched s' (Q(ready s \<mapsto> ?R)) D W" "run_next s' = run_next s" "ob_state s' = (ob_state s)(t := osRtxThreadReady)"
      using 1(5) False by simp_all
    have "loose s' (Q(ready s \<mapsto> ?R)) D W ?r" using nr t e(5) by (intro lo) auto
    moreover have "\<forall>x\<in>set ?R. priority s x \<le> priority s ?r" using mx False by auto
    ultimately have "settled s' (Q(ready s \<mapsto> ?R)) D W" using 3 e(2,7) f(6,22,24) sd(4) t(2) by (simp add: settled_def)
    moreover have "tstates {} s' (Q(ready s \<mapsto> ?R)) D W" if "tstates {t} s Q D W"
      by (rule tstates_step [OF that R, of _ ?R s' "{t}"]) (use 3 f(1,24) in auto)
    ultimately show ?thesis using 1(1-4) 3(2,3) False ids e(2) by (intro that [of s' ?R]) auto
  qed
qed

text \<open>Taking a blocked thread off the delay lists, with its result stored.\<close>

lemma entered_DelayRemove:
  assumes E: "entered s Q D W" and t: "t \<in> set D \<union> set W" "t \<notin> members Q"
  obtains s' where "osRtxThreadDelayRemove t s = Some s'" "touched s s'"
    "entered s' Q (remove1 t D) (remove1 t W)" "loose s' Q (remove1 t D) (remove1 t W) t" "t \<noteq> run_curr s"
    "due_times (delay s') 0 (remove1 t D) = filter (\<lambda>p. fst p \<noteq> t) (due_times (delay s) 0 D)"
    "ob_state s' = ob_state s" "run_next s' = run_next s" "mem s' = mem s"
    "tstates {} s Q D W \<Longrightarrow> tstates {t} s' Q (remove1 t D) (remove1 t W)"
proof -
  note e = enteredD [OF E] and sd = settledD [OF enteredD(1) [OF E]]
  obtain s' where 1: "osRtxThreadDelayRemove t s = Some s'" "touched s s'"
    "sched s' Q (remove1 t D) (remove1 t W)" "loose s' Q (remove1 t D) (remove1 t W) t"
    "due_times (delay s') 0 (remove1 t D) = filter (\<lambda>p. fst p \<noteq> t) (due_times (delay s) 0 D)"
    "ob_state s' = ob_state s" "run_next s' = run_next s" "mem s' = mem s"
    by (rule DelayRemove_sched [OF e(6) t]) blast
  note f = touched_fields [OF 1(2)]
  have tr: "t \<noteq> run_curr s" using e(5) t(1) by (auto simp: loose_def)
  have "loose s' Q (remove1 t D) (remove1 t W) (run_next s')"
    using e(2,5) f 1(7) by (auto simp: loose_def dest: notin_set_remove1)
  then have "settled s' Q (remove1 t D) (remove1 t W)"
    using 1(3,6,7) f e(1) by (simp add: settled_def)
  then have "entered s' Q (remove1 t D) (remove1 t W)"
    using e(2,3) f 1(7) stack_ok_cong [OF 1(2,8)] by (simp add: entered_def)
  moreover have "tstates {t} s' Q (remove1 t D) (remove1 t W)" if "tstates {} s Q D W"
    using that f 1(6,7) unfolding tstates_def by auto
  ultimately show thesis using 1 tr that by blast
qed

lemma entered_reg:
  assumes E: "entered s Q D W" and t: "ob_id s t = osRtxIdThread"
  shows "entered (s\<lparr>mem := (mem s)(osRtxThreadRegPtr s t := v)\<rparr>) Q D W"
  using E stack_ok_reg [OF enteredD(3) [OF E] t] by (simp add: entered_def settled_def loose_def)

text \<open>Waking a blocked thread that is in no object's list and dispatching it.\<close>

lemma settled_exit:
  assumes E: "entered s Q D W" and t: "t \<in> set D \<union> set W" "t \<notin> members Q" and R: "Q (ready s) = Some R"
  obtains s' R' where "osRtxThreadWaitExit t ret True s = Some s'" "touched s s'"
    "settled s' (Q(ready s \<mapsto> R')) (remove1 t D) (remove1 t W)"
    "run_next s' = (if priority s t > priority s (run_curr s) then t else run_curr s)"
    "mem s' = (mem s)(osRtxThreadRegPtr s t := ret)"
    "due_times (delay s') 0 (remove1 t D) = filter (\<lambda>p. fst p \<noteq> t) (due_times (delay s) 0 D)"
    "\<forall>x. ob_id s x \<noteq> osRtxIdThread \<longrightarrow> ob_state s' x = ob_state s x"
    "tstates {} s Q D W \<Longrightarrow> tstates {} s' (Q(ready s \<mapsto> R')) (remove1 t D) (remove1 t W)"
proof -
  let ?s = "s\<lparr>mem := (mem s)(osRtxThreadRegPtr s t := ret)\<rparr>"
  have id: "ob_id s t = osRtxIdThread" using t(1) schedD(5,6) [OF enteredD(6) [OF E]] by auto
  have E0: "entered ?s Q D W" by (rule entered_reg [OF E id])
  obtain s1 where 1: "osRtxThreadDelayRemove t ?s = Some s1" "touched ?s s1"
    "entered s1 Q (remove1 t D) (remove1 t W)" "loose s1 Q (remove1 t D) (remove1 t W) t" "t \<noteq> run_curr ?s"
    "due_times (delay s1) 0 (remove1 t D) = filter (\<lambda>p. fst p \<noteq> t) (due_times (delay ?s) 0 D)"
    "ob_state s1 = ob_state ?s" "run_next s1 = run_next ?s" "mem s1 = mem ?s"
    "tstates {} ?s Q D W \<Longrightarrow> tstates {t} s1 Q (remove1 t D) (remove1 t W)"
    by (rule entered_DelayRemove [OF E0 t]) blast
  note f = touched_fields [OF 1(2)]
  have t1: "t \<noteq> run_curr s1" "Q (ready s1) = Some R" using 1(5) f R by simp_all
  obtain s' R' where 2: "osRtxThreadDispatch t s1 = Some s'" "touched s1 s'"
    "settled s' (Q(ready s1 \<mapsto> R')) (remove1 t D) (remove1 t W)" "mem s' = mem s1" "delay s' = delay s1"
    "run_next s' = (if priority s1 t > priority s1 (run_curr s1) then t else run_curr s1)"
    "\<forall>x. ob_id s1 x \<noteq> osRtxIdThread \<longrightarrow> ob_state s' x = ob_state s1 x"
    "tstates {t} s1 Q (remove1 t D) (remove1 t W) \<Longrightarrow> tstates {} s' (Q(ready s1 \<mapsto> R')) (remove1 t D) (remove1 t W)"
    by (rule settled_dispatch_thread [OF 1(3,4) t1]) blast
  have tn: "t \<noteq> NULL" using 1(4) by (simp add: loose_def)
  have ts: "tstates {} ?s Q D W = tstates {} s Q D W" by (simp add: tstates_def)
  show thesis
    using 1(1,6-9) 2 tn f touched_trans [OF _ 2(2), of s] touched_trans [OF sched_mem_touched 1(2)] 1(10) [unfolded ts]
    by (intro that [of s' R']) (simp_all add: osRtxThreadWaitExit_def Let_def)
qed

lemma ListPut_sched:
  assumes S: "sched s Q D W" and Q: "Q obj = Some xs" and obj: "obj \<noteq> NULL" "obj \<noteq> ready s"
    and t: "t \<notin> members Q" "t \<in> set D \<union> set W"
  obtains s' where "osRtxThreadListPut obj t s = Some s'" "touched s s'"
    "sched s' (Q(obj \<mapsto> pinsert (priority s) t xs)) D W" "ob_state s' = ob_state s"
    "run_next s' = run_next s" "mem s' = mem s" "delay s' = delay s"
proof -
  note D = schedD [OF S]
  have id: "ob_id s t = osRtxIdThread" using t(2) D(5,6) by auto
  have dk: "delay_ok s D" "wait_ok s W" using D(2) by (auto simp: delays_ok_def)
  have tn: "t \<noteq> NULL" using t(2) dk dll_nonnull unfolding delay_ok_def wait_ok_def by blast
  have td: "t \<notin> dom Q" by (rule sched_not_dom [OF S id tn])
  obtain n b where put: "osRtxThreadListPut obj t s = Some (s\<lparr>thread_next := n, thread_prev := b\<rparr>)"
    and L': "lists_ok (n(NULL := terminate_list s)) b (Q(obj \<mapsto> pinsert (priority s) t xs))"
    and b: "\<And>x. x \<notin> insert t (set xs) \<Longrightarrow> b x = thread_prev s x"
    by (rule ListPut_spec [OF D(1) Q obj(1) t(1) td tn]) blast
  have "sched (s\<lparr>ob_state := ob_state s, thread_next := n, thread_prev := b\<rparr>)
      (Q(obj \<mapsto> pinsert (priority s) t xs)) D W"
    by (rule sched_requeue [OF S Q obj(1), where t = t])
      (use L' b t(2) obj(2) id D(8) [OF Q obj(1)] in \<open>auto intro: sorted_pinsert\<close>)
  with put show thesis by (intro that [of "s\<lparr>thread_next := n, thread_prev := b\<rparr>"]) simp_all
qed

text \<open>Blocking the running thread without an object.\<close>

lemma settled_wait:
  assumes E: "entered s Q D W" and R: "Q (ready s) = Some (x # xs)" and d: "d \<noteq> 0"
  obtains s' D' W' where "osRtxThreadWaitEnter st d s = Some (True, s')" "touched s s'"
    "settled s' (Q(ready s \<mapsto> xs)) D' W'" "delayed s D W (run_curr s) d s' D' W'" "run_next s' = x" "mem s' = mem s"
    "ob_state s' = (ob_state s)(run_curr s := st, x := osRtxThreadRunning)"
    "run_curr s \<notin> members (Q(ready s \<mapsto> xs))" "run_curr s \<noteq> x"
    "tstates {} s Q D W \<Longrightarrow> st AND osRtxThreadStateMask = osRtxThreadBlocked \<Longrightarrow> tstates {} s' (Q(ready s \<mapsto> xs)) D' W'"
proof -
  note e = enteredD [OF E] and sd = settledD [OF enteredD(1) [OF E]]
  note DD = schedD [OF e(6)]
  let ?r = "run_curr s"
  obtain s' D' W' where 1: "osRtxThreadWaitEnter st d s = Some (True, s')" "touched s s'"
    "sched s' (Q(ready s \<mapsto> xs)) D' W'" "delayed s D W ?r d s' D' W'"
    "ob_state s' = (ob_state s)(?r := st, x := osRtxThreadRunning)" "run_next s' = x" "mem s' = mem s"
    "x \<notin> members (Q(ready s \<mapsto> xs))" "x \<noteq> ?r" "?r \<notin> members (Q(ready s \<mapsto> xs))" "x \<notin> set D'" "x \<notin> set W'"
    by (rule WaitEnter_spec [OF e(6) R d e(5,7,3)]) blast
  note f = touched_fields [OF 1(2)]
  have srt: "by_priority (priority s) (x # xs)" by (rule DD(8) [OF R DD(3)])
  have xid: "ob_id s x = osRtxIdThread" "x \<noteq> NULL"
    using DD(4) [OF membersI [where Q = Q and p = "ready s" and xs = "x # xs"]] R
      dll_nonnull [OF lists_ok_dll [OF DD(1) R]] by auto
  have "settled s' (Q(ready s \<mapsto> xs)) D' W'"
    unfolding settled_def using 1 xid srt f e(7) by (simp add: loose_def)
  moreover have "tstates {} s' (Q(ready s \<mapsto> xs)) D' W'" if "tstates {} s Q D W" "st AND osRtxThreadStateMask = osRtxThreadBlocked"
  proof -
    have u: "set D' \<union> set W' = insert ?r (set D \<union> set W)" using 1(4) by (simp add: delayed_def)
    have ns: "st AND osRtxThreadStateMask \<noteq> osRtxThreadReady" "st AND osRtxThreadStateMask \<noteq> osRtxThreadRunning" using that(2) by auto
    have "x \<notin> set D \<union> set W" using 1(11,12) u by auto
    show ?thesis
      unfolding tstates_def f 1(5,6) u using that ns R e(2) 1(9) unfolding tstates_def by auto
  qed
  ultimately show thesis using 1 by (intro that [of s' D' W']) simp_all
qed
text \<open>Blocking the running thread on an object: WaitEnter followed by ListPut.\<close>

lemma settled_block:
  assumes E: "entered s Q D W" and R: "Q (ready s) = Some (x # xs)"
    and Q: "Q obj = Some ws" and obj: "obj \<noteq> NULL" "obj \<noteq> ready s" and d: "d \<noteq> 0"
  obtains s1 s' D' W' where "osRtxThreadWaitEnter st d s = Some (True, s1)"
    "osRtxThreadListPut obj (run_curr s) s1 = Some s'" "touched s s1" "touched s s'"
    "settled s' (Q(ready s \<mapsto> xs, obj \<mapsto> pinsert (priority s) (run_curr s) ws)) D' W'"
    "delayed s D W (run_curr s) d s' D' W'" "run_next s' = x" "mem s1 = mem s" "mem s' = mem s"
    "ob_state s' = (ob_state s)(run_curr s := st, x := osRtxThreadRunning)"
    "tstates {} s Q D W \<Longrightarrow> st AND osRtxThreadStateMask = osRtxThreadBlocked \<Longrightarrow>
       tstates {} s' (Q(ready s \<mapsto> xs, obj \<mapsto> pinsert (priority s) (run_curr s) ws)) D' W'"
proof -
  let ?r = "run_curr s" and ?Q = "Q(ready s \<mapsto> xs, obj \<mapsto> pinsert (priority s) (run_curr s) ws)"
  obtain s1 D' W' where 1: "osRtxThreadWaitEnter st d s = Some (True, s1)" "touched s s1"
    "settled s1 (Q(ready s \<mapsto> xs)) D' W'" "delayed s D W ?r d s1 D' W'" "run_next s1 = x" "mem s1 = mem s"
    "ob_state s1 = (ob_state s)(?r := st, x := osRtxThreadRunning)" "?r \<notin> members (Q(ready s \<mapsto> xs))" "?r \<noteq> x"
    "tstates {} s Q D W \<Longrightarrow> st AND osRtxThreadStateMask = osRtxThreadBlocked \<Longrightarrow> tstates {} s1 (Q(ready s \<mapsto> xs)) D' W'"
    by (rule settled_wait [OF E R d]) blast
  note f = touched_fields [OF 1(2)] and sd = settledD [OF 1(3)]
  have Q1: "(Q(ready s \<mapsto> xs)) obj = Some ws" "obj \<noteq> ready s1" using Q obj(2) f by simp_all
  have rD: "?r \<in> set D' \<union> set W'" using 1(4) by (simp add: delayed_def)
  obtain s' where 2: "osRtxThreadListPut obj ?r s1 = Some s'" "touched s1 s'"
    "sched s' (Q(ready s \<mapsto> xs, obj \<mapsto> pinsert (priority s1) ?r ws)) D' W'" "ob_state s' = ob_state s1"
    "run_next s' = run_next s1" "mem s' = mem s1" "delay s' = delay s1"
    by (rule ListPut_sched [OF sd(1) Q1(1) obj(1) Q1(2) 1(8) rD]) blast
  note f2 = touched_fields [OF 2(2)]
  have "loose s1 (Q(ready s \<mapsto> xs)) D' W' x" using sd(2) 1(5) by simp
  then have "loose s' ?Q D' W' x" using Q1 1(9) f2(1) unfolding loose_def in_members by (auto split: if_splits)
  moreover have "\<forall>y\<in>set xs. priority s y \<le> priority s x" using sd(5) [of xs] 1(5) f(6,24) by simp
  ultimately have "settled s' ?Q D' W'"
    unfolding settled_def using 2(3-5) sd(3,4) 1(5) f(6,24) f2(6,22,24) obj(2) by simp
  moreover have "tstates {} s' ?Q D' W'" if "tstates {} s Q D W" "st AND osRtxThreadStateMask = osRtxThreadBlocked"
    by (rule tstates_step [OF 1(10) [OF that], of xs _ xs s' "{}"]) (use 2(4,5) f(24) f2(1,24) obj(2) in auto)
  moreover have "delayed s D W ?r d s' D' W'"
    by (rule delayed_cong [THEN iffD2, OF _ _ 1(4)]) (simp_all add: 2(7))
  ultimately show thesis using 1(1,2,5-7) 2(1,4-6) touched_trans [OF 1(2) 2(2)] by (intro that [of s1 s' D' W']) simp_all
qed


text \<open>Waking the first waiter of an object, with and without an immediate dispatch.\<close>

lemma first_waiter:
  assumes S: "sched s Q D W" and Q: "Q obj = Some (t # ws)" and obj: "obj \<noteq> NULL" "obj \<noteq> ready s"
  obtains s1 where "osRtxThreadListGet obj s = Some (t, s1)" "touched s s1" "sched s1 (Q(obj \<mapsto> ws)) D W"
    "ob_state s1 = ob_state s" "run_next s1 = run_next s" "mem s1 = mem s" "delay s1 = delay s"
    "t \<notin> members (Q(obj \<mapsto> ws))" "t \<in> set D \<union> set W"
  by (rule ListGet_sched [OF S Q obj(1)]) (use schedD(11) [OF S Q obj] in auto)

lemma wake_waiter:
  assumes S: "sched s Q D W" and Q: "Q obj = Some (t # ws)" and obj: "obj \<noteq> NULL" "obj \<noteq> ready s"
    and R: "Q (ready s) = Some R"
  obtains s1 s' where "osRtxThreadListGet obj s = Some (t, s1)" "osRtxThreadWaitExit t ret False s1 = Some s'"
    "touched s s'" "sched s' (Q(obj \<mapsto> ws, ready s \<mapsto> pinsert (priority s) t R)) (remove1 t D) (remove1 t W)"
    "ob_state s' = (ob_state s)(t := osRtxThreadReady)" "run_next s' = run_next s"
    "mem s' = (mem s)(osRtxThreadRegPtr s t := ret)"
    "due_times (delay s') 0 (remove1 t D) = filter (\<lambda>p. fst p \<noteq> t) (due_times (delay s) 0 D)" "touched s s1"
proof -
  obtain s1 where 1: "osRtxThreadListGet obj s = Some (t, s1)" "touched s s1" "sched s1 (Q(obj \<mapsto> ws)) D W"
    "ob_state s1 = ob_state s" "run_next s1 = run_next s" "mem s1 = mem s" "delay s1 = delay s"
    "t \<notin> members (Q(obj \<mapsto> ws))" "t \<in> set D \<union> set W"
    by (rule first_waiter [OF S Q obj]) blast
  note f = touched_fields [OF 1(2)]
  have rg: "osRtxThreadRegPtr s1 t = osRtxThreadRegPtr s t" by (simp add: osRtxThreadRegPtr_def f)
  have R1: "(Q(obj \<mapsto> ws)) (ready s1) = Some R" using R obj(2) f by simp
  obtain s' where 2: "osRtxThreadWaitExit t ret False s1 = Some s'" "touched s1 s'"
    "sched s' (Q(obj \<mapsto> ws, ready s1 \<mapsto> pinsert (priority s1) t R)) (remove1 t D) (remove1 t W)"
    "ob_state s' = (ob_state s1)(t := osRtxThreadReady)" "run_next s' = run_next s1"
    "mem s' = (mem s1)(osRtxThreadRegPtr s1 t := ret)"
    "due_times (delay s') 0 (remove1 t D) = filter (\<lambda>p. fst p \<noteq> t) (due_times (delay s1) 0 D)"
    by (rule WaitExit_ready [OF 1(3) R1 1(9,8)]) blast
  show thesis
    using 1 2 f rg touched_trans [OF 1(2) 2(2)] by (intro that [of s1 s']) simp_all
qed

lemma settled_wake:
  assumes E: "entered s Q D W" and Q: "Q obj = Some (t # ws)" and obj: "obj \<noteq> NULL" "obj \<noteq> ready s"
  obtains s1 s' R' where "osRtxThreadListGet obj s = Some (t, s1)" "osRtxThreadWaitExit t ret True s1 = Some s'"
    "touched s s1" "touched s s'" "settled s' (Q(obj \<mapsto> ws, ready s \<mapsto> R')) (remove1 t D) (remove1 t W)"
    "run_next s' = (if priority s t > priority s (run_curr s) then t else run_curr s)"
    "mem s' = (mem s)(osRtxThreadRegPtr s t := ret)"
    "due_times (delay s') 0 (remove1 t D) = filter (\<lambda>p. fst p \<noteq> t) (due_times (delay s) 0 D)"
    "mem s1 = mem s"
    "\<forall>x. ob_id s x \<noteq> osRtxIdThread \<longrightarrow> ob_state s' x = ob_state s x"
    "tstates {} s Q D W \<Longrightarrow> tstates {} s' (Q(obj \<mapsto> ws, ready s \<mapsto> R')) (remove1 t D) (remove1 t W)"
proof -
  note e = enteredD [OF E] and sd = settledD [OF enteredD(1) [OF E]]
  obtain R where R: "Q (ready s) = Some R" by (rule sched_ready [OF e(6)])
  obtain s1 where 1: "osRtxThreadListGet obj s = Some (t, s1)" "touched s s1" "sched s1 (Q(obj \<mapsto> ws)) D W"
    "ob_state s1 = ob_state s" "run_next s1 = run_next s" "mem s1 = mem s" "delay s1 = delay s"
    "t \<notin> members (Q(obj \<mapsto> ws))" "t \<in> set D \<union> set W"
    by (rule first_waiter [OF e(6) Q obj]) blast
  note f = touched_fields [OF 1(2)]
  have sub: "members (Q(obj \<mapsto> ws)) \<subseteq> members Q" by (rule members_upd_sub [of Q obj "t # ws"]) (use Q in auto)
  have lr: "loose s1 (Q(obj \<mapsto> ws)) D W (run_next s1)" using e(2,5) sub f 1(5) by (auto simp: loose_def)
  have "entered s1 (Q(obj \<mapsto> ws)) D W"
    using 1(3-6) lr f e(2,3,7) sd(4,5) stack_ok_cong [OF 1(2,6)] R obj(2) by (simp add: entered_def settled_def)
  moreover have R1: "(Q(obj \<mapsto> ws)) (ready s1) = Some R" using R obj(2) f by simp
  ultimately obtain s' R' where 2: "osRtxThreadWaitExit t ret True s1 = Some s'" "touched s1 s'"
    "settled s' (Q(obj \<mapsto> ws, ready s1 \<mapsto> R')) (remove1 t D) (remove1 t W)"
    "run_next s' = (if priority s1 t > priority s1 (run_curr s1) then t else run_curr s1)"
    "mem s' = (mem s1)(osRtxThreadRegPtr s1 t := ret)"
    "due_times (delay s') 0 (remove1 t D) = filter (\<lambda>p. fst p \<noteq> t) (due_times (delay s1) 0 D)"
    "\<forall>x. ob_id s1 x \<noteq> osRtxIdThread \<longrightarrow> ob_state s' x = ob_state s1 x"
    "tstates {} s1 (Q(obj \<mapsto> ws)) D W \<Longrightarrow> tstates {} s' (Q(obj \<mapsto> ws, ready s1 \<mapsto> R')) (remove1 t D) (remove1 t W)"
    by (rule settled_exit [OF _ 1(9,8)]) blast
  have rg: "osRtxThreadRegPtr s1 t = osRtxThreadRegPtr s t" by (simp add: osRtxThreadRegPtr_def f)
  have "tstates {} s1 (Q(obj \<mapsto> ws)) D W" if "tstates {} s Q D W"
    using that f 1(4,5) obj(2) unfolding tstates_def by auto
  then show thesis using 1 2 f rg touched_trans [OF 1(2) 2(2)] by (intro that [of s1 s' R']) simp_all
qed

section \<open>The configuration is consistent\<close>

lemma demo_members: "members demo_lists = {0x2000, 0x3000, 0x4000}"
  unfolding demo_lists_def members_def by (auto split: if_splits)

lemma demo_lists_cases:
  "demo_lists p = Some xs \<longleftrightarrow> p = 0 \<and> xs = [] \<or> p = 0x100 \<and> xs = [0x2000, 0x3000] \<or> p = 0x5000 \<and> xs = [0x4000] \<or>
     p = 0x5100 \<and> xs = [] \<or> p = 0x5200 \<and> xs = [] \<or> p = 0x5300 \<and> xs = [] \<or> p = 0x5400 \<and> xs = []"
  by (auto simp: demo_lists_def)

lemma demo_dom: "dom demo_lists = {0, 0x100, 0x5000, 0x5100, 0x5200, 0x5300, 0x5400}"
  by (auto simp: demo_lists_def)

lemma demo_lists_ok: "lists_ok (tnext demo) (thread_prev demo) demo_lists"
proof -
  have d: "dll (tnext demo) (thread_prev demo) p xs" if "demo_lists p = Some xs" for p xs
    using that unfolding demo_lists_cases by (auto simp: dll_def tnext_def demo_def blank_def)
  have i: "set xs \<inter> set ys = {}" if "demo_lists p = Some xs" "demo_lists q = Some ys" "p \<noteq> q" for p q xs ys
    using that unfolding demo_lists_cases by auto
  have j: "dom demo_lists \<inter> members demo_lists = {}" by (simp add: demo_members demo_dom)
  show ?thesis using d i j unfolding lists_ok_def by blast
qed

lemma demo_delays: "delays_ok demo [0x6000] [0x4000]"
  by (simp add: delays_ok_def delay_ok_def wait_ok_def dll_def dnext_def wnext_def demo_def blank_def)

lemma demo_sched: "sched demo demo_lists [0x6000] [0x4000]"
proof -
  have r: "ready demo = 0x100" by (simp add: demo_def blank_def)
  have id: "ob_id demo x = osRtxIdThread \<longleftrightarrow> x \<in> {0x1000, 0x2000, 0x3000, 0x4000, 0x6000}" for x
    by (simp add: demo_def blank_def)
  have a: "\<forall>p xs. demo_lists p = Some xs \<longrightarrow> p \<noteq> NULL \<longrightarrow> by_priority (priority demo) xs"
    unfolding demo_lists_cases by (auto simp: demo_def blank_def)
  have b: "\<forall>p xs. demo_lists p = Some xs \<longrightarrow> p \<noteq> NULL \<longrightarrow> p \<noteq> ready demo \<longrightarrow> set xs \<subseteq> set [0x6000] \<union> set [0x4000]"
    unfolding demo_lists_cases r by auto
  have c: "\<forall>xs. demo_lists NULL = Some xs \<longrightarrow> set xs \<inter> (set [0x6000] \<union> set [0x4000]) = {}"
    unfolding demo_lists_cases by auto
  have d: "\<forall>t. ob_id demo t = osRtxIdThread \<longrightarrow> t \<notin> members demo_lists \<longrightarrow> thread_prev demo t = NULL"
    unfolding demo_members id by (auto simp: demo_def blank_def)
  have e: "\<forall>t\<in>set (the (demo_lists (ready demo))). ob_state demo t = osRtxThreadReady \<and>
      t \<notin> set [0x6000] \<and> t \<notin> set [0x4000]"
    unfolding r by (simp add: demo_lists_def demo_def blank_def)
  have f: "\<forall>p\<in>dom demo_lists. p \<noteq> NULL \<longrightarrow> ob_id demo p \<noteq> osRtxIdThread"
    unfolding demo_dom id by auto
  show ?thesis
    unfolding sched_def
    by (intro conjI a b c d e f demo_lists_ok demo_delays) (simp_all add: r demo_members demo_dom id)
qed

lemma demo_entered: "entered demo demo_lists [0x6000] [0x4000]"
proof -
  have "loose demo demo_lists [0x6000] [0x4000] 0x1000"
    by (simp add: loose_def demo_members) (simp add: demo_def blank_def)
  moreover have "stack_ok demo"
    by (simp add: stack_ok_def demo_def blank_def osRtxThreadRegPtr_def StackOffsetR0_def)
  moreover have "run_curr demo = 0x1000" "run_next demo = 0x1000" "kernel_state demo = osRtxKernelRunning"
      "ob_state demo 0x1000 = osRtxThreadRunning" "ready demo = 0x100"
      "priority demo 0x2000 = 24" "priority demo 0x3000 = 1" "priority demo 0x1000 = 24"
    by (simp_all add: demo_def blank_def)
  moreover have "demo_lists 0x100 = Some [0x2000, 0x3000]" by (simp add: demo_lists_def)
  ultimately show ?thesis using demo_sched by (simp add: entered_def settled_def)
qed

section \<open>Timed queues\<close>

locale timed_queue =
  fixes rep :: "'s \<Rightarrow> ('a \<times> nat) list \<Rightarrow> 'a list \<Rightarrow> bool" and tick :: "'s \<Rightarrow> 's option"
  assumes tick: "rep s ps rs \<Longrightarrow>
    \<exists>s'. tick s = Some s' \<and> rep s' (map (\<lambda>(t, e). (t, e - 1)) (filter (\<lambda>p. snd p \<noteq> 1) ps))
      (rs @ map fst (filter (\<lambda>p. snd p = 1) ps))"
    and due: "rep s ps rs \<Longrightarrow> sorted (map snd ps) \<and> (\<forall>p\<in>set ps. 0 < snd p)"
begin

lemma after_ticks:
  "rep s ps rs \<Longrightarrow> \<exists>s'. repeat_tick tick n s = Some s' \<and>
     rep s' (map (\<lambda>(t, e). (t, e - n)) (filter (\<lambda>p. n < snd p) ps)) (rs @ map fst (filter (\<lambda>p. snd p \<le> n) ps))"
proof (induction n)
  case 0
  then have "filter (\<lambda>p. 0 < snd p) ps = ps" "filter (\<lambda>p. snd p \<le> 0) ps = []"
    using due by (auto simp: filter_id_conv filter_empty_conv)
  with 0 show ?case by simp
next
  case (Suc n)
  let ?ps = "map (\<lambda>(t, e). (t, e - n)) (filter (\<lambda>p. n < snd p) ps)"
  obtain s1 where 1: "repeat_tick tick n s = Some s1" "rep s1 ?ps (rs @ map fst (filter (\<lambda>p. snd p \<le> n) ps))"
    using Suc by auto
  obtain s2 where 2: "tick s1 = Some s2"
    "rep s2 (map (\<lambda>(t, e). (t, e - 1)) (filter (\<lambda>p. snd p \<noteq> 1) ?ps))
       ((rs @ map fst (filter (\<lambda>p. snd p \<le> n) ps)) @ map fst (filter (\<lambda>p. snd p = 1) ?ps))"
    using tick [OF 1(2)] by blast
  have "map (\<lambda>(t, e). (t, e - 1)) (filter (\<lambda>p. snd p \<noteq> 1) ?ps) =
      map (\<lambda>(t, e). (t, e - Suc n)) (filter (\<lambda>p. Suc n < snd p) ps)"
    by (induction ps) auto
  moreover have "map fst (filter (\<lambda>p. snd p \<le> n) ps) @ map fst (filter (\<lambda>p. snd p = 1) ?ps) =
      map fst (filter (\<lambda>p. snd p \<le> Suc n) ps)"
    using conjunct1 [OF due [OF Suc.prems]]
  proof (induction ps)
    case (Cons p ps)
    have "filter (\<lambda>p. snd p \<le> n) ps = []" if "n < snd p"
      using Cons.prems that by (auto simp: filter_empty_conv)
    then show ?case using Cons by (cases p; cases "snd p \<le> n") (auto simp: le_Suc_eq)
  qed simp
  ultimately show ?case using 1(1) 2 by auto
qed

end


lemma fold_wake_ready:
  "Q rdy = Some R \<Longrightarrow> \<exists>R'. fold (wake pri rdy) ts Q rdy = Some R' \<and> set R' = set R \<union> set ts"
proof (induction ts arbitrary: Q R)
  case (Cons t ts)
  have "wake pri rdy t Q rdy = Some (pinsert pri t R)" using Cons.prems by (simp add: wake_def)
  then show ?case using Cons.IH [where Q = "wake pri rdy t Q" and R = "pinsert pri t R"] by auto
qed simp

interpretation delays: timed_queue "timed_rep W R0" osRtxThreadDelayTick for W R0
proof
  fix s ps rs assume "timed_rep W R0 s ps rs"
  then obtain Q D R where S: "sched s Q D W" and ps: "due_times (delay s) 0 D = ps"
    and R: "Q (ready s) = Some R" "set R = R0 \<union> set rs" by (auto simp: timed_rep_def)
  obtain s' where 1: "osRtxThreadDelayTick s = Some s'" "touched s s'"
    "sched s' (fold (wake (priority s) (ready s)) (due_now s D) Q) (map fst (due_later s D)) W"
    "due_times (delay s') 0 (map fst (due_later s D)) = due_later s D"
    by (rule DelayTick_spec [OF S]) blast
  obtain R' where R': "fold (wake (priority s) (ready s)) (due_now s D) Q (ready s) = Some R'"
    "set R' = set R \<union> set (due_now s D)"
    using fold_wake_ready [where Q = Q and R = R and rdy = "ready s" and pri = "priority s" and ts = "due_now s D"] R(1) by blast
  have "timed_rep W R0 s' (map (\<lambda>(t, e). (t, e - 1)) (filter (\<lambda>p. snd p \<noteq> 1) ps))
      (rs @ map fst (filter (\<lambda>p. snd p = 1) ps))"
    unfolding timed_rep_def
    using 1(3,4) R' R(2) touched_fields(24) [OF 1(2)]
    by (intro exI [of _ "fold (wake (priority s) (ready s)) (due_now s D) Q"] exI [of _ "map fst (due_later s D)"]
        exI [of _ R']) (simp add: ps due_now_def due_later_def Un_assoc)
  with 1(1) show "\<exists>s'. osRtxThreadDelayTick s = Some s' \<and>
      timed_rep W R0 s' (map (\<lambda>(t, e). (t, e - 1)) (filter (\<lambda>p. snd p \<noteq> 1) ps))
        (rs @ map fst (filter (\<lambda>p. snd p = 1) ps))" by blast
next
  fix s ps rs assume "timed_rep W R0 s ps rs"
  then obtain Q D where S: "sched s Q D W" and ps: "due_times (delay s) 0 D = ps" by (auto simp: timed_rep_def)
  have "delay_ok s D" using schedD(2) [OF S] by (simp add: delays_ok_def)
  then show "sorted (map snd ps) \<and> (\<forall>p\<in>set ps. 0 < snd p)"
    using due_times_sorted [of "delay s" 0 D] by (simp add: delay_ok_def ps)
qed

text \<open>
  C8: A thread put on the delay list with \<open>d\<close> ticks (neither 0 nor osWaitForever) becomes ready on
  exactly the d-th call of osRtxThreadDelayTick, whatever other threads are delayed: after
  \<open>d - 1\<close> ticks it is still delayed, due at the next tick and not in the ready list, after \<open>d\<close>
  ticks it is in the ready list and no longer delayed. Every call returns.
\<close>

theorem delay_expires_on_time:
  assumes S: "sched s Q D W" and t: "loose s Q D W t" and d: "d \<noteq> 0" "d \<noteq> osWaitForever"
  shows "\<exists>s0 s1 s2 Q1 D1 Q2 D2 R1 R2. osRtxThreadDelayInsert t d s = Some s0 \<and>
      repeat_tick osRtxThreadDelayTick (unat d - 1) s0 = Some s1 \<and> osRtxThreadDelayTick s1 = Some s2 \<and>
      sched s1 Q1 D1 W \<and> (t, 1) \<in> set (due_times (delay s1) 0 D1) \<and> Q1 (ready s1) = Some R1 \<and> t \<notin> set R1 \<and>
      sched s2 Q2 D2 W \<and> t \<notin> set D2 \<and> Q2 (ready s2) = Some R2 \<and> t \<in> set R2"
proof -
  obtain R where R: "Q (ready s) = Some R" by (rule sched_ready [OF S])
  have t': "t \<notin> set D" "t \<notin> set R" "t \<notin> set W" using t R unfolding loose_def in_members by blast+
  obtain s0 D0 W' where 0: "osRtxThreadDelayInsert t d s = Some s0" "touched s s0" "sched s0 Q D0 W'"
    "delayed s D W t d s0 D0 W'"
    by (rule DelayInsert_sched [OF S t d(1)]) blast
  have W: "W' = W" and due: "due_times (delay s0) 0 D0 = due_insert t (unat d) (due_times (delay s) 0 D)"
    using 0(4) d(2) by (simp_all add: delayed_def)
  let ?ps = "due_times (delay s0) 0 D0" and ?n = "unat d - 1"
  have n: "Suc ?n = unat d" using d(1) unat_gt_0 [of d] by simp
  have rep: "timed_rep W (set R) s0 ?ps []"
    unfolding timed_rep_def using 0(3) W R touched_fields(24) [OF 0(2)] by auto
  have only: "e = unat d" if "(t, e) \<in> set ?ps" for e
  proof -
    have "t \<notin> fst ` set (due_times (delay s) 0 D)" using t'(1) map_fst_due [of "delay s" 0 D] by (metis set_map)
    then have "(t, e) \<notin> set (due_times (delay s) 0 D)" by force
    with that show ?thesis by (simp add: due)
  qed
  have mem: "(t, unat d) \<in> set ?ps" unfolding due by simp
  obtain s1 where 1: "repeat_tick osRtxThreadDelayTick ?n s0 = Some s1"
    "timed_rep W (set R) s1 (map (\<lambda>(t, e). (t, e - ?n)) (filter (\<lambda>p. ?n < snd p) ?ps))
       (map fst (filter (\<lambda>p. snd p \<le> ?n) ?ps))"
    using delays.after_ticks [OF rep, of ?n] by auto
  obtain s2 where 2: "repeat_tick osRtxThreadDelayTick (unat d) s0 = Some s2"
    "timed_rep W (set R) s2 (map (\<lambda>(t, e). (t, e - unat d)) (filter (\<lambda>p. unat d < snd p) ?ps))
       (map fst (filter (\<lambda>p. snd p \<le> unat d) ?ps))"
    using delays.after_ticks [OF rep, of "unat d"] by auto
  have "repeat_tick osRtxThreadDelayTick (Suc ?n) s0 = Some s2" using 2(1) by (simp only: n)
  then have tk: "osRtxThreadDelayTick s1 = Some s2" using 1(1) by (simp only: repeat_tick.simps) simp
  obtain Q1 D1 R1 where 3: "sched s1 Q1 D1 W" "due_times (delay s1) 0 D1 = map (\<lambda>(t, e). (t, e - ?n)) (filter (\<lambda>p. ?n < snd p) ?ps)"
    "Q1 (ready s1) = Some R1" "set R1 = set R \<union> set (map fst (filter (\<lambda>p. snd p \<le> ?n) ?ps))"
    using 1(2) by (auto simp: timed_rep_def)
  obtain Q2 D2 R2 where 4: "sched s2 Q2 D2 W" "due_times (delay s2) 0 D2 = map (\<lambda>(t, e). (t, e - unat d)) (filter (\<lambda>p. unat d < snd p) ?ps)"
    "Q2 (ready s2) = Some R2" "set R2 = set R \<union> set (map fst (filter (\<lambda>p. snd p \<le> unat d) ?ps))"
    using 2(2) by (auto simp: timed_rep_def)
  have "(t, 1) \<in> set (due_times (delay s1) 0 D1)" unfolding 3(2) set_map
    by (rule image_eqI [of _ _ "(t, unat d)"]) (use mem n in auto)
  moreover have "t \<notin> set R1"
  proof -
    have "t \<notin> fst ` set (filter (\<lambda>p. snd p \<le> ?n) ?ps)" using only n by fastforce
    then show ?thesis using 3(4) t'(2) by simp
  qed
  moreover have "t \<in> set R2"
  proof -
    have "t \<in> fst ` set (filter (\<lambda>p. snd p \<le> unat d) ?ps)"
      by (rule image_eqI [of _ _ "(t, unat d)"]) (use mem in auto)
    then show ?thesis using 4(4) by simp
  qed
  moreover have "t \<notin> set D2"
  proof
    assume "t \<in> set D2"
    then have "t \<in> fst ` set (due_times (delay s2) 0 D2)"
      using map_fst_due [of "delay s2" 0 D2] by (metis set_map)
    then show False unfolding 4(2) using only by auto
  qed
  ultimately show ?thesis using 0(1) 1(1) tk 3(1,3) 4(1,3) by blast
qed

theorem delay_expires_on_time_witness:
  "\<exists>s0 s1 s2 Q1 D1 Q2 D2 R1 R2. osRtxThreadDelayInsert 0x1000 7 demo = Some s0 \<and>
      repeat_tick osRtxThreadDelayTick (unat (7 :: u32) - 1) s0 = Some s1 \<and> osRtxThreadDelayTick s1 = Some s2 \<and>
      sched s1 Q1 D1 [0x4000] \<and> (0x1000, 1) \<in> set (due_times (delay s1) 0 D1) \<and> Q1 (ready s1) = Some R1 \<and>
      0x1000 \<notin> set R1 \<and> sched s2 Q2 D2 [0x4000] \<and> 0x1000 \<notin> set D2 \<and> Q2 (ready s2) = Some R2 \<and> 0x1000 \<in> set R2"
  by (rule delay_expires_on_time [OF demo_sched])
    (simp_all add: loose_def demo_members, simp_all add: demo_def blank_def)

section \<open>Scheduling properties\<close>

text \<open>
  C7: Threads put by osRtxThreadListPut, in any order, into the empty list of an object and then
  taken out by osRtxThreadListGet come out sorted by descending priority, threads of equal
  priority in the order in which they were put (sort_key is stable).
\<close>

theorem ListPut_ListGet_sorts:
  assumes "lists_ok (tnext s) (thread_prev s) Q" "Q obj = Some []" "obj \<noteq> NULL" "distinct ts"
    and "\<And>t. t \<in> set ts \<Longrightarrow> list_fresh obj Q t"
  shows "\<exists>s1 s2. put_all (osRtxThreadListPut obj) ts s = Some s1 \<and>
     get_all (osRtxThreadListGet obj) (length ts) s1 = Some (sort_key (\<lambda>t. - priority s t) ts, s2) \<and>
     lists_ok (tnext s2) (thread_prev s2) Q"
proof -
  have Q: "Q(obj \<mapsto> []) = Q" using assms(2) by auto
  have rep: "list_rep obj Q (priority s) s []" using assms(1,3) by (simp add: list_rep_def Q)
  obtain s1 where 1: "put_all (osRtxThreadListPut obj) ts s = Some s1"
    "list_rep obj Q (priority s) s1 (sort_key (\<lambda>t. - priority s t) ts)"
    using thread_queue.fill [OF rep assms(4)] assms(5) by (auto simp: fold_pinsert_sort)
  obtain s2 where "get_all (osRtxThreadListGet obj) (length ts) s1 = Some (sort_key (\<lambda>t. - priority s t) ts, s2)"
    "list_rep obj Q (priority s) s2 []"
    using thread_queue.drain [OF 1(2)] by auto
  with 1(1) Q show ?thesis by (auto simp: list_rep_def)
qed

theorem ListPut_ListGet_sorts_witness:
  "\<exists>s1 s2. put_all (osRtxThreadListPut 0x5100) [0x1000, 0x6000, 0x1100] demo = Some s1 \<and>
     get_all (osRtxThreadListGet 0x5100) (length [0x1000 :: ptr, 0x6000, 0x1100]) s1 =
       Some (sort_key (\<lambda>t. - priority demo t) [0x1000, 0x6000, 0x1100], s2) \<and>
     lists_ok (tnext s2) (thread_prev s2) demo_lists"
proof (rule ListPut_ListGet_sorts [OF demo_lists_ok])
  have "demo_lists(0x5100 \<mapsto> []) = demo_lists" by (auto simp: demo_lists_def)
  then show "list_fresh 0x5100 demo_lists t" if "t \<in> set [0x1000, 0x6000, 0x1100]" for t
    using that by (auto simp: list_fresh_def demo_members demo_dom)
qed (simp_all add: demo_lists_def)

text \<open>
  C6: osRtxThreadDispatch(NULL), called at the end of the handlers, returns and leaves the
  scheduler settled: the thread selected to run (\<open>run_next\<close>) is in state Running, in no list, and
  no ready thread has a higher priority; the threads that are ready or selected are the same as
  before the call.
\<close>

theorem dispatch_runs_highest:
  assumes "sched s Q D W" "loose s Q D W (run_curr s)" "run_curr s = run_next s"
    "kernel_state s = osRtxKernelRunning" "ob_state s (run_next s) = osRtxThreadRunning" "stack_ok s"
  shows "\<exists>s' R'. osRtxThreadDispatch NULL s = Some s' \<and> settled s' (Q(ready s \<mapsto> R')) D W \<and>
    insert (run_next s') (set R') = insert (run_next s) (set (the (Q (ready s))))"
  by (rule settled_dispatch [OF assms]) blast

text \<open>In the configuration with the running thread's priority lowered, the thread 0x2000 is selected.\<close>

theorem dispatch_runs_highest_witness:
  "\<exists>s' R'. osRtxThreadDispatch NULL (demo\<lparr>priority := (priority demo)(0x1000 := 10)\<rparr>) = Some s' \<and>
    settled s' (demo_lists(0x100 \<mapsto> R')) [0x6000] [0x4000] \<and> insert (run_next s') (set R') = {0x1000, 0x2000, 0x3000}"
proof -
  let ?s = "demo\<lparr>priority := (priority demo)(0x1000 := 10)\<rparr>"
  have c: "\<forall>p xs. demo_lists p = Some xs \<longrightarrow> p \<noteq> NULL \<longrightarrow> by_priority (priority ?s) xs"
    unfolding demo_lists_cases by (auto simp: demo_def blank_def)
  have S: "sched ?s demo_lists [0x6000] [0x4000]"
    using demo_sched c by (simp add: sched_def tnext_def delays_ok_def delay_ok_def wait_ok_def dnext_def wnext_def)
  note e = enteredD [OF demo_entered]
  have l: "loose ?s demo_lists [0x6000] [0x4000] (run_curr ?s)" using e(5) by (simp add: loose_def)
  have so: "stack_ok ?s" using e(3) by (simp add: stack_ok_def osRtxThreadRegPtr_def)
  have v: "run_next demo = 0x1000" "ready demo = 0x100" "demo_lists 0x100 = Some [0x2000, 0x3000]"
    by (simp_all add: demo_def blank_def demo_lists_def)
  show ?thesis
    using dispatch_runs_highest [OF S l _ _ _ so] e(2,7) settledD(4) [OF e(1)] v by simp
qed

lemma store_words_other: "(\<And>i. i < length ws \<Longrightarrow> p + 4 * of_nat i \<noteq> a) \<Longrightarrow> store_words p ws m a = m a"
proof (induction ws arbitrary: p m)
  case (Cons w ws)
  have n: "p + 4 + 4 * of_nat i \<noteq> a" if "i < length ws" for i
    using Cons.prems [of "Suc i"] that by (simp add: algebra_simps)
  have "store_words (p + 4) ws (m(p := w)) a = (m(p := w)) a" by (rule Cons.IH [OF n])
  moreover have "p \<noteq> a" using Cons.prems [of 0] by simp
  ultimately show ?case by simp
qed simp

text \<open>
  C9: The value passed to osRtxThreadWaitExit for a waiting thread is what the thread's blocked
  service call returns: when the thread is switched to, the word at the restored process stack
  pointer (the R0 slot of its exception frame) holds that value, whichever thread ran before,
  provided the registers saved for that thread do not overlap the slot.
\<close>

theorem wait_result_delivered:
  assumes S: "sched s Q D W" and R: "Q (ready s) = Some R" and t: "t \<in> set D \<union> set W" "t \<notin> members Q"
    and r: "run_curr s \<noteq> t"
    and sep: "\<And>i. i < length regs \<Longrightarrow>
      psp s - StackOffsetR0 exc + 4 * of_nat i \<noteq> osRtxThreadRegPtr s t"
  shows "\<exists>s1 s2. osRtxThreadWaitExit t ret False s = Some s1 \<and>
      s2 = context_switch regs exc (s1\<lparr>run_next := t\<rparr>) \<and> run_curr s2 = t \<and> mem s2 (psp s2) = ret"
proof -
  obtain s1 where 1: "osRtxThreadWaitExit t ret False s = Some s1" "touched s s1"
    "mem s1 = (mem s)(osRtxThreadRegPtr s t := ret)"
    by (rule WaitExit_ready [OF S R t]) blast
  note f = touched_fields [OF 1(2)]
  let ?m = "store_words (psp s - StackOffsetR0 exc) regs (mem s1)"
  have "?m (osRtxThreadRegPtr s t) = ret" by (subst store_words_other) (use sep 1(3) in auto)
  then show ?thesis using 1 f r
    by (auto simp: context_switch_def Let_def osRtxThreadRegPtr_def StackOffsetR0_def)
qed

theorem wait_result_delivered_witness:
  "\<exists>s1 s2. osRtxThreadWaitExit 0x6000 42 False demo = Some s1 \<and>
      s2 = context_switch [4, 5, 6, 7, 8, 9, 10, 11] 0xFD (s1\<lparr>run_next := 0x6000\<rparr>) \<and> run_curr s2 = 0x6000 \<and>
      mem s2 (psp s2) = 42"
proof (rule wait_result_delivered [OF demo_sched])
  show "demo_lists (ready demo) = Some [0x2000, 0x3000]" by (simp add: demo_lists_def demo_def blank_def)
  fix i :: nat assume "i < length [4, 5, 6, 7, 8, 9, 10, 11 :: u32]"
  then have "i \<in> {0, 1, 2, 3, 4, 5, 6, 7}" by auto
  then show "psp demo - StackOffsetR0 0xFD + 4 * of_nat i \<noteq> osRtxThreadRegPtr demo 0x6000"
    by (auto simp: demo_def blank_def StackOffsetR0_def osRtxThreadRegPtr_def)
qed (simp_all add: demo_members, simp_all add: demo_def blank_def)

end
