(* ===== verification/RtxSystem.thy ===== *)
theory RtxSystem
  imports SchedInv
begin

text \<open>
  The queue of objects that interrupt handlers leave for processing in the PendSV handler
  (rtx_system.c), a ring buffer of \<open>isr_max\<close> entries; and two pieces of code that every object
  type repeats: the checks at the start of a call and the loop that unblocks all waiters.
\<close>

unbundle bit_operations_syntax

section \<open>Operations\<close>

definition isr_queue_put :: "ptr \<Rightarrow> rtx \<Rightarrow> u32 \<times> rtx" where
  "isr_queue_put object s =
     (let max' = isr_max s;
          (old, cnt) = atomic_inc16_lt (isr_cnt s) max';
          s = s\<lparr>isr_cnt := cnt\<rparr>
      in if old < max'
         then let (n, inx) = atomic_inc16_lim (isr_in s) max';
                  s = s\<lparr>isr_in := inx\<rparr>
              in (1, s\<lparr>isr_data := (isr_data s)(n := object)\<rparr>)
         else (0, s))"

definition isr_queue_get :: "rtx \<Rightarrow> ptr \<times> rtx" where
  "isr_queue_get s =
     (let max' = isr_max s;
          (old, cnt) = atomic_dec16_nz (isr_cnt s);
          s = s\<lparr>isr_cnt := cnt\<rparr>
      in if old \<noteq> 0
         then let (n, out) = atomic_inc16_lim (isr_out s) max';
                  s = s\<lparr>isr_out := out\<rparr>
              in (isr_data s n, s)
         else (NULL, s))"

definition osRtxPostProcess :: "ptr \<Rightarrow> rtx \<Rightarrow> rtx option" where
  "osRtxPostProcess object s =
     (let (r, s) = isr_queue_put object s
      in if r \<noteq> 0
         then if kernel_blocked s = 0 then Some (SetPendSV s) else Some (s\<lparr>kernel_pendSV := 1\<rparr>)
         else None)"

section \<open>Code shared by all object types\<close>

text \<open>The checks every call on an existing object starts with.\<close>

definition ob_check :: "u8 \<Rightarrow> ptr \<Rightarrow> rtx \<Rightarrow> osStatus" where
  "ob_check ident p s =
     (if p = NULL \<or> ob_id s p \<noteq> ident then osErrorParameter
      else if ob_state s p = osRtxObjectInactive then osErrorResource else osOK)"

text \<open>
  The do-while loop that unblocks all waiters of a deleted object; the other objects' Delete
  functions have the same loop.
\<close>

partial_function (option) unblock_all :: "ptr \<Rightarrow> u32 \<Rightarrow> rtx \<Rightarrow> rtx option" where
  "unblock_all object ret_val s = do {
     (thread, s) \<leftarrow> osRtxThreadListGet object s;
     s \<leftarrow> osRtxThreadWaitExit thread ret_val False s;
     (if thread_list s object \<noteq> NULL then unblock_all object ret_val s else Some s)
   }"

section \<open>Specification vocabulary\<close>

text \<open>
  Sequences of queue operations, on a list and on an implementation. \<open>isr_rep\<close> reads the ring
  buffer as a list: its element \<open>i\<close> is in slot (\<open>isr_out\<close> + i) mod \<open>isr_max\<close>.
\<close>

datatype 'a queue_op = QPut 'a | QGet

text \<open>A bounded queue as a list: the results of a sequence of operations and the final content.\<close>

fun fifo_run :: "nat \<Rightarrow> ptr queue_op list \<Rightarrow> ptr list \<Rightarrow> u32 list \<times> ptr list" where
  "fifo_run cap [] xs = ([], xs)"
| "fifo_run cap (QPut x # ops) xs =
     (if length xs < cap then let (r, ys) = fifo_run cap ops (xs @ [x]) in (1 # r, ys)
      else let (r, ys) = fifo_run cap ops xs in (0 # r, ys))"
| "fifo_run cap (QGet # ops) xs =
     (case xs of [] \<Rightarrow> let (r, ys) = fifo_run cap ops [] in (NULL # r, ys)
      | x # xs \<Rightarrow> let (r, ys) = fifo_run cap ops xs in (x # r, ys))"

fun queue_run :: "(ptr \<Rightarrow> 's \<Rightarrow> u32 \<times> 's) \<Rightarrow> ('s \<Rightarrow> ptr \<times> 's) \<Rightarrow> ptr queue_op list \<Rightarrow> 's \<Rightarrow> u32 list \<times> 's" where
  "queue_run put get [] s = ([], s)"
| "queue_run put get (QPut x # ops) s =
     (let (r, s) = put x s; (rs, s) = queue_run put get ops s in (r # rs, s))"
| "queue_run put get (QGet # ops) s =
     (let (r, s) = get s; (rs, s) = queue_run put get ops s in (r # rs, s))"

definition isr_slot :: "rtx \<Rightarrow> nat \<Rightarrow> u16" where
  "isr_slot s i = of_nat ((unat (isr_out s) + i) mod unat (isr_max s))"

definition isr_rep :: "nat \<Rightarrow> rtx \<Rightarrow> ptr list \<Rightarrow> bool" where
  "isr_rep cap s xs \<longleftrightarrow> cap = unat (isr_max s) \<and> 0 < cap \<and> length xs = unat (isr_cnt s) \<and> length xs \<le> cap \<and>
     unat (isr_out s) < cap \<and> isr_in s = isr_slot s (length xs) \<and>
     (\<forall>i<length xs. isr_data s (isr_slot s i) = xs ! i)"

section \<open>The ISR queue is a bounded FIFO\<close>

locale bounded_fifo =
  fixes rep :: "'s \<Rightarrow> ptr list \<Rightarrow> bool" and put :: "ptr \<Rightarrow> 's \<Rightarrow> u32 \<times> 's" and get :: "'s \<Rightarrow> ptr \<times> 's" and cap :: nat
  assumes put_ok: "rep s xs \<Longrightarrow> length xs < cap \<Longrightarrow> \<exists>s'. put x s = (1, s') \<and> rep s' (xs @ [x])"
    and put_full: "rep s xs \<Longrightarrow> \<not> length xs < cap \<Longrightarrow> \<exists>s'. put x s = (0, s') \<and> rep s' xs"
    and get_ok: "rep s (x # xs) \<Longrightarrow> \<exists>s'. get s = (x, s') \<and> rep s' xs"
    and get_empty: "rep s [] \<Longrightarrow> \<exists>s'. get s = (NULL, s') \<and> rep s' []"
begin

lemma run: "rep s xs \<Longrightarrow> \<exists>s'. queue_run put get ops s = (fst (fifo_run cap ops xs), s') \<and> rep s' (snd (fifo_run cap ops xs))"
proof (induction ops arbitrary: s xs)
  case (Cons p ops)
  show ?case
  proof (cases p)
    case (QPut x)
    show ?thesis
    proof (cases "length xs < cap")
      case True
      obtain s1 where 1: "put x s = (1, s1)" "rep s1 (xs @ [x])" using put_ok [OF Cons.prems True] by blast
      show ?thesis using Cons.IH [OF 1(2)] 1(1) True QPut by (auto simp: split_beta)
    next
      case False
      obtain s1 where 1: "put x s = (0, s1)" "rep s1 xs" using put_full [OF Cons.prems False] by blast
      show ?thesis using Cons.IH [OF 1(2)] 1(1) False QPut by (auto simp: split_beta)
    qed
  next
    case QGet
    show ?thesis
    proof (cases xs)
      case Nil
      obtain s1 where 1: "get s = (NULL, s1)" "rep s1 []" using get_empty Cons.prems Nil by blast
      show ?thesis using Cons.IH [OF 1(2)] 1(1) Nil QGet by (auto simp: split_beta)
    next
      case (Cons x ys)
      obtain s1 where 1: "get s = (x, s1)" "rep s1 ys" using get_ok Cons.prems Cons by blast
      show ?thesis using Cons.IH [OF 1(2)] 1(1) Cons QGet by (auto simp: split_beta)
    qed
  qed
qed simp

end

lemma unat16: "unat (w :: u16) < 65536"
  using unsigned_less [of w] by simp

lemma inc16_lim: "unat n < unat lim \<Longrightarrow> unat (snd (atomic_inc16_lim n lim)) = (unat n + 1) mod unat lim"
proof -
  assume n: "unat n < unat lim"
  have "unat (n + 1) = unat n + 1" if "unat n + 1 < unat lim"
    using that unat16 [of lim] by (simp add: unat_word_ariths)
  then show ?thesis using n by (auto simp: atomic_inc16_lim_def) (metis Suc_lessI mod_self)
qed

lemma unat_slot: "0 < unat (isr_max s) \<Longrightarrow> unat (isr_slot s i) = (unat (isr_out s) + i) mod unat (isr_max s)"
proof -
  assume "0 < unat (isr_max s)"
  then have "(unat (isr_out s) + i) mod unat (isr_max s) < unat (isr_max s)" by simp
  then show ?thesis unfolding isr_slot_def
    using unat16 [of "isr_max s"] by (simp add: unsigned_of_nat take_bit_nat_eq_self)
qed

lemma slot_inj:
  assumes "0 < unat (isr_max s)" "i < unat (isr_max s)" "j < unat (isr_max s)" "isr_slot s i = isr_slot s j"
  shows "i = j"
proof -
  have *: "a = b" if "(k + a) mod m = (k + b) mod m" "a < m" "b < m" "a \<le> b" for a b k m :: nat
  proof -
    have "m dvd b - a" using mod_eq_dvd_iff_nat [of "k + a" "k + b" m] that by auto
    with that show ?thesis by (auto dest: dvd_imp_le)
  qed
  have "(unat (isr_out s) + i) mod unat (isr_max s) = (unat (isr_out s) + j) mod unat (isr_max s)"
    using assms(1,4) unat_slot by metis
  then show ?thesis
    using * [OF _ assms(2,3)] * [OF _ assms(3,2)] by (metis nat_le_linear)
qed

lemma isr_put_ok:
  assumes "isr_rep cap s xs" "length xs < cap"
  shows "\<exists>s'. isr_queue_put x s = (1, s') \<and> isr_rep cap s' (xs @ [x])"
proof -
  let ?m = "unat (isr_max s)"
  have r: "cap = ?m" "0 < ?m" "length xs = unat (isr_cnt s)" "unat (isr_out s) < ?m"
    "isr_in s = isr_slot s (length xs)" "\<forall>i<length xs. isr_data s (isr_slot s i) = xs ! i"
    using assms(1) by (auto simp: isr_rep_def)
  have lt: "isr_cnt s < isr_max s" using assms(2) r by (simp add: word_less_nat_alt)
  have c: "unat (isr_cnt s + 1) = length xs + 1"
    using assms(2) r unat16 [of "isr_max s"] by (simp add: unat_word_ariths)
  have i: "unat (isr_in s) < ?m" using r unat_slot [of s] by simp
  let ?s = "s\<lparr>isr_cnt := isr_cnt s + 1, isr_in := snd (atomic_inc16_lim (isr_in s) (isr_max s)),
      isr_data := (isr_data s)(isr_in s := x)\<rparr>"
  have sl: "isr_slot ?s = isr_slot s" by (simp add: isr_slot_def fun_eq_iff)
  have "unat (isr_in ?s) = unat (isr_slot s (length xs + 1))"
    using inc16_lim [OF i] r(2,5) by (simp add: unat_slot mod_Suc_eq)
  then have inx: "isr_in ?s = isr_slot ?s (length (xs @ [x]))" by (simp only: sl length_append) (simp add: word_unat_eq_iff)
  have "isr_data ?s (isr_slot ?s k) = (xs @ [x]) ! k" if "k < length (xs @ [x])" for k
  proof (cases "k = length xs")
    case True then show ?thesis unfolding sl using r(5) by simp
  next
    case False
    then have k: "k < length xs" using that by simp
    then have "isr_slot s k \<noteq> isr_in s" using slot_inj [of s k "length xs"] r assms(2) by auto
    then show ?thesis unfolding sl using k r(6) by (simp add: nth_append)
  qed
  then have "isr_rep cap ?s (xs @ [x])" using r c inx assms(2) by (simp add: isr_rep_def)
  moreover have "isr_queue_put x s = (1, ?s)"
    using lt by (simp add: isr_queue_put_def atomic_inc16_lt_def atomic_inc16_lim_def Let_def)
  ultimately show ?thesis by blast
qed

lemma isr_get_ok:
  assumes "isr_rep cap s (x # xs)"
  shows "\<exists>s'. isr_queue_get s = (x, s') \<and> isr_rep cap s' xs"
proof -
  let ?m = "unat (isr_max s)"
  have r: "cap = ?m" "0 < ?m" "Suc (length xs) = unat (isr_cnt s)" "unat (isr_out s) < ?m" "Suc (length xs) \<le> ?m"
    "isr_in s = isr_slot s (Suc (length xs))"
    and d: "\<And>i. i < Suc (length xs) \<Longrightarrow> isr_data s (isr_slot s i) = (x # xs) ! i"
    using assms by (auto simp: isr_rep_def)
  have nz: "isr_cnt s \<noteq> 0" using r(3) by auto
  then have c: "unat (isr_cnt s - 1) = length xs" using r(3) by (simp add: unat_minus_one)
  let ?s = "s\<lparr>isr_cnt := isr_cnt s - 1, isr_out := snd (atomic_inc16_lim (isr_out s) (isr_max s))\<rparr>"
  have o: "unat (isr_out ?s) = (unat (isr_out s) + 1) mod ?m" using inc16_lim [OF r(4)] by simp
  have sl: "isr_slot ?s i = isr_slot s (Suc i)" for i
    unfolding isr_slot_def o by (simp add: mod_add_left_eq)
  have s0: "isr_slot s 0 = isr_out s" using r(4) by (simp add: isr_slot_def)
  have "isr_rep cap ?s xs"
    using r c o d [of "Suc _"] by (simp add: isr_rep_def sl)
  moreover have "isr_queue_get s = (x, ?s)"
    using nz d [of 0] by (simp add: isr_queue_get_def atomic_dec16_nz_def atomic_inc16_lim_def Let_def s0)
  ultimately show ?thesis by blast
qed

interpretation isr_queue: bounded_fifo "isr_rep cap" isr_queue_put isr_queue_get cap for cap
proof
  fix s xs x
  show "isr_rep cap s xs \<Longrightarrow> length xs < cap \<Longrightarrow> \<exists>s'. isr_queue_put x s = (1, s') \<and> isr_rep cap s' (xs @ [x])"
    by (rule isr_put_ok)
  show "isr_rep cap s (x # xs) \<Longrightarrow> \<exists>s'. isr_queue_get s = (x, s') \<and> isr_rep cap s' xs" by (rule isr_get_ok)
next
  fix s xs x assume r: "isr_rep cap s xs" "\<not> length xs < cap"
  then have "\<not> isr_cnt s < isr_max s" by (auto simp: isr_rep_def word_less_nat_alt)
  then have "isr_queue_put x s = (0, s\<lparr>isr_cnt := isr_cnt s\<rparr>)"
    by (simp add: isr_queue_put_def atomic_inc16_lt_def Let_def)
  with r(1) show "\<exists>s'. isr_queue_put x s = (0, s') \<and> isr_rep cap s' xs" by auto
next
  fix s assume r: "isr_rep cap s []"
  then have "isr_cnt s = 0" by (auto simp: isr_rep_def unat_eq_0)
  then have "isr_queue_get s = (NULL, s\<lparr>isr_cnt := isr_cnt s\<rparr>)"
    by (simp add: isr_queue_get_def atomic_dec16_nz_def Let_def)
  with r show "\<exists>s'. isr_queue_get s = (NULL, s') \<and> isr_rep cap s' []" by auto
qed

text \<open>
  C16: Any sequence of puts and gets on the interrupt queue, a ring buffer with wrapping 16-bit
  indices, gives the results of a first-in first-out list of at most \<open>isr_max\<close> elements: a put
  returns 1 and appends while there is room and returns 0 and changes nothing otherwise, a get
  returns the oldest element, or NULL when the queue is empty.
\<close>

theorem isr_queue_is_fifo:
  assumes "isr_max s \<noteq> 0" "isr_cnt s = 0" "isr_in s = isr_out s" "isr_out s < isr_max s"
  shows "fst (queue_run isr_queue_put isr_queue_get ops s) = fst (fifo_run (unat (isr_max s)) ops [])"
proof -
  have "unat (isr_out s) < unat (isr_max s)" using assms(4) by (simp add: word_less_nat_alt)
  then have "isr_rep (unat (isr_max s)) s []"
    using assms by (simp add: isr_rep_def isr_slot_def)
  from isr_queue.run [OF this, of ops] show ?thesis by auto
qed

theorem isr_queue_is_fifo_witness:
  "fst (queue_run isr_queue_put isr_queue_get [QPut 7, QPut 8, QPut 9, QGet, QPut 10, QGet, QGet, QGet]
     (blank\<lparr>isr_max := 2, isr_in := 1, isr_out := 1\<rparr>)) = [1, 1, 0, 7, 1, 8, 10, 0]"
proof -
  let ?s = "blank\<lparr>isr_max := 2, isr_in := 1, isr_out := 1\<rparr>"
  have "fst (queue_run isr_queue_put isr_queue_get [QPut 7, QPut 8, QPut 9, QGet, QPut 10, QGet, QGet, QGet] ?s) =
      fst (fifo_run (unat (isr_max ?s)) [QPut 7, QPut 8, QPut 9, QGet, QPut 10, QGet, QGet, QGet] [])"
    by (rule isr_queue_is_fifo) (simp_all add: blank_def)
  then show ?thesis by (simp add: numeral_2_eq_2 [symmetric])
qed

section \<open>Unblocking all waiters\<close>

lemma members_upd: "members (Q(p \<mapsto> ys)) \<subseteq> set ys \<union> members Q"
proof
  fix x assume "x \<in> members (Q(p \<mapsto> ys))"
  then obtain q zs where q: "(Q(p \<mapsto> ys)) q = Some zs" "x \<in> set zs" unfolding in_members by blast
  then show "x \<in> set ys \<union> members Q"
    using membersI [of Q q zs x] by (cases "q = p") auto
qed

lemma unblock_all_spec:
  assumes "sched s Q D W" "Q obj = Some ws" "ws \<noteq> []" "obj \<noteq> NULL" "obj \<noteq> ready s" "Q (ready s) = Some R"
  obtains s' R' D' W' where "unblock_all obj ret s = Some s'" "touched s s'"
    "sched s' (Q(obj \<mapsto> [], ready s \<mapsto> R')) D' W'" "R' = fold (pinsert (priority s)) ws R"
    "ob_state s' = (\<lambda>t. if t \<in> set ws then osRtxThreadReady else ob_state s t)" "run_next s' = run_next s"
    "mem s' = fold (\<lambda>t m. m(osRtxThreadRegPtr s t := ret)) ws (mem s)"
    "set D' = set D - set ws" "set W' = set W - set ws"
  using assms
proof (induction ws arbitrary: s Q D W R thesis)
  case (Cons t ws)
  note P = Cons.prems(2-)
  let ?Q = "Q(obj \<mapsto> ws, ready s \<mapsto> pinsert (priority s) t R)"
  obtain s1 s2 where 1: "osRtxThreadListGet obj s = Some (t, s1)" "osRtxThreadWaitExit t ret False s1 = Some s2"
    "touched s s2" "sched s2 ?Q (remove1 t D) (remove1 t W)" "ob_state s2 = (ob_state s)(t := osRtxThreadReady)"
    "run_next s2 = run_next s" "mem s2 = (mem s)(osRtxThreadRegPtr s t := ret)"
    by (rule wake_waiter [OF P(1,2,4,5,6)]) blast
  note f = touched_fields [OF 1(3)]
  have rg: "osRtxThreadRegPtr s2 = osRtxThreadRegPtr s" by (simp add: fun_eq_iff osRtxThreadRegPtr_def f)
  have dst: "distinct D" "distinct W"
    using schedD(2) [OF P(1)] dll_distinct unfolding delays_ok_def delay_ok_def wait_ok_def by blast+
  have Q2: "?Q obj = Some ws" "?Q (ready s2) = Some (pinsert (priority s) t R)" using P(5) f by simp_all
  have hd: "thread_next s2 obj = after ws" by (rule list_head [OF schedD(1) [OF 1(4)] Q2(1) P(4)])
  have nn: "NULL \<notin> set ws" using dll_nonnull [OF lists_ok_dll [OF schedD(1) [OF 1(4)] Q2(1)]] .
  show ?case
  proof (cases "ws = []")
    case True
    then have "unblock_all obj ret s = Some s2" using 1 hd by (subst unblock_all.simps) simp
    then show ?thesis
      by (intro Cons.prems(1) [of s2 "pinsert (priority s) t R" "remove1 t D" "remove1 t W"])
        (use 1 True dst in \<open>auto simp: fun_upd_def\<close>)
  next
    case False
    then have h: "thread_next s2 obj \<noteq> NULL" using hd nn by (cases ws) auto
    have o2: "obj \<noteq> ready s2" using P(5) f by simp
    obtain s' R' D' W' where 2: "unblock_all obj ret s2 = Some s'" "touched s2 s'"
      "sched s' (?Q(obj \<mapsto> [], ready s2 \<mapsto> R')) D' W'"
      "R' = fold (pinsert (priority s2)) ws (pinsert (priority s) t R)"
      "ob_state s' = (\<lambda>t. if t \<in> set ws then osRtxThreadReady else ob_state s2 t)" "run_next s' = run_next s2"
      "mem s' = fold (\<lambda>t m. m(osRtxThreadRegPtr s2 t := ret)) ws (mem s2)"
      "set D' = set (remove1 t D) - set ws" "set W' = set (remove1 t W) - set ws"
      using Cons.IH [OF _ 1(4) Q2(1) False P(4) o2 Q2(2)] by blast
    have "?Q(obj \<mapsto> [], ready s2 \<mapsto> R') = Q(obj \<mapsto> [], ready s \<mapsto> R')"
      using P(5) f by (auto simp: fun_eq_iff)
    then have S': "sched s' (Q(obj \<mapsto> [], ready s \<mapsto> R')) D' W'" using 2(3) by simp
    have ob: "ob_state s' = (\<lambda>x. if x \<in> set (t # ws) then osRtxThreadReady else ob_state s x)"
      using 1(5) 2(5) by (simp add: fun_eq_iff)
    have R': "R' = fold (pinsert (priority s)) (t # ws) R" using 2(4) f by simp
    have m: "mem s' = fold (\<lambda>t m. m(osRtxThreadRegPtr s t := ret)) (t # ws) (mem s)" using 2(7) 1(7) rg by simp
    have un: "unblock_all obj ret s = Some s'" using 1(1,2) h 2(1) by (subst unblock_all.simps) simp
    have sets: "set D' = set D - set (t # ws)" "set W' = set W - set (t # ws)" using 2(8,9) dst by auto
    show ?thesis
      by (rule Cons.prems(1) [OF un touched_trans [OF 1(3) 2(2)] S' R' ob _ m sets]) (simp add: 1(6) 2(6))
  qed
qed simp

lemma stack_ok_regs:
  assumes "stack_ok s" "touched s s'" "mem s' = fold (\<lambda>t m. m(osRtxThreadRegPtr s t := ret)) ws (mem s)"
    "\<And>t. t \<in> set ws \<Longrightarrow> ob_id s t = osRtxIdThread"
  shows "stack_ok s'"
proof -
  have "fold (\<lambda>t m. m(osRtxThreadRegPtr s t := ret)) ws m (stack_mem s (run_curr s)) = m (stack_mem s (run_curr s))"
    if "run_curr s \<noteq> NULL" for m
    using assms(4)
  proof (induction ws arbitrary: m)
    case (Cons t ws)
    have "osRtxThreadRegPtr s t \<noteq> stack_mem s (run_curr s)"
      using assms(1) that Cons.prems [of t] by (simp add: stack_ok_def)
    with Cons show ?case by simp
  qed simp
  with assms(1,3) touched_fields [OF assms(2)] show ?thesis
    by (simp add: stack_ok_def osRtxThreadRegPtr_def)
qed

lemma loose_sub:
  assumes "loose s Q D W t" "members Q' \<subseteq> insert x (members Q)" "t \<noteq> x" "set D' \<subseteq> set D" "set W' \<subseteq> set W"
    "ob_id s' t = ob_id s t"
  shows "loose s' Q' D' W' t"
  using assms unfolding loose_def by auto

text \<open>Deleting an object wakes all its waiters with the given result; the scheduler settles.\<close>

lemma settled_unblock:
  assumes E: "entered s Q D W" and Q: "Q obj = Some ws" and ne: "ws \<noteq> []" and obj: "obj \<noteq> NULL" "obj \<noteq> ready s"
  obtains s1 s' R' D' W' where "unblock_all obj ret s = Some s1" "osRtxThreadDispatch NULL s1 = Some s'"
    "touched s s'" "settled s' (Q(obj \<mapsto> [], ready s \<mapsto> R')) D' W'"
    "insert (run_next s') (set R') = insert (run_next s) (set ws \<union> set (the (Q (ready s))))"
    "mem s' = fold (\<lambda>t m. m(osRtxThreadRegPtr s t := ret)) ws (mem s)"
    "set D' = set D - set ws" "set W' = set W - set ws"
    "\<forall>x. ob_id s x \<noteq> osRtxIdThread \<longrightarrow> ob_state s' x = ob_state s x"
    "tstates {} s Q D W \<Longrightarrow> tstates {} s' (Q(obj \<mapsto> [], ready s \<mapsto> R')) D' W'"
proof -
  note e = enteredD [OF E] and sd = settledD [OF enteredD(1) [OF E]]
  note DD = schedD [OF e(6)]
  obtain R where R: "Q (ready s) = Some R" by (rule sched_ready [OF e(6)])
  obtain s1 R1 D' W' where 1: "unblock_all obj ret s = Some s1" "touched s s1"
    "sched s1 (Q(obj \<mapsto> [], ready s \<mapsto> R1)) D' W'" "R1 = fold (pinsert (priority s)) ws R"
    "ob_state s1 = (\<lambda>t. if t \<in> set ws then osRtxThreadReady else ob_state s t)" "run_next s1 = run_next s"
    "mem s1 = fold (\<lambda>t m. m(osRtxThreadRegPtr s t := ret)) ws (mem s)"
    "set D' = set D - set ws" "set W' = set W - set ws"
    by (rule unblock_all_spec [OF e(6) Q ne obj R]) blast
  note f = touched_fields [OF 1(2)]
  let ?Q = "Q(obj \<mapsto> [], ready s \<mapsto> R1)"
  have sR: "set R1 = set ws \<union> set R" unfolding 1(4) by (induction ws arbitrary: R) auto
  have wm: "set ws \<subseteq> members Q" "set R \<subseteq> members Q" using members_sub Q R by blast+
  have "members ?Q \<subseteq> members Q" using members_upd [of "Q(obj \<mapsto> [])" "ready s" R1] members_upd [of Q obj "[]"] sR wm by auto
  then have l: "loose s1 ?Q D' W' (run_curr s1)"
    using e(5) f 1(8,9) by (auto simp: loose_def)
  have rw: "run_next s \<notin> set ws" using e(2,5) wm by (auto simp: loose_def)
  have so: "stack_ok s1" by (rule stack_ok_regs [OF e(3) 1(2,7)]) (use wm DD(4) in auto)
  have p: "run_curr s1 = run_next s1" "kernel_state s1 = osRtxKernelRunning" "ob_state s1 (run_next s1) = osRtxThreadRunning"
    using e(2,7) f 1(5,6) sd(4) rw by simp_all
  obtain s' R' where 2: "osRtxThreadDispatch NULL s1 = Some s'" "touched s1 s'"
    "settled s' (?Q(ready s1 \<mapsto> R')) D' W'" "mem s' = mem s1"
    "insert (run_next s') (set R') = insert (run_next s1) (set (the (?Q (ready s1))))"
    "\<forall>x. ob_id s1 x \<noteq> osRtxIdThread \<longrightarrow> ob_state s' x = ob_state s1 x"
    "tstates {} s1 ?Q D' W' \<Longrightarrow> tstates {} s' (?Q(ready s1 \<mapsto> R')) D' W'"
    by (rule settled_dispatch [OF 1(3) l p so]) blast
  have "?Q(ready s1 \<mapsto> R') = Q(obj \<mapsto> [], ready s \<mapsto> R')" using f by simp
  moreover have "\<forall>x. ob_id s x \<noteq> osRtxIdThread \<longrightarrow> x \<notin> set ws" using wm DD(4) by auto
  moreover have "tstates {} s1 ?Q D' W'" if "tstates {} s Q D W"
    by (rule tstates_step [OF that R, of _ R1 s1 "set ws"]) (use 1(5,6,8,9) sR f(1,24) in auto)
  ultimately show thesis using 1 2 f sR R touched_trans [OF 1(2) 2(2)]
    by (intro that [of s1 s' R' D' W']) simp_all
qed

section \<open>Frame conditions of the invariant\<close>

text \<open>The scheduler's invariant does not depend on the data of the objects.\<close>

lemma sched_data [simp]:
  "sched (ob_attr_update f0 s) Q D W = sched s Q D W" "sched (ob_name_update f1 s) Q D W = sched s Q D W"
  "sched (tokens_update f2 s) Q D W = sched s Q D W" "sched (max_tokens_update f3 s) Q D W = sched s Q D W"
  "sched (event_flags_update f4 s) Q D W = sched s Q D W" "sched (wait_flags_update f5 s) Q D W = sched s Q D W"
  "sched (flags_options_update f6 s) Q D W = sched s Q D W" "sched (thread_flags_update f7 s) Q D W = sched s Q D W"
  "sched (sp_update f8 s) Q D W = sched s Q D W" "sched (stack_frame_update f9 s) Q D W = sched s Q D W"
  "sched (stack_size_update f10 s) Q D W = sched s Q D W" "sched (psp_update f11 s) Q D W = sched s Q D W"
  "sched (kernel_tick_update f12 s) Q D W = sched s Q D W" "sched (used_blocks_update f13 s) Q D W = sched s Q D W"
  "sched (max_blocks_update f14 s) Q D W = sched s Q D W" "sched (block_size_update f15 s) Q D W = sched s Q D W"
  "sched (block_base_update f16 s) Q D W = sched s Q D W" "sched (block_free_update f17 s) Q D W = sched s Q D W"
  "sched (block_lim_update f18 s) Q D W = sched s Q D W" "sched (robin_thread_update f19 s) Q D W = sched s Q D W"
  "sched (robin_tick_update f20 s) Q D W = sched s Q D W" "sched (robin_timeout_update f21 s) Q D W = sched s Q D W"
  "sched (thread_join_update f22 s) Q D W = sched s Q D W" "sched (owner_thread_update f23 s) Q D W = sched s Q D W"
  "sched (owner_next_update f24 s) Q D W = sched s Q D W" "sched (owner_prev_update f25 s) Q D W = sched s Q D W"
  "sched (mutex_list_update f26 s) Q D W = sched s Q D W" "sched (lock_count_update f27 s) Q D W = sched s Q D W"
  "sched (priority_base_update f28 s) Q D W = sched s Q D W" "sched (bytes_update f29 s) Q D W = sched s Q D W"
  "sched (msg_size_update f30 s) Q D W = sched s Q D W" "sched (msg_count_update f31 s) Q D W = sched s Q D W"
  "sched (msg_first_update f32 s) Q D W = sched s Q D W" "sched (msg_last_update f33 s) Q D W = sched s Q D W"
  "sched (msg_prev_update f34 s) Q D W = sched s Q D W" "sched (msg_next_update f35 s) Q D W = sched s Q D W"
  "sched (msg_priority_update f36 s) Q D W = sched s Q D W" "sched (msg_mq_update f37 s) Q D W = sched s Q D W"
  "sched (timer_prev_update f38 s) Q D W = sched s Q D W" "sched (timer_next_update f39 s) Q D W = sched s Q D W"
  "sched (timer_ticks_update f40 s) Q D W = sched s Q D W" "sched (timer_load_update f41 s) Q D W = sched s Q D W"
  "sched (timer_list_update f42 s) Q D W = sched s Q D W" "sched (timer_tick_set_update f43 s) Q D W = sched s Q D W"
  "sched (timer_thread_update f44 s) Q D W = sched s Q D W" "sched (timer_mq_update f45 s) Q D W = sched s Q D W"
  "sched (isr_cnt_update f46 s) Q D W = sched s Q D W" "sched (isr_in_update f47 s) Q D W = sched s Q D W"
  "sched (isr_out_update f48 s) Q D W = sched s Q D W" "sched (isr_data_update f49 s) Q D W = sched s Q D W"
  "sched (kernel_blocked_update f50 s) Q D W = sched s Q D W"
  "sched (kernel_pendSV_update f51 s) Q D W = sched s Q D W" "sched (pendsv_set_update f52 s) Q D W = sched s Q D W"
  "sched (mem_stack_update f53 s) Q D W = sched s Q D W" "sched (mem_mp_data_update f54 s) Q D W = sched s Q D W"
  "sched (mem_mq_data_update f55 s) Q D W = sched s Q D W" "sched (mem_common_update f56 s) Q D W = sched s Q D W"
  "sched (idle_thread_update f57 s) Q D W = sched s Q D W" "sched (context_ptr_update f58 s) Q D W = sched s Q D W"
  "sched (thread_addr_update f59 s) Q D W = sched s Q D W" "sched (run_curr_update f60 s) Q D W = sched s Q D W"
  "sched (kernel_state_update f61 s) Q D W = sched s Q D W" "sched (mem_update f62 s) Q D W = sched s Q D W"
  "sched (stack_mem_update f63 s) Q D W = sched s Q D W"
  by (simp_all add: sched_def tnext_def delays_ok_def delay_ok_def dnext_def wait_ok_def wnext_def)

lemma loose_data [simp]:
  "loose (ob_attr_update f0 s) Q D W = loose s Q D W" "loose (ob_name_update f1 s) Q D W = loose s Q D W"
  "loose (tokens_update f2 s) Q D W = loose s Q D W" "loose (max_tokens_update f3 s) Q D W = loose s Q D W"
  "loose (event_flags_update f4 s) Q D W = loose s Q D W" "loose (wait_flags_update f5 s) Q D W = loose s Q D W"
  "loose (flags_options_update f6 s) Q D W = loose s Q D W" "loose (thread_flags_update f7 s) Q D W = loose s Q D W"
  "loose (sp_update f8 s) Q D W = loose s Q D W" "loose (stack_frame_update f9 s) Q D W = loose s Q D W"
  "loose (stack_size_update f10 s) Q D W = loose s Q D W" "loose (psp_update f11 s) Q D W = loose s Q D W"
  "loose (kernel_tick_update f12 s) Q D W = loose s Q D W" "loose (used_blocks_update f13 s) Q D W = loose s Q D W"
  "loose (max_blocks_update f14 s) Q D W = loose s Q D W" "loose (block_size_update f15 s) Q D W = loose s Q D W"
  "loose (block_base_update f16 s) Q D W = loose s Q D W" "loose (block_free_update f17 s) Q D W = loose s Q D W"
  "loose (block_lim_update f18 s) Q D W = loose s Q D W" "loose (robin_thread_update f19 s) Q D W = loose s Q D W"
  "loose (robin_tick_update f20 s) Q D W = loose s Q D W" "loose (robin_timeout_update f21 s) Q D W = loose s Q D W"
  "loose (thread_join_update f22 s) Q D W = loose s Q D W" "loose (owner_thread_update f23 s) Q D W = loose s Q D W"
  "loose (owner_next_update f24 s) Q D W = loose s Q D W" "loose (owner_prev_update f25 s) Q D W = loose s Q D W"
  "loose (mutex_list_update f26 s) Q D W = loose s Q D W" "loose (lock_count_update f27 s) Q D W = loose s Q D W"
  "loose (priority_base_update f28 s) Q D W = loose s Q D W" "loose (bytes_update f29 s) Q D W = loose s Q D W"
  "loose (msg_size_update f30 s) Q D W = loose s Q D W" "loose (msg_count_update f31 s) Q D W = loose s Q D W"
  "loose (msg_first_update f32 s) Q D W = loose s Q D W" "loose (msg_last_update f33 s) Q D W = loose s Q D W"
  "loose (msg_prev_update f34 s) Q D W = loose s Q D W" "loose (msg_next_update f35 s) Q D W = loose s Q D W"
  "loose (msg_priority_update f36 s) Q D W = loose s Q D W" "loose (msg_mq_update f37 s) Q D W = loose s Q D W"
  "loose (timer_prev_update f38 s) Q D W = loose s Q D W" "loose (timer_next_update f39 s) Q D W = loose s Q D W"
  "loose (timer_ticks_update f40 s) Q D W = loose s Q D W" "loose (timer_load_update f41 s) Q D W = loose s Q D W"
  "loose (timer_list_update f42 s) Q D W = loose s Q D W" "loose (timer_tick_set_update f43 s) Q D W = loose s Q D W"
  "loose (timer_thread_update f44 s) Q D W = loose s Q D W" "loose (timer_mq_update f45 s) Q D W = loose s Q D W"
  "loose (isr_cnt_update f46 s) Q D W = loose s Q D W" "loose (isr_in_update f47 s) Q D W = loose s Q D W"
  "loose (isr_out_update f48 s) Q D W = loose s Q D W" "loose (isr_data_update f49 s) Q D W = loose s Q D W"
  "loose (kernel_blocked_update f50 s) Q D W = loose s Q D W"
  "loose (kernel_pendSV_update f51 s) Q D W = loose s Q D W" "loose (pendsv_set_update f52 s) Q D W = loose s Q D W"
  "loose (mem_stack_update f53 s) Q D W = loose s Q D W" "loose (mem_mp_data_update f54 s) Q D W = loose s Q D W"
  "loose (mem_mq_data_update f55 s) Q D W = loose s Q D W" "loose (mem_common_update f56 s) Q D W = loose s Q D W"
  "loose (idle_thread_update f57 s) Q D W = loose s Q D W" "loose (context_ptr_update f58 s) Q D W = loose s Q D W"
  "loose (thread_addr_update f59 s) Q D W = loose s Q D W" "loose (run_curr_update f60 s) Q D W = loose s Q D W"
  "loose (kernel_state_update f61 s) Q D W = loose s Q D W" "loose (mem_update f62 s) Q D W = loose s Q D W"
  "loose (stack_mem_update f63 s) Q D W = loose s Q D W" "loose (ob_state_update f64 s) Q D W = loose s Q D W"
  "loose (run_next_update f65 s) Q D W = loose s Q D W"
  by (simp_all add: loose_def fun_eq_iff)

lemma stack_ok_data [simp]:
  "stack_ok (ob_attr_update f0 s) = stack_ok s" "stack_ok (ob_name_update f1 s) = stack_ok s"
  "stack_ok (tokens_update f2 s) = stack_ok s" "stack_ok (max_tokens_update f3 s) = stack_ok s"
  "stack_ok (event_flags_update f4 s) = stack_ok s" "stack_ok (wait_flags_update f5 s) = stack_ok s"
  "stack_ok (flags_options_update f6 s) = stack_ok s" "stack_ok (thread_flags_update f7 s) = stack_ok s"
  "stack_ok (stack_size_update f8 s) = stack_ok s" "stack_ok (psp_update f9 s) = stack_ok s"
  "stack_ok (kernel_tick_update f10 s) = stack_ok s" "stack_ok (used_blocks_update f11 s) = stack_ok s"
  "stack_ok (max_blocks_update f12 s) = stack_ok s" "stack_ok (block_size_update f13 s) = stack_ok s"
  "stack_ok (block_base_update f14 s) = stack_ok s" "stack_ok (block_free_update f15 s) = stack_ok s"
  "stack_ok (block_lim_update f16 s) = stack_ok s" "stack_ok (robin_thread_update f17 s) = stack_ok s"
  "stack_ok (robin_tick_update f18 s) = stack_ok s" "stack_ok (robin_timeout_update f19 s) = stack_ok s"
  "stack_ok (thread_join_update f20 s) = stack_ok s" "stack_ok (owner_thread_update f21 s) = stack_ok s"
  "stack_ok (owner_next_update f22 s) = stack_ok s" "stack_ok (owner_prev_update f23 s) = stack_ok s"
  "stack_ok (mutex_list_update f24 s) = stack_ok s" "stack_ok (lock_count_update f25 s) = stack_ok s"
  "stack_ok (priority_base_update f26 s) = stack_ok s" "stack_ok (bytes_update f27 s) = stack_ok s"
  "stack_ok (msg_size_update f28 s) = stack_ok s" "stack_ok (msg_count_update f29 s) = stack_ok s"
  "stack_ok (msg_first_update f30 s) = stack_ok s" "stack_ok (msg_last_update f31 s) = stack_ok s"
  "stack_ok (msg_prev_update f32 s) = stack_ok s" "stack_ok (msg_next_update f33 s) = stack_ok s"
  "stack_ok (msg_priority_update f34 s) = stack_ok s" "stack_ok (msg_mq_update f35 s) = stack_ok s"
  "stack_ok (timer_prev_update f36 s) = stack_ok s" "stack_ok (timer_next_update f37 s) = stack_ok s"
  "stack_ok (timer_ticks_update f38 s) = stack_ok s" "stack_ok (timer_load_update f39 s) = stack_ok s"
  "stack_ok (timer_list_update f40 s) = stack_ok s" "stack_ok (timer_tick_set_update f41 s) = stack_ok s"
  "stack_ok (timer_thread_update f42 s) = stack_ok s" "stack_ok (timer_mq_update f43 s) = stack_ok s"
  "stack_ok (isr_cnt_update f44 s) = stack_ok s" "stack_ok (isr_in_update f45 s) = stack_ok s"
  "stack_ok (isr_out_update f46 s) = stack_ok s" "stack_ok (isr_data_update f47 s) = stack_ok s"
  "stack_ok (kernel_blocked_update f48 s) = stack_ok s" "stack_ok (kernel_pendSV_update f49 s) = stack_ok s"
  "stack_ok (pendsv_set_update f50 s) = stack_ok s" "stack_ok (mem_stack_update f51 s) = stack_ok s"
  "stack_ok (mem_mp_data_update f52 s) = stack_ok s" "stack_ok (mem_mq_data_update f53 s) = stack_ok s"
  "stack_ok (mem_common_update f54 s) = stack_ok s" "stack_ok (idle_thread_update f55 s) = stack_ok s"
  "stack_ok (context_ptr_update f56 s) = stack_ok s" "stack_ok (thread_addr_update f57 s) = stack_ok s"
  "stack_ok (kernel_state_update f58 s) = stack_ok s" "stack_ok (ob_state_update f59 s) = stack_ok s"
  "stack_ok (run_next_update f60 s) = stack_ok s"
  by (simp_all add: stack_ok_def osRtxThreadRegPtr_def)

lemma settled_data [simp]:
  "settled (ob_attr_update f0 s) Q D W = settled s Q D W" "settled (ob_name_update f1 s) Q D W = settled s Q D W"
  "settled (tokens_update f2 s) Q D W = settled s Q D W" "settled (max_tokens_update f3 s) Q D W = settled s Q D W"
  "settled (event_flags_update f4 s) Q D W = settled s Q D W"
  "settled (wait_flags_update f5 s) Q D W = settled s Q D W"
  "settled (flags_options_update f6 s) Q D W = settled s Q D W"
  "settled (thread_flags_update f7 s) Q D W = settled s Q D W" "settled (sp_update f8 s) Q D W = settled s Q D W"
  "settled (stack_frame_update f9 s) Q D W = settled s Q D W"
  "settled (stack_size_update f10 s) Q D W = settled s Q D W" "settled (psp_update f11 s) Q D W = settled s Q D W"
  "settled (kernel_tick_update f12 s) Q D W = settled s Q D W"
  "settled (used_blocks_update f13 s) Q D W = settled s Q D W"
  "settled (max_blocks_update f14 s) Q D W = settled s Q D W"
  "settled (block_size_update f15 s) Q D W = settled s Q D W"
  "settled (block_base_update f16 s) Q D W = settled s Q D W"
  "settled (block_free_update f17 s) Q D W = settled s Q D W"
  "settled (block_lim_update f18 s) Q D W = settled s Q D W"
  "settled (robin_thread_update f19 s) Q D W = settled s Q D W"
  "settled (robin_tick_update f20 s) Q D W = settled s Q D W"
  "settled (robin_timeout_update f21 s) Q D W = settled s Q D W"
  "settled (thread_join_update f22 s) Q D W = settled s Q D W"
  "settled (owner_thread_update f23 s) Q D W = settled s Q D W"
  "settled (owner_next_update f24 s) Q D W = settled s Q D W"
  "settled (owner_prev_update f25 s) Q D W = settled s Q D W"
  "settled (mutex_list_update f26 s) Q D W = settled s Q D W"
  "settled (lock_count_update f27 s) Q D W = settled s Q D W"
  "settled (priority_base_update f28 s) Q D W = settled s Q D W"
  "settled (bytes_update f29 s) Q D W = settled s Q D W" "settled (msg_size_update f30 s) Q D W = settled s Q D W"
  "settled (msg_count_update f31 s) Q D W = settled s Q D W"
  "settled (msg_first_update f32 s) Q D W = settled s Q D W" "settled (msg_last_update f33 s) Q D W = settled s Q D W"
  "settled (msg_prev_update f34 s) Q D W = settled s Q D W" "settled (msg_next_update f35 s) Q D W = settled s Q D W"
  "settled (msg_priority_update f36 s) Q D W = settled s Q D W"
  "settled (msg_mq_update f37 s) Q D W = settled s Q D W" "settled (timer_prev_update f38 s) Q D W = settled s Q D W"
  "settled (timer_next_update f39 s) Q D W = settled s Q D W"
  "settled (timer_ticks_update f40 s) Q D W = settled s Q D W"
  "settled (timer_load_update f41 s) Q D W = settled s Q D W"
  "settled (timer_list_update f42 s) Q D W = settled s Q D W"
  "settled (timer_tick_set_update f43 s) Q D W = settled s Q D W"
  "settled (timer_thread_update f44 s) Q D W = settled s Q D W"
  "settled (timer_mq_update f45 s) Q D W = settled s Q D W" "settled (isr_cnt_update f46 s) Q D W = settled s Q D W"
  "settled (isr_in_update f47 s) Q D W = settled s Q D W" "settled (isr_out_update f48 s) Q D W = settled s Q D W"
  "settled (isr_data_update f49 s) Q D W = settled s Q D W"
  "settled (kernel_blocked_update f50 s) Q D W = settled s Q D W"
  "settled (kernel_pendSV_update f51 s) Q D W = settled s Q D W"
  "settled (pendsv_set_update f52 s) Q D W = settled s Q D W"
  "settled (mem_stack_update f53 s) Q D W = settled s Q D W"
  "settled (mem_mp_data_update f54 s) Q D W = settled s Q D W"
  "settled (mem_mq_data_update f55 s) Q D W = settled s Q D W"
  "settled (mem_common_update f56 s) Q D W = settled s Q D W"
  "settled (idle_thread_update f57 s) Q D W = settled s Q D W"
  "settled (context_ptr_update f58 s) Q D W = settled s Q D W"
  "settled (thread_addr_update f59 s) Q D W = settled s Q D W"
  "settled (run_curr_update f60 s) Q D W = settled s Q D W" "settled (mem_update f61 s) Q D W = settled s Q D W"
  "settled (stack_mem_update f62 s) Q D W = settled s Q D W"
  by (simp_all add: settled_def)

lemma entered_data [simp]:
  "entered (ob_attr_update f0 s) Q D W = entered s Q D W" "entered (ob_name_update f1 s) Q D W = entered s Q D W"
  "entered (tokens_update f2 s) Q D W = entered s Q D W" "entered (max_tokens_update f3 s) Q D W = entered s Q D W"
  "entered (event_flags_update f4 s) Q D W = entered s Q D W"
  "entered (wait_flags_update f5 s) Q D W = entered s Q D W"
  "entered (flags_options_update f6 s) Q D W = entered s Q D W"
  "entered (thread_flags_update f7 s) Q D W = entered s Q D W"
  "entered (stack_size_update f8 s) Q D W = entered s Q D W" "entered (psp_update f9 s) Q D W = entered s Q D W"
  "entered (kernel_tick_update f10 s) Q D W = entered s Q D W"
  "entered (used_blocks_update f11 s) Q D W = entered s Q D W"
  "entered (max_blocks_update f12 s) Q D W = entered s Q D W"
  "entered (block_size_update f13 s) Q D W = entered s Q D W"
  "entered (block_base_update f14 s) Q D W = entered s Q D W"
  "entered (block_free_update f15 s) Q D W = entered s Q D W"
  "entered (block_lim_update f16 s) Q D W = entered s Q D W"
  "entered (robin_thread_update f17 s) Q D W = entered s Q D W"
  "entered (robin_tick_update f18 s) Q D W = entered s Q D W"
  "entered (robin_timeout_update f19 s) Q D W = entered s Q D W"
  "entered (thread_join_update f20 s) Q D W = entered s Q D W"
  "entered (owner_thread_update f21 s) Q D W = entered s Q D W"
  "entered (owner_next_update f22 s) Q D W = entered s Q D W"
  "entered (owner_prev_update f23 s) Q D W = entered s Q D W"
  "entered (mutex_list_update f24 s) Q D W = entered s Q D W"
  "entered (lock_count_update f25 s) Q D W = entered s Q D W"
  "entered (priority_base_update f26 s) Q D W = entered s Q D W"
  "entered (bytes_update f27 s) Q D W = entered s Q D W" "entered (msg_size_update f28 s) Q D W = entered s Q D W"
  "entered (msg_count_update f29 s) Q D W = entered s Q D W"
  "entered (msg_first_update f30 s) Q D W = entered s Q D W" "entered (msg_last_update f31 s) Q D W = entered s Q D W"
  "entered (msg_prev_update f32 s) Q D W = entered s Q D W" "entered (msg_next_update f33 s) Q D W = entered s Q D W"
  "entered (msg_priority_update f34 s) Q D W = entered s Q D W"
  "entered (msg_mq_update f35 s) Q D W = entered s Q D W" "entered (timer_prev_update f36 s) Q D W = entered s Q D W"
  "entered (timer_next_update f37 s) Q D W = entered s Q D W"
  "entered (timer_ticks_update f38 s) Q D W = entered s Q D W"
  "entered (timer_load_update f39 s) Q D W = entered s Q D W"
  "entered (timer_list_update f40 s) Q D W = entered s Q D W"
  "entered (timer_tick_set_update f41 s) Q D W = entered s Q D W"
  "entered (timer_thread_update f42 s) Q D W = entered s Q D W"
  "entered (timer_mq_update f43 s) Q D W = entered s Q D W" "entered (isr_cnt_update f44 s) Q D W = entered s Q D W"
  "entered (isr_in_update f45 s) Q D W = entered s Q D W" "entered (isr_out_update f46 s) Q D W = entered s Q D W"
  "entered (isr_data_update f47 s) Q D W = entered s Q D W"
  "entered (kernel_blocked_update f48 s) Q D W = entered s Q D W"
  "entered (kernel_pendSV_update f49 s) Q D W = entered s Q D W"
  "entered (pendsv_set_update f50 s) Q D W = entered s Q D W"
  "entered (mem_stack_update f51 s) Q D W = entered s Q D W"
  "entered (mem_mp_data_update f52 s) Q D W = entered s Q D W"
  "entered (mem_mq_data_update f53 s) Q D W = entered s Q D W"
  "entered (mem_common_update f54 s) Q D W = entered s Q D W"
  "entered (idle_thread_update f55 s) Q D W = entered s Q D W"
  "entered (context_ptr_update f56 s) Q D W = entered s Q D W"
  "entered (thread_addr_update f57 s) Q D W = entered s Q D W"
  by (simp_all add: entered_def)

text \<open>Nor on the kinds of the objects other than threads.\<close>

lemma entered_ids:
  assumes E: "entered s Q D W" and i: "\<And>x. i x = osRtxIdThread \<longleftrightarrow> ob_id s x = osRtxIdThread"
  shows "entered (s\<lparr>ob_id := i\<rparr>) Q D W"
proof -
  have "delays_ok (s\<lparr>ob_id := i\<rparr>) D W = delays_ok s D W"
    by (simp add: delays_ok_def delay_ok_def dnext_def wait_ok_def wnext_def)
  then show ?thesis using E i
    unfolding entered_def settled_def sched_def loose_def stack_ok_def
    by (auto simp: tnext_def osRtxThreadRegPtr_def)
qed

lemma entered_state:
  assumes E: "entered s Q D W" and R: "Q (ready s) = Some R" and t: "t \<notin> set R" "t \<noteq> run_next s"
  shows "entered (s\<lparr>ob_state := (ob_state s)(t := v)\<rparr>) Q D W"
  using E sched_state [OF enteredD(6) [OF E] R t(1), of v] t(2) by (simp add: entered_def settled_def)

lemma ob_check_ok: "ob_check i p s = osOK \<longleftrightarrow> p \<noteq> NULL \<and> ob_id s p = i \<and> ob_state s p \<noteq> osRtxObjectInactive"
  by (simp add: ob_check_def)

text \<open>Testing an object for waiters.\<close>

lemma head_null: "sched s Q D W \<Longrightarrow> Q p = Some xs \<Longrightarrow> p \<noteq> NULL \<Longrightarrow> thread_next s p = NULL \<longleftrightarrow> xs = []"
  using list_head [OF schedD(1)] dll_nonnull [OF lists_ok_dll [OF schedD(1)]] by (cases xs) fastforce+

end
