(* ===== verification/RtxPriority.thy ===== *)
theory RtxPriority
  imports RtxSystem
begin

text \<open>
  Changing a thread's priority: the list the thread is in, if any, is sorted again by
  osRtxThreadListSort. Priority inheritance (rtx_mutex.c) and svcRtxThreadSetPriority
  (rtx_thread.c) rely on it.
\<close>

section \<open>Specification vocabulary\<close>

text \<open>The lists after the thread \<open>t\<close> has been sorted in again, with priorities \<open>pri\<close>.\<close>

definition resort :: "ptr \<Rightarrow> (ptr \<Rightarrow> int) \<Rightarrow> (ptr \<rightharpoonup> ptr list) \<Rightarrow> ptr \<rightharpoonup> ptr list" where
  "resort t pri Q p =
     map_option (\<lambda>xs. if p \<noteq> NULL \<and> t \<in> set xs then pinsert pri t (remove1 t xs) else xs) (Q p)"

definition reprio :: "ptr \<Rightarrow> int \<Rightarrow> rtx \<Rightarrow> rtx" where
  "reprio t v s = s\<lparr>priority := (priority s)(t := v)\<rparr>"

section \<open>Re-sorting after a change of priority\<close>

lemma reprio_sel [simp]:
  "priority (reprio t v s) = (priority s)(t := v)" "ob_id (reprio t v s) = ob_id s"
  "ob_state (reprio t v s) = ob_state s" "ob_attr (reprio t v s) = ob_attr s"
  "thread_next (reprio t v s) = thread_next s" "thread_prev (reprio t v s) = thread_prev s"
  "ready (reprio t v s) = ready s" "run_curr (reprio t v s) = run_curr s" "run_next (reprio t v s) = run_next s"
  "kernel_state (reprio t v s) = kernel_state s" "mem (reprio t v s) = mem s" "delay (reprio t v s) = delay s"
  "lock_count (reprio t v s) = lock_count s" "owner_thread (reprio t v s) = owner_thread s"
  "owner_next (reprio t v s) = owner_next s" "owner_prev (reprio t v s) = owner_prev s"
  "mutex_list (reprio t v s) = mutex_list s" "priority_base (reprio t v s) = priority_base s"
  "terminate_list (reprio t v s) = terminate_list s"
  by (simp_all add: reprio_def)

lemma stack_ok_reprio [simp]: "stack_ok (reprio t v s) = stack_ok s"
  by (simp add: stack_ok_def osRtxThreadRegPtr_def reprio_def)

lemma loose_reprio [simp]: "loose (reprio t v s) Q D W x = loose s Q D W x"
  by (simp add: loose_def)

lemma by_priority_cong: "(\<And>x. x \<in> set xs \<Longrightarrow> f x = g x) \<Longrightarrow> by_priority f xs = by_priority g xs"
  by (induction xs) auto

lemma sched_reprio:
  assumes S: "sched s Q D W" and t: "t \<notin> members Q" shows "sched (reprio t v s) Q D W"
proof -
  have "by_priority ((priority s)(t := v)) xs" if "Q p = Some xs" "p \<noteq> NULL" for p xs
  proof -
    have "t \<notin> set xs" using t that(1) membersI by fast
    then have "by_priority ((priority s)(t := v)) xs = by_priority (priority s) xs"
      by (intro by_priority_cong) auto
    then show ?thesis using schedD(8) [OF S that] by simp
  qed
  moreover have "delays_ok (s\<lparr>priority := (priority s)(t := v)\<rparr>) D W = delays_ok s D W"
    by (simp add: delays_ok_def delay_ok_def dnext_def wait_ok_def wnext_def)
  ultimately show ?thesis using S unfolding sched_def reprio_def by (simp add: tnext_def)
qed

lemma resort_id: "(\<And>p xs. Q p = Some xs \<Longrightarrow> p \<noteq> NULL \<Longrightarrow> t \<notin> set xs) \<Longrightarrow> resort t pri Q = Q"
proof
  fix p assume "\<And>p xs. Q p = Some xs \<Longrightarrow> p \<noteq> NULL \<Longrightarrow> t \<notin> set xs"
  then show "resort t pri Q p = Q p" by (cases "Q p") (auto simp: resort_def)
qed

lemma resort_none: "t \<notin> members Q \<Longrightarrow> resort t pri Q = Q"
  by (rule resort_id) (auto simp: in_members)

lemma resort_NULL: "Q NULL = Some xs \<Longrightarrow> t \<in> set xs \<Longrightarrow> lists_ok n b Q \<Longrightarrow> resort t pri Q = Q"
  by (rule resort_id) (use lists_ok_other [of n b Q NULL xs] in fastforce)

lemma resort_in:
  assumes "lists_ok n b Q" "Q obj = Some xs" "obj \<noteq> NULL" "t \<in> set xs"
  shows "resort t pri Q = Q(obj \<mapsto> pinsert pri t (remove1 t xs))"
proof
  fix p
  show "resort t pri Q p = (Q(obj \<mapsto> pinsert pri t (remove1 t xs))) p"
  proof (cases "p = obj")
    case True then show ?thesis using assms by (simp add: resort_def)
  next
    case False
    then have "t \<notin> set ys" if "Q p = Some ys" for ys using lists_ok_other [OF assms(1,2) that] assms(4) by auto
    with False show ?thesis by (cases "Q p") (auto simp: resort_def)
  qed
qed

lemma set_resort [simp]: "Q p = Some xs \<Longrightarrow> \<exists>ys. resort t pri Q p = Some ys \<and> set ys = set xs"
proof -
  assume "Q p = Some xs"
  moreover have "insert t (set (remove1 t xs)) = set xs" if "t \<in> set xs"
    using that set_remove1_subset [of t xs] in_set_remove1 [of _ t xs] by blast
  ultimately show ?thesis by (simp add: resort_def)
qed

lemma members_resort: "members (resort t pri Q) = members Q"
proof -
  have "\<exists>ys. Q p = Some ys \<and> set ys = set xs" if "resort t pri Q p = Some xs" for p xs
    using that set_resort [of Q p _ t pri] by (cases "Q p") (fastforce simp: resort_def)+
  then show ?thesis unfolding in_members set_eq_iff by (metis set_resort)
qed

lemma list_root_NULL: "list_root ids prv NULL = Some NULL"
  by (subst list_root.simps) simp

lemma list_root_terminated:
  "backward b p (us @ [t]) \<Longrightarrow> p = NULL \<Longrightarrow> list_root ids b t \<in> {Some NULL} \<union> {Some x | x. x \<in> set (us @ [t]) \<and> ids x \<noteq> osRtxIdThread}"
proof (induction us arbitrary: t rule: rev_induct)
  case Nil
  then show ?case by (subst list_root.simps) (auto simp: list_root_NULL)
next
  case (snoc u us)
  have "backward b p (us @ u # [t])" using snoc.prems(1) by simp
  then have bt: "b t = u" using backward_at [of b p "us @ [u]" t "[]"] by simp
  have "backward b p (us @ [u])" using snoc.prems(1) by (induction us arbitrary: p) auto
  then have "list_root ids b u \<in> {Some NULL} \<union> {Some x | x. x \<in> set (us @ [u]) \<and> ids x \<noteq> osRtxIdThread}"
    using snoc.IH snoc.prems(2) by blast
  then show ?case using bt by (subst list_root.simps) auto
qed

text \<open>Sorting a thread with a new priority keeps the scheduler's invariant, wherever the thread is.\<close>

lemma Sort_sched:
  assumes S: "sched s Q D W" and t: "ob_id s t = osRtxIdThread" "t \<noteq> NULL"
  obtains n b where "osRtxThreadListSort t (reprio t v s) = Some ((reprio t v s)\<lparr>thread_next := n, thread_prev := b\<rparr>)"
    "sched ((reprio t v s)\<lparr>thread_next := n, thread_prev := b\<rparr>) (resort t ((priority s)(t := v)) Q) D W"
proof -
  note DD = schedD [OF S] and ret = that
  let ?p = "(priority s)(t := v)"
  have noop: thesis if "list_root (ob_id s) (thread_prev s) t = Some NULL" "sched (reprio t v s) Q D W" "resort t ?p Q = Q"
    using that by (intro ret [where n = "thread_next s" and b = "thread_prev s"]) (simp_all add: osRtxThreadListSort_def reprio_def)
  show thesis
  proof (cases "t \<in> members Q")
    case False
    then have "thread_prev s t = NULL" using DD(9) t by blast
    then have "list_root (ob_id s) (thread_prev s) t = Some NULL"
      using t by (subst list_root.simps) (simp add: list_root_NULL)
    then show thesis by (rule noop) (use False S in \<open>simp_all add: sched_reprio resort_none\<close>)
  next
    case True
    then obtain obj xs where Q: "Q obj = Some xs" "t \<in> set xs" unfolding in_members by blast
    then obtain us vs where xs: "xs = us @ t # vs" using split_list by fast
    have d: "dll (tnext s) (thread_prev s) obj xs" by (rule lists_ok_dll [OF DD(1) Q(1)])
    then have "backward (thread_prev s) obj (us @ t # vs)" using xs by (simp add: dll_def)
    then have bw: "backward (thread_prev s) obj (us @ [t])" by (induction us arbitrary: obj) auto
    show thesis
    proof (cases "obj = NULL")
      case True
      have "\<forall>x\<in>set (us @ [t]). ob_id s x = osRtxIdThread" using DD(4) [OF membersI [where Q = Q and p = obj and xs = xs, OF Q(1)]] xs by auto
      then have "list_root (ob_id s) (thread_prev s) t = Some NULL"
        using list_root_terminated [OF bw True, of "ob_id s"] by auto
      then show thesis
      proof (rule noop)
        have "t \<notin> set ys" if "Q p = Some ys" "p \<noteq> NULL" for p ys
          using lists_ok_other [OF DD(1) Q(1) that(1)] that(2) True Q(2) by auto
        then have "by_priority ?p ys" if "Q p = Some ys" "p \<noteq> NULL" for p ys
          using DD(8) [OF that] that by_priority_cong [of ys ?p "priority s"] by fastforce
        moreover have "delays_ok (s\<lparr>priority := ?p\<rparr>) D W = delays_ok s D W"
          by (simp add: delays_ok_def delay_ok_def dnext_def wait_ok_def wnext_def)
        ultimately show "sched (reprio t v s) Q D W" using S unfolding sched_def reprio_def by (simp add: tnext_def)
        show "resort t ?p Q = Q" by (rule resort_NULL [OF _ Q(2) DD(1)]) (use Q True in simp)
      qed
    next
      case False
      have root: "list_root (ob_id s) (thread_prev s) t = Some obj"
        using bw False DD(4) [OF membersI [where Q = Q and p = obj and xs = xs, OF Q(1)]] DD(7) [OF Q(1)] xs dll_nonnull [OF d]
        by (intro list_root_spec) auto
      obtain s1 where 1: "osRtxThreadListRemove t s = Some s1" "touched s s1" "sched s1 (Q(obj \<mapsto> remove1 t xs)) D W"
        "ob_state s1 = ob_state s" "t \<notin> members (Q(obj \<mapsto> remove1 t xs))"
        by (rule ListRemove_sched [OF S Q(1) False Q(2)]) blast
      obtain n1 b1 where s1: "s1 = s\<lparr>thread_next := n1, thread_prev := b1\<rparr>"
        using ListRemove_spec [OF DD(1) Q(1) False Q(2)] 1(1) by (metis option.inject)
      have 2: "osRtxThreadListRemove t (reprio t v s) = Some (reprio t v s1)"
        using 1(1) by (auto simp: osRtxThreadListRemove_def reprio_def Let_def split: if_splits)
      note S1 = sched_reprio [OF 1(3,5), of v]
      have rs: "resort t ?p Q = Q(obj \<mapsto> pinsert ?p t (remove1 t xs))" by (rule resort_in [OF DD(1) Q(1) False Q(2)])
      have p1: "priority (reprio t v s1) = ?p" by (simp add: s1)
      obtain s2 where 3: "osRtxThreadListPut obj t (reprio t v s1) = Some s2" "sched s2 (resort t ?p Q) D W"
      proof (cases "obj = ready s")
        case True
        have st: "ob_state s t = osRtxThreadReady" "t \<notin> set D" "t \<notin> set W" using DD(10) Q True by auto
        have R1: "(Q(obj \<mapsto> remove1 t xs)) (ready (reprio t v s1)) = Some (remove1 t xs)" using True by (simp add: s1)
        have l: "loose (reprio t v s1) (Q(obj \<mapsto> remove1 t xs)) D W t" using 1(5) t st by (simp add: loose_def s1)
        obtain s2 where "osRtxThreadReadyPut t (reprio t v s1) = Some s2"
          "sched s2 (Q(obj \<mapsto> remove1 t xs, ready (reprio t v s1) \<mapsto> pinsert (priority (reprio t v s1)) t (remove1 t xs))) D W"
          by (rule ReadyPut_spec [OF S1 R1 l]) blast
        moreover have "(reprio t v s1)\<lparr>ob_state := (ob_state s)(t := osRtxThreadReady)\<rparr> = reprio t v s1"
          using st(1) by (simp add: s1 reprio_def fun_upd_idem)
        ultimately show thesis using True t(2) p1 rs
          by (intro that [of s2]) (simp_all add: osRtxThreadReadyPut_def s1)
      next
        case False
        have o: "obj \<noteq> ready (reprio t v s1)" using False by (simp add: s1)
        have w: "t \<in> set D \<union> set W" using DD(11) [OF Q(1) \<open>obj \<noteq> NULL\<close> False] Q(2) by auto
        have Q1: "(Q(obj \<mapsto> remove1 t xs)) obj = Some (remove1 t xs)" by simp
        obtain s2 where "osRtxThreadListPut obj t (reprio t v s1) = Some s2"
          "sched s2 (Q(obj \<mapsto> remove1 t xs, obj \<mapsto> pinsert (priority (reprio t v s1)) t (remove1 t xs))) D W"
          by (rule ListPut_sched [OF S1 Q1 \<open>obj \<noteq> NULL\<close> o 1(5) w]) blast
        then show thesis using p1 rs by (intro that [of s2]) simp_all
      qed
      have "(Q(obj \<mapsto> remove1 t xs)) obj = Some (remove1 t xs)" "t \<notin> dom (Q(obj \<mapsto> remove1 t xs))"
        using sched_not_dom [OF 1(3)] t s1 by auto
      then obtain n b where "osRtxThreadListPut obj t (reprio t v s1) = Some ((reprio t v s1)\<lparr>thread_next := n, thread_prev := b\<rparr>)"
        by (rule ListPut_spec [OF schedD(1) [OF S1] _ False 1(5) _ t(2)]) blast
      with 2 3 root False show thesis
        by (intro ret [where n = n and b = b]) (simp_all add: osRtxThreadListSort_def s1 reprio_def)
    qed
  qed
qed

text \<open>Raising another thread up to the running one's priority leaves the running thread in place.\<close>

lemma entered_boost:
  assumes E: "entered s Q D W" and t: "ob_id s t = osRtxIdThread" "t \<noteq> NULL" "t \<noteq> run_curr s"
    and v: "v \<le> priority s (run_curr s)"
  obtains n b where "osRtxThreadListSort t (reprio t v s) = Some ((reprio t v s)\<lparr>thread_next := n, thread_prev := b\<rparr>)"
    "entered ((reprio t v s)\<lparr>thread_next := n, thread_prev := b\<rparr>) (resort t ((priority s)(t := v)) Q) D W"
proof -
  note e = enteredD [OF E] and sd = settledD [OF enteredD(1) [OF E]]
  let ?Q = "resort t ((priority s)(t := v)) Q"
  obtain R where R: "Q (ready s) = Some R" by (rule sched_ready [OF e(6)])
  obtain n b where 1: "osRtxThreadListSort t (reprio t v s) = Some ((reprio t v s)\<lparr>thread_next := n, thread_prev := b\<rparr>)"
    "sched ((reprio t v s)\<lparr>thread_next := n, thread_prev := b\<rparr>) ?Q D W"
    by (rule Sort_sched [OF e(6) t(1,2)]) blast
  let ?s = "(reprio t v s)\<lparr>thread_next := n, thread_prev := b\<rparr>"
  obtain R' where R': "?Q (ready s) = Some R'" "set R' = set R" using set_resort [of Q "ready s" R] R by blast
  have "loose ?s ?Q D W (run_next ?s)" using sd(2) by (simp add: loose_def members_resort reprio_def)
  moreover have "\<forall>x\<in>set R'. ((priority s)(t := v)) x \<le> ((priority s)(t := v)) (run_next s)"
    using sd(5) [OF R] R' v t(3) e(2) by auto
  ultimately have "settled ?s ?Q D W" using 1(2) R' e(7) sd(4) by (simp add: settled_def)
  moreover have "stack_ok ?s" using e(3) by (simp add: stack_ok_def osRtxThreadRegPtr_def reprio_def)
  ultimately show thesis using 1(1) e(2) by (intro that [where n = n and b = b]) (simp_all add: entered_def)
qed

text \<open>Lowering or raising the running thread's own priority: it is in no list.\<close>

lemma entered_reprio_self:
  assumes E: "entered s Q D W"
  shows "sched (reprio (run_curr s) v s) Q D W" "loose (reprio (run_curr s) v s) Q D W (run_curr s)"
    "stack_ok (reprio (run_curr s) v s)"
  using enteredD [OF E] by (auto simp: sched_reprio loose_def)

end
