(* ===== verification/RtxMemory.thy ===== *)
theory RtxMemory
  imports RtxState
begin

text \<open>
  The two memory managers of the kernel. rtx_memory.c allocates blocks of any size from one
  region: a chain of block headers (\<open>next\<close>, \<open>info\<close>) in address order, where \<open>info\<close> holds the
  allocated length and the type, and the gap behind each block is free. The first part of
  rtx_mempool.c manages pools of equal blocks: free blocks form a list through their first word.
  The variable-size manager works on the memory \<open>m\<close> alone; the pools also on their
  osRtxMpInfo_t, whose fields are indexed by its address. \<open>m p\<close> is the 32-bit word at \<open>p\<close>: the model is that of the
  code as long as all addresses used are multiples of four, since words at other addresses would overlap.
  Headers are aligned to eight; a pool's blocks are aligned if its area is and the block size is a multiple of four. Every caller
  passes such a size: svcRtxMemoryPoolNew and svcRtxMessageQueueNew round it up, and control blocks consist of words.
  osRtxMemoryPoolInit with a block size of 1 to 3 bytes is outside the model.
\<close>

unbundle bit_operations_syntax

section \<open>Variable block size (rtx_memory.c)\<close>

abbreviation (input) "MB_INFO_LEN_MASK \<equiv> 0xFFFFFFFC :: u32"
abbreviation (input) "MB_INFO_TYPE_MASK \<equiv> 0x00000003 :: u32"

definition MemBlockPtr :: "ptr \<Rightarrow> u32 \<Rightarrow> ptr" where
  "MemBlockPtr mem' offset = mem' + offset"

definition osRtxMemoryInit :: "ptr \<Rightarrow> u32 \<Rightarrow> (ptr \<Rightarrow> u32) \<Rightarrow> u32 \<times> (ptr \<Rightarrow> u32)" where
  "osRtxMemoryInit mem' size' m =
     (if mem' = NULL \<or> mem' AND 7 \<noteq> 0 \<or> size' AND 7 \<noteq> 0 \<or> size' < 8 + 2 * 8 then (0, m)
      else
        let m = m(mem' := size');
            m = m(mem' + 4 := 8 + 8);
            p = MemBlockPtr mem' 8;
            m = m(p := MemBlockPtr mem' (size' - 8));
            m = m(m p := NULL);
            m = m(m p + 4 := 8 + 8);
            m = m(p + 4 := 0)
        in (1, m))"

text \<open>The search for a hole; \<open>Some NULL\<close> is the end of the chain.\<close>

partial_function (option) find_hole :: "(ptr \<Rightarrow> u32) \<Rightarrow> u32 \<Rightarrow> ptr \<Rightarrow> ptr option" where
  "find_hole m need p = do {
     guard (p \<noteq> NULL);
     let hole_size = m p - p;
     let hole_size = hole_size - (m (p + 4) AND MB_INFO_LEN_MASK);
     (if hole_size \<ge> need then Some p
      else do {
        let p = m p;
        guard (p \<noteq> NULL);
        (if m p = NULL then Some NULL else find_hole m need p)
      })
   }"

definition osRtxMemoryAlloc :: "ptr \<Rightarrow> u32 \<Rightarrow> u32 \<Rightarrow> (ptr \<Rightarrow> u32) \<Rightarrow> (ptr \<times> (ptr \<Rightarrow> u32)) option" where
  "osRtxMemoryAlloc mem' size' type' m =
     (if mem' = NULL \<or> size' = 0 \<or> type' AND NOT MB_INFO_TYPE_MASK \<noteq> 0 then Some (NULL, m)
      else do {
        let need = size' + 8;
        let need = (need + 7) AND NOT 7;
        p \<leftarrow> find_hole m need (MemBlockPtr mem' 8);
        (if p = NULL then Some (NULL, m)
         else do {
           let m = m(mem' + 4 := m (mem' + 4) + need);
           let p_new = MemBlockPtr mem' (m mem' - 8);
           let m = (if m (p_new + 4) < m (mem' + 4) then m(p_new + 4 := m (mem' + 4)) else m);
           Some (if m (p + 4) = 0 then (MemBlockPtr p 8, m(p + 4 := need OR type'))
             else let p_new = MemBlockPtr p (m (p + 4) AND MB_INFO_LEN_MASK);
                      m = m(p_new := m p);
                      m = m(p_new + 4 := need OR type');
                      m = m(p := p_new)
                  in (MemBlockPtr p_new 8, m))
         })
      })"

text \<open>
  The search of osRtxMemoryFree: the predecessor (NULL for the first block) and the header that
  was looked for, or \<open>None\<close> inside when the chain ends first.
\<close>

partial_function (option) find_block ::
    "(ptr \<Rightarrow> u32) \<Rightarrow> ptr \<Rightarrow> ptr \<Rightarrow> ptr \<Rightarrow> (ptr \<times> ptr) option option" where
  "find_block m hdr p_prev p =
     (if p \<noteq> hdr then do {
        let p_prev = p;
        let p = m p;
        (if p = NULL then Some None else find_block m hdr p_prev p)
      } else Some (Some (p_prev, p)))"

definition osRtxMemoryFree :: "ptr \<Rightarrow> ptr \<Rightarrow> (ptr \<Rightarrow> u32) \<Rightarrow> (u32 \<times> (ptr \<Rightarrow> u32)) option" where
  "osRtxMemoryFree mem' block m =
     (if mem' = NULL \<or> block = NULL then Some (0, m)
      else do {
        let hdr = MemBlockPtr block 0 - 8;
        r \<leftarrow> find_block m hdr NULL (MemBlockPtr mem' 8);
        Some (case r of
          None \<Rightarrow> (0, m)
        | Some (p_prev, p) \<Rightarrow>
            (let m = m(mem' + 4 := m (mem' + 4) - (m (p + 4) AND MB_INFO_LEN_MASK))
             in (1, if p_prev = NULL then m(p + 4 := 0) else m(p_prev := m p))))
      })"

section \<open>Fixed block size (library functions of rtx_mempool.c)\<close>

text \<open>
  The loop that links all free blocks; \<open>n\<close> is the block count. The link is the first word of a free block. Where
  blocks hold messages, it lies over the identity, state, flags and priority of the free message, which the model keeps
  apart; \<open>msg_init\<close> writes all four again when a block is taken.
\<close>

function link_blocks :: "u32 \<Rightarrow> u32 \<Rightarrow> ptr \<Rightarrow> (ptr \<Rightarrow> u32) \<Rightarrow> (ptr \<Rightarrow> u32)" where
  "link_blocks n bsize blk m =
     (let n = n - 1
      in if n \<noteq> 0 then let block = blk + bsize in link_blocks n bsize block (m(blk := block))
         else m(blk := NULL))"
  by auto
termination
proof (relation "measure (\<lambda>(n, _). unat (n - 1))")
  fix n x :: u32 and bsize blk block :: ptr and m
  assume "x = n - 1" "x \<noteq> 0"
  then have "unat (x - 1) < unat (n - 1)"
    by (metis diff_less unat_gt_0 unat_minus_one zero_less_one)
  then show "((x, bsize, block, m(blk := block)), n, bsize, blk, m) \<in> measure (\<lambda>(n, _). unat (n - 1))"
    by simp
qed simp

definition osRtxMemoryPoolInit :: "ptr \<Rightarrow> u32 \<Rightarrow> u32 \<Rightarrow> ptr \<Rightarrow> rtx \<Rightarrow> u32 \<times> rtx" where
  "osRtxMemoryPoolInit mp_info block_count bsize block_mem s =
     (if mp_info = NULL \<or> block_count = 0 \<or> bsize = 0 \<or> block_mem = NULL then (0, s)
      else
        let s = s\<lparr>max_blocks := (max_blocks s)(mp_info := block_count)\<rparr>;
            s = s\<lparr>used_blocks := (used_blocks s)(mp_info := 0)\<rparr>;
            s = s\<lparr>block_size := (block_size s)(mp_info := bsize)\<rparr>;
            s = s\<lparr>block_base := (block_base s)(mp_info := block_mem)\<rparr>;
            s = s\<lparr>block_free := (block_free s)(mp_info := block_mem)\<rparr>;
            s = s\<lparr>block_lim := (block_lim s)(mp_info := block_mem + block_count * bsize)\<rparr>
        in (1, s\<lparr>mem := link_blocks block_count bsize block_mem (mem s)\<rparr>))"

text \<open>
  atomic_link_get and atomic_link_put (rtx_core_cm.h) on the free list of a pool; what is said of \<open>link_blocks\<close> about the link
  word holds here, too.
\<close>

definition link_get :: "ptr \<Rightarrow> rtx \<Rightarrow> ptr \<times> rtx" where
  "link_get mp_info s =
     (let block = block_free s mp_info
      in if block = NULL then (block, s)
         else (block, s\<lparr>block_free := (block_free s)(mp_info := mem s block)\<rparr>))"

definition link_put :: "ptr \<Rightarrow> ptr \<Rightarrow> rtx \<Rightarrow> rtx" where
  "link_put mp_info block s =
     s\<lparr>mem := (mem s)(block := block_free s mp_info), block_free := (block_free s)(mp_info := block)\<rparr>"

definition osRtxMemoryPoolAlloc :: "ptr \<Rightarrow> rtx \<Rightarrow> ptr \<times> rtx" where
  "osRtxMemoryPoolAlloc mp_info s =
     (if mp_info = NULL then (NULL, s)
      else
        let (old, used) = atomic_inc32_lt (used_blocks s mp_info) (max_blocks s mp_info);
            s = s\<lparr>used_blocks := (used_blocks s)(mp_info := used)\<rparr>
        in if old < max_blocks s mp_info then link_get mp_info s else (NULL, s))"

definition osRtxMemoryPoolFree :: "ptr \<Rightarrow> ptr \<Rightarrow> rtx \<Rightarrow> osStatus \<times> rtx" where
  "osRtxMemoryPoolFree mp_info block s =
     (if mp_info = NULL \<or> block < block_base s mp_info \<or> block \<ge> block_lim s mp_info
      then (osErrorParameter, s)
      else
        let (old, used) = atomic_dec32_nz (used_blocks s mp_info);
            s = s\<lparr>used_blocks := (used_blocks s)(mp_info := used)\<rparr>
        in if old \<noteq> 0 then (osOK, link_put mp_info block s) else (osErrorResource, s))"

section \<open>Control blocks\<close>

text \<open>
  Every osXxxNew takes attributes with an optional control block, checks it in the same way and
  otherwise allocates one from the type's own pool or from the common memory.
\<close>

record os_attr =
  at_name :: ptr
  at_bits :: u32
  cb_mem :: ptr
  cb_size :: u32

definition cb_valid :: "u32 \<Rightarrow> 'a os_attr_scheme \<Rightarrow> bool" where
  "cb_valid sz attr =
     (if cb_mem attr \<noteq> NULL then cb_mem attr AND 3 = 0 \<and> sz \<le> cb_size attr else cb_size attr = 0)"

definition cb_alloc :: "ptr \<Rightarrow> u32 \<Rightarrow> rtx \<Rightarrow> (ptr \<times> rtx) option" where
  "cb_alloc mpi sz s =
     (if mpi \<noteq> NULL then Some (osRtxMemoryPoolAlloc mpi s)
      else do {
        (p, m) \<leftarrow> osRtxMemoryAlloc (mem_common s) sz 1 (mem s);
        Some (p, s\<lparr>mem := m\<rparr>)
      })"

definition cb_free :: "ptr \<Rightarrow> ptr \<Rightarrow> rtx \<Rightarrow> rtx option" where
  "cb_free mpi p s =
     (if mpi \<noteq> NULL then Some (snd (osRtxMemoryPoolFree mpi p s))
      else do {
        (r, m) \<leftarrow> osRtxMemoryFree (mem_common s) p (mem s);
        Some (s\<lparr>mem := m\<rparr>)
      })"

end
