(* ===== verification/RtxMutex.thy ===== *)
theory RtxMutex
  imports RtxPriority RtxMemory
begin

text \<open>
  Mutexes (rtx_mutex.c): recursive, robust and priority inheriting ones. The mutexes that a
  thread owns form a doubly linked list from its \<open>mutex_list\<close> through \<open>owner_next\<close> and
  \<open>owner_prev\<close>.
\<close>

unbundle bit_operations_syntax

section \<open>Operations\<close>

abbreviation (input) "sizeof_mutex \<equiv> 28 :: u32"
abbreviation (input) "osMutexRecursive \<equiv> 1 :: u8"
abbreviation (input) "osMutexPrioInherit \<equiv> 2 :: u8"
abbreviation (input) "osMutexRobust \<equiv> 8 :: u8"
abbreviation (input) "osRtxMutexLockLimit \<equiv> 255 :: u8"

text \<open>Handing a mutex over to the woken thread, in Release and in OwnerRelease.\<close>

definition mutex_hand_over :: "ptr \<Rightarrow> ptr \<Rightarrow> rtx \<Rightarrow> rtx" where
  "mutex_hand_over mutex thread s =
     (let s = s\<lparr>owner_thread := (owner_thread s)(mutex := thread)\<rparr>;
          s = s\<lparr>owner_next := (owner_next s)(mutex := mutex_list s thread)\<rparr>;
          s = s\<lparr>owner_prev := (owner_prev s)(mutex := NULL)\<rparr>;
          s = s\<lparr>mutex_list := (mutex_list s)(thread := mutex)\<rparr>
      in s\<lparr>lock_count := (lock_count s)(mutex := 1)\<rparr>)"

partial_function (option) osRtxMutexOwnerRelease :: "ptr \<Rightarrow> rtx \<Rightarrow> rtx option" where
  "osRtxMutexOwnerRelease mutex s =
     (if mutex \<noteq> NULL then do {
        let mutex_next = owner_next s mutex;
        s \<leftarrow> (if ob_attr s mutex AND osMutexRobust \<noteq> 0 then do {
                let s = s\<lparr>lock_count := (lock_count s)(mutex := 0)\<rparr>;
                (if thread_list s mutex \<noteq> NULL then do {
                   (thread, s) \<leftarrow> osRtxThreadListGet mutex s;
                   s \<leftarrow> osRtxThreadWaitExit thread (status_word osOK) False s;
                   Some (mutex_hand_over mutex thread s)
                 } else Some s)
              } else Some s);
        osRtxMutexOwnerRelease mutex_next s
      } else Some s)"

definition svcRtxMutexNew :: "os_attr option \<Rightarrow> rtx \<Rightarrow> (ptr \<times> rtx) option" where
  "svcRtxMutexNew attr s =
     (if (case attr of Some a \<Rightarrow> \<not> cb_valid sizeof_mutex a | None \<Rightarrow> False) then Some (NULL, s)
      else do {
        let name = (case attr of Some a \<Rightarrow> at_name a | None \<Rightarrow> NULL);
        let attr_bits = (case attr of Some a \<Rightarrow> at_bits a | None \<Rightarrow> 0);
        let mutex = (case attr of Some a \<Rightarrow> cb_mem a | None \<Rightarrow> NULL);
        (mutex, flags, s) \<leftarrow>
          (if mutex = NULL then do {
             (p, s) \<leftarrow> cb_alloc (mpi_mutex s) sizeof_mutex s;
             Some (p, osRtxFlagSystemObject, s)
           } else Some (mutex, 0, s));
        (if mutex \<noteq> NULL then do {
           let s = s\<lparr>ob_id := (ob_id s)(mutex := osRtxIdMutex)\<rparr>;
           let s = s\<lparr>ob_state := (ob_state s)(mutex := osRtxObjectActive)\<rparr>;
           let s = s\<lparr>ob_flags := (ob_flags s)(mutex := flags)\<rparr>;
           let s = s\<lparr>ob_attr := (ob_attr s)(mutex := ucast attr_bits)\<rparr>;
           let s = s\<lparr>ob_name := (ob_name s)(mutex := name)\<rparr>;
           let s = s\<lparr>thread_next := (thread_next s)(mutex := NULL)\<rparr>;
           let s = s\<lparr>owner_thread := (owner_thread s)(mutex := NULL)\<rparr>;
           let s = s\<lparr>owner_prev := (owner_prev s)(mutex := NULL)\<rparr>;
           let s = s\<lparr>owner_next := (owner_next s)(mutex := NULL)\<rparr>;
           Some (mutex, s\<lparr>lock_count := (lock_count s)(mutex := 0)\<rparr>)
         } else Some (mutex, s))
      })"

definition svcRtxMutexGetName :: "ptr \<Rightarrow> rtx \<Rightarrow> ptr" where
  "svcRtxMutexGetName mutex s =
     (if ob_check osRtxIdMutex mutex s \<noteq> osOK then NULL else ob_name s mutex)"

definition svcRtxMutexAcquire :: "ptr \<Rightarrow> u32 \<Rightarrow> rtx \<Rightarrow> (osStatus \<times> rtx) option" where
  "svcRtxMutexAcquire mutex timeout s =
     (let running = run_curr s
      in if running = NULL then Some (osError, s)
         else if ob_check osRtxIdMutex mutex s \<noteq> osOK then Some (ob_check osRtxIdMutex mutex s, s)
         else if lock_count s mutex = 0 then
           let s = s\<lparr>owner_thread := (owner_thread s)(mutex := running)\<rparr>;
               s = s\<lparr>owner_next := (owner_next s)(mutex := mutex_list s running)\<rparr>;
               s = s\<lparr>owner_prev := (owner_prev s)(mutex := NULL)\<rparr>;
               s = (if mutex_list s running \<noteq> NULL
                    then s\<lparr>owner_prev := (owner_prev s)(mutex_list s running := mutex)\<rparr> else s);
               s = s\<lparr>mutex_list := (mutex_list s)(running := mutex)\<rparr>
           in Some (osOK, s\<lparr>lock_count := (lock_count s)(mutex := 1)\<rparr>)
         else if ob_attr s mutex AND osMutexRecursive \<noteq> 0 \<and> owner_thread s mutex = running then
           (if lock_count s mutex = osRtxMutexLockLimit then Some (osErrorResource, s)
            else Some (osOK, s\<lparr>lock_count := (lock_count s)(mutex := lock_count s mutex + 1)\<rparr>))
         else if timeout \<noteq> 0 then do {
           s \<leftarrow> (if ob_attr s mutex AND osMutexPrioInherit \<noteq> 0 then do {
                   guard (owner_thread s mutex \<noteq> NULL);
                   (if priority s (owner_thread s mutex) < priority s running then do {
                      let s = s\<lparr>priority := (priority s)(owner_thread s mutex := priority s running)\<rparr>;
                      osRtxThreadListSort (owner_thread s mutex) s
                    } else Some s)
                 } else Some s);
           (b, s) \<leftarrow> osRtxThreadWaitEnter osRtxThreadWaitingMutex timeout s;
           s \<leftarrow> (if b then osRtxThreadListPut mutex running s else Some s);
           Some (osErrorTimeout, s)
         }
         else Some (osErrorResource, s))"

text \<open>Taking a mutex out of its owner's list, in Release and in Delete.\<close>

definition owner_unlink :: "ptr \<Rightarrow> ptr \<Rightarrow> rtx \<Rightarrow> rtx" where
  "owner_unlink mutex thread s =
     (let s = (if owner_next s mutex \<noteq> NULL
               then s\<lparr>owner_prev := (owner_prev s)(owner_next s mutex := owner_prev s mutex)\<rparr> else s)
      in if owner_prev s mutex \<noteq> NULL
         then s\<lparr>owner_next := (owner_next s)(owner_prev s mutex := owner_next s mutex)\<rparr>
         else s\<lparr>mutex_list := (mutex_list s)(thread := owner_next s mutex)\<rparr>)"

text \<open>The loop over the mutexes still owned that finds the priority to restore.\<close>

partial_function (option) inherited :: "rtx \<Rightarrow> int \<Rightarrow> ptr \<Rightarrow> int option" where
  "inherited s prio mutex0 =
     (if mutex0 \<noteq> NULL
      then inherited s
             (if thread_list s mutex0 \<noteq> NULL \<and> priority s (thread_list s mutex0) > prio
              then priority s (thread_list s mutex0) else prio)
             (owner_next s mutex0)
      else Some prio)"

definition svcRtxMutexRelease :: "ptr \<Rightarrow> rtx \<Rightarrow> (osStatus \<times> rtx) option" where
  "svcRtxMutexRelease mutex s =
     (let running = run_curr s
      in if running = NULL then Some (osError, s)
         else if ob_check osRtxIdMutex mutex s \<noteq> osOK then Some (ob_check osRtxIdMutex mutex s, s)
         else if owner_thread s mutex \<noteq> running then Some (osErrorResource, s)
         else if lock_count s mutex = 0 then Some (osErrorResource, s)
         else
           let s = s\<lparr>lock_count := (lock_count s)(mutex := lock_count s mutex - 1)\<rparr>
           in if lock_count s mutex = 0 then do {
                let s = owner_unlink mutex running s;
                s \<leftarrow> (if ob_attr s mutex AND osMutexPrioInherit \<noteq> 0 then do {
                        prio \<leftarrow> inherited s (priority_base s running) (mutex_list s running);
                        Some (s\<lparr>priority := (priority s)(running := prio)\<rparr>)
                      } else Some s);
                s \<leftarrow> (if thread_list s mutex \<noteq> NULL then do {
                        (thread, s) \<leftarrow> osRtxThreadListGet mutex s;
                        s \<leftarrow> osRtxThreadWaitExit thread (status_word osOK) False s;
                        Some (mutex_hand_over mutex thread s)
                      } else Some s);
                s \<leftarrow> osRtxThreadDispatch NULL s;
                Some (osOK, s)
              }
              else Some (osOK, s))"

definition svcRtxMutexGetOwner :: "ptr \<Rightarrow> rtx \<Rightarrow> ptr" where
  "svcRtxMutexGetOwner mutex s =
     (if ob_check osRtxIdMutex mutex s \<noteq> osOK then NULL
      else if lock_count s mutex = 0 then NULL else owner_thread s mutex)"

definition svcRtxMutexDelete :: "ptr \<Rightarrow> rtx \<Rightarrow> (osStatus \<times> rtx) option" where
  "svcRtxMutexDelete mutex s =
     (if ob_check osRtxIdMutex mutex s \<noteq> osOK then Some (ob_check osRtxIdMutex mutex s, s)
      else do {
        let s = s\<lparr>ob_state := (ob_state s)(mutex := osRtxObjectInactive)\<rparr>;
        s \<leftarrow> (if lock_count s mutex \<noteq> 0 then do {
                let thread = owner_thread s mutex;
                let s = owner_unlink mutex thread s;
                s \<leftarrow> (if ob_attr s mutex AND osMutexPrioInherit \<noteq> 0 then do {
                        prio \<leftarrow> inherited s (priority_base s thread) (mutex_list s thread);
                        (if priority s thread \<noteq> prio then do {
                           let s = s\<lparr>priority := (priority s)(thread := prio)\<rparr>;
                           osRtxThreadListSort thread s
                         } else Some s)
                      } else Some s);
                s \<leftarrow> (if thread_list s mutex \<noteq> NULL
                      then unblock_all mutex (status_word osErrorResource) s else Some s);
                osRtxThreadDispatch NULL s
              } else Some s);
        s \<leftarrow> (if ob_flags s mutex AND osRtxFlagSystemObject \<noteq> 0
              then cb_free (mpi_mutex s) mutex s else Some s);
        Some (osOK, s)
      })"

section \<open>Public API\<close>

definition osMutexNew :: "os_attr option \<Rightarrow> rtx \<Rightarrow> (ptr \<times> rtx) option" where
  "osMutexNew attr s =
     (if IsIrqMode s \<or> IsIrqMasked s then Some (NULL, s) else svcRtxMutexNew attr s)"

definition osMutexGetName :: "ptr \<Rightarrow> rtx \<Rightarrow> ptr" where
  "osMutexGetName mutex_id s =
     (if IsIrqMode s \<or> IsIrqMasked s then NULL else svcRtxMutexGetName mutex_id s)"

definition osMutexAcquire :: "ptr \<Rightarrow> u32 \<Rightarrow> rtx \<Rightarrow> (osStatus \<times> rtx) option" where
  "osMutexAcquire mutex_id timeout s =
     (if IsIrqMode s \<or> IsIrqMasked s then Some (osErrorISR, s)
      else svcRtxMutexAcquire mutex_id timeout s)"

definition osMutexRelease :: "ptr \<Rightarrow> rtx \<Rightarrow> (osStatus \<times> rtx) option" where
  "osMutexRelease mutex_id s =
     (if IsIrqMode s \<or> IsIrqMasked s then Some (osErrorISR, s) else svcRtxMutexRelease mutex_id s)"

definition osMutexGetOwner :: "ptr \<Rightarrow> rtx \<Rightarrow> ptr" where
  "osMutexGetOwner mutex_id s =
     (if IsIrqMode s \<or> IsIrqMasked s then NULL else svcRtxMutexGetOwner mutex_id s)"

definition osMutexDelete :: "ptr \<Rightarrow> rtx \<Rightarrow> (osStatus \<times> rtx) option" where
  "osMutexDelete mutex_id s =
     (if IsIrqMode s \<or> IsIrqMasked s then Some (osErrorISR, s) else svcRtxMutexDelete mutex_id s)"

section \<open>Specification vocabulary\<close>

text \<open>
  \<open>owns s t ms\<close>: the list of the mutexes owned by thread \<open>t\<close>, read as the list \<open>ms\<close>; its head is
  in the thread, so NULL stands for the thread in the link fields. \<open>ceiling s Q m p\<close> is the highest
  of the priority \<open>p\<close> and those of all threads waiting for one of the mutexes \<open>m\<close>.
\<close>

definition mnext :: "rtx \<Rightarrow> ptr \<Rightarrow> ptr \<Rightarrow> ptr" where
  "mnext s t = (owner_next s)(NULL := mutex_list s t)"

definition owns :: "rtx \<Rightarrow> ptr \<Rightarrow> ptr list \<Rightarrow> bool" where
  "owns s t ms \<longleftrightarrow> dll (mnext s t) (owner_prev s) NULL ms \<and>
     (\<forall>m\<in>set ms. owner_thread s m = t \<and> lock_count s m \<noteq> 0)"

definition ceiling_prio :: "(ptr \<Rightarrow> int) \<Rightarrow> (ptr \<rightharpoonup> ptr list) \<Rightarrow> ptr list \<Rightarrow> int \<Rightarrow> int" where
  "ceiling_prio pri Q ms p = Max (insert p (\<Union>m\<in>set ms. pri ` set (the (Q m))))"

text \<open>What svcRtxMutexRelease does once the mutex is out of the owner's list and the priority is lowered.\<close>

definition release_rest :: "ptr \<Rightarrow> rtx \<Rightarrow> (osStatus \<times> rtx) option" where
  "release_rest mutex s = do {
     s \<leftarrow> (if thread_list s mutex \<noteq> NULL then do {
             (thread, s) \<leftarrow> osRtxThreadListGet mutex s;
             s \<leftarrow> osRtxThreadWaitExit thread (status_word osOK) False s;
             Some (mutex_hand_over mutex thread s)
           } else Some s);
     s \<leftarrow> osRtxThreadDispatch NULL s;
     Some (osOK, s) }"

text \<open>That state \<open>u\<close>: the owner's other mutexes are linked by \<open>n\<close>, \<open>p\<close> and \<open>l\<close>.\<close>

definition unlocked :: "ptr \<Rightarrow> rtx \<Rightarrow> (ptr \<rightharpoonup> ptr list) \<Rightarrow> ptr list \<Rightarrow> ptr list \<Rightarrow> ptr list \<Rightarrow>
    (ptr \<Rightarrow> ptr) \<Rightarrow> (ptr \<Rightarrow> ptr) \<Rightarrow> ptr \<Rightarrow> rtx \<Rightarrow> bool" where
  "unlocked mutex s Q D W ms n p l u \<longleftrightarrow> sched u Q D W \<and> loose u Q D W (run_curr u) \<and> stack_ok u \<and>
     run_curr u = run_next u \<and> kernel_state u = osRtxKernelRunning \<and> ob_state u (run_next u) = osRtxThreadRunning \<and>
     ready u = ready s \<and> run_curr u = run_curr s \<and> mem u = mem s \<and> thread_next u = thread_next s \<and>
     osRtxThreadRegPtr u = osRtxThreadRegPtr s \<and> owner_next u = n \<and> owner_prev u = p \<and> mutex_list u = (mutex_list s)(run_curr s := l) \<and>
     owner_thread u = owner_thread s \<and> lock_count u = (lock_count s)(mutex := 0) \<and>
     priority u = (if ob_attr s mutex AND osMutexPrioInherit \<noteq> 0
       then (priority s)(run_curr s := ceiling_prio (priority s) Q (remove1 mutex ms) (priority_base s (run_curr s))) else priority s) \<and>
     dll (n(NULL := l)) p NULL (remove1 mutex ms)"

section \<open>Lists of owned mutexes\<close>

lemma owns_distinct: "owns s t ms \<Longrightarrow> distinct ms \<and> NULL \<notin> set ms"
  unfolding owns_def using dll_distinct dll_nonnull by blast

lemma mnext_simps [simp]: "mnext s t NULL = mutex_list s t" "m \<noteq> NULL \<Longrightarrow> mnext s t m = owner_next s m"
  by (simp_all add: mnext_def)

lemma owns_cong:
  assumes "owns s t ms" "mutex_list s' t = mutex_list s t" "\<And>m. m \<in> set ms \<Longrightarrow> owner_next s' m = owner_next s m"
    "\<And>m. m \<in> set ms \<Longrightarrow> owner_prev s' m = owner_prev s m" "\<And>m. m \<in> set ms \<Longrightarrow> owner_thread s' m = owner_thread s m"
    "\<And>m. m \<in> set ms \<Longrightarrow> lock_count s' m \<noteq> 0"
  shows "owns s' t ms"
proof -
  have "dll (mnext s' t) (owner_prev s') NULL ms = dll (mnext s t) (owner_prev s) NULL ms"
    using assms(2-4) owns_distinct [OF assms(1)] by (intro dll_cong) (auto simp: mnext_def)
  then show ?thesis using assms by (auto simp: owns_def)
qed

text \<open>Taking one mutex out of the list.\<close>

lemma owner_unlink_spec:
  assumes d: "dll (mnext s t) (owner_prev s) NULL ms" and m: "m \<in> set ms"
  obtains n p l where "owner_unlink m t s = s\<lparr>owner_prev := p, owner_next := n, mutex_list := (mutex_list s)(t := l)\<rparr>"
    "dll (n(NULL := l)) p NULL (remove1 m ms)"
proof -
  obtain us vs where ms: "ms = us @ m # vs" using m split_list by fast
  let ?n = "mnext s t" and ?b = "owner_prev s"
  have nn: "NULL \<notin> set ms" "distinct ms" using dll_nonnull [OF d] dll_distinct [OF d] by auto
  then have mu: "m \<notin> set us" "m \<noteq> NULL" using ms by auto
  have bw: "backward ?b NULL (us @ m # vs)" and fw: "forward ?n NULL (us @ m # vs)"
    using d ms by (simp_all add: dll_def)
  have bm: "?b m = before NULL us" by (rule backward_at [OF bw])
  have nm: "owner_next s m = after vs" using forward_at [of ?n NULL "us @ [m]" vs] fw mu(2) by simp
  let ?p = "if after vs \<noteq> NULL then ?b(after vs := before NULL us) else ?b"
  let ?on = "if before NULL us \<noteq> NULL then (owner_next s)(before NULL us := after vs) else owner_next s"
  let ?l = "if before NULL us \<noteq> NULL then mutex_list s t else after vs"
  have u: "owner_unlink m t s = s\<lparr>owner_prev := ?p, owner_next := ?on, mutex_list := (mutex_list s)(t := ?l)\<rparr>"
    by (simp add: owner_unlink_def Let_def nm bm)
  have vs: "after vs \<noteq> NULL \<longleftrightarrow> vs \<noteq> []" using nn ms by (cases vs) auto
  have us: "before NULL us \<noteq> NULL \<longleftrightarrow> us \<noteq> []" using nn ms null_before [of us] by auto
  have "dll (?on(NULL := ?l)) ?p NULL (us @ vs)"
  proof (rule dll_remove [of ?n ?b NULL us m vs])
    show "dll ?n ?b NULL (us @ m # vs)" using d ms by simp
    show "(?on(NULL := ?l)) (before NULL us) = ?n m" using nm mu by (auto simp: mnext_def)
    show "(?on(NULL := ?l)) x = ?n x" if "x \<noteq> m" "x \<noteq> before NULL us" for x
      using that us by (auto simp: mnext_def split: if_splits)
    show "?p (hd vs) = before NULL us" if "vs \<noteq> []" using that vs by simp
    show "?p x = ?b x" if "x \<noteq> m" "vs = [] \<or> x \<noteq> hd vs" for x using that vs by auto
  qed
  moreover have "remove1 m ms = us @ vs" using ms remove1_at [OF mu(1)] by simp
  ultimately show thesis using u by (intro that [where n = ?on and p = ?p and l = ?l]) simp_all
qed

text \<open>The loop over the remaining mutexes computes the highest priority of all their waiters.\<close>

lemma ceiling_Nil [simp]: "ceiling_prio pri Q [] p = p"
  by (simp add: ceiling_prio_def)

lemma ceiling_Cons: "ceiling_prio pri Q (m # ms) p =
    ceiling_prio pri Q ms (Max (insert p (pri ` set (the (Q m)))))"
proof -
  have "insert p (\<Union>k\<in>set (m # ms). pri ` set (the (Q k))) =
      insert p (pri ` set (the (Q m))) \<union> (\<Union>k\<in>set ms. pri ` set (the (Q k)))" by auto
  moreover have "Max (insert p A \<union> B) = Max (insert (Max (insert p A)) B)" if "finite A" "finite B" for A B :: "int set"
    using that Max_Un [of "insert p A" B] Max_insert [of B "Max (insert p A)"] by (cases "B = {}") simp_all
  ultimately show ?thesis unfolding ceiling_prio_def by simp
qed

lemma Max_by_priority: "by_priority f (x # xs) \<Longrightarrow> Max (insert p (f ` set (x # xs))) = (if f x > p then f x else p)"
proof -
  assume s: "by_priority f (x # xs)"
  have "Max (f ` set (x # xs)) = f x" by (rule Max_eqI) (use s in auto)
  then have "Max (insert p (f ` set (x # xs))) = max p (f x)" by (subst Max_insert) auto
  then show ?thesis by (simp add: max_def)
qed

lemma inherited_spec:
  assumes S: "sched s Q D W" and f: "forward n q ms" and dom: "\<And>m. m \<in> set ms \<Longrightarrow> m \<in> dom Q"
    and n: "\<And>m. m \<in> set ms \<Longrightarrow> owner_next s m = n m"
  shows "inherited s p (after ms) = Some (ceiling_prio (priority s) Q ms p)"
  using f dom n
proof (induction ms arbitrary: p q)
  case Nil then show ?case by (subst inherited.simps) simp
next
  case (Cons m ms)
  obtain ws where Q: "Q m = Some ws" using Cons.prems(2) by auto
  have mn: "m \<noteq> NULL" using forward_nonnull [OF Cons.prems(1)] by auto
  have h: "thread_next s m = after ws" by (rule list_head [OF schedD(1) [OF S] Q mn])
  have nn: "NULL \<notin> set ws" using dll_nonnull [OF lists_ok_dll [OF schedD(1) [OF S] Q]] .
  have mx: "(if after ws \<noteq> NULL \<and> priority s (after ws) > p then priority s (after ws) else p) =
      Max (insert p (priority s ` set ws))"
    using schedD(8) [OF S Q mn] nn Max_by_priority [of "priority s" "hd ws" "tl ws" p] by (cases ws) auto
  have nx: "owner_next s m = after ms" using forward_at [of n q "[m]" ms] Cons.prems(1,3) by simp
  have IH: "inherited s v (after ms) = Some (ceiling_prio (priority s) Q ms v)" for v
    by (rule Cons.IH [where q = m]) (use Cons.prems in auto)
  have "inherited s p m = inherited s (Max (insert p (priority s ` set ws))) (after ms)"
    unfolding mx [symmetric] using mn h nx by (subst inherited.simps) simp
  then show ?case by (simp add: IH ceiling_Cons Q)
qed

lemma inherited_owned:
  assumes S: "sched s Q D W" and d: "dll (mnext s t) b NULL ms" and dom: "\<And>m. m \<in> set ms \<Longrightarrow> m \<in> dom Q"
  shows "inherited s p (mutex_list s t) = Some (ceiling_prio (priority s) Q ms p)"
proof -
  have "forward (mnext s t) NULL ms" "mutex_list s t = after ms" using d dll_hd [OF d] by (simp_all add: dll_def)
  moreover have "owner_next s m = mnext s t m" if "m \<in> set ms" for m
    using that dll_nonnull [OF d] by (auto simp: mnext_def)
  ultimately show ?thesis using inherited_spec [OF S _ dom] by metis
qed

section \<open>Properties\<close>

text \<open>
  svcRtxMutexAcquire on an existing mutex that need not be waited for: a free mutex becomes owned
  by the running thread with lock count one and becomes the head of its list of owned mutexes;
  a recursive mutex the thread owns is counted up, and when the count has reached 255 the call
  fails with osErrorResource and changes nothing; a mutex that is not available fails with
  osErrorResource and changes nothing when the timeout is zero.
\<close>

theorem svcRtxMutexAcquire_spec:
  assumes E: "entered s Q D W" and ok: "ob_check osRtxIdMutex mutex s = osOK" and o: "owns s (run_curr s) ms"
  shows "if lock_count s mutex = 0
    then \<exists>s'. svcRtxMutexAcquire mutex timeout s = Some (osOK, s') \<and> entered s' Q D W \<and>
           owns s' (run_curr s) (mutex # ms) \<and> lock_count s' = (lock_count s)(mutex := 1)
    else if ob_attr s mutex AND osMutexRecursive \<noteq> 0 \<and> owner_thread s mutex = run_curr s
    then svcRtxMutexAcquire mutex timeout s =
           (if lock_count s mutex = 255 then Some (osErrorResource, s)
            else Some (osOK, s\<lparr>lock_count := (lock_count s)(mutex := lock_count s mutex + 1)\<rparr>))
    else timeout = 0 \<longrightarrow> svcRtxMutexAcquire mutex timeout s = Some (osErrorResource, s)"
proof -
  let ?r = "run_curr s"
  have mn: "mutex \<noteq> NULL" and rn: "?r \<noteq> NULL" using ok enteredD(4) [OF E] by (simp_all add: ob_check_ok)
  show ?thesis
  proof (cases "lock_count s mutex = 0")
    case False then show ?thesis using ok rn by (simp add: svcRtxMutexAcquire_def)
  next
    case True
    have d: "dll (mnext s ?r) (owner_prev s) NULL ms" and ot: "\<And>m. m \<in> set ms \<Longrightarrow> owner_thread s m = ?r \<and> lock_count s m \<noteq> 0"
      using o by (auto simp: owns_def)
    have nm: "mutex \<notin> set ms" using ot True by auto
    have h: "mutex_list s ?r = after ms" using dll_hd [OF d] by simp
    let ?p = "if mutex_list s ?r \<noteq> NULL then (owner_prev s)(mutex := NULL, mutex_list s ?r := mutex)
              else (owner_prev s)(mutex := NULL)"
    let ?s = "s\<lparr>owner_thread := (owner_thread s)(mutex := ?r), owner_next := (owner_next s)(mutex := mutex_list s ?r),
       owner_prev := ?p, mutex_list := (mutex_list s)(?r := mutex), lock_count := (lock_count s)(mutex := 1)\<rparr>"
    have "svcRtxMutexAcquire mutex timeout s = Some (osOK, ?s)"
      using ok rn True by (simp add: svcRtxMutexAcquire_def Let_def)
    moreover have "dll (mnext ?s ?r) (owner_prev ?s) NULL ([] @ mutex # ms)"
    proof (rule dll_insert [of "mnext s ?r" "owner_prev s"])
      show "dll (mnext s ?r) (owner_prev s) NULL ([] @ ms)" using d by simp
    qed (use mn nm h dll_nonnull [OF d] in \<open>(cases ms; auto simp: mnext_def)+\<close>)
    then have "owns ?s ?r (mutex # ms)" using ot nm by (auto simp: owns_def)
    moreover have "entered ?s Q D W" using E by simp
    ultimately show ?thesis using True by (intro if_P [THEN iffD2] exI [of _ ?s]) simp_all
  qed
qed

theorem svcRtxMutexAcquire_spec_witness:
  "\<exists>s'. svcRtxMutexAcquire 0x5100 0 demo = Some (osOK, s') \<and> owns s' 0x1000 [0x5100]"
proof -
  have v: "ob_check osRtxIdMutex 0x5100 demo = osOK" "lock_count demo 0x5100 = 0" "run_curr demo = 0x1000"
    by (simp_all add: demo_def blank_def ob_check_def)
  have "owns demo (run_curr demo) []" by (simp add: owns_def demo_def blank_def)
  then show ?thesis using svcRtxMutexAcquire_spec [OF demo_entered v(1), of "[]" 0] v(2,3) by auto
qed

text \<open>
  C12: Priority inheritance. When the running thread has to wait for a mutex with the
  osMutexPrioInherit attribute, the owner's priority is raised to the waiter's if it was lower and
  the owner moves to its place in the list it is in; no other priority changes. The caller enters
  the mutex's waiting list by priority and the delay lists with the timeout, and the highest of
  the ready threads (which may be the owner just raised) is selected to run. When no other thread
  is ready the call ends in osErrorTimeout without waiting.
\<close>

theorem svcRtxMutexAcquire_inherits:
  assumes E: "entered s Q D W" and Q: "Q mutex = Some ws" and mx: "mutex \<noteq> ready s"
    and ok: "ob_check osRtxIdMutex mutex s = osOK" and l: "lock_count s mutex \<noteq> 0"
    and nr: "ob_attr s mutex AND osMutexRecursive = 0 \<or> owner_thread s mutex \<noteq> run_curr s"
    and ow: "owner_thread s mutex = t" "ob_id s t = osRtxIdThread" "t \<noteq> NULL" and tm: "timeout \<noteq> 0"
    and boost: "boost \<longleftrightarrow> ob_attr s mutex AND osMutexPrioInherit \<noteq> 0 \<and> priority s t < priority s (run_curr s)"
    and p1: "p1 = (if boost then (priority s)(t := priority s (run_curr s)) else priority s)"
    and Q1: "Q1 = (if boost then resort t p1 Q else Q)"
  shows "\<exists>s' Q' D' W'. svcRtxMutexAcquire mutex timeout s = Some (osErrorTimeout, s') \<and> settled s' Q' D' W' \<and>
    priority s' = p1 \<and>
    (case the (Q1 (ready s)) of
       [] \<Rightarrow> Q' = Q1 \<and> D' = D \<and> W' = W \<and> run_next s' = run_next s
     | x # xs \<Rightarrow> Q' = Q1(ready s \<mapsto> xs, mutex \<mapsto> pinsert p1 (run_curr s) (the (Q1 mutex))) \<and>
         delayed s D W (run_curr s) timeout s' D' W' \<and> run_next s' = x \<and>
         ob_state s' (run_curr s) = osRtxThreadWaitingMutex)"
proof -
  let ?r = "run_curr s"
  have mn: "mutex \<noteq> NULL" and rn: "?r \<noteq> NULL" using ok enteredD(4) [OF E] by (simp_all add: ob_check_ok)
  define inh where "inh s = (if ob_attr s mutex AND osMutexPrioInherit \<noteq> 0 then do {
                   guard (owner_thread s mutex \<noteq> NULL);
                   (if priority s (owner_thread s mutex) < priority s ?r then do {
                      let s = s\<lparr>priority := (priority s)(owner_thread s mutex := priority s ?r)\<rparr>;
                      osRtxThreadListSort (owner_thread s mutex) s
                    } else Some s)
                 } else Some s)" for s
  have acq: "svcRtxMutexAcquire mutex timeout s = do {
      s \<leftarrow> inh s;
      (b, s) \<leftarrow> osRtxThreadWaitEnter osRtxThreadWaitingMutex timeout s;
      s \<leftarrow> (if b then osRtxThreadListPut mutex ?r s else Some s);
      Some (osErrorTimeout, s) }"
    using ok rn l nr tm by (auto simp: svcRtxMutexAcquire_def inh_def Let_def)
  obtain s1 where 1: "inh s = Some s1" "entered s1 Q1 D W" "priority s1 = p1" "run_curr s1 = ?r"
    "ready s1 = ready s" "delay s1 = delay s" "run_next s1 = run_next s"
  proof (cases boost)
    case False
    then show thesis using boost ow E p1 Q1 by (intro that [of s]) (auto simp: inh_def)
  next
    case True
    then have tr: "t \<noteq> ?r" using boost by auto
    obtain n b where "osRtxThreadListSort t (reprio t (priority s ?r) s) =
        Some ((reprio t (priority s ?r) s)\<lparr>thread_next := n, thread_prev := b\<rparr>)"
      "entered ((reprio t (priority s ?r) s)\<lparr>thread_next := n, thread_prev := b\<rparr>)
        (resort t ((priority s)(t := priority s ?r)) Q) D W"
      by (rule entered_boost [OF E ow(2,3) tr, of "priority s ?r"]) simp_all
    then show thesis using True boost ow p1 Q1
      by (intro that [of "(reprio t (priority s ?r) s)\<lparr>thread_next := n, thread_prev := b\<rparr>"])
        (simp_all add: inh_def reprio_def)
  qed
  obtain R1 where R1: "Q1 (ready s) = Some R1" using sched_ready [OF enteredD(6) [OF 1(2)]] 1(5) by metis
  obtain w1 where w1: "Q1 mutex = Some w1" using Q Q1 by (cases boost) (auto simp: resort_def)
  show ?thesis
  proof (cases R1)
    case Nil
    then have "thread_next s1 (ready s1) = NULL"
      using head_null [OF enteredD(6) [OF 1(2)]] R1 1(5) schedD(3) [OF enteredD(6) [OF 1(2)]] by simp
    then have "osRtxThreadWaitEnter osRtxThreadWaitingMutex timeout s1 = Some (False, s1)" by (simp add: WaitEnter_no)
    with 1 Nil R1 acq enteredD(1) [OF 1(2)] show ?thesis by auto
  next
    case (Cons x xs)
    have R': "Q1 (ready s1) = Some (x # xs)" and m1: "mutex \<noteq> ready s1" using R1 Cons 1(5) mx by simp_all
    obtain s2 s' D' W' where 2: "osRtxThreadWaitEnter osRtxThreadWaitingMutex timeout s1 = Some (True, s2)"
      "osRtxThreadListPut mutex (run_curr s1) s2 = Some s'" "touched s1 s2" "touched s1 s'"
      "settled s' (Q1(ready s1 \<mapsto> xs, mutex \<mapsto> pinsert (priority s1) (run_curr s1) w1)) D' W'"
      "delayed s1 D W (run_curr s1) timeout s' D' W'" "run_next s' = x"
      "ob_state s' = (ob_state s1)(run_curr s1 := osRtxThreadWaitingMutex, x := osRtxThreadRunning)"
      by (rule settled_block [OF 1(2) R' w1 mn m1 tm]) blast
    have "svcRtxMutexAcquire mutex timeout s = Some (osErrorTimeout, s')" using acq 1 2(1,2) by simp
    moreover have "delayed s D W ?r timeout s' D' W'"
      using 2(6) delayed_cong [OF 1(6) refl, of D W ?r timeout s' D' W'] 1(4) by simp
    moreover have "?r \<noteq> x"
      using enteredD(5) [OF 1(2)] R' 1(4) unfolding loose_def in_members by force
    ultimately show ?thesis
      using 1 2(5,7,8) Cons R1 w1 touched_fields [OF 2(4)] by auto
  qed
qed

text \<open>The running thread waits for the mutex 0x5100, which the idle thread 0x3000 owns.\<close>

theorem svcRtxMutexAcquire_inherits_witness:
  "\<exists>s s' Q' D' W'. priority s 0x3000 = 1 \<and> svcRtxMutexAcquire 0x5100 10 s = Some (osErrorTimeout, s') \<and>
     settled s' Q' D' W' \<and> priority s' 0x3000 = 24 \<and> Q' 0x5100 = Some [0x1000] \<and> run_next s' = 0x2000"
proof -
  let ?s = "demo\<lparr>lock_count := (\<lambda>_. 0)(0x5100 := 1), owner_thread := (\<lambda>_. 0)(0x5100 := 0x3000),
     mutex_list := (\<lambda>_. 0)(0x3000 := 0x5100), ob_attr := (\<lambda>_. 0)(0x5100 := 2)\<rparr>"
  let ?p = "(priority ?s)(0x3000 := priority ?s (run_curr ?s))"
  have E: "entered ?s demo_lists [0x6000] [0x4000]" using demo_entered by simp
  have q: "demo_lists 0x5100 = Some []" by (simp add: demo_lists_def)
  have v: "0x5100 \<noteq> ready ?s" "ob_check osRtxIdMutex 0x5100 ?s = osOK" "lock_count ?s 0x5100 \<noteq> 0"
    "owner_thread ?s 0x5100 = 0x3000" "ob_id ?s 0x3000 = osRtxIdThread" "(0x3000 :: ptr) \<noteq> NULL" "(10 :: u32) \<noteq> 0"
    "ob_attr ?s 0x5100 AND osMutexRecursive = 0 \<or> owner_thread ?s 0x5100 \<noteq> run_curr ?s"
    "True \<longleftrightarrow> ob_attr ?s 0x5100 AND osMutexPrioInherit \<noteq> 0 \<and> priority ?s 0x3000 < priority ?s (run_curr ?s)"
    by (simp_all add: demo_def blank_def ob_check_def)
  have "resort 0x3000 ?p demo_lists (ready ?s) = Some [0x2000, 0x3000]" "resort 0x3000 ?p demo_lists 0x5100 = Some []"
    "ready ?s = 0x100" "run_curr ?s = 0x1000" "?p 0x3000 = 24" "priority ?s 0x3000 = 1"
    by (simp_all add: resort_def demo_lists_def demo_def blank_def)
  with svcRtxMutexAcquire_inherits [OF E q v(1-3) v(8) v(4-7,9) refl refl]
  obtain s' Q' D' W' where "svcRtxMutexAcquire 0x5100 10 ?s = Some (osErrorTimeout, s')" "settled s' Q' D' W'"
    "priority s' 0x3000 = 24" "Q' 0x5100 = Some [0x1000]" "run_next s' = 0x2000" by auto
  with \<open>priority ?s 0x3000 = 1\<close> show ?thesis
    by (intro exI [of _ ?s] exI [of _ s'] exI [of _ Q']) blast
qed

lemma release_unlocks:
  assumes E: "entered s Q D W" and ok: "ob_check osRtxIdMutex mutex s = osOK" and o: "owns s (run_curr s) ms" and mm: "mutex \<in> set ms"
    and dom: "set ms \<subseteq> dom Q" and last: "owner_thread s mutex = run_curr s" "lock_count s mutex = 1"
  shows "\<exists>n p l u. svcRtxMutexRelease mutex s = release_rest mutex u \<and> unlocked mutex s Q D W ms n p l u"
proof -
  let ?r = "run_curr s"
  note e = enteredD [OF E] and sd = settledD [OF enteredD(1) [OF E]]
  have mn: "mutex \<noteq> NULL" and rn: "?r \<noteq> NULL" using ok e(4) by (simp_all add: ob_check_ok)
  let ?s0 = "s\<lparr>lock_count := (lock_count s)(mutex := lock_count s mutex - 1)\<rparr>"
  have d0: "dll (mnext ?s0 ?r) (owner_prev ?s0) NULL ms" using o by (simp add: owns_def mnext_def)
  have rem: "set (remove1 mutex ms) = set ms - {mutex}" using owns_distinct [OF o] by (simp add: set_remove1_eq)
  obtain n p l where u: "owner_unlink mutex ?r ?s0 =
      ?s0\<lparr>owner_prev := p, owner_next := n, mutex_list := (mutex_list ?s0)(?r := l)\<rparr>"
    "dll (n(NULL := l)) p NULL (remove1 mutex ms)" by (rule owner_unlink_spec [OF d0 mm]) blast
  let ?s1 = "?s0\<lparr>owner_prev := p, owner_next := n, mutex_list := (mutex_list ?s0)(?r := l)\<rparr>"
  let ?pr = "ceiling_prio (priority s) Q (remove1 mutex ms) (priority_base s ?r)"
  let ?inh = "ob_attr s mutex AND osMutexPrioInherit \<noteq> 0"
  define s2 where "s2 = (if ?inh then reprio ?r ?pr ?s1 else ?s1)"
  have E1: "entered ?s1 Q D W" using E by simp
  have inh: "inherited ?s1 (priority_base s ?r) l = Some ?pr"
  proof -
    have "dll (mnext ?s1 ?r) p NULL (remove1 mutex ms)" using u(2) by (simp add: mnext_def)
    moreover have "mutex_list ?s1 ?r = l" by simp
    ultimately show ?thesis
      using inherited_owned [OF enteredD(6) [OF E1], of ?r p "remove1 mutex ms" "priority_base s ?r"] dom rem by fastforce
  qed
  have f2: "ready s2 = ready s" "run_curr s2 = ?r" "run_next s2 = run_next s" "kernel_state s2 = kernel_state s"
    "ob_state s2 = ob_state s" "mem s2 = mem s" "thread_next s2 = thread_next s" "ob_id s2 = ob_id s"
    "osRtxThreadRegPtr s2 = osRtxThreadRegPtr s" "owner_next s2 = n" "owner_prev s2 = p" "mutex_list s2 = (mutex_list s)(?r := l)"
    "owner_thread s2 = owner_thread s" "lock_count s2 = (lock_count s)(mutex := 0)"
    "priority s2 = (if ?inh then (priority s)(?r := ?pr) else priority s)"
    using last by (auto simp: s2_def reprio_def osRtxThreadRegPtr_def fun_eq_iff)
  have S2: "sched s2 Q D W" "loose s2 Q D W (run_curr s2)" "stack_ok s2"
    using E1 e enteredD [OF E1] entered_reprio_self [OF E1, of ?pr] by (auto simp: s2_def)
  have k2: "run_curr s2 = run_next s2" "kernel_state s2 = osRtxKernelRunning" "ob_state s2 (run_next s2) = osRtxThreadRunning"
    using f2 e(2,7) sd(4) by simp_all
  have rel: "svcRtxMutexRelease mutex s = release_rest mutex s2"
  proof -
    have "svcRtxMutexRelease mutex s = do {
        s \<leftarrow> (if ?inh then do {
                 prio \<leftarrow> inherited ?s1 (priority_base s ?r) l;
                 Some (?s1\<lparr>priority := (priority s)(?r := prio)\<rparr>)
               } else Some ?s1); release_rest mutex s }"
      using ok rn last u(1) by (simp add: svcRtxMutexRelease_def Let_def release_rest_def)
    then show ?thesis using inh by (simp add: s2_def reprio_def)
  qed
  have "unlocked mutex s Q D W ms n p l s2" unfolding unlocked_def using S2 k2 f2 u(2) by (intro conjI) simp_all
  with rel show ?thesis by blast
qed

text \<open>No other operation changes the links of the mutexes that are left.\<close>

lemma unlocked_owns:
  assumes U: "unlocked mutex s Q D W ms n p l u" and o: "owns s (run_curr s) ms" and mn: "mutex \<noteq> NULL"
    and s': "mutex_list s' (run_curr s) = l" "\<And>k. k \<noteq> mutex \<Longrightarrow> owner_next s' k = owner_next u k" "\<And>k. k \<noteq> mutex \<Longrightarrow> owner_prev s' k = owner_prev u k"
      "\<And>k. k \<noteq> mutex \<Longrightarrow> owner_thread s' k = owner_thread u k" "\<And>k. k \<noteq> mutex \<Longrightarrow> lock_count s' k = lock_count u k"
  shows "owns s' (run_curr s) (remove1 mutex ms)"
proof -
  have rem: "set (remove1 mutex ms) = set ms - {mutex}" using owns_distinct [OF o] by (simp add: set_remove1_eq)
  have u: "owner_next u = n" "owner_prev u = p" "owner_thread u = owner_thread s" "lock_count u = (lock_count s)(mutex := 0)"
    "dll (n(NULL := l)) p NULL (remove1 mutex ms)" using U unfolding unlocked_def by blast+
  have "dll (mnext s' (run_curr s)) (owner_prev s') NULL (remove1 mutex ms) = dll (n(NULL := l)) p NULL (remove1 mutex ms)"
    using s'(1-3) u(1,2) rem mn by (intro dll_cong) (auto simp: mnext_def)
  then show ?thesis using u(3-5) o s'(4,5) rem by (auto simp: owns_def)
qed

text \<open>Without a waiting thread; and with one, to which the mutex is handed over.\<close>

lemma release_free:
  assumes U: "unlocked mutex s Q D W ms n p l u" and o: "owns s (run_curr s) ms" and mn: "mutex \<noteq> NULL" and Q: "Q mutex = Some []"
  shows "\<exists>s' R'. release_rest mutex u = Some (osOK, s') \<and> settled s' (Q(ready s \<mapsto> R')) D W \<and> owns s' (run_curr s) (remove1 mutex ms) \<and>
    priority s' = priority u \<and> lock_count s' mutex = 0 \<and> insert (run_next s') (set R') = insert (run_curr s) (set (the (Q (ready s))))"
proof -
  have S: "sched u Q D W" "loose u Q D W (run_curr u)" "stack_ok u" "run_curr u = run_next u" "kernel_state u = osRtxKernelRunning"
    "ob_state u (run_next u) = osRtxThreadRunning" and u: "ready u = ready s" "run_curr u = run_curr s" "mutex_list u = (mutex_list s)(run_curr s := l)"
    "lock_count u = (lock_count s)(mutex := 0)" using U unfolding unlocked_def by blast+
  have hd: "thread_next u mutex = NULL" using head_null [OF S(1) Q mn] by simp
  obtain s' R' where 3: "osRtxThreadDispatch NULL u = Some s'" "touched u s'" "settled s' (Q(ready u \<mapsto> R')) D W"
    "insert (run_next s') (set R') = insert (run_next u) (set (the (Q (ready u))))"
    by (rule settled_dispatch [OF S(1,2,4,5,6,3)]) blast
  note f = touched_fields [OF 3(2)]
  have "release_rest mutex u = Some (osOK, s')" using hd 3(1) by (simp add: release_rest_def)
  moreover have "owns s' (run_curr s) (remove1 mutex ms)" by (rule unlocked_owns [OF U o mn]) (simp_all add: f u)
  moreover have "settled s' (Q(ready s \<mapsto> R')) D W" "insert (run_next s') (set R') = insert (run_curr s) (set (the (Q (ready s))))"
    using 3(3,4) u(1,2) S(4) by simp_all
  moreover have "priority s' = priority u" "lock_count s' mutex = 0" by (simp_all add: f u)
  ultimately show ?thesis by blast
qed

lemma release_hands_over:
  assumes U: "unlocked mutex s Q D W ms n p l u" and o: "owns s (run_curr s) ms" and mn: "mutex \<noteq> NULL" and Q': "Q mutex = Some (t # us)"
    and mx: "mutex \<noteq> ready s"
  shows "\<exists>s' R'. release_rest mutex u = Some (osOK, s') \<and> settled s' (Q(mutex \<mapsto> us, ready s \<mapsto> R')) (remove1 t D) (remove1 t W) \<and>
    owns s' (run_curr s) (remove1 mutex ms) \<and> priority s' = priority u \<and> owner_thread s' mutex = t \<and> lock_count s' mutex = 1 \<and>
    mutex_list s' t = mutex \<and> mem s' (osRtxThreadRegPtr s t) = status_word osOK \<and>
    insert (run_next s') (set R') = insert (run_curr s) (insert t (set (the (Q (ready s)))))"
proof -
  have S2: "sched u Q D W" "loose u Q D W (run_curr u)" "stack_ok u"
    and k2: "run_curr u = run_next u" "kernel_state u = osRtxKernelRunning" "ob_state u (run_next u) = osRtxThreadRunning"
    and f2: "ready u = ready s" "run_curr u = run_curr s" "mem u = mem s" "osRtxThreadRegPtr u = osRtxThreadRegPtr s"
      "mutex_list u = (mutex_list s)(run_curr s := l)" using U unfolding unlocked_def by blast+
  obtain R where R2: "Q (ready u) = Some R" by (rule sched_ready [OF S2(1)])
  have m2: "mutex \<noteq> ready u" using mx f2(1) by simp
  have hd: "thread_next u mutex \<noteq> NULL" using head_null [OF S2(1) Q' mn] by simp
  obtain s3 s4 where 3: "osRtxThreadListGet mutex u = Some (t, s3)" "osRtxThreadWaitExit t (status_word osOK) False s3 = Some s4"
    "touched u s4" "sched s4 (Q(mutex \<mapsto> us, ready u \<mapsto> pinsert (priority u) t R)) (remove1 t D) (remove1 t W)"
    "ob_state s4 = (ob_state u)(t := osRtxThreadReady)" "run_next s4 = run_next u"
    "mem s4 = (mem u)(osRtxThreadRegPtr u t := status_word osOK)"
    by (rule wake_waiter [OF S2(1) Q' mn m2 R2]) blast
  note f = touched_fields [OF 3(3)]
  let ?Q = "Q(mutex \<mapsto> us, ready u \<mapsto> pinsert (priority u) t R)"
  have tm: "t \<in> members Q" using membersI [of Q mutex "t # us" t] Q' by simp
  have tr: "t \<noteq> run_curr s" using S2(2) f2(2) tm by (auto simp: loose_def)
  have sub: "members ?Q \<subseteq> members Q"
    using members_upd [of "Q(mutex \<mapsto> us)" "ready u" "pinsert (priority u) t R"] members_upd [of Q mutex us]
      members_sub [of Q mutex] members_sub [of Q "ready u"] Q' R2 tm by auto
  have l4: "loose s4 ?Q (remove1 t D) (remove1 t W) (run_curr s4)"
    using S2(2) sub f tr f2(2) by (auto simp: loose_def dest: notin_set_remove1)
  have so: "stack_ok s4" by (rule stack_ok_regs [of u s4 "status_word osOK" "[t]"])
      (use S2(3) 3(3,7) schedD(4) [OF S2(1) tm] in auto)
  let ?s5 = "mutex_hand_over mutex t s4"
  have 5: "sched ?s5 ?Q (remove1 t D) (remove1 t W)" "loose ?s5 ?Q (remove1 t D) (remove1 t W) (run_curr ?s5)" "stack_ok ?s5"
    "run_curr ?s5 = run_next ?s5" "kernel_state ?s5 = osRtxKernelRunning" "ob_state ?s5 (run_next ?s5) = osRtxThreadRunning"
    using 3(4-6) l4 so f f2(2) k2 tr by (simp_all add: mutex_hand_over_def Let_def)
  obtain s' R' where 6: "osRtxThreadDispatch NULL ?s5 = Some s'" "touched ?s5 s'"
    "settled s' (?Q(ready ?s5 \<mapsto> R')) (remove1 t D) (remove1 t W)" "mem s' = mem ?s5"
    "insert (run_next s') (set R') = insert (run_next ?s5) (set (the (?Q (ready ?s5))))"
    by (rule settled_dispatch [OF 5(1,2,4,5,6,3)]) blast
  note g = touched_fields [OF 6(2)]
  have r5: "ready ?s5 = ready s" "run_next ?s5 = run_curr s" "mem ?s5 = (mem s)(osRtxThreadRegPtr s t := status_word osOK)"
    using f f2 3(6,7) k2(1) by (simp_all add: mutex_hand_over_def Let_def)
  have "release_rest mutex u = Some (osOK, s')" using hd 3(1,2) 6(1) by (simp add: release_rest_def del: status_word.simps)
  moreover have "owns s' (run_curr s) (remove1 mutex ms)"
    by (rule unlocked_owns [OF U o mn]) (use tr in \<open>simp_all add: g f f2 mutex_hand_over_def Let_def\<close>)
  moreover have "owner_thread s' mutex = t" "lock_count s' mutex = 1" "mutex_list s' t = mutex" "priority s' = priority u"
    by (simp_all add: g f mutex_hand_over_def Let_def)
  moreover have "settled s' (Q(mutex \<mapsto> us, ready s \<mapsto> R')) (remove1 t D) (remove1 t W)" using 6(3) r5 f2 by simp
  moreover have "insert (run_next s') (set R') = insert (run_curr s) (insert t (set (the (Q (ready s)))))" using 6(5) r5 f2 R2 by auto
  moreover have "mem s' (osRtxThreadRegPtr s t) = status_word osOK" using 6(4) r5(3) by simp
  ultimately show ?thesis by blast
qed

text \<open>
  C13: Let the list of the mutexes that the caller owns be intact: linked in both directions from its \<open>mutex_list\<close>, with the given
  mutex in it if the caller owns that (a mutex handed over to the caller while it owned another one has broken it, see
  handed_over_mutex_lost). Then svcRtxMutexRelease by a thread that is not the owner fails with osErrorResource and changes
  nothing; by the owner of a mutex locked more than once it only counts down. The last release takes
  the mutex out of the list of owned mutexes, sets the caller's priority (of an inheriting
  mutex) to the highest of its base priority and the priorities of all threads waiting for the
  mutexes it still owns, and hands the mutex to the first waiter: that thread becomes the owner with
  lock count one, gets osOK as its call's result, leaves the waiting and delay lists and competes
  for the processor, so that afterwards the highest of all runnable threads runs.
\<close>

theorem svcRtxMutexRelease_spec:
  assumes E: "entered s Q D W" and Q: "Q mutex = Some ws" and mx: "mutex \<noteq> ready s"
    and ok: "ob_check osRtxIdMutex mutex s = osOK" and o: "owns s (run_curr s) ms"
    and m: "owner_thread s mutex = run_curr s \<Longrightarrow> lock_count s mutex \<noteq> 0 \<Longrightarrow> mutex \<in> set ms"
    and dom: "set ms \<subseteq> dom Q"
  shows "\<exists>r s' Q' D' W'. svcRtxMutexRelease mutex s = Some (r, s') \<and> settled s' Q' D' W' \<and>
    (if owner_thread s mutex \<noteq> run_curr s \<or> lock_count s mutex = 0 then r = osErrorResource \<and> s' = s
     else if lock_count s mutex \<noteq> 1
     then r = osOK \<and> s' = s\<lparr>lock_count := (lock_count s)(mutex := lock_count s mutex - 1)\<rparr>
     else r = osOK \<and> owns s' (run_curr s) (remove1 mutex ms) \<and>
       priority s' = (if ob_attr s mutex AND osMutexPrioInherit \<noteq> 0
         then (priority s)(run_curr s := ceiling_prio (priority s) Q (remove1 mutex ms) (priority_base s (run_curr s)))
         else priority s) \<and>
       insert (run_next s') (set (the (Q' (ready s)))) =
         insert (run_curr s) (set (the (Q (ready s))) \<union> set (take 1 ws)) \<and>
       (case ws of [] \<Rightarrow> lock_count s' mutex = 0 \<and> D' = D \<and> W' = W
        | t # us \<Rightarrow> Q' mutex = Some us \<and> owner_thread s' mutex = t \<and> lock_count s' mutex = 1 \<and>
            mutex_list s' t = mutex \<and> mem s' (osRtxThreadRegPtr s t) = status_word osOK \<and>
            D' = remove1 t D \<and> W' = remove1 t W))"
proof -
  let ?r = "run_curr s"
  note e = enteredD [OF E]
  have mn: "mutex \<noteq> NULL" and rn: "?r \<noteq> NULL" using ok e(4) by (simp_all add: ob_check_ok)
  let ?s0 = "s\<lparr>lock_count := (lock_count s)(mutex := lock_count s mutex - 1)\<rparr>"
  consider (err) "owner_thread s mutex \<noteq> ?r \<or> lock_count s mutex = 0"
    | (down) "owner_thread s mutex = ?r" "lock_count s mutex \<noteq> 0" "lock_count s mutex \<noteq> 1"
    | (last) "owner_thread s mutex = ?r" "lock_count s mutex = 1" by auto
  then show ?thesis
  proof cases
    case err
    then show ?thesis using ok rn e(1)
      by (intro exI [of _ osErrorResource] exI [of _ s] exI [of _ Q] exI [of _ D] exI [of _ W])
        (auto simp: svcRtxMutexRelease_def Let_def)
  next
    case down
    then have "lock_count s mutex - 1 \<noteq> 0" by simp
    then show ?thesis using down ok rn e(1)
      by (intro exI [of _ osOK] exI [of _ ?s0] exI [of _ Q] exI [of _ D] exI [of _ W])
        (simp add: svcRtxMutexRelease_def Let_def)
  next
    case last
    have mm: "mutex \<in> set ms" using m last by simp
    obtain n p l u where rel: "svcRtxMutexRelease mutex s = release_rest mutex u" and U: "unlocked mutex s Q D W ms n p l u"
      using release_unlocks [OF E ok o mm dom last] by blast
    have pu: "priority u = (if ob_attr s mutex AND osMutexPrioInherit \<noteq> 0
        then (priority s)(?r := ceiling_prio (priority s) Q (remove1 mutex ms) (priority_base s ?r)) else priority s)"
      using U unfolding unlocked_def by blast
    show ?thesis
    proof (cases ws)
      case Nil
      obtain s' R' where "release_rest mutex u = Some (osOK, s')" "settled s' (Q(ready s \<mapsto> R')) D W" "owns s' ?r (remove1 mutex ms)"
        "priority s' = priority u" "lock_count s' mutex = 0" "insert (run_next s') (set R') = insert ?r (set (the (Q (ready s))))"
        using release_free [OF U o mn] Q Nil by blast
      then show ?thesis using rel pu Nil last
        by (intro exI [of _ osOK] exI [of _ s'] exI [of _ "Q(ready s \<mapsto> R')"] exI [of _ D] exI [of _ W]) simp
    next
      case (Cons t us)
      obtain s' R' where "release_rest mutex u = Some (osOK, s')" "settled s' (Q(mutex \<mapsto> us, ready s \<mapsto> R')) (remove1 t D) (remove1 t W)"
        "owns s' ?r (remove1 mutex ms)" "priority s' = priority u" "owner_thread s' mutex = t" "lock_count s' mutex = 1" "mutex_list s' t = mutex"
        "mem s' (osRtxThreadRegPtr s t) = status_word osOK"
        "insert (run_next s') (set R') = insert ?r (insert t (set (the (Q (ready s)))))"
        using release_hands_over [OF U o mn _ mx, of t us] Q Cons by blast
      then show ?thesis using rel pu Cons last mx
        by (intro exI [of _ osOK] exI [of _ s'] exI [of _ "Q(mutex \<mapsto> us, ready s \<mapsto> R')"]
            exI [of _ "remove1 t D"] exI [of _ "remove1 t W"]) simp
    qed
  qed
qed
theorem svcRtxMutexRelease_spec_witness:
  "\<exists>s s' Q' D' W'. owner_thread s 0x5000 = 0x1000 \<and> svcRtxMutexRelease 0x5000 s = Some (osOK, s') \<and> settled s' Q' D' W' \<and>
     owner_thread s' 0x5000 = 0x4000 \<and> lock_count s' 0x5000 = 1 \<and> owns s' 0x1000 [] \<and> mem s' 0x40220 = 0"
proof -
  let ?s = "demo\<lparr>ob_id := (ob_id demo)(0x5000 := 4), lock_count := (\<lambda>_. 0)(0x5000 := 1),
     owner_thread := (\<lambda>_. 0)(0x5000 := 0x1000), mutex_list := (\<lambda>_. 0)(0x1000 := 0x5000)\<rparr>"
  have "ob_id demo 0x5000 = osRtxIdSemaphore" by (simp add: demo_def blank_def)
  then have E: "entered ?s demo_lists [0x6000] [0x4000]"
    using entered_ids [OF demo_entered, of "(ob_id demo)(0x5000 := 4)"] by simp
  have q: "demo_lists 0x5000 = Some [0x4000]" by (simp add: demo_lists_def)
  have r: "run_curr ?s = 0x1000" "osRtxThreadRegPtr ?s 0x4000 = 0x40220" "owner_thread ?s 0x5000 = 0x1000" "lock_count ?s 0x5000 = 1"
    by (simp_all add: demo_def blank_def osRtxThreadRegPtr_def StackOffsetR0_def)
  have v: "0x5000 \<noteq> ready ?s" "ob_check osRtxIdMutex 0x5000 ?s = osOK" "owns ?s (run_curr ?s) [0x5000]"
    "0x5000 \<in> set [0x5000]" "set [0x5000] \<subseteq> dom demo_lists"
    by (simp_all add: demo_def blank_def ob_check_def owns_def dll_def demo_lists_def)
  have "\<exists>s' Q' D' W'. svcRtxMutexRelease 0x5000 ?s = Some (osOK, s') \<and> settled s' Q' D' W' \<and>
     owner_thread s' 0x5000 = 0x4000 \<and> lock_count s' 0x5000 = 1 \<and> owns s' 0x1000 [] \<and> mem s' 0x40220 = 0"
    using svcRtxMutexRelease_spec [OF E q v(1-3) v(4,5)] r by (simp del: fun_upd_apply) blast
  with r(3) show ?thesis by - (rule exI [of _ ?s], blast)
qed

text \<open>
  C37: A mutex handed over to a thread that already owns another one, k, gets lost: neither
  svcRtxMutexRelease nor osRtxMutexOwnerRelease sets the \<open>owner_prev\<close> link of k, so when the thread
  releases k before the new mutex, the new mutex disappears from the list of the mutexes it owns
  although it still owns it and the lock count is one. If the thread then exits without releasing it,
  osRtxMutexOwnerRelease on its (now empty) list does nothing: even a robust mutex stays locked.
\<close>

theorem handed_over_mutex_lost:
  assumes o: "owns s t (k # ms)" and m: "mutex \<notin> set (k # ms)" "mutex \<noteq> NULL"
  defines "s' \<equiv> owner_unlink k t (mutex_hand_over mutex t s)"
  shows "owner_thread s' mutex = t \<and> lock_count s' mutex = 1 \<and> mutex_list s' t = after ms \<and>
    dll (mnext s' t) (owner_prev s') NULL ms \<and> (ms = [] \<longrightarrow> osRtxMutexOwnerRelease (mutex_list s' t) s' = Some s')"
proof (intro conjI impI)
  have d: "dll (mnext s t) (owner_prev s) NULL (k # ms)" using o by (simp add: owns_def)
  have k: "k \<noteq> NULL" "k \<notin> set ms" "NULL \<notin> set ms" using owns_distinct [OF o] by auto
  have pk: "owner_prev s k = NULL" using d by (simp add: dll_def)
  have nk: "owner_next s k = after ms" using d k forward_at [of "mnext s t" NULL "[k]" ms] by (simp add: dll_def)
  obtain a where a: "after ms = a" by blast
  let ?h = "s\<lparr>owner_thread := (owner_thread s)(mutex := t), owner_next := (owner_next s)(mutex := mutex_list s t),
      owner_prev := (owner_prev s)(mutex := NULL), mutex_list := (mutex_list s)(t := mutex),
      lock_count := (lock_count s)(mutex := 1)\<rparr>"
  let ?p = "if a \<noteq> NULL then (owner_prev s)(mutex := NULL, a := NULL) else (owner_prev s)(mutex := NULL)"
  have h: "mutex_hand_over mutex t s = ?h" by (simp add: mutex_hand_over_def Let_def)
  have hk: "owner_next ?h k = a" "owner_prev ?h k = NULL" using m nk pk a by auto
  have s': "s' = ?h\<lparr>owner_prev := ?p, mutex_list := (mutex_list s)(t := a)\<rparr>"
    unfolding s'_def h owner_unlink_def Let_def hk using hk by (cases "a = NULL") simp_all
  show "owner_thread s' mutex = t" "lock_count s' mutex = 1" "mutex_list s' t = after ms" unfolding s' a by simp_all
  show "dll (mnext s' t) (owner_prev s') NULL ms"
  proof -
    have f: "mnext s' t NULL = a" "owner_prev s' = ?p" "\<And>x. x \<noteq> NULL \<Longrightarrow> x \<noteq> mutex \<Longrightarrow> mnext s' t x = mnext s t x"
      by (simp_all add: s' mnext_def)
    then have f4: "mnext s' t x = mnext s t x" if "x \<in> set ms" for x using that m(1) k(3) by (metis list.set_intros(2))
    have fw: "forward (mnext s t) k ms" and bw: "backward (owner_prev s) k ms" using d by (simp_all add: dll_def)
    show ?thesis
    proof (cases ms)
      case Nil then show ?thesis using f(1) a by simp
    next
      case (Cons m' ks)
      have fw': "forward (mnext s' t) m' ks"
        using fw Cons f4 by (subst forward_cong [of m' ks _ "mnext s t"]) (auto simp del: mnext_simps)
      have bw': "backward (owner_prev s') m' ks"
        using bw Cons f(2) m k a dll_distinct [OF d] by (subst backward_cong [of ks _ "owner_prev s"]) auto
      show ?thesis using fw' bw' f(1,2) Cons a k dll_distinct [OF d] m(1) by (auto simp: dll_def)
    qed
  qed
  assume "ms = []"
  then show "osRtxMutexOwnerRelease (mutex_list s' t) s' = Some s'"
    using a by (subst osRtxMutexOwnerRelease.simps) (simp add: s')
qed

theorem handed_over_mutex_lost_witness:
  "\<exists>s s'. owns s 0x1000 [0x5200] \<and> s' = owner_unlink 0x5200 0x1000 (mutex_hand_over 0x5100 0x1000 s) \<and>
     owner_thread s' 0x5100 = 0x1000 \<and> lock_count s' 0x5100 = 1 \<and> mutex_list s' 0x1000 = NULL \<and>
     osRtxMutexOwnerRelease (mutex_list s' 0x1000) s' = Some s'"
proof -
  let ?s = "demo\<lparr>mutex_list := (\<lambda>_. 0)(0x1000 := 0x5200), owner_thread := (\<lambda>_. 0)(0x5200 := 0x1000), lock_count := (\<lambda>_. 1)\<rparr>"
  have "owns ?s 0x1000 [0x5200]" by (simp add: owns_def dll_def demo_def blank_def)
  then obtain s where o: "owns s 0x1000 [0x5200]" by blast
  have m: "0x5100 \<notin> set [0x5200 :: ptr]" "(0x5100 :: ptr) \<noteq> NULL" by simp_all
  obtain s' where s': "s' = owner_unlink 0x5200 0x1000 (mutex_hand_over 0x5100 0x1000 s)" by blast
  with o handed_over_mutex_lost [OF o m, folded s'] show ?thesis
    by - (rule exI [of _ s], rule exI, elim conjE, intro conjI, assumption, rule refl, simp_all)
qed

end
