(* ===== verification/RtxThread.thy ===== *)
theory RtxThread
  imports RtxMutex
begin

text \<open>
  Thread management (service calls and public API of rtx_thread.c) and the delays of
  rtx_delay.c. The address of osThreadExit, the initial LR of a thread, is the parameter
  \<open>exit_addr\<close>. No event observer is registered, so a thread's context is the one passed in.
\<close>

unbundle bit_operations_syntax

section \<open>Thread flags\<close>

abbreviation (input) "sizeof_thread \<equiv> 72 :: u32"
abbreviation (input) "osRtxThreadFlagsLimit \<equiv> 31 :: nat"

record thread_attr = os_attr +
  at_stack_mem :: ptr
  at_stack_size :: u32
  at_priority :: int

definition ThreadFlagsSet :: "ptr \<Rightarrow> u32 \<Rightarrow> rtx \<Rightarrow> u32 \<times> rtx" where
  "ThreadFlagsSet thread flags s =
     (let (r, v) = atomic_set32 (thread_flags s thread) flags
      in (r, s\<lparr>thread_flags := (thread_flags s)(thread := v)\<rparr>))"

definition ThreadFlagsClear :: "ptr \<Rightarrow> u32 \<Rightarrow> rtx \<Rightarrow> u32 \<times> rtx" where
  "ThreadFlagsClear thread flags s =
     (let (r, v) = atomic_clr32 (thread_flags s thread) flags
      in (r, s\<lparr>thread_flags := (thread_flags s)(thread := v)\<rparr>))"

definition ThreadFlagsCheck :: "ptr \<Rightarrow> u32 \<Rightarrow> u32 \<Rightarrow> rtx \<Rightarrow> u32 \<times> rtx" where
  "ThreadFlagsCheck thread flags options s =
     (if options AND osFlagsNoClear = 0 then
        let (r, v) = (if options AND osFlagsWaitAll \<noteq> 0
                      then atomic_chk32_all (thread_flags s thread) flags
                      else atomic_chk32_any (thread_flags s thread) flags)
        in (r, s\<lparr>thread_flags := (thread_flags s)(thread := v)\<rparr>)
      else
        let v = thread_flags s thread
        in (if options AND osFlagsWaitAll \<noteq> 0 \<and> v AND flags \<noteq> flags \<or>
               options AND osFlagsWaitAll = 0 \<and> v AND flags = 0
            then 0 else v, s))"

definition tflags_invalid :: "u32 \<Rightarrow> bool" where
  "tflags_invalid flags \<longleftrightarrow> flags AND NOT (push_bit osRtxThreadFlagsLimit 1 - 1) \<noteq> 0"

definition osRtxThreadPostProcess :: "ptr \<Rightarrow> rtx \<Rightarrow> rtx option" where
  "osRtxThreadPostProcess thread s =
     (if ob_state s thread = osRtxThreadInactive \<or> ob_state s thread = osRtxThreadTerminated then Some s
      else if ob_state s thread = osRtxThreadWaitingThreadFlags then
        let (r, s) = ThreadFlagsCheck thread (wait_flags s thread) (ucast (flags_options s thread)) s
        in if r \<noteq> 0 then osRtxThreadWaitExit thread r False s else Some s
      else Some s)"

section \<open>Creation\<close>

text \<open>The attribute checks of svcRtxThreadNew.\<close>

definition thread_attr_valid :: "thread_attr \<Rightarrow> bool" where
  "thread_attr_valid a \<longleftrightarrow>
     cb_valid sizeof_thread a \<and>
     (at_stack_mem a \<noteq> NULL \<longrightarrow> at_stack_mem a AND 7 = 0 \<and> at_stack_size a \<noteq> 0) \<and>
     (at_priority a \<noteq> osPriorityNone \<longrightarrow> osPriorityIdle \<le> at_priority a \<and> at_priority a \<le> osPriorityISR)"

text \<open>Allocation of the default or of a sized stack: memory, size and flags.\<close>

definition stack_alloc :: "u32 \<Rightarrow> u8 \<Rightarrow> rtx \<Rightarrow> (ptr \<times> u32 \<times> u8 \<times> rtx) option" where
  "stack_alloc ssize flags s =
     (if ssize = 0 \<and> mpi_stack s \<noteq> NULL then
        let (p, s') = osRtxMemoryPoolAlloc (mpi_stack s) s
        in Some (p, config_stack_size s, if p \<noteq> NULL then flags OR osRtxThreadFlagDefStack else flags, s')
      else do {
        let ssize = (if ssize = 0 then config_stack_size s else ssize);
        (p, m) \<leftarrow> osRtxMemoryAlloc (mem_stack s) ssize 0 (mem s);
        Some (p, ssize, flags, s\<lparr>mem := m\<rparr>)
      })"

text \<open>The stack of a new thread: magic word, watermark pattern and initial exception frame.\<close>

definition stack_init :: "ptr \<Rightarrow> u32 \<Rightarrow> ptr \<Rightarrow> u32 \<Rightarrow> u32 \<Rightarrow> u32 \<Rightarrow> u32 \<Rightarrow> (ptr \<Rightarrow> u32) \<Rightarrow> ptr \<Rightarrow> u32" where
  "stack_init smem ssize sptr cflags exit_addr func argument m =
     (let m = m(smem := osRtxStackMagicWord);
          m = (if cflags AND osRtxConfigStackWatermark \<noteq> 0
               then store_words (smem + 4) (replicate (unat (ssize div 4 - (16 + 1))) osRtxStackFillPattern) m
               else m);
          m = store_words sptr (replicate 13 0) m;
          m = m(sptr + 4 * 13 := exit_addr);
          m = m(sptr + 4 * 14 := func);
          m = m(sptr + 4 * 15 := xPSR_InitVal (cflags AND osRtxConfigPrivilegedMode \<noteq> 0) (func AND 1 \<noteq> 0))
      in m(sptr + 4 * 8 := argument))"

definition thread_init ::
    "ptr \<Rightarrow> u8 \<Rightarrow> u32 \<Rightarrow> ptr \<Rightarrow> int \<Rightarrow> ptr \<Rightarrow> u32 \<Rightarrow> u32 \<Rightarrow> rtx \<Rightarrow> rtx" where
  "thread_init thread flags attr_bits name prio smem ssize func s =
     s\<lparr>ob_id := (ob_id s)(thread := osRtxIdThread),
       ob_state := (ob_state s)(thread := osRtxThreadReady),
       ob_flags := (ob_flags s)(thread := flags),
       ob_attr := (ob_attr s)(thread := ucast attr_bits),
       ob_name := (ob_name s)(thread := name),
       thread_next := (thread_next s)(thread := NULL),
       thread_prev := (thread_prev s)(thread := NULL),
       delay_next := (delay_next s)(thread := NULL),
       delay_prev := (delay_prev s)(thread := NULL),
       thread_join := (thread_join s)(thread := NULL),
       delay := (delay s)(thread := 0),
       priority := (priority s)(thread := to_int8 prio),
       priority_base := (priority_base s)(thread := to_int8 prio),
       stack_frame := (stack_frame s)(thread := STACK_FRAME_INIT_VAL),
       flags_options := (flags_options s)(thread := 0),
       wait_flags := (wait_flags s)(thread := 0),
       thread_flags := (thread_flags s)(thread := 0),
       mutex_list := (mutex_list s)(thread := NULL),
       stack_mem := (stack_mem s)(thread := smem),
       stack_size := (stack_size s)(thread := ssize),
       sp := (sp s)(thread := smem + ssize - 64),
       thread_addr := (thread_addr s)(thread := func)\<rparr>"

definition svcRtxThreadNew ::
    "u32 \<Rightarrow> u32 \<Rightarrow> u32 \<Rightarrow> thread_attr option \<Rightarrow> ptr \<Rightarrow> rtx \<Rightarrow> (ptr \<times> rtx) option" where
  "svcRtxThreadNew exit_addr func argument attr context' s =
     (if func = 0 then Some (NULL, s)
      else if (case attr of Some a \<Rightarrow> \<not> thread_attr_valid a | None \<Rightarrow> False) then Some (NULL, s)
      else
        let name = (case attr of Some a \<Rightarrow> at_name a | None \<Rightarrow> NULL);
            attr_bits = (case attr of Some a \<Rightarrow> at_bits a | None \<Rightarrow> 0);
            thread = (case attr of Some a \<Rightarrow> cb_mem a | None \<Rightarrow> NULL);
            smem = (case attr of Some a \<Rightarrow> at_stack_mem a | None \<Rightarrow> NULL);
            ssize = (case attr of Some a \<Rightarrow> at_stack_size a | None \<Rightarrow> 0);
            prio = (case attr of Some a \<Rightarrow> if at_priority a = osPriorityNone then osPriorityNormal
                                           else at_priority a
                    | None \<Rightarrow> osPriorityNormal)
        in if ssize \<noteq> 0 \<and> (ssize AND 7 \<noteq> 0 \<or> ssize < 64 + 8) then Some (NULL, s)
           else do {
             (thread, flags, s) \<leftarrow>
               (if thread = NULL then do {
                  (p, s) \<leftarrow> cb_alloc (mpi_thread s) sizeof_thread s;
                  Some (p, osRtxFlagSystemObject, s)
                } else Some (thread, 0, s));
             (thread, smem, ssize, flags, s) \<leftarrow>
               (if thread \<noteq> NULL \<and> smem = NULL then do {
                  (smem, ssize, flags, s) \<leftarrow> stack_alloc ssize flags s;
                  (if smem = NULL then do {
                     s \<leftarrow> (if flags AND osRtxFlagSystemObject \<noteq> 0
                           then cb_free (mpi_thread s) thread s else Some s);
                     Some (NULL, smem, ssize, flags OR osRtxFlagSystemMemory, s)
                   } else Some (thread, smem, ssize, flags OR osRtxFlagSystemMemory, s))
                } else Some (thread, smem, ssize, flags, s));
             let s = (if thread \<noteq> NULL then
                        let s = thread_init thread flags attr_bits name prio smem ssize func s
                        in s\<lparr>mem := stack_init smem ssize (sp s thread) (config_flags s) exit_addr func
                                    argument (mem s)\<rparr>
                      else s);
             guard (thread \<noteq> NULL);
             let s = s\<lparr>context_ptr := (context_ptr s)(thread := context')\<rparr>;
             s \<leftarrow> (if thread \<noteq> NULL then osRtxThreadDispatch thread s else Some s);
             Some (thread, s)
           })"

section \<open>Properties of a thread\<close>

definition thread_valid :: "ptr \<Rightarrow> rtx \<Rightarrow> bool" where
  "thread_valid thread s \<longleftrightarrow> thread \<noteq> NULL \<and> ob_id s thread = osRtxIdThread"

definition thread_gone :: "ptr \<Rightarrow> rtx \<Rightarrow> bool" where
  "thread_gone thread s \<longleftrightarrow>
     ob_state s thread = osRtxThreadInactive \<or> ob_state s thread = osRtxThreadTerminated"

definition svcRtxThreadGetName :: "ptr \<Rightarrow> rtx \<Rightarrow> ptr" where
  "svcRtxThreadGetName thread s =
     (if \<not> thread_valid thread s then NULL
      else if ob_state s thread = osRtxObjectInactive then NULL else ob_name s thread)"

definition svcRtxThreadGetId :: "rtx \<Rightarrow> ptr" where
  "svcRtxThreadGetId s = run_curr s"

definition svcRtxThreadGetState :: "ptr \<Rightarrow> rtx \<Rightarrow> int" where
  "svcRtxThreadGetState thread s =
     (if \<not> thread_valid thread s then - 1 else uint (ob_state s thread AND osRtxThreadStateMask))"

definition svcRtxThreadGetStackSize :: "ptr \<Rightarrow> rtx \<Rightarrow> u32" where
  "svcRtxThreadGetStackSize thread s =
     (if \<not> thread_valid thread s then 0
      else if ob_state s thread = osRtxObjectInactive then 0 else stack_size s thread)"

text \<open>The loop over the words that still hold the fill pattern.\<close>

partial_function (option) watermark :: "(ptr \<Rightarrow> u32) \<Rightarrow> u32 \<Rightarrow> ptr \<Rightarrow> u32 \<Rightarrow> u32 option" where
  "watermark m ssize p space =
     (if space < ssize
      then if m p \<noteq> osRtxStackFillPattern then Some space else watermark m ssize (p + 4) (space + 4)
      else Some space)"

definition svcRtxThreadGetStackSpace :: "ptr \<Rightarrow> rtx \<Rightarrow> u32 option" where
  "svcRtxThreadGetStackSpace thread s =
     (if \<not> thread_valid thread s then Some 0
      else if ob_state s thread = osRtxObjectInactive then Some 0
      else if config_flags s AND osRtxConfigStackWatermark = 0 then Some 0
      else if mem s (stack_mem s thread) = osRtxStackMagicWord
      then watermark (mem s) (stack_size s thread) (stack_mem s thread + 4) 4
      else Some 0)"

definition svcRtxThreadSetPriority :: "ptr \<Rightarrow> int \<Rightarrow> rtx \<Rightarrow> (osStatus \<times> rtx) option" where
  "svcRtxThreadSetPriority thread prio s =
     (if \<not> thread_valid thread s \<or> prio < osPriorityIdle \<or> prio > osPriorityISR
      then Some (osErrorParameter, s)
      else if thread_gone thread s then Some (osErrorResource, s)
      else if priority s thread \<noteq> to_int8 prio then do {
        let s = s\<lparr>priority := (priority s)(thread := to_int8 prio)\<rparr>;
        let s = s\<lparr>priority_base := (priority_base s)(thread := to_int8 prio)\<rparr>;
        s \<leftarrow> osRtxThreadListSort thread s;
        s \<leftarrow> osRtxThreadDispatch NULL s;
        Some (osOK, s)
      }
      else Some (osOK, s))"

definition svcRtxThreadGetPriority :: "ptr \<Rightarrow> rtx \<Rightarrow> int" where
  "svcRtxThreadGetPriority thread s =
     (if \<not> thread_valid thread s \<or> thread_gone thread s then osPriorityError else priority s thread)"

section \<open>Scheduling calls\<close>

definition svcRtxThreadYield :: "rtx \<Rightarrow> (osStatus \<times> rtx) option" where
  "svcRtxThreadYield s =
     (let running = run_curr s; rdy = thread_list s (ready s)
      in if kernel_state s = osRtxKernelRunning \<and> rdy \<noteq> NULL \<and> running \<noteq> NULL \<and>
            priority s rdy = priority s running
         then do {
           s \<leftarrow> osRtxThreadListRemove rdy s;
           s \<leftarrow> osRtxThreadReadyPut running s;
           s \<leftarrow> osRtxThreadSwitch rdy s;
           Some (osOK, s)
         }
         else Some (osOK, s))"

text \<open>
  The switch on the thread's state that Suspend and Terminate start with: a thread that is
  ready or blocked leaves its lists.
\<close>

definition thread_detach_lists :: "ptr \<Rightarrow> rtx \<Rightarrow> (osStatus \<times> rtx) option" where
  "thread_detach_lists thread s =
     (let st = ob_state s thread AND osRtxThreadStateMask
      in if st = osRtxThreadRunning then
           Some (if kernel_state s \<noteq> osRtxKernelRunning \<or> thread_list s (ready s) = NULL
                 then osErrorResource else osOK, s)
         else if st = osRtxThreadReady then do {
           s \<leftarrow> osRtxThreadListRemove thread s;
           Some (osOK, s)
         }
         else if st = osRtxThreadBlocked then do {
           s \<leftarrow> osRtxThreadListRemove thread s;
           s \<leftarrow> osRtxThreadDelayRemove thread s;
           Some (osOK, s)
         }
         else Some (osErrorResource, s))"

definition svcRtxThreadSuspend :: "ptr \<Rightarrow> rtx \<Rightarrow> (osStatus \<times> rtx) option" where
  "svcRtxThreadSuspend thread s =
     (if \<not> thread_valid thread s then Some (osErrorParameter, s)
      else do {
        (status, s) \<leftarrow> thread_detach_lists thread s;
        (if status = osOK then do {
           s \<leftarrow> (if ob_state s thread = osRtxThreadRunning then do {
                   (next, s) \<leftarrow> osRtxThreadListGet (ready s) s;
                   osRtxThreadSwitch next s
                 } else Some s);
           let s = s\<lparr>ob_state := (ob_state s)(thread := osRtxThreadBlocked)\<rparr>;
           let s = s\<lparr>thread_prev := (thread_prev s)(thread := NULL)\<rparr>;
           let s = s\<lparr>thread_next := (thread_next s)(thread := NULL)\<rparr>;
           s \<leftarrow> osRtxThreadDelayInsert thread osWaitForever s;
           Some (status, s)
         } else Some (status, s))
      })"

definition svcRtxThreadResume :: "ptr \<Rightarrow> rtx \<Rightarrow> (osStatus \<times> rtx) option" where
  "svcRtxThreadResume thread s =
     (if \<not> thread_valid thread s then Some (osErrorParameter, s)
      else if ob_state s thread AND osRtxThreadStateMask \<noteq> osRtxThreadBlocked then Some (osErrorResource, s)
      else do {
        s \<leftarrow> osRtxThreadListRemove thread s;
        s \<leftarrow> osRtxThreadDelayRemove thread s;
        s \<leftarrow> osRtxThreadDispatch thread s;
        Some (osOK, s)
      })"

section \<open>Termination\<close>

definition osRtxThreadFree :: "ptr \<Rightarrow> rtx \<Rightarrow> rtx option" where
  "osRtxThreadFree thread s = do {
     let s = s\<lparr>ob_state := (ob_state s)(thread := osRtxThreadInactive)\<rparr>;
     s \<leftarrow> (if ob_flags s thread AND osRtxFlagSystemMemory \<noteq> 0 then
             (if ob_flags s thread AND osRtxThreadFlagDefStack \<noteq> 0
              then Some (snd (osRtxMemoryPoolFree (mpi_stack s) (stack_mem s thread) s))
              else do {
                (r, m) \<leftarrow> osRtxMemoryFree (mem_stack s) (stack_mem s thread) (mem s);
                Some (s\<lparr>mem := m\<rparr>)
              })
           else Some s);
     (if ob_flags s thread AND osRtxFlagSystemObject \<noteq> 0 then cb_free (mpi_thread s) thread s else Some s)
   }"

text \<open>Taking a thread out of the list of terminated threads and freeing it (Detach and Join).\<close>

definition reap :: "ptr \<Rightarrow> rtx \<Rightarrow> rtx option" where
  "reap thread s = do {
     (hd', s) \<leftarrow> osRtxThreadListUnlink (terminate_list s) thread s;
     osRtxThreadFree thread (s\<lparr>terminate_list := hd'\<rparr>)
   }"

definition svcRtxThreadDetach :: "ptr \<Rightarrow> rtx \<Rightarrow> (osStatus \<times> rtx) option" where
  "svcRtxThreadDetach thread s =
     (if \<not> thread_valid thread s then Some (osErrorParameter, s)
      else if ob_attr s thread AND osThreadJoinable = 0 then Some (osErrorResource, s)
      else if ob_state s thread = osRtxThreadInactive then Some (osErrorResource, s)
      else if ob_state s thread = osRtxThreadTerminated then do {
        s \<leftarrow> reap thread s;
        Some (osOK, s)
      }
      else Some (osOK, s\<lparr>ob_attr := (ob_attr s)(thread := ob_attr s thread AND NOT osThreadJoinable)\<rparr>))"

definition svcRtxThreadJoin :: "ptr \<Rightarrow> rtx \<Rightarrow> (osStatus \<times> rtx) option" where
  "svcRtxThreadJoin thread s =
     (if \<not> thread_valid thread s then Some (osErrorParameter, s)
      else if ob_attr s thread AND osThreadJoinable = 0 then Some (osErrorResource, s)
      else if ob_state s thread = osRtxThreadInactive \<or> ob_state s thread = osRtxThreadRunning
      then Some (osErrorResource, s)
      else if ob_state s thread = osRtxThreadTerminated then do {
        s \<leftarrow> reap thread s;
        Some (osOK, s)
      }
      else do {
        (b, s) \<leftarrow> osRtxThreadWaitEnter osRtxThreadWaitingJoin osWaitForever s;
        Some (osErrorResource,
              if b then s\<lparr>thread_join := (thread_join s)(thread := run_curr s)\<rparr> else s)
      })"

text \<open>The common end of Exit and Terminate: free the thread or keep it for a later join.\<close>

definition thread_dispose :: "ptr \<Rightarrow> rtx \<Rightarrow> rtx option" where
  "thread_dispose thread s =
     (if ob_attr s thread AND osThreadJoinable = 0 \<or> thread_join s thread \<noteq> NULL
      then osRtxThreadFree thread s
      else
        let s = s\<lparr>ob_state := (ob_state s)(thread := osRtxThreadTerminated)\<rparr>;
            s = s\<lparr>thread_prev := (thread_prev s)(thread := NULL)\<rparr>;
            s = s\<lparr>thread_next := (thread_next s)(thread := terminate_list s)\<rparr>;
            s = (if terminate_list s \<noteq> NULL
                 then s\<lparr>thread_prev := (thread_prev s)(terminate_list s := thread)\<rparr> else s)
        in Some (s\<lparr>terminate_list := thread\<rparr>))"

text \<open>Leaving the processor: the next ready thread is chosen and there is no running thread.\<close>

definition thread_leave :: "ptr \<Rightarrow> rtx \<Rightarrow> rtx option" where
  "thread_leave thread s = do {
     let s = s\<lparr>sp := (sp s)(thread := psp s)\<rparr>;
     (next, s) \<leftarrow> osRtxThreadListGet (ready s) s;
     s \<leftarrow> osRtxThreadSwitch next s;
     Some (s\<lparr>run_curr := NULL\<rparr>)
   }"

text \<open>Releasing the owned mutexes and waking the joining thread.\<close>

definition thread_release :: "ptr \<Rightarrow> rtx \<Rightarrow> rtx option" where
  "thread_release thread s = do {
     s \<leftarrow> osRtxMutexOwnerRelease (mutex_list s thread) s;
     (if thread_join s thread \<noteq> NULL
      then osRtxThreadWaitExit (thread_join s thread) (status_word osOK) False s else Some s)
   }"

definition svcRtxThreadExit :: "rtx \<Rightarrow> rtx option" where
  "svcRtxThreadExit s =
     (let thread = run_curr s
      in if thread = NULL then Some s
         else if kernel_state s \<noteq> osRtxKernelRunning \<or> thread_list s (ready s) = NULL then Some s
         else do {
           s \<leftarrow> thread_release thread s;
           s \<leftarrow> thread_leave thread s;
           thread_dispose thread s
         })"

definition svcRtxThreadTerminate :: "ptr \<Rightarrow> rtx \<Rightarrow> (osStatus \<times> rtx) option" where
  "svcRtxThreadTerminate thread s =
     (if \<not> thread_valid thread s then Some (osErrorParameter, s)
      else do {
        (status, s) \<leftarrow> thread_detach_lists thread s;
        (if status = osOK then do {
           s \<leftarrow> thread_release thread s;
           s \<leftarrow> (if ob_state s thread = osRtxThreadRunning then thread_leave thread s
                 else osRtxThreadDispatch NULL s);
           s \<leftarrow> thread_dispose thread s;
           Some (status, s)
         } else Some (status, s))
      })"

section \<open>Enumeration\<close>

partial_function (option) count_list :: "(ptr \<Rightarrow> ptr) \<Rightarrow> ptr \<Rightarrow> u32 \<Rightarrow> u32 option" where
  "count_list nxt thread count =
     (if thread \<noteq> NULL then count_list nxt (nxt thread) (count + 1) else Some count)"

definition svcRtxThreadGetCount :: "rtx \<Rightarrow> u32 option" where
  "svcRtxThreadGetCount s = do {
     count \<leftarrow> count_list (thread_next s) (thread_list s (ready s)) 1;
     count \<leftarrow> count_list (delay_next s) (delay_list s) count;
     count_list (delay_next s) (wait_list s) count
   }"

partial_function (option) enum_list ::
    "(ptr \<Rightarrow> ptr) \<Rightarrow> u32 \<Rightarrow> ptr \<Rightarrow> ptr \<times> u32 \<times> (ptr \<Rightarrow> u32) \<Rightarrow> (ptr \<times> u32 \<times> (ptr \<Rightarrow> u32)) option" where
  "enum_list nxt items thread acc =
     (let (arr, count, m) = acc
      in if thread \<noteq> NULL \<and> count < items
         then enum_list nxt items (nxt thread) (arr + 4, count + 1, m(arr := thread))
         else Some acc)"

definition svcRtxThreadEnumerate :: "ptr \<Rightarrow> u32 \<Rightarrow> rtx \<Rightarrow> (u32 \<times> rtx) option" where
  "svcRtxThreadEnumerate arr items s =
     (if arr = NULL \<or> items = 0 then Some (0, s)
      else do {
        acc \<leftarrow> enum_list (thread_next s) items (thread_list s (ready s))
                 (arr + 4, 1, (mem s)(arr := run_curr s));
        acc \<leftarrow> enum_list (delay_next s) items (delay_list s) acc;
        (arr, count, m) \<leftarrow> enum_list (delay_next s) items (wait_list s) acc;
        Some (count, s\<lparr>mem := m\<rparr>)
      })"

section \<open>Flag calls\<close>

definition svcRtxThreadFlagsSet :: "ptr \<Rightarrow> u32 \<Rightarrow> rtx \<Rightarrow> (u32 \<times> rtx) option" where
  "svcRtxThreadFlagsSet thread flags s =
     (if \<not> thread_valid thread s \<or> tflags_invalid flags then Some (status_word osErrorParameter, s)
      else if thread_gone thread s then Some (status_word osErrorResource, s)
      else
        let (cur, s) = ThreadFlagsSet thread flags s
        in if ob_state s thread = osRtxThreadWaitingThreadFlags then
             let (r, s) = ThreadFlagsCheck thread (wait_flags s thread) (ucast (flags_options s thread)) s
             in if r \<noteq> 0 then do {
                  let cur = (if ucast (flags_options s thread) AND osFlagsNoClear = 0
                             then r AND NOT (wait_flags s thread) else r);
                  s \<leftarrow> osRtxThreadWaitExit thread r True s;
                  Some (cur, s)
                }
                else Some (cur, s)
           else Some (cur, s))"

definition svcRtxThreadFlagsClear :: "u32 \<Rightarrow> rtx \<Rightarrow> u32 \<times> rtx" where
  "svcRtxThreadFlagsClear flags s =
     (let thread = run_curr s
      in if thread = NULL then (status_word osError, s)
         else if tflags_invalid flags then (status_word osErrorParameter, s)
         else if thread_gone thread s then (status_word osErrorResource, s)
         else ThreadFlagsClear thread flags s)"

definition svcRtxThreadFlagsGet :: "rtx \<Rightarrow> u32" where
  "svcRtxThreadFlagsGet s =
     (let thread = run_curr s
      in if thread = NULL \<or> thread_gone thread s then 0 else thread_flags s thread)"

definition svcRtxThreadFlagsWait :: "u32 \<Rightarrow> u32 \<Rightarrow> u32 \<Rightarrow> rtx \<Rightarrow> (u32 \<times> rtx) option" where
  "svcRtxThreadFlagsWait flags options timeout s =
     (let thread = run_curr s
      in if thread = NULL then Some (status_word osError, s)
         else if tflags_invalid flags then Some (status_word osErrorParameter, s)
         else
           let (r, s) = ThreadFlagsCheck thread flags options s
           in if r \<noteq> 0 then Some (r, s)
              else if timeout \<noteq> 0 then do {
                let s = s\<lparr>wait_flags := (wait_flags s)(thread := flags)\<rparr>;
                let s = s\<lparr>flags_options := (flags_options s)(thread := ucast options)\<rparr>;
                (b, s) \<leftarrow> osRtxThreadWaitEnter osRtxThreadWaitingThreadFlags timeout s;
                Some (status_word osErrorTimeout, s)
              }
              else Some (status_word osErrorResource, s))"

definition isrRtxThreadFlagsSet :: "ptr \<Rightarrow> u32 \<Rightarrow> rtx \<Rightarrow> (u32 \<times> rtx) option" where
  "isrRtxThreadFlagsSet thread flags s =
     (if \<not> thread_valid thread s \<or> tflags_invalid flags then Some (status_word osErrorParameter, s)
      else if thread_gone thread s then Some (status_word osErrorResource, s)
      else do {
        let (cur, s) = ThreadFlagsSet thread flags s;
        s \<leftarrow> osRtxPostProcess thread s;
        Some (cur, s)
      })"

section \<open>Startup and delays\<close>

text \<open>
  \<open>idle\<close> and \<open>timer\<close> are the entry addresses and attributes of the two system threads;
  \<open>mcnt\<close> is osRtxConfig.timer_mq_mcnt.
\<close>

definition osRtxThreadStartup ::
    "u32 \<Rightarrow> u32 \<times> thread_attr option \<Rightarrow> u32 \<times> thread_attr option \<Rightarrow> u32 \<Rightarrow> rtx \<Rightarrow> (bool \<times> rtx) option" where
  "osRtxThreadStartup exit_addr idle timer mcnt s = do {
     (ret, s) \<leftarrow>
       (if idle_thread s = NULL then do {
          (p, s) \<leftarrow> svcRtxThreadNew exit_addr (fst idle) 0 (snd idle) NULL s;
          Some (p \<noteq> NULL, s\<lparr>idle_thread := p\<rparr>)
        } else Some (True, s));
     (if mcnt \<noteq> 0 \<and> timer_thread s = NULL then do {
        (p, s) \<leftarrow> svcRtxThreadNew exit_addr (fst timer) 0 (snd timer) NULL s;
        Some (ret \<and> p \<noteq> NULL, s\<lparr>timer_thread := p\<rparr>)
      } else Some (ret, s))
   }"

definition svcRtxDelay :: "u32 \<Rightarrow> rtx \<Rightarrow> (osStatus \<times> rtx) option" where
  "svcRtxDelay ticks s =
     (if ticks \<noteq> 0 then do {
        (b, s) \<leftarrow> osRtxThreadWaitEnter osRtxThreadWaitingDelay ticks s;
        Some (osOK, s)
      }
      else Some (osOK, s))"

definition svcRtxDelayUntil :: "u32 \<Rightarrow> rtx \<Rightarrow> (osStatus \<times> rtx) option" where
  "svcRtxDelayUntil ticks s =
     (let ticks = ticks - kernel_tick s
      in if ticks = 0xFFFFFFFF then Some (osErrorParameter, s)
         else if ticks \<noteq> 0 then do {
           (b, s) \<leftarrow> osRtxThreadWaitEnter osRtxThreadWaitingDelay ticks s;
           Some (osOK, s)
         }
         else Some (osOK, s))"

section \<open>Public API\<close>

definition irq_context :: "rtx \<Rightarrow> bool" where
  "irq_context s \<longleftrightarrow> IsIrqMode s \<or> IsIrqMasked s"

definition osThreadContextNew ::
    "u32 \<Rightarrow> u32 \<Rightarrow> u32 \<Rightarrow> thread_attr option \<Rightarrow> ptr \<Rightarrow> rtx \<Rightarrow> (ptr \<times> rtx) option" where
  "osThreadContextNew exit_addr func argument attr context' s =
     (if irq_context s then Some (NULL, s) else svcRtxThreadNew exit_addr func argument attr context' s)"

definition osThreadNew :: "u32 \<Rightarrow> u32 \<Rightarrow> u32 \<Rightarrow> thread_attr option \<Rightarrow> rtx \<Rightarrow> (ptr \<times> rtx) option" where
  "osThreadNew exit_addr func argument attr s = osThreadContextNew exit_addr func argument attr NULL s"

definition osThreadGetName :: "ptr \<Rightarrow> rtx \<Rightarrow> ptr" where
  "osThreadGetName thread s = (if irq_context s then NULL else svcRtxThreadGetName thread s)"

definition osThreadGetId :: "rtx \<Rightarrow> ptr" where
  "osThreadGetId s = (if irq_context s then NULL else svcRtxThreadGetId s)"

definition osThreadGetState :: "ptr \<Rightarrow> rtx \<Rightarrow> int" where
  "osThreadGetState thread s = (if irq_context s then - 1 else svcRtxThreadGetState thread s)"

definition osThreadGetStackSize :: "ptr \<Rightarrow> rtx \<Rightarrow> u32" where
  "osThreadGetStackSize thread s = (if irq_context s then 0 else svcRtxThreadGetStackSize thread s)"

definition osThreadGetStackSpace :: "ptr \<Rightarrow> rtx \<Rightarrow> u32 option" where
  "osThreadGetStackSpace thread s = (if irq_context s then Some 0 else svcRtxThreadGetStackSpace thread s)"

definition osThreadSetPriority :: "ptr \<Rightarrow> int \<Rightarrow> rtx \<Rightarrow> (osStatus \<times> rtx) option" where
  "osThreadSetPriority thread prio s =
     (if irq_context s then Some (osErrorISR, s) else svcRtxThreadSetPriority thread prio s)"

definition osThreadGetPriority :: "ptr \<Rightarrow> rtx \<Rightarrow> int" where
  "osThreadGetPriority thread s =
     (if irq_context s then osPriorityError else svcRtxThreadGetPriority thread s)"

definition osThreadYield :: "rtx \<Rightarrow> (osStatus \<times> rtx) option" where
  "osThreadYield s = (if irq_context s then Some (osErrorISR, s) else svcRtxThreadYield s)"

definition osThreadSuspend :: "ptr \<Rightarrow> rtx \<Rightarrow> (osStatus \<times> rtx) option" where
  "osThreadSuspend thread s = (if irq_context s then Some (osErrorISR, s) else svcRtxThreadSuspend thread s)"

definition osThreadResume :: "ptr \<Rightarrow> rtx \<Rightarrow> (osStatus \<times> rtx) option" where
  "osThreadResume thread s = (if irq_context s then Some (osErrorISR, s) else svcRtxThreadResume thread s)"

definition osThreadDetach :: "ptr \<Rightarrow> rtx \<Rightarrow> (osStatus \<times> rtx) option" where
  "osThreadDetach thread s = (if irq_context s then Some (osErrorISR, s) else svcRtxThreadDetach thread s)"

definition osThreadJoin :: "ptr \<Rightarrow> rtx \<Rightarrow> (osStatus \<times> rtx) option" where
  "osThreadJoin thread s = (if irq_context s then Some (osErrorISR, s) else svcRtxThreadJoin thread s)"

definition osThreadTerminate :: "ptr \<Rightarrow> rtx \<Rightarrow> (osStatus \<times> rtx) option" where
  "osThreadTerminate thread s =
     (if irq_context s then Some (osErrorISR, s) else svcRtxThreadTerminate thread s)"

definition osThreadGetCount :: "rtx \<Rightarrow> u32 option" where
  "osThreadGetCount s = (if irq_context s then Some 0 else svcRtxThreadGetCount s)"

definition osThreadEnumerate :: "ptr \<Rightarrow> u32 \<Rightarrow> rtx \<Rightarrow> (u32 \<times> rtx) option" where
  "osThreadEnumerate arr items s =
     (if irq_context s then Some (0, s) else svcRtxThreadEnumerate arr items s)"

definition osThreadFlagsSet :: "ptr \<Rightarrow> u32 \<Rightarrow> rtx \<Rightarrow> (u32 \<times> rtx) option" where
  "osThreadFlagsSet thread flags s =
     (if irq_context s then isrRtxThreadFlagsSet thread flags s else svcRtxThreadFlagsSet thread flags s)"

definition osThreadFlagsClear :: "u32 \<Rightarrow> rtx \<Rightarrow> u32 \<times> rtx" where
  "osThreadFlagsClear flags s =
     (if irq_context s then (status_word osErrorISR, s) else svcRtxThreadFlagsClear flags s)"

definition osThreadFlagsGet :: "rtx \<Rightarrow> u32" where
  "osThreadFlagsGet s = (if irq_context s then 0 else svcRtxThreadFlagsGet s)"

definition osThreadFlagsWait :: "u32 \<Rightarrow> u32 \<Rightarrow> u32 \<Rightarrow> rtx \<Rightarrow> (u32 \<times> rtx) option" where
  "osThreadFlagsWait flags options timeout s =
     (if irq_context s then Some (status_word osErrorISR, s)
      else svcRtxThreadFlagsWait flags options timeout s)"

definition osDelay :: "u32 \<Rightarrow> rtx \<Rightarrow> (osStatus \<times> rtx) option" where
  "osDelay ticks s = (if irq_context s then Some (osErrorISR, s) else svcRtxDelay ticks s)"

definition osDelayUntil :: "u32 \<Rightarrow> rtx \<Rightarrow> (osStatus \<times> rtx) option" where
  "osDelayUntil ticks s = (if irq_context s then Some (osErrorISR, s) else svcRtxDelayUntil ticks s)"

end
