(* ===== verification/RtxSemaphore.thy ===== *)
theory RtxSemaphore
  imports RtxSystem RtxMemory
begin

text \<open>
  Counting semaphores (rtx_semaphore.c): tokens, the waiting list of the control block, the
  service calls, the calls from interrupt handlers and the public API that chooses between them.
\<close>

unbundle bit_operations_syntax

section \<open>Operations\<close>

abbreviation (input) "osRtxSemaphoreTokenLimit \<equiv> 65535 :: u32"
abbreviation (input) "sizeof_semaphore \<equiv> 16 :: u32"

definition SemaphoreTokenDecrement :: "ptr \<Rightarrow> rtx \<Rightarrow> u32 \<times> rtx" where
  "SemaphoreTokenDecrement semaphore s =
     (let (old, v) = atomic_dec16_nz (tokens s semaphore);
          s = s\<lparr>tokens := (tokens s)(semaphore := v)\<rparr>
      in (if old \<noteq> 0 then 1 else 0, s))"

definition SemaphoreTokenIncrement :: "ptr \<Rightarrow> rtx \<Rightarrow> u32 \<times> rtx" where
  "SemaphoreTokenIncrement semaphore s =
     (let (old, v) = atomic_inc16_lt (tokens s semaphore) (max_tokens s semaphore);
          s = s\<lparr>tokens := (tokens s)(semaphore := v)\<rparr>
      in (if old < max_tokens s semaphore then 1 else 0, s))"

definition osRtxSemaphorePostProcess :: "ptr \<Rightarrow> rtx \<Rightarrow> rtx option" where
  "osRtxSemaphorePostProcess semaphore s =
     (if ob_state s semaphore = osRtxObjectInactive then Some s
      else if thread_list s semaphore \<noteq> NULL then
        let (r, s) = SemaphoreTokenDecrement semaphore s
        in if r \<noteq> 0 then do {
             (thread, s) \<leftarrow> osRtxThreadListGet semaphore s;
             osRtxThreadWaitExit thread (status_word osOK) False s
           }
           else Some s
      else Some s)"

definition svcRtxSemaphoreNew :: "u32 \<Rightarrow> u32 \<Rightarrow> os_attr option \<Rightarrow> rtx \<Rightarrow> (ptr \<times> rtx) option" where
  "svcRtxSemaphoreNew max_count initial_count attr s =
     (if max_count = 0 \<or> max_count > osRtxSemaphoreTokenLimit \<or> initial_count > max_count
      then Some (NULL, s)
      else if (case attr of Some a \<Rightarrow> \<not> cb_valid sizeof_semaphore a | None \<Rightarrow> False)
      then Some (NULL, s)
      else do {
        let name = (case attr of Some a \<Rightarrow> at_name a | None \<Rightarrow> NULL);
        let semaphore = (case attr of Some a \<Rightarrow> cb_mem a | None \<Rightarrow> NULL);
        (semaphore, flags, s) \<leftarrow>
          (if semaphore = NULL then do {
             (p, s) \<leftarrow> cb_alloc (mpi_semaphore s) sizeof_semaphore s;
             Some (p, osRtxFlagSystemObject, s)
           } else Some (semaphore, 0, s));
        (if semaphore \<noteq> NULL then do {
           let s = s\<lparr>ob_id := (ob_id s)(semaphore := osRtxIdSemaphore)\<rparr>;
           let s = s\<lparr>ob_state := (ob_state s)(semaphore := osRtxObjectActive)\<rparr>;
           let s = s\<lparr>ob_flags := (ob_flags s)(semaphore := flags)\<rparr>;
           let s = s\<lparr>ob_name := (ob_name s)(semaphore := name)\<rparr>;
           let s = s\<lparr>thread_next := (thread_next s)(semaphore := NULL)\<rparr>;
           let s = s\<lparr>tokens := (tokens s)(semaphore := ucast initial_count)\<rparr>;
           Some (semaphore, s\<lparr>max_tokens := (max_tokens s)(semaphore := ucast max_count)\<rparr>)
         } else Some (semaphore, s))
      })"

definition svcRtxSemaphoreGetName :: "ptr \<Rightarrow> rtx \<Rightarrow> ptr" where
  "svcRtxSemaphoreGetName semaphore s =
     (if ob_check osRtxIdSemaphore semaphore s \<noteq> osOK then NULL else ob_name s semaphore)"

definition svcRtxSemaphoreAcquire :: "ptr \<Rightarrow> u32 \<Rightarrow> rtx \<Rightarrow> (osStatus \<times> rtx) option" where
  "svcRtxSemaphoreAcquire semaphore timeout s =
     (if ob_check osRtxIdSemaphore semaphore s \<noteq> osOK
      then Some (ob_check osRtxIdSemaphore semaphore s, s)
      else let (r, s) = SemaphoreTokenDecrement semaphore s
           in if r \<noteq> 0 then Some (osOK, s)
              else if timeout \<noteq> 0 then do {
                (b, s) \<leftarrow> osRtxThreadWaitEnter osRtxThreadWaitingSemaphore timeout s;
                s \<leftarrow> (if b then osRtxThreadListPut semaphore (run_curr s) s else Some s);
                Some (osErrorTimeout, s)
              }
              else Some (osErrorResource, s))"

definition svcRtxSemaphoreRelease :: "ptr \<Rightarrow> rtx \<Rightarrow> (osStatus \<times> rtx) option" where
  "svcRtxSemaphoreRelease semaphore s =
     (if ob_check osRtxIdSemaphore semaphore s \<noteq> osOK
      then Some (ob_check osRtxIdSemaphore semaphore s, s)
      else if thread_list s semaphore \<noteq> NULL then do {
        (thread, s) \<leftarrow> osRtxThreadListGet semaphore s;
        s \<leftarrow> osRtxThreadWaitExit thread (status_word osOK) True s;
        Some (osOK, s)
      }
      else let (r, s) = SemaphoreTokenIncrement semaphore s
           in Some (if r \<noteq> 0 then osOK else osErrorResource, s))"

definition svcRtxSemaphoreGetCount :: "ptr \<Rightarrow> rtx \<Rightarrow> u32" where
  "svcRtxSemaphoreGetCount semaphore s =
     (if ob_check osRtxIdSemaphore semaphore s \<noteq> osOK then 0 else ucast (tokens s semaphore))"

definition svcRtxSemaphoreDelete :: "ptr \<Rightarrow> rtx \<Rightarrow> (osStatus \<times> rtx) option" where
  "svcRtxSemaphoreDelete semaphore s =
     (if ob_check osRtxIdSemaphore semaphore s \<noteq> osOK
      then Some (ob_check osRtxIdSemaphore semaphore s, s)
      else do {
        let s = s\<lparr>ob_state := (ob_state s)(semaphore := osRtxObjectInactive)\<rparr>;
        s \<leftarrow> (if thread_list s semaphore \<noteq> NULL then do {
                s \<leftarrow> unblock_all semaphore (status_word osErrorResource) s;
                osRtxThreadDispatch NULL s
              } else Some s);
        s \<leftarrow> (if ob_flags s semaphore AND osRtxFlagSystemObject \<noteq> 0
              then cb_free (mpi_semaphore s) semaphore s else Some s);
        Some (osOK, s)
      })"

definition isrRtxSemaphoreAcquire :: "ptr \<Rightarrow> u32 \<Rightarrow> rtx \<Rightarrow> osStatus \<times> rtx" where
  "isrRtxSemaphoreAcquire semaphore timeout s =
     (if semaphore = NULL \<or> ob_id s semaphore \<noteq> osRtxIdSemaphore \<or> timeout \<noteq> 0
      then (osErrorParameter, s)
      else if ob_state s semaphore = osRtxObjectInactive then (osErrorResource, s)
      else let (r, s) = SemaphoreTokenDecrement semaphore s
           in (if r \<noteq> 0 then osOK else osErrorResource, s))"

definition isrRtxSemaphoreRelease :: "ptr \<Rightarrow> rtx \<Rightarrow> (osStatus \<times> rtx) option" where
  "isrRtxSemaphoreRelease semaphore s =
     (if ob_check osRtxIdSemaphore semaphore s \<noteq> osOK
      then Some (ob_check osRtxIdSemaphore semaphore s, s)
      else let (r, s) = SemaphoreTokenIncrement semaphore s
           in if r \<noteq> 0 then do {
                s \<leftarrow> osRtxPostProcess semaphore s;
                Some (osOK, s)
              }
              else Some (osErrorResource, s))"

section \<open>Public API\<close>

definition osSemaphoreNew :: "u32 \<Rightarrow> u32 \<Rightarrow> os_attr option \<Rightarrow> rtx \<Rightarrow> (ptr \<times> rtx) option" where
  "osSemaphoreNew max_count initial_count attr s =
     (if IsIrqMode s \<or> IsIrqMasked s then Some (NULL, s)
      else svcRtxSemaphoreNew max_count initial_count attr s)"

definition osSemaphoreGetName :: "ptr \<Rightarrow> rtx \<Rightarrow> ptr" where
  "osSemaphoreGetName semaphore_id s =
     (if IsIrqMode s \<or> IsIrqMasked s then NULL else svcRtxSemaphoreGetName semaphore_id s)"

definition osSemaphoreAcquire :: "ptr \<Rightarrow> u32 \<Rightarrow> rtx \<Rightarrow> (osStatus \<times> rtx) option" where
  "osSemaphoreAcquire semaphore_id timeout s =
     (if IsIrqMode s \<or> IsIrqMasked s then Some (isrRtxSemaphoreAcquire semaphore_id timeout s)
      else svcRtxSemaphoreAcquire semaphore_id timeout s)"

definition osSemaphoreRelease :: "ptr \<Rightarrow> rtx \<Rightarrow> (osStatus \<times> rtx) option" where
  "osSemaphoreRelease semaphore_id s =
     (if IsIrqMode s \<or> IsIrqMasked s then isrRtxSemaphoreRelease semaphore_id s
      else svcRtxSemaphoreRelease semaphore_id s)"

definition osSemaphoreGetCount :: "ptr \<Rightarrow> rtx \<Rightarrow> u32" where
  "osSemaphoreGetCount semaphore_id s = svcRtxSemaphoreGetCount semaphore_id s"

definition osSemaphoreDelete :: "ptr \<Rightarrow> rtx \<Rightarrow> (osStatus \<times> rtx) option" where
  "osSemaphoreDelete semaphore_id s =
     (if IsIrqMode s \<or> IsIrqMasked s then Some (osErrorISR, s)
      else svcRtxSemaphoreDelete semaphore_id s)"

section \<open>Properties\<close>

text \<open>
  C31: svcRtxSemaphoreAcquire on an existing semaphore returns, in every case: it takes a token if
  there is one; without a token and without a timeout it fails with osErrorResource and changes
  nothing; otherwise, when another thread is ready, the caller is put into the semaphore's waiting
  list behind all waiters of at least its priority and into the delay (or wait) list with the
  given timeout, and the highest-priority ready thread is selected to run.
\<close>

theorem svcRtxSemaphoreAcquire_spec:
  assumes E: "entered s Q D W" and Q: "Q sem = Some ws" and sem: "sem \<noteq> ready s"
    and ok: "ob_check osRtxIdSemaphore sem s = osOK" and R: "Q (ready s) = Some R"
  shows "\<exists>r s' Q' D' W'. svcRtxSemaphoreAcquire sem timeout s = Some (r, s') \<and> settled s' Q' D' W' \<and>
    (if tokens s sem \<noteq> 0 then r = osOK \<and> s' = s\<lparr>tokens := (tokens s)(sem := tokens s sem - 1)\<rparr>
     else if timeout = 0 then r = osErrorResource \<and> s' = s
     else if R = [] then r = osErrorTimeout \<and> s' = s
     else r = osErrorTimeout \<and> Q' = Q(ready s \<mapsto> tl R, sem \<mapsto> pinsert (priority s) (run_curr s) ws) \<and>
       delayed s D W (run_curr s) timeout s' D' W' \<and> run_next s' = hd R \<and> tokens s' = tokens s \<and>
       ob_state s' = (ob_state s)(run_curr s := osRtxThreadWaitingSemaphore, hd R := osRtxThreadRunning))"
proof -
  note e = enteredD [OF E]
  have sn: "sem \<noteq> NULL" using ok by (simp add: ob_check_ok)
  have triv: "s\<lparr>tokens := tokens s\<rparr> = s" by simp
  have dec: "SemaphoreTokenDecrement sem s =
      (if tokens s sem \<noteq> 0 then (1, s\<lparr>tokens := (tokens s)(sem := tokens s sem - 1)\<rparr>) else (0, s))"
    by (simp add: SemaphoreTokenDecrement_def atomic_dec16_nz_def Let_def fun_upd_idem)
  consider "tokens s sem \<noteq> 0" | "tokens s sem = 0" "timeout = 0"
    | "tokens s sem = 0" "timeout \<noteq> 0" "R = []" | "tokens s sem = 0" "timeout \<noteq> 0" "R \<noteq> []"
    by blast
  then show ?thesis
  proof cases
    case 1
    with ok dec e(1) show ?thesis
      by (intro exI [of _ osOK] exI [of _ "s\<lparr>tokens := (tokens s)(sem := tokens s sem - 1)\<rparr>"]
            exI [of _ Q] exI [of _ D] exI [of _ W]) (simp add: svcRtxSemaphoreAcquire_def)
  next
    case 4
    then obtain x xs where Rx: "R = x # xs" by (cases R) auto
    have R': "Q (ready s) = Some (x # xs)" using R Rx by simp
    obtain s1 s' D' W' where 1: "osRtxThreadWaitEnter osRtxThreadWaitingSemaphore timeout s = Some (True, s1)"
      "osRtxThreadListPut sem (run_curr s) s1 = Some s'" "touched s s1" "touched s s'"
      "settled s' (Q(ready s \<mapsto> xs, sem \<mapsto> pinsert (priority s) (run_curr s) ws)) D' W'"
      "delayed s D W (run_curr s) timeout s' D' W'" "run_next s' = x"
      "ob_state s' = (ob_state s)(run_curr s := osRtxThreadWaitingSemaphore, x := osRtxThreadRunning)"
      by (rule settled_block [OF E R' Q sn sem 4(2)]) blast
    have "svcRtxSemaphoreAcquire sem timeout s = Some (osErrorTimeout, s')"
      using 1(1,2) ok dec 4 touched_fields(23) [OF 1(3)] by (simp add: svcRtxSemaphoreAcquire_def)
    with 1 4 Rx touched_fields(17) [OF 1(4)] show ?thesis by auto
  next
    case 3
    then have "thread_next s (ready s) = NULL" using head_null [OF e(6) R] schedD(3) [OF e(6)] by simp
    then have "osRtxThreadWaitEnter osRtxThreadWaitingSemaphore timeout s = Some (False, s)"
      by (simp add: WaitEnter_no)
    with 3 ok dec e(1) show ?thesis by (auto simp: svcRtxSemaphoreAcquire_def)
  qed (use ok dec e(1) in \<open>auto simp: svcRtxSemaphoreAcquire_def\<close>)
qed

text \<open>In the configuration, acquiring the semaphore 0x5000 (no tokens) blocks the running thread behind 0x4000.\<close>

theorem svcRtxSemaphoreAcquire_spec_witness:
  "\<exists>s' Q' D' W'. svcRtxSemaphoreAcquire 0x5000 10 demo = Some (osErrorTimeout, s') \<and> settled s' Q' D' W' \<and>
     Q' 0x5000 = Some [0x4000, 0x1000] \<and> run_next s' = 0x2000"
proof -
  have v: "demo_lists 0x5000 = Some [0x4000]" "demo_lists (ready demo) = Some [0x2000, 0x3000]"
    "0x5000 \<noteq> ready demo" "ob_check osRtxIdSemaphore 0x5000 demo = osOK" "tokens demo 0x5000 = 0"
    by (simp_all add: demo_lists_def demo_def blank_def ob_check_def)
  have "pinsert (priority demo) (run_curr demo) [0x4000] = [0x4000, 0x1000]" by (simp add: demo_def blank_def)
  then show ?thesis
    using svcRtxSemaphoreAcquire_spec [OF demo_entered v(1,3,4,2), of 10] v(5)
    by (simp split: if_splits del: pinsert.simps) (metis fun_upd_same)
qed

text \<open>
  C32: svcRtxSemaphoreRelease on an existing semaphore returns: with waiters, the first of the
  waiting list (the one that was queued first among those of the highest priority) leaves it and
  the delay lists, gets osOK as the result of its call, and runs at once exactly if its priority is
  higher than the caller's; the token count does not change. Without waiters the count grows by
  one, or the call fails with osErrorResource when it has reached the maximum.
\<close>

theorem svcRtxSemaphoreRelease_spec:
  assumes E: "entered s Q D W" and Q: "Q sem = Some ws" and sem: "sem \<noteq> ready s"
    and ok: "ob_check osRtxIdSemaphore sem s = osOK"
  shows "\<exists>r s' Q' D' W'. svcRtxSemaphoreRelease sem s = Some (r, s') \<and> settled s' Q' D' W' \<and>
    (case ws of
       [] \<Rightarrow> if tokens s sem < max_tokens s sem
             then r = osOK \<and> s' = s\<lparr>tokens := (tokens s)(sem := tokens s sem + 1)\<rparr>
             else r = osErrorResource \<and> s' = s
     | t # us \<Rightarrow> r = osOK \<and> Q' sem = Some us \<and> D' = remove1 t D \<and> W' = remove1 t W \<and> tokens s' = tokens s \<and>
         mem s' (osRtxThreadRegPtr s t) = status_word osOK \<and>
         run_next s' = (if priority s t > priority s (run_curr s) then t else run_curr s))"
proof -
  note e = enteredD [OF E]
  have sn: "sem \<noteq> NULL" using ok by (simp add: ob_check_ok)
  note h = head_null [OF e(6) Q sn]
  have inc: "SemaphoreTokenIncrement sem s =
      (if tokens s sem < max_tokens s sem then (1, s\<lparr>tokens := (tokens s)(sem := tokens s sem + 1)\<rparr>) else (0, s))"
    by (simp add: SemaphoreTokenIncrement_def atomic_inc16_lt_def Let_def fun_upd_idem)
  have st: "settled (s\<lparr>tokens := f\<rparr>) Q D W" for f using e(1) by simp
  show ?thesis
  proof (cases ws)
    case Nil
    show ?thesis
    proof (cases "tokens s sem < max_tokens s sem")
      case True
      then show ?thesis using Nil h ok inc st [of "(tokens s)(sem := tokens s sem + 1)"]
        by (intro exI [of _ osOK] exI [of _ "s\<lparr>tokens := (tokens s)(sem := tokens s sem + 1)\<rparr>"]
            exI [of _ Q] exI [of _ D] exI [of _ W]) (simp add: svcRtxSemaphoreRelease_def)
    next
      case False
      then show ?thesis using Nil h ok inc e(1)
        by (intro exI [of _ osErrorResource] exI [of _ s] exI [of _ Q] exI [of _ D] exI [of _ W])
          (simp add: svcRtxSemaphoreRelease_def)
    qed
  next
    case (Cons t us)
    have Q': "Q sem = Some (t # us)" using Q Cons by simp
    obtain s1 s' R' where 1: "osRtxThreadListGet sem s = Some (t, s1)"
      "osRtxThreadWaitExit t (status_word osOK) True s1 = Some s'" "touched s s'"
      "settled s' (Q(sem \<mapsto> us, ready s \<mapsto> R')) (remove1 t D) (remove1 t W)"
      "run_next s' = (if priority s t > priority s (run_curr s) then t else run_curr s)"
      "mem s' = (mem s)(osRtxThreadRegPtr s t := status_word osOK)"
      by (rule settled_wake [OF E Q' sn sem]) blast
    have "svcRtxSemaphoreRelease sem s = Some (osOK, s')"
      using 1(1,2) ok h Cons by (simp add: svcRtxSemaphoreRelease_def del: status_word.simps)
    with 1 Cons sem touched_fields(17) [OF 1(3)] show ?thesis
      by (intro exI [of _ osOK] exI [of _ s'] exI [of _ "Q(sem \<mapsto> us, ready s \<mapsto> R')"]
          exI [of _ "remove1 t D"] exI [of _ "remove1 t W"]) simp
  qed
qed

theorem svcRtxSemaphoreRelease_spec_witness:
  "\<exists>s' Q' D' W'. svcRtxSemaphoreRelease 0x5000 demo = Some (osOK, s') \<and> settled s' Q' D' W' \<and>
     Q' 0x5000 = Some [] \<and> run_next s' = 0x4000 \<and> mem s' 0x40220 = 0"
proof -
  have v: "demo_lists 0x5000 = Some [0x4000]" "0x5000 \<noteq> ready demo" "ob_check osRtxIdSemaphore 0x5000 demo = osOK"
    by (simp_all add: demo_lists_def demo_def blank_def ob_check_def)
  have "osRtxThreadRegPtr demo 0x4000 = 0x40220" "priority demo 0x4000 > priority demo (run_curr demo)"
    by (simp_all add: demo_def blank_def osRtxThreadRegPtr_def StackOffsetR0_def)
  then show ?thesis using svcRtxSemaphoreRelease_spec [OF demo_entered v] by auto
qed

text \<open>
  Deleting a semaphore whose control block the application provided returns osOK, leaves the
  control block inactive with an empty waiting list, makes every waiting thread ready (or selects
  it to run) with osErrorResource as the result of its call and takes it off the delay lists; the
  scheduler is settled, so the highest of them runs at once when it beats the caller.
\<close>

theorem svcRtxSemaphoreDelete_wakes_all:
  assumes E: "entered s Q D W" and Q: "Q sem = Some ws" and sem: "sem \<noteq> ready s"
    and ok: "ob_check osRtxIdSemaphore sem s = osOK" and fl: "ob_flags s sem AND osRtxFlagSystemObject = 0"
  shows "\<exists>s' Q' D' W'. svcRtxSemaphoreDelete sem s = Some (osOK, s') \<and> settled s' Q' D' W' \<and>
    ob_state s' sem = osRtxObjectInactive \<and> Q' sem = Some [] \<and>
    insert (run_next s') (set (the (Q' (ready s)))) = insert (run_next s) (set ws \<union> set (the (Q (ready s)))) \<and>
    set D' = set D - set ws \<and> set W' = set W - set ws \<and>
    list_all (\<lambda>t. mem s' (osRtxThreadRegPtr s t) = status_word osErrorResource) ws"
proof -
  note e = enteredD [OF E] and sd = settledD [OF enteredD(1) [OF E]]
  have sn: "sem \<noteq> NULL" and si: "ob_id s sem = osRtxIdSemaphore" using ok by (simp_all add: ob_check_ok)
  obtain R where R: "Q (ready s) = Some R" by (rule sched_ready [OF e(6)])
  let ?s = "s\<lparr>ob_state := (ob_state s)(sem := osRtxObjectInactive)\<rparr>"
  have nid: "sem \<notin> set R" using schedD(4) [OF e(6) membersI [of Q "ready s" R]] R si by auto
  have nr: "sem \<noteq> run_next s" using sd(2) si by (auto simp: loose_def)
  have S0: "sched ?s Q D W" by (rule sched_state [OF e(6) R nid])
  have E0: "entered ?s Q D W"
    using S0 e sd nr R unfolding entered_def settled_def by (simp add: loose_def stack_ok_def osRtxThreadRegPtr_def)
  have rg: "osRtxThreadRegPtr ?s t = osRtxThreadRegPtr s t" for t by (simp add: osRtxThreadRegPtr_def)
  note h = head_null [OF S0 Q sn]
  show ?thesis
  proof (cases "ws = []")
    case True
    then have "svcRtxSemaphoreDelete sem s = Some (osOK, ?s)"
      using ok fl h by (simp add: svcRtxSemaphoreDelete_def)
    with True E0 Q R show ?thesis
      by (intro exI [of _ ?s] exI [of _ Q] exI [of _ D] exI [of _ W]) (simp add: entered_def)
  next
    case False
    have o: "sem \<noteq> ready ?s" using sem by simp
    obtain s1 s' R' D' W' where 1: "unblock_all sem (status_word osErrorResource) ?s = Some s1"
      "osRtxThreadDispatch NULL s1 = Some s'" "touched ?s s'" "settled s' (Q(sem \<mapsto> [], ready ?s \<mapsto> R')) D' W'"
      "insert (run_next s') (set R') = insert (run_next ?s) (set ws \<union> set (the (Q (ready ?s))))"
      "mem s' = fold (\<lambda>t m. m(osRtxThreadRegPtr ?s t := status_word osErrorResource)) ws (mem ?s)"
      "set D' = set D - set ws" "set W' = set W - set ws"
      "\<forall>x. ob_id ?s x \<noteq> osRtxIdThread \<longrightarrow> ob_state s' x = ob_state ?s x"
      by (rule settled_unblock [OF E0 Q False sn o]) blast
    note f = touched_fields [OF 1(3)]
    have m: "fold (\<lambda>t m. m(osRtxThreadRegPtr s t := v)) ws m (osRtxThreadRegPtr s t) = v" if "t \<in> set ws" for m v t
      using that by (induction ws arbitrary: m rule: rev_induct) auto
    have sem_id: "ob_state s' sem = osRtxObjectInactive" using 1(9) si by simp
    have "svcRtxSemaphoreDelete sem s = Some (osOK, s')"
      using ok fl h False 1(1,2) f(2) by (simp add: svcRtxSemaphoreDelete_def del: status_word.simps)
    moreover have "list_all (\<lambda>t. mem s' (osRtxThreadRegPtr s t) = status_word osErrorResource) ws"
      by (simp add: list_all_iff 1(6) rg m del: status_word.simps)
    moreover have "settled s' (Q(sem \<mapsto> [], ready s \<mapsto> R')) D' W'" using 1(4) by simp
    moreover have "(Q(sem \<mapsto> [], ready s \<mapsto> R')) sem = Some []" "(Q(sem \<mapsto> [], ready s \<mapsto> R')) (ready s) = Some R'"
      using sem by simp_all
    moreover have "insert (run_next s') (set R') = insert (run_next s) (set ws \<union> set (the (Q (ready s))))"
      using 1(5) by simp
    ultimately show ?thesis using 1(7,8) sem_id
      by - (rule exI [of _ s'], rule exI [of _ "Q(sem \<mapsto> [], ready s \<mapsto> R')"], rule exI [of _ D'],
          rule exI [of _ W'], simp only: option.sel simp_thms)
  qed
qed

theorem svcRtxSemaphoreDelete_wakes_all_witness:
  "\<exists>s' Q' D' W'. svcRtxSemaphoreDelete 0x5000 demo = Some (osOK, s') \<and> settled s' Q' D' W' \<and>
     Q' 0x5000 = Some [] \<and> set D' = {0x6000} \<and> W' = [] \<and> mem s' 0x40220 = 0xFFFFFFFD"
proof -
  have v: "demo_lists 0x5000 = Some [0x4000]" "0x5000 \<noteq> ready demo" "ob_check osRtxIdSemaphore 0x5000 demo = osOK"
    "ob_flags demo 0x5000 AND osRtxFlagSystemObject = 0"
    by (simp_all add: demo_lists_def demo_def blank_def ob_check_def)
  have "osRtxThreadRegPtr demo 0x4000 = 0x40220"
    by (simp add: demo_def blank_def osRtxThreadRegPtr_def StackOffsetR0_def)
  then show ?thesis using svcRtxSemaphoreDelete_wakes_all [OF demo_entered v] by fastforce
qed

end
