(* ===== verification/RtxEvFlags.thy ===== *)
theory RtxEvFlags
  imports RtxSystem RtxMemory
begin

text \<open>
  Event flags (rtx_evflags.c): a word of 31 flags on which threads wait for any or all of a set,
  with or without clearing them. Status codes are returned as negative numbers in the same word.
\<close>

unbundle bit_operations_syntax

section \<open>Operations\<close>

abbreviation (input) "sizeof_evflags \<equiv> 16 :: u32"
abbreviation (input) "osRtxEventFlagsLimit \<equiv> 31 :: nat"

definition EventFlagsSet :: "ptr \<Rightarrow> u32 \<Rightarrow> rtx \<Rightarrow> u32 \<times> rtx" where
  "EventFlagsSet ef flags s =
     (let (r, v) = atomic_set32 (event_flags s ef) flags
      in (r, s\<lparr>event_flags := (event_flags s)(ef := v)\<rparr>))"

definition EventFlagsClear :: "ptr \<Rightarrow> u32 \<Rightarrow> rtx \<Rightarrow> u32 \<times> rtx" where
  "EventFlagsClear ef flags s =
     (let (r, v) = atomic_clr32 (event_flags s ef) flags
      in (r, s\<lparr>event_flags := (event_flags s)(ef := v)\<rparr>))"

definition EventFlagsCheck :: "ptr \<Rightarrow> u32 \<Rightarrow> u32 \<Rightarrow> rtx \<Rightarrow> u32 \<times> rtx" where
  "EventFlagsCheck ef flags options s =
     (if options AND osFlagsNoClear = 0 then
        let (r, v) = (if options AND osFlagsWaitAll \<noteq> 0
                      then atomic_chk32_all (event_flags s ef) flags
                      else atomic_chk32_any (event_flags s ef) flags)
        in (r, s\<lparr>event_flags := (event_flags s)(ef := v)\<rparr>)
      else
        let v = event_flags s ef
        in (if options AND osFlagsWaitAll \<noteq> 0 \<and> v AND flags \<noteq> flags \<or>
               options AND osFlagsWaitAll = 0 \<and> v AND flags = 0
            then 0 else v, s))"

definition flags_invalid :: "u32 \<Rightarrow> bool" where
  "flags_invalid flags \<longleftrightarrow> flags AND NOT (push_bit osRtxEventFlagsLimit 1 - 1) \<noteq> 0"

partial_function (option) ef_post_loop :: "ptr \<Rightarrow> ptr \<Rightarrow> rtx \<Rightarrow> rtx option" where
  "ef_post_loop ef thread s =
     (if thread \<noteq> NULL then do {
        let next = thread_next s thread;
        let (r, s) = EventFlagsCheck ef (wait_flags s thread) (ucast (flags_options s thread)) s;
        s \<leftarrow> (if r \<noteq> 0 then do {
                s \<leftarrow> osRtxThreadListRemove thread s;
                osRtxThreadWaitExit thread r False s
              } else Some s);
        ef_post_loop ef next s
      } else Some s)"

definition osRtxEventFlagsPostProcess :: "ptr \<Rightarrow> rtx \<Rightarrow> rtx option" where
  "osRtxEventFlagsPostProcess ef s =
     (if ob_state s ef = osRtxObjectInactive then Some s
      else ef_post_loop ef (thread_list s ef) s)"

definition svcRtxEventFlagsNew :: "os_attr option \<Rightarrow> rtx \<Rightarrow> (ptr \<times> rtx) option" where
  "svcRtxEventFlagsNew attr s =
     (if (case attr of Some a \<Rightarrow> \<not> cb_valid sizeof_evflags a | None \<Rightarrow> False) then Some (NULL, s)
      else do {
        let name = (case attr of Some a \<Rightarrow> at_name a | None \<Rightarrow> NULL);
        let ef = (case attr of Some a \<Rightarrow> cb_mem a | None \<Rightarrow> NULL);
        (ef, flags, s) \<leftarrow>
          (if ef = NULL then do {
             (p, s) \<leftarrow> cb_alloc (mpi_event_flags s) sizeof_evflags s;
             Some (p, osRtxFlagSystemObject, s)
           } else Some (ef, 0, s));
        (if ef \<noteq> NULL then do {
           let s = s\<lparr>ob_id := (ob_id s)(ef := osRtxIdEventFlags)\<rparr>;
           let s = s\<lparr>ob_state := (ob_state s)(ef := osRtxObjectActive)\<rparr>;
           let s = s\<lparr>ob_flags := (ob_flags s)(ef := flags)\<rparr>;
           let s = s\<lparr>ob_name := (ob_name s)(ef := name)\<rparr>;
           let s = s\<lparr>thread_next := (thread_next s)(ef := NULL)\<rparr>;
           Some (ef, s\<lparr>event_flags := (event_flags s)(ef := 0)\<rparr>)
         } else Some (ef, s))
      })"

definition svcRtxEventFlagsGetName :: "ptr \<Rightarrow> rtx \<Rightarrow> ptr" where
  "svcRtxEventFlagsGetName ef s =
     (if ob_check osRtxIdEventFlags ef s \<noteq> osOK then NULL else ob_name s ef)"

text \<open>The wake-up loop of svcRtxEventFlagsSet; \<open>cur\<close> is its variable event_flags.\<close>

partial_function (option) ef_set_loop :: "ptr \<Rightarrow> ptr \<Rightarrow> u32 \<Rightarrow> rtx \<Rightarrow> (u32 \<times> rtx) option" where
  "ef_set_loop ef thread cur s =
     (if thread \<noteq> NULL then do {
        let next = thread_next s thread;
        let (r, s) = EventFlagsCheck ef (wait_flags s thread) (ucast (flags_options s thread)) s;
        (cur, s) \<leftarrow>
          (if r \<noteq> 0 then do {
             let cur = (if ucast (flags_options s thread) AND osFlagsNoClear = 0
                        then r AND NOT (wait_flags s thread) else r);
             s \<leftarrow> osRtxThreadListRemove thread s;
             s \<leftarrow> osRtxThreadWaitExit thread r False s;
             Some (cur, s)
           } else Some (cur, s));
        ef_set_loop ef next cur s
      } else Some (cur, s))"

definition svcRtxEventFlagsSet :: "ptr \<Rightarrow> u32 \<Rightarrow> rtx \<Rightarrow> (u32 \<times> rtx) option" where
  "svcRtxEventFlagsSet ef flags s =
     (if ef = NULL \<or> ob_id s ef \<noteq> osRtxIdEventFlags \<or> flags_invalid flags
      then Some (status_word osErrorParameter, s)
      else if ob_state s ef = osRtxObjectInactive then Some (status_word osErrorResource, s)
      else do {
        let (cur, s) = EventFlagsSet ef flags s;
        (cur, s) \<leftarrow> ef_set_loop ef (thread_list s ef) cur s;
        s \<leftarrow> osRtxThreadDispatch NULL s;
        Some (cur, s)
      })"

definition svcRtxEventFlagsClear :: "ptr \<Rightarrow> u32 \<Rightarrow> rtx \<Rightarrow> u32 \<times> rtx" where
  "svcRtxEventFlagsClear ef flags s =
     (if ef = NULL \<or> ob_id s ef \<noteq> osRtxIdEventFlags \<or> flags_invalid flags
      then (status_word osErrorParameter, s)
      else if ob_state s ef = osRtxObjectInactive then (status_word osErrorResource, s)
      else EventFlagsClear ef flags s)"

definition svcRtxEventFlagsGet :: "ptr \<Rightarrow> rtx \<Rightarrow> u32" where
  "svcRtxEventFlagsGet ef s =
     (if ob_check osRtxIdEventFlags ef s \<noteq> osOK then 0 else event_flags s ef)"

definition svcRtxEventFlagsWait :: "ptr \<Rightarrow> u32 \<Rightarrow> u32 \<Rightarrow> u32 \<Rightarrow> rtx \<Rightarrow> (u32 \<times> rtx) option" where
  "svcRtxEventFlagsWait ef flags options timeout s =
     (let running = run_curr s
      in if running = NULL then Some (status_word osError, s)
         else if ef = NULL \<or> ob_id s ef \<noteq> osRtxIdEventFlags \<or> flags_invalid flags
         then Some (status_word osErrorParameter, s)
         else if ob_state s ef = osRtxObjectInactive then Some (status_word osErrorResource, s)
         else let (r, s) = EventFlagsCheck ef flags options s
              in if r \<noteq> 0 then Some (r, s)
                 else if timeout \<noteq> 0 then do {
                   let s = s\<lparr>wait_flags := (wait_flags s)(running := flags)\<rparr>;
                   let s = s\<lparr>flags_options := (flags_options s)(running := ucast options)\<rparr>;
                   (b, s) \<leftarrow> osRtxThreadWaitEnter osRtxThreadWaitingEventFlags timeout s;
                   s \<leftarrow> (if b then osRtxThreadListPut ef running s else Some s);
                   Some (status_word osErrorTimeout, s)
                 }
                 else Some (status_word osErrorResource, s))"

definition svcRtxEventFlagsDelete :: "ptr \<Rightarrow> rtx \<Rightarrow> (osStatus \<times> rtx) option" where
  "svcRtxEventFlagsDelete ef s =
     (if ob_check osRtxIdEventFlags ef s \<noteq> osOK then Some (ob_check osRtxIdEventFlags ef s, s)
      else do {
        let s = s\<lparr>ob_state := (ob_state s)(ef := osRtxObjectInactive)\<rparr>;
        s \<leftarrow> (if thread_list s ef \<noteq> NULL then do {
                s \<leftarrow> unblock_all ef (status_word osErrorResource) s;
                osRtxThreadDispatch NULL s
              } else Some s);
        s \<leftarrow> (if ob_flags s ef AND osRtxFlagSystemObject \<noteq> 0
              then cb_free (mpi_event_flags s) ef s else Some s);
        Some (osOK, s)
      })"

definition isrRtxEventFlagsSet :: "ptr \<Rightarrow> u32 \<Rightarrow> rtx \<Rightarrow> (u32 \<times> rtx) option" where
  "isrRtxEventFlagsSet ef flags s =
     (if ef = NULL \<or> ob_id s ef \<noteq> osRtxIdEventFlags \<or> flags_invalid flags
      then Some (status_word osErrorParameter, s)
      else if ob_state s ef = osRtxObjectInactive then Some (status_word osErrorResource, s)
      else do {
        let (r, s) = EventFlagsSet ef flags s;
        s \<leftarrow> osRtxPostProcess ef s;
        Some (r, s)
      })"

definition isrRtxEventFlagsWait :: "ptr \<Rightarrow> u32 \<Rightarrow> u32 \<Rightarrow> u32 \<Rightarrow> rtx \<Rightarrow> u32 \<times> rtx" where
  "isrRtxEventFlagsWait ef flags options timeout s =
     (if ef = NULL \<or> ob_id s ef \<noteq> osRtxIdEventFlags \<or> timeout \<noteq> 0 \<or> flags_invalid flags
      then (status_word osErrorParameter, s)
      else if ob_state s ef = osRtxObjectInactive then (status_word osErrorResource, s)
      else let (r, s) = EventFlagsCheck ef flags options s
           in (if r \<noteq> 0 then r else status_word osErrorResource, s))"

section \<open>Public API\<close>

definition osEventFlagsNew :: "os_attr option \<Rightarrow> rtx \<Rightarrow> (ptr \<times> rtx) option" where
  "osEventFlagsNew attr s =
     (if IsIrqMode s \<or> IsIrqMasked s then Some (NULL, s) else svcRtxEventFlagsNew attr s)"

definition osEventFlagsGetName :: "ptr \<Rightarrow> rtx \<Rightarrow> ptr" where
  "osEventFlagsGetName ef_id s =
     (if IsIrqMode s \<or> IsIrqMasked s then NULL else svcRtxEventFlagsGetName ef_id s)"

definition osEventFlagsSet :: "ptr \<Rightarrow> u32 \<Rightarrow> rtx \<Rightarrow> (u32 \<times> rtx) option" where
  "osEventFlagsSet ef_id flags s =
     (if IsIrqMode s \<or> IsIrqMasked s then isrRtxEventFlagsSet ef_id flags s
      else svcRtxEventFlagsSet ef_id flags s)"

definition osEventFlagsClear :: "ptr \<Rightarrow> u32 \<Rightarrow> rtx \<Rightarrow> u32 \<times> rtx" where
  "osEventFlagsClear ef_id flags s = svcRtxEventFlagsClear ef_id flags s"

definition osEventFlagsGet :: "ptr \<Rightarrow> rtx \<Rightarrow> u32" where
  "osEventFlagsGet ef_id s = svcRtxEventFlagsGet ef_id s"

definition osEventFlagsWait :: "ptr \<Rightarrow> u32 \<Rightarrow> u32 \<Rightarrow> u32 \<Rightarrow> rtx \<Rightarrow> (u32 \<times> rtx) option" where
  "osEventFlagsWait ef_id flags options timeout s =
     (if IsIrqMode s \<or> IsIrqMasked s then Some (isrRtxEventFlagsWait ef_id flags options timeout s)
      else svcRtxEventFlagsWait ef_id flags options timeout s)"

definition osEventFlagsDelete :: "ptr \<Rightarrow> rtx \<Rightarrow> (osStatus \<times> rtx) option" where
  "osEventFlagsDelete ef_id s =
     (if IsIrqMode s \<or> IsIrqMasked s then Some (osErrorISR, s) else svcRtxEventFlagsDelete ef_id s)"

section \<open>Specification vocabulary\<close>

text \<open>
  \<open>flags_met v w o\<close>: the value a wait for the flags \<open>w\<close> with options \<open>o\<close> returns when the flags
  are \<open>v\<close>, zero if the condition does not hold; \<open>flags_left\<close> are the flags afterwards. \<open>serve\<close> goes
  through a list of waiters and gives those released (with their results), those that stay, and
  the final flags.
\<close>

definition flags_met :: "u32 \<Rightarrow> u32 \<Rightarrow> u32 \<Rightarrow> u32" where
  "flags_met v w opt = (if (if opt AND osFlagsWaitAll \<noteq> 0 then v AND w = w else v AND w \<noteq> 0) then v else 0)"

definition flags_left :: "u32 \<Rightarrow> u32 \<Rightarrow> u32 \<Rightarrow> u32" where
  "flags_left v w opt = (if flags_met v w opt \<noteq> 0 \<and> opt AND osFlagsNoClear = 0 then v AND NOT w else v)"

fun serve :: "(ptr \<Rightarrow> u32) \<Rightarrow> (ptr \<Rightarrow> u8) \<Rightarrow> ptr list \<Rightarrow> u32 \<Rightarrow> (ptr \<times> u32) list \<times> ptr list \<times> u32" where
  "serve w opt [] v = ([], [], v)"
| "serve w opt (t # ts) v =
     (let r = flags_met v (w t) (ucast (opt t));
          (go, stay, v') = serve w opt ts (flags_left v (w t) (ucast (opt t)))
      in if r \<noteq> 0 then ((t, r) # go, stay, v') else (go, t # stay, v'))"

text \<open>Memory after the results of several calls have been stored in the saved registers.\<close>

definition regs_set :: "rtx \<Rightarrow> (ptr \<times> u32) list \<Rightarrow> (ptr \<Rightarrow> u32) \<Rightarrow> ptr \<Rightarrow> u32" where
  "regs_set s rs = fold (\<lambda>(t, r) m. m(osRtxThreadRegPtr s t := r)) rs"

section \<open>Checking flags\<close>

lemma flags_valid: "flags_invalid flags \<longleftrightarrow> flags AND 0x80000000 \<noteq> 0"
proof -
  have "NOT (push_bit 31 1 - 1) = (0x80000000 :: u32)" by (simp add: push_bit_eq_mult)
  then show ?thesis by (simp only: flags_invalid_def)
qed

lemma EventFlagsCheck_spec:
  "EventFlagsCheck ef flags options s =
     (flags_met (event_flags s ef) flags options,
      s\<lparr>event_flags := (event_flags s)(ef := flags_left (event_flags s ef) flags options)\<rparr>)"
proof -
  have z: "v AND NOT w = v" if "v AND w = w" "v = 0" for v w :: u32 using that by simp
  have z2: "v \<noteq> 0" if "v AND w \<noteq> 0" for v w :: u32 using that by auto
  show ?thesis
    using z2 [of "event_flags s ef" flags]
    by (auto simp: EventFlagsCheck_def flags_met_def flags_left_def Let_def fun_upd_idem
        atomic_chk32_all_def atomic_chk32_any_def)
qed

lemma flags_left_sub: "flags_left v w opt AND v = flags_left v w opt"
  by (simp add: flags_left_def word_bw_assocs and.commute and.left_commute)

lemma and_sub_trans: "(a :: u32) AND b = a \<Longrightarrow> b AND c = b \<Longrightarrow> a AND c = a"
  by (metis and.assoc)

lemma serve_sub: "serve w opt ts v = (go, stay, v') \<Longrightarrow> v' AND v = v'"
proof (induction ts arbitrary: v go stay)
  case (Cons t ts)
  then obtain go' stay' where "serve w opt ts (flags_left v (w t) (ucast (opt t))) = (go', stay', v')"
    by (auto simp: Let_def split: prod.splits if_splits)
  from Cons.IH [OF this] flags_left_sub show ?case by (rule and_sub_trans)
qed simp

lemma flags_met_sub: "v' AND v = v' \<Longrightarrow> flags_met v w opt = 0 \<Longrightarrow> flags_met v' w opt = 0"
proof -
  assume s: "v' AND v = v'" and m: "flags_met v w opt = 0"
  have "v AND w = w" if "v' AND w = w" using that s by (metis and.assoc and.commute)
  moreover have "v AND w \<noteq> 0" if "v' AND w \<noteq> 0" using that s by (metis and.assoc and.right_neutral and_zero_eq)
  ultimately show ?thesis using m s by (auto simp: flags_met_def split: if_splits)
qed

lemma serve_stay: "serve w opt ts v = (go, stay, v') \<Longrightarrow> t \<in> set stay \<Longrightarrow> flags_met v' (w t) (ucast (opt t)) = 0"
proof (induction ts arbitrary: v go stay)
  case (Cons x ts)
  obtain go' stay' where 1: "serve w opt ts (flags_left v (w x) (ucast (opt x))) = (go', stay', v')"
    using Cons.prems(1) by (auto simp: Let_def split: prod.splits if_splits)
  show ?case
  proof (cases "t \<in> set stay'")
    case True with Cons.IH [OF 1] show ?thesis by blast
  next
    case False
    then have "t = x" "flags_met v (w x) (ucast (opt x)) = 0"
      using Cons.prems 1 by (auto simp: Let_def split: if_splits)
    moreover have "v' AND v = v'" by (rule serve_sub [OF Cons.prems(1)])
    ultimately show ?thesis using flags_met_sub by blast
  qed
qed simp

lemma serve_split: "serve w opt ts v = (go, stay, v') \<Longrightarrow> fst ` set go \<union> set stay = set ts"
proof (induction ts arbitrary: v go stay)
  case (Cons x ts)
  obtain go' stay' where 1: "serve w opt ts (flags_left v (w x) (ucast (opt x))) = (go', stay', v')"
    using Cons.prems(1) by (auto simp: Let_def split: prod.splits if_splits)
  have "fst ` set go \<union> set stay = insert x (fst ` set go' \<union> set stay')"
    using Cons.prems 1 by (auto simp: Let_def split: if_splits)
  with Cons.IH [OF 1] show ?case by simp
qed simp

section \<open>The wake-up loop\<close>

text \<open>Waking a thread from the middle of a waiting list.\<close>

lemma wake_inner:
  assumes S: "sched s Q D W" and Q: "Q obj = Some (pre @ t # us)" and obj: "obj \<noteq> NULL" "obj \<noteq> ready s"
    and R: "Q (ready s) = Some R"
  obtains s1 s' where "osRtxThreadListRemove t s = Some s1" "osRtxThreadWaitExit t ret False s1 = Some s'"
    "touched s s'" "sched s' (Q(obj \<mapsto> pre @ us, ready s \<mapsto> pinsert (priority s) t R)) (remove1 t D) (remove1 t W)"
    "ob_state s' = (ob_state s)(t := osRtxThreadReady)" "run_next s' = run_next s"
    "mem s' = (mem s)(osRtxThreadRegPtr s t := ret)"
proof -
  let ?ws = "pre @ t # us"
  have dst: "distinct ?ws" using dll_distinct [OF lists_ok_dll [OF schedD(1) [OF S] Q]] by blast
  then have r1: "remove1 t ?ws = pre @ us" by (simp add: remove1_append)
  obtain s1 where 1: "osRtxThreadListRemove t s = Some s1" "touched s s1" "sched s1 (Q(obj \<mapsto> remove1 t ?ws)) D W"
    "ob_state s1 = ob_state s" "run_next s1 = run_next s" "mem s1 = mem s" "t \<notin> members (Q(obj \<mapsto> remove1 t ?ws))"
    by (rule ListRemove_sched [OF S Q obj(1), of t]) auto
  note f = touched_fields [OF 1(2)]
  have tD: "t \<in> set D \<union> set W" using schedD(11) [OF S Q obj] by auto
  have R1: "(Q(obj \<mapsto> remove1 t ?ws)) (ready s1) = Some R" using R obj(2) f by simp
  obtain s' where 2: "osRtxThreadWaitExit t ret False s1 = Some s'" "touched s1 s'"
    "sched s' (Q(obj \<mapsto> remove1 t ?ws, ready s1 \<mapsto> pinsert (priority s1) t R)) (remove1 t D) (remove1 t W)"
    "ob_state s' = (ob_state s1)(t := osRtxThreadReady)" "run_next s' = run_next s1"
    "mem s' = (mem s1)(osRtxThreadRegPtr s1 t := ret)"
    by (rule WaitExit_ready [OF 1(3) R1 tD 1(7)]) blast
  have rg: "osRtxThreadRegPtr s1 t = osRtxThreadRegPtr s t" by (simp add: osRtxThreadRegPtr_def f)
  show thesis
    using 1 2 f rg r1 touched_trans [OF 1(2) 2(2)] by (intro that [of s1 s']) simp_all
qed

lemma touched_event_flags: "touched s s' \<Longrightarrow> touched (s\<lparr>event_flags := f\<rparr>) (s'\<lparr>event_flags := f\<rparr>)"
proof -
  have "core (s\<lparr>event_flags := f\<rparr>) = (core s)\<lparr>event_flags := f\<rparr>" for s by (simp add: core_def)
  then show "touched s s' \<Longrightarrow> ?thesis" by (simp add: touched_def)
qed

text \<open>
  The loops of svcRtxEventFlagsSet and of the post-processing release the same waiters: those that
  \<open>serve\<close> releases. \<open>pre\<close> are the waiters already passed over.
\<close>

lemma flags_loop:
  assumes "sched s Q D W" "Q ef = Some (pre @ ts)" "ef \<noteq> NULL" "ef \<noteq> ready s" "Q (ready s) = Some R"
    "serve (wait_flags s) (flags_options s) ts (event_flags s ef) = (go, stay, v)" "cur = event_flags s ef"
  shows "\<exists>s' R' D' W'. ef_set_loop ef (after ts) cur s = Some (v, s') \<and> ef_post_loop ef (after ts) s = Some s' \<and>
    touched (s\<lparr>event_flags := (event_flags s)(ef := v)\<rparr>) s' \<and>
    sched s' (Q(ef \<mapsto> pre @ stay, ready s \<mapsto> R')) D' W' \<and> set R' = set R \<union> fst ` set go \<and>
    (\<forall>x. ob_state s' x = (if x \<in> fst ` set go then osRtxThreadReady else ob_state s x)) \<and> run_next s' = run_next s \<and>
    mem s' = regs_set s go (mem s) \<and> set D' = set D - fst ` set go \<and> set W' = set W - fst ` set go"
  using assms
proof (induction ts arbitrary: s Q D W R pre go stay cur)
  case Nil
  have "Q(ef \<mapsto> pre, ready s \<mapsto> R) = Q" using Nil.prems(2,5) by auto
  then show ?case using Nil.prems
    by (intro exI [of _ s] exI [of _ R] exI [of _ D] exI [of _ W])
      (subst ef_set_loop.simps, subst ef_post_loop.simps, simp add: regs_set_def fun_upd_idem)
next
  case (Cons t ts)
  note P = Cons.prems
  let ?v0 = "event_flags s ef" and ?w = "wait_flags s t" and ?o = "ucast (flags_options s t) :: u32"
  define r v1 s1 where "r = flags_met ?v0 ?w ?o" and "v1 = flags_left ?v0 ?w ?o"
    and "s1 = s\<lparr>event_flags := (event_flags s)(ef := v1)\<rparr>"
  have d: "dll (tnext s) (thread_prev s) ef (pre @ t # ts)" by (rule lists_ok_dll [OF schedD(1) [OF P(1)] P(2)])
  have tn: "t \<noteq> NULL" using dll_nonnull [OF d] by auto
  have nx: "thread_next s t = after ts"
    using forward_at [of "tnext s" ef "pre @ [t]" ts] d tn by (simp add: dll_def tnext_def)
  have chk: "EventFlagsCheck ef ?w ?o s = (r, s1)" by (simp add: EventFlagsCheck_spec r_def v1_def s1_def)
  have S1: "sched s1 Q D W" using P(1) by (simp add: s1_def)
  have f1: "ready s1 = ready s" "wait_flags s1 = wait_flags s" "flags_options s1 = flags_options s"
    "event_flags s1 = (event_flags s)(ef := v1)" "priority s1 = priority s" "run_next s1 = run_next s"
    "mem s1 = mem s" "ob_state s1 = ob_state s" "osRtxThreadRegPtr s1 = osRtxThreadRegPtr s" "thread_next s1 = thread_next s"
    by (simp_all add: s1_def osRtxThreadRegPtr_def fun_eq_iff)
  show ?case
  proof (cases "r = 0")
    case True
    then have v1: "v1 = ?v0" by (simp add: r_def v1_def flags_left_def)
    then have s1: "s1 = s" by (simp add: s1_def fun_upd_idem)
    obtain stay' where sv: "serve (wait_flags s) (flags_options s) ts ?v0 = (go, stay', v)" "stay = t # stay'"
      using P(6) True v1 by (auto simp: r_def v1_def Let_def split: prod.splits)
    have Q': "Q ef = Some ((pre @ [t]) @ ts)" using P(2) by simp
    obtain s' R' D' W' where 2: "ef_set_loop ef (after ts) cur s = Some (v, s')" "ef_post_loop ef (after ts) s = Some s'"
      "touched (s\<lparr>event_flags := (event_flags s)(ef := v)\<rparr>) s'"
      "sched s' (Q(ef \<mapsto> (pre @ [t]) @ stay', ready s \<mapsto> R')) D' W'" "set R' = set R \<union> fst ` set go"
      "\<forall>x. ob_state s' x = (if x \<in> fst ` set go then osRtxThreadReady else ob_state s x)" "run_next s' = run_next s"
      "mem s' = regs_set s go (mem s)" "set D' = set D - fst ` set go" "set W' = set W - fst ` set go"
      using Cons.IH [OF P(1) Q' P(3-5) sv(1) P(7)] by (elim exE conjE) (rule that; assumption)
    have "ef_set_loop ef (after (t # ts)) cur s = Some (v, s')"
      using True tn nx chk s1 2(1) by (subst ef_set_loop.simps) simp
    moreover have "ef_post_loop ef (after (t # ts)) s = Some s'"
      using True tn nx chk s1 2(2) by (subst ef_post_loop.simps) simp
    moreover have "sched s' (Q(ef \<mapsto> pre @ stay, ready s \<mapsto> R')) D' W'" using 2(4) sv(2) by simp
    ultimately show ?thesis using 2(3,5-)
      by - (rule exI [of _ s'], rule exI [of _ R'], rule exI [of _ D'], rule exI [of _ W'], (intro conjI; assumption))
  next
    case False
    have sv0: "serve (wait_flags s1) (flags_options s1) ts v1 = serve (wait_flags s) (flags_options s) ts v1" using f1 by simp
    obtain go' where sv: "serve (wait_flags s) (flags_options s) ts v1 = (go', stay, v)" "go = (t, r) # go'"
      using P(6) False by (auto simp: r_def [symmetric] v1_def [symmetric] Let_def split: prod.splits)
    have rd: "ef \<noteq> ready s1" "Q (ready s1) = Some R" using P(4,5) f1 by simp_all
    obtain s2 s3 where 2: "osRtxThreadListRemove t s1 = Some s2" "osRtxThreadWaitExit t r False s2 = Some s3"
      "touched s1 s3" "sched s3 (Q(ef \<mapsto> pre @ ts, ready s1 \<mapsto> pinsert (priority s1) t R)) (remove1 t D) (remove1 t W)"
      "ob_state s3 = (ob_state s1)(t := osRtxThreadReady)" "run_next s3 = run_next s1"
      "mem s3 = (mem s1)(osRtxThreadRegPtr s1 t := r)"
      by (rule wake_inner [OF S1 P(2,3) rd]) blast
    note f = touched_fields [OF 2(3)]
    let ?Q = "Q(ef \<mapsto> pre @ ts, ready s1 \<mapsto> pinsert (priority s1) t R)"
    have q3: "?Q ef = Some (pre @ ts)" "ef \<noteq> ready s3" "?Q (ready s3) = Some (pinsert (priority s1) t R)"
      "serve (wait_flags s3) (flags_options s3) ts (event_flags s3 ef) = (go', stay, v)" "v1 = event_flags s3 ef"
      using P(4) f f1 sv(1) by simp_all
    obtain s' R' D' W' where 3: "ef_set_loop ef (after ts) v1 s3 = Some (v, s')" "ef_post_loop ef (after ts) s3 = Some s'"
      "touched (s3\<lparr>event_flags := (event_flags s3)(ef := v)\<rparr>) s'"
      "sched s' (?Q(ef \<mapsto> pre @ stay, ready s3 \<mapsto> R')) D' W'" "set R' = set (pinsert (priority s1) t R) \<union> fst ` set go'"
      "\<forall>x. ob_state s' x = (if x \<in> fst ` set go' then osRtxThreadReady else ob_state s3 x)" "run_next s' = run_next s3"
      "mem s' = regs_set s3 go' (mem s3)" "set D' = set (remove1 t D) - fst ` set go'" "set W' = set (remove1 t W) - fst ` set go'"
      using Cons.IH [OF 2(4) q3(1) P(3) q3(2-4) q3(5)] by (elim exE conjE) (rule that; assumption)
    have lft: "?o AND osFlagsNoClear = 0 \<Longrightarrow> r AND NOT ?w = v1" "?o AND osFlagsNoClear \<noteq> 0 \<Longrightarrow> r = v1"
      using False by (auto simp: v1_def r_def flags_left_def flags_met_def split: if_splits)
    have "ef_set_loop ef (after (t # ts)) cur s = Some (v, s')"
      using False tn nx chk 2(1,2) f1 3(1) lft by (subst ef_set_loop.simps) simp
    moreover have "ef_post_loop ef (after (t # ts)) s = Some s'"
      using False tn nx chk 2(1,2) f1 3(2) by (subst ef_post_loop.simps) simp
    moreover have "touched (s\<lparr>event_flags := (event_flags s)(ef := v)\<rparr>) s'"
    proof -
      have "touched (s1\<lparr>event_flags := (event_flags s)(ef := v)\<rparr>) (s3\<lparr>event_flags := (event_flags s)(ef := v)\<rparr>)"
        by (rule touched_event_flags [OF 2(3)])
      moreover have "s1\<lparr>event_flags := g\<rparr> = s\<lparr>event_flags := g\<rparr>" for g by (simp add: s1_def)
      moreover have "(event_flags s3)(ef := v) = (event_flags s)(ef := v)" using f(16) f1(4) by simp
      ultimately show ?thesis using 3(3) touched_trans by simp
    qed
    moreover have "sched s' (Q(ef \<mapsto> pre @ stay, ready s \<mapsto> R')) D' W'"
    proof -
      have "?Q(ef \<mapsto> pre @ stay, ready s3 \<mapsto> R') = Q(ef \<mapsto> pre @ stay, ready s \<mapsto> R')"
        using P(4) f f1 by (simp add: fun_upd_twist)
      then show ?thesis using 3(4) by simp
    qed
    moreover have "regs_set s3 = regs_set s"
      using f f1 by (simp add: fun_eq_iff regs_set_def osRtxThreadRegPtr_def)
    then have "mem s' = regs_set s go (mem s)"
      using 3(8) 2(7) f1 sv(2) by (simp add: regs_set_def)
    moreover have "distinct D" "distinct W"
      using schedD(2) [OF P(1)] dll_distinct unfolding delays_ok_def delay_ok_def wait_ok_def by blast+
    then have "set D' = set D - fst ` set go" "set W' = set W - fst ` set go" using 3(9,10) sv(2) by auto
    moreover have "set R' = set R \<union> fst ` set go" using 3(5) sv(2) by auto
    moreover have "\<forall>x. ob_state s' x = (if x \<in> fst ` set go then osRtxThreadReady else ob_state s x)"
      using 3(6) 2(5) f1 sv(2) by auto
    moreover have "run_next s' = run_next s" using 3(7) 2(6) f1 by simp
    ultimately show ?thesis
      by - (rule exI [of _ s'], rule exI [of _ R'], rule exI [of _ D'], rule exI [of _ W'], (intro conjI; assumption))
  qed
qed

lemma regs_set_other:
  assumes "\<And>t. t \<in> fst ` set rs \<Longrightarrow> osRtxThreadRegPtr s t \<noteq> a" shows "regs_set s rs m a = m a"
  using assms unfolding regs_set_def by (induction rs arbitrary: m) (auto simp: split_beta)

lemma settled_flags:
  assumes E: "entered s Q D W" and Q: "Q ef = Some ws" and ef: "ef \<noteq> NULL" "ef \<noteq> ready s"
    and sv: "serve (wait_flags s) (flags_options s) ws (event_flags s ef) = (go, stay, v)"
  obtains s1 s' R' D' W' where "ef_set_loop ef (thread_next s ef) (event_flags s ef) s = Some (v, s1)"
    "ef_post_loop ef (thread_next s ef) s = Some s1" "osRtxThreadDispatch NULL s1 = Some s'"
    "touched (s\<lparr>event_flags := (event_flags s)(ef := v)\<rparr>) s'" "settled s' (Q(ef \<mapsto> stay, ready s \<mapsto> R')) D' W'"
    "insert (run_next s') (set R') = insert (run_next s) (fst ` set go \<union> set (the (Q (ready s))))"
    "mem s' = regs_set s go (mem s)" "set D' = set D - fst ` set go" "set W' = set W - fst ` set go" "event_flags s1 ef = v"
    "tstates {} s Q D W \<Longrightarrow> tstates {} s' (Q(ef \<mapsto> stay, ready s \<mapsto> R')) D' W'"
    "\<forall>x. ob_id s x \<noteq> osRtxIdThread \<longrightarrow> ob_state s' x = ob_state s x"
proof -
  note e = enteredD [OF E] and sd = settledD [OF enteredD(1) [OF E]]
  note DD = schedD [OF e(6)]
  obtain R where R: "Q (ready s) = Some R" by (rule sched_ready [OF e(6)])
  have Q': "Q ef = Some ([] @ ws)" using Q by simp
  have h: "thread_next s ef = after ws" by (rule list_head [OF DD(1) Q ef(1)])
  let ?s0 = "s\<lparr>event_flags := (event_flags s)(ef := v)\<rparr>"
  obtain s1 R1 D' W' where 1: "ef_set_loop ef (after ws) (event_flags s ef) s = Some (v, s1)" "ef_post_loop ef (after ws) s = Some s1"
    "touched ?s0 s1" "sched s1 (Q(ef \<mapsto> [] @ stay, ready s \<mapsto> R1)) D' W'" "set R1 = set R \<union> fst ` set go"
    "\<forall>x. ob_state s1 x = (if x \<in> fst ` set go then osRtxThreadReady else ob_state s x)" "run_next s1 = run_next s"
    "mem s1 = regs_set s go (mem s)" "set D' = set D - fst ` set go" "set W' = set W - fst ` set go"
    using flags_loop [OF e(6) Q' ef R sv refl] by (elim exE conjE) (rule that; assumption)
  note f = touched_fields [OF 1(3)]
  let ?Q = "Q(ef \<mapsto> stay, ready s \<mapsto> R1)"
  have sws: "fst ` set go \<union> set stay = set ws" by (rule serve_split [OF sv])
  have wm: "set ws \<subseteq> members Q" "set R \<subseteq> members Q" using members_sub Q R by blast+
  have "members ?Q \<subseteq> members Q"
    using members_upd [of "Q(ef \<mapsto> stay)" "ready s" R1] members_upd [of Q ef stay] 1(5) wm sws by blast
  then have l: "loose s1 ?Q D' W' (run_curr s1)" using e(5) f 1(9,10) by (auto simp: loose_def)
  have rw: "run_next s \<notin> fst ` set go" using e(2,5) wm sws by (auto simp: loose_def)
  have so: "stack_ok s1"
  proof -
    have "osRtxThreadRegPtr s t \<noteq> stack_mem s (run_curr s)" if "t \<in> fst ` set go" for t
      using that wm sws DD(4) [of t] e(3,4) by (auto simp: stack_ok_def)
    then have "regs_set s go (mem s) (stack_mem s (run_curr s)) = mem s (stack_mem s (run_curr s))"
      by (rule regs_set_other)
    then show ?thesis using e(3) 1(8) f by (simp add: stack_ok_def osRtxThreadRegPtr_def)
  qed
  have p: "run_curr s1 = run_next s1" "kernel_state s1 = osRtxKernelRunning" "ob_state s1 (run_next s1) = osRtxThreadRunning"
    using e(2,7) f 1(6,7) sd(4) rw by simp_all
  have S1: "sched s1 ?Q D' W'" using 1(4) by simp
  obtain s' R' where 2: "osRtxThreadDispatch NULL s1 = Some s'" "touched s1 s'"
    "settled s' (?Q(ready s1 \<mapsto> R')) D' W'" "mem s' = mem s1"
    "insert (run_next s') (set R') = insert (run_next s1) (set (the (?Q (ready s1))))"
    "\<forall>x. ob_id s1 x \<noteq> osRtxIdThread \<longrightarrow> ob_state s' x = ob_state s1 x"
    "tstates {} s1 ?Q D' W' \<Longrightarrow> tstates {} s' (?Q(ready s1 \<mapsto> R')) D' W'"
    by (rule settled_dispatch [OF S1 l p so]) blast
  have "settled s' (Q(ef \<mapsto> stay, ready s \<mapsto> R')) D' W'" using 2(3) f by simp
  moreover have "insert (run_next s') (set R') = insert (run_next s) (fst ` set go \<union> set (the (Q (ready s))))"
    using 2(5) f 1(5,7) R by auto
  moreover have "touched ?s0 s'" by (rule touched_trans [OF 1(3) 2(2)])
  moreover have "tstates {} s' (Q(ef \<mapsto> stay, ready s \<mapsto> R')) D' W'" if "tstates {} s Q D W"
  proof -
    have "tstates {} s1 ?Q D' W'"
      by (rule tstates_step [OF that R, of _ R1 s1 "fst ` set go"]) (use 1(5-7,9,10) f(1,24) in auto)
    then show ?thesis using 2(7) f(24) by simp
  qed
  moreover have "\<forall>x. ob_id s x \<noteq> osRtxIdThread \<longrightarrow> ob_state s' x = ob_state s x"
    using 2(6) 1(6) f(1) wm sws DD(4) by fastforce
  ultimately show thesis using 1(1,2,8-10) 2(1,4) h f by (intro that [of s1 s' R' D' W']) simp_all
qed

section \<open>Properties\<close>

text \<open>
  C14: svcRtxEventFlagsSet wakes exactly the right threads. On valid flags it sets them and goes
  through the waiting list by priority: each thread whose condition (any or all of its flags) the
  current flags meet is taken out of the list and gets the flags as its call's result, and its flags
  are cleared unless it asked for osFlagsNoClear; no wake-up is lost: no thread left in the list
  has its condition met by the flags that remain. These are also the returned value, and the
  highest of all threads able to run is running afterwards.
\<close>

theorem svcRtxEventFlagsSet_spec:
  assumes E: "entered s Q D W" and Q: "Q ef = Some ws" and ne: "ef \<noteq> ready s"
    and ok: "ob_check osRtxIdEventFlags ef s = osOK" and fl: "flags AND 0x80000000 = 0"
    and sv: "serve (wait_flags s) (flags_options s) ws (event_flags s ef OR flags) = (go, stay, v)"
  shows "\<exists>s' Q' D' W'. svcRtxEventFlagsSet ef flags s = Some (v, s') \<and> settled s' Q' D' W' \<and>
    event_flags s' ef = v \<and> Q' ef = Some stay \<and> mem s' = regs_set s go (mem s) \<and>
    insert (run_next s') (set (the (Q' (ready s)))) = insert (run_next s) (fst ` set go \<union> set (the (Q (ready s)))) \<and>
    (\<forall>t\<in>set stay. flags_met v (wait_flags s' t) (ucast (flags_options s' t)) = 0)"
proof -
  have en: "ef \<noteq> NULL" and chk: "\<not> (ef = NULL \<or> ob_id s ef \<noteq> osRtxIdEventFlags \<or> flags_invalid flags)"
    "ob_state s ef \<noteq> osRtxObjectInactive"
    using ok fl by (simp_all add: ob_check_ok flags_valid)
  let ?s = "s\<lparr>event_flags := (event_flags s)(ef := event_flags s ef OR flags)\<rparr>"
  have E': "entered ?s Q D W" and ne': "ef \<noteq> ready ?s" using E ne by simp_all
  have sv': "serve (wait_flags ?s) (flags_options ?s) ws (event_flags ?s ef) = (go, stay, v)" using sv by simp
  have rg: "regs_set ?s = regs_set s" by (simp add: fun_eq_iff regs_set_def osRtxThreadRegPtr_def)
  obtain s1 s' R' D' W' where 1: "ef_set_loop ef (thread_next ?s ef) (event_flags ?s ef) ?s = Some (v, s1)"
    "osRtxThreadDispatch NULL s1 = Some s'"
    "touched (?s\<lparr>event_flags := (event_flags ?s)(ef := v)\<rparr>) s'" "settled s' (Q(ef \<mapsto> stay, ready ?s \<mapsto> R')) D' W'"
    "insert (run_next s') (set R') = insert (run_next ?s) (fst ` set go \<union> set (the (Q (ready ?s))))"
    "mem s' = regs_set ?s go (mem ?s)"
    by (rule settled_flags [OF E' Q en ne' sv']) blast
  note f = touched_fields [OF 1(3)]
  have set: "EventFlagsSet ef flags s = (event_flags s ef OR flags, ?s)"
    by (simp add: EventFlagsSet_def atomic_set32_def)
  have "svcRtxEventFlagsSet ef flags s = Some (v, s')"
    using 1(1,2) chk unfolding svcRtxEventFlagsSet_def by (simp add: set)
  moreover have "\<forall>t\<in>set stay. flags_met v (wait_flags s' t) (ucast (flags_options s' t)) = 0"
    using serve_stay [OF sv] f by simp
  ultimately show ?thesis using 1(4-6) f ne rg
    by - (rule exI [of _ s'], rule exI [of _ "Q(ef \<mapsto> stay, ready s \<mapsto> R')"], rule exI [of _ D'], rule exI [of _ W'], simp)
qed

text \<open>The semaphore of the configuration as an event flags object: 0x4000 waits for flag 4.\<close>

theorem svcRtxEventFlagsSet_spec_witness:
  "\<exists>s s' Q' D' W'. wait_flags s 0x4000 = 4 \<and> svcRtxEventFlagsSet 0x5000 6 s = Some (3, s') \<and> settled s' Q' D' W' \<and>
     Q' 0x5000 = Some [] \<and> mem s' 0x40220 = 7"
proof -
  let ?s = "demo\<lparr>ob_id := (ob_id demo)(0x5000 := 3), event_flags := (\<lambda>_. 0)(0x5000 := 1),
     wait_flags := (\<lambda>_. 0)(0x4000 := 4), flags_options := (\<lambda>_. 0)(0x4000 := 1)\<rparr>"
  have "ob_id demo 0x5000 = osRtxIdSemaphore" by (simp add: demo_def blank_def)
  then have E: "entered ?s demo_lists [0x6000] [0x4000]"
    using entered_ids [OF demo_entered, of "(ob_id demo)(0x5000 := 3)"] by simp
  have v: "demo_lists 0x5000 = Some [0x4000]" "0x5000 \<noteq> ready ?s" "ob_check osRtxIdEventFlags 0x5000 ?s = osOK"
    "(6 :: u32) AND 0x80000000 = 0"
    "serve (wait_flags ?s) (flags_options ?s) [0x4000] (event_flags ?s 0x5000 OR 6) = ([(0x4000, 7)], [], 3)"
    by (simp_all add: demo_lists_def demo_def blank_def ob_check_def flags_met_def flags_left_def)
  have r: "osRtxThreadRegPtr ?s 0x4000 = 0x40220"
    by (simp add: demo_def blank_def osRtxThreadRegPtr_def StackOffsetR0_def)
  from svcRtxEventFlagsSet_spec [OF E v]
  obtain s' Q' D' W' where "svcRtxEventFlagsSet 0x5000 6 ?s = Some (3, s')" "settled s' Q' D' W'" "Q' 0x5000 = Some []"
    "mem s' = regs_set ?s [(0x4000, 7)] (mem ?s)" by (elim exE conjE)
  moreover have "wait_flags ?s 0x4000 = 4" by simp
  ultimately show ?thesis using r
    by - (rule exI [of _ ?s], rule exI [of _ s'], rule exI [of _ Q'], rule exI [of _ D'], rule exI [of _ W'], simp add: regs_set_def)
qed

text \<open>
  C15: Setting flags from an interrupt handler has the same effect as from a thread: running
  the deferred osRtxEventFlagsPostProcess and the dispatcher on the state in which the handler has
  set the flags gives the state svcRtxEventFlagsSet ends in.
\<close>

theorem EventFlags_isr_equiv:
  assumes E: "entered s Q D W" and Q: "Q ef = Some ws" and ne: "ef \<noteq> ready s"
    and ok: "ob_check osRtxIdEventFlags ef s = osOK" and fl: "flags AND 0x80000000 = 0"
  shows "\<exists>v s1 s'. osRtxEventFlagsPostProcess ef (snd (EventFlagsSet ef flags s)) = Some s1 \<and>
    osRtxThreadDispatch NULL s1 = Some s' \<and> v = event_flags s1 ef \<and> svcRtxEventFlagsSet ef flags s = Some (v, s')"
proof -
  have en: "ef \<noteq> NULL" and chk: "\<not> (ef = NULL \<or> ob_id s ef \<noteq> osRtxIdEventFlags \<or> flags_invalid flags)"
    "ob_state s ef \<noteq> osRtxObjectInactive"
    using ok fl by (simp_all add: ob_check_ok flags_valid)
  let ?s = "s\<lparr>event_flags := (event_flags s)(ef := event_flags s ef OR flags)\<rparr>"
  have E': "entered ?s Q D W" and ne': "ef \<noteq> ready ?s" using E ne by simp_all
  obtain go stay v where sv: "serve (wait_flags ?s) (flags_options ?s) ws (event_flags ?s ef) = (go, stay, v)"
    using prod_cases3 by blast
  obtain s1 s' where 1: "ef_set_loop ef (thread_next ?s ef) (event_flags ?s ef) ?s = Some (v, s1)"
    "ef_post_loop ef (thread_next ?s ef) ?s = Some s1" "osRtxThreadDispatch NULL s1 = Some s'" "event_flags s1 ef = v"
    by (rule settled_flags [OF E' Q en ne' sv]) blast
  have set: "EventFlagsSet ef flags s = (event_flags s ef OR flags, ?s)"
    by (simp add: EventFlagsSet_def atomic_set32_def)
  have "svcRtxEventFlagsSet ef flags s = Some (v, s')"
    using 1(1,3) chk unfolding svcRtxEventFlagsSet_def by (simp add: set)
  then show ?thesis using 1(2-4) chk
    by (intro exI [of _ v] exI [of _ s1] exI [of _ s']) (simp add: osRtxEventFlagsPostProcess_def set)
qed

theorem EventFlags_isr_equiv_witness:
  "\<exists>s1 s'. osRtxEventFlagsPostProcess 0x5200 (snd (EventFlagsSet 0x5200 6 demo)) = Some s1 \<and>
     osRtxThreadDispatch NULL s1 = Some s' \<and> svcRtxEventFlagsSet 0x5200 6 demo = Some (event_flags s1 0x5200, s')"
proof -
  have v: "demo_lists 0x5200 = Some []" "0x5200 \<noteq> ready demo" "ob_check osRtxIdEventFlags 0x5200 demo = osOK" "(6 :: u32) AND 0x80000000 = 0"
    by (simp_all add: demo_lists_def demo_def blank_def ob_check_def)
  show ?thesis using EventFlags_isr_equiv [OF demo_entered v] by blast
qed

text \<open>
  svcRtxEventFlagsWait on an existing object with valid flags: if the flags meet the condition
  it returns them at once and clears those waited for (unless osFlagsNoClear); otherwise without a timeout it
  fails with osErrorResource and changes nothing, and with one it records the condition in the thread
  and waits in the object's list, by priority, and in the delay lists. As long as bit 31 of the
  object's flags is clear a success cannot be mistaken for an error: every error code has bit 31 set.
\<close>

theorem svcRtxEventFlagsWait_spec:
  assumes E: "entered s Q D W" and Q: "Q ef = Some ws" and ne: "ef \<noteq> ready s" and R: "Q (ready s) = Some R"
    and ok: "ob_check osRtxIdEventFlags ef s = osOK" and fl: "flags AND 0x80000000 = 0" "event_flags s ef AND 0x80000000 = 0"
  shows "\<exists>r s' Q' D' W'. svcRtxEventFlagsWait ef flags options timeout s = Some (r, s') \<and> settled s' Q' D' W' \<and>
    event_flags s' = (event_flags s)(ef := flags_left (event_flags s ef) flags options) \<and>
    (if flags_met (event_flags s ef) flags options \<noteq> 0
     then r = event_flags s ef \<and> r AND 0x80000000 = 0 \<and> run_next s' = run_curr s \<and> Q' = Q
     else r AND 0x80000000 \<noteq> 0 \<and>
       (if timeout = 0 then r = status_word osErrorResource \<and> s' = s
        else r = status_word osErrorTimeout \<and> wait_flags s' (run_curr s) = flags \<and>
          flags_options s' (run_curr s) = ucast options \<and>
          (R \<noteq> [] \<longrightarrow> Q' = Q(ready s \<mapsto> tl R, ef \<mapsto> pinsert (priority s) (run_curr s) ws) \<and>
             delayed s D W (run_curr s) timeout s' D' W' \<and> run_next s' = hd R \<and>
             ob_state s' (run_curr s) = osRtxThreadWaitingEventFlags)))"
proof -
  let ?r = "run_curr s" and ?v = "event_flags s ef"
  note e = enteredD [OF E]
  have en: "ef \<noteq> NULL" and chk: "\<not> (ef = NULL \<or> ob_id s ef \<noteq> osRtxIdEventFlags \<or> flags_invalid flags)"
    "ob_state s ef \<noteq> osRtxObjectInactive" "?r \<noteq> NULL"
    using ok fl e(4) by (simp_all add: ob_check_ok flags_valid)
  let ?s1 = "s\<lparr>event_flags := (event_flags s)(ef := flags_left ?v flags options)\<rparr>"
  show ?thesis
  proof (cases "flags_met ?v flags options = 0")
    case False
    then have "svcRtxEventFlagsWait ef flags options timeout s = Some (?v, ?s1)" "?v \<noteq> 0"
      using chk by (auto simp: svcRtxEventFlagsWait_def EventFlagsCheck_spec Let_def flags_met_def split: if_splits)
    then show ?thesis using False e(1,2) fl(2)
      by (intro exI [of _ ?v] exI [of _ ?s1] exI [of _ Q] exI [of _ D] exI [of _ W]) simp
  next
    case met: True
    then have s1: "?s1 = s" "flags_left ?v flags options = ?v" by (simp_all add: flags_left_def fun_upd_idem)
    show ?thesis
    proof (cases "timeout = 0")
      case True
      then have "svcRtxEventFlagsWait ef flags options timeout s = Some (status_word osErrorResource, s)"
        using chk met s1 by (simp add: svcRtxEventFlagsWait_def EventFlagsCheck_spec Let_def)
      then show ?thesis using True met s1(2) e(1)
        by - (rule exI [of _ "status_word osErrorResource"], rule exI [of _ s], rule exI [of _ Q], rule exI [of _ D],
            rule exI [of _ W], simp add: fun_upd_idem)
    next
      case False
      let ?s2 = "s\<lparr>wait_flags := (wait_flags s)(?r := flags), flags_options := (flags_options s)(?r := ucast options)\<rparr>"
      have w: "svcRtxEventFlagsWait ef flags options timeout s = do {
          (b, s) \<leftarrow> osRtxThreadWaitEnter osRtxThreadWaitingEventFlags timeout ?s2;
          s \<leftarrow> (if b then osRtxThreadListPut ef ?r s else Some s);
          Some (status_word osErrorTimeout, s) }"
        using chk met s1 False by (simp add: svcRtxEventFlagsWait_def EventFlagsCheck_spec Let_def)
      have E2: "entered ?s2 Q D W" using E by simp
      show ?thesis
      proof (cases R)
        case Nil
        then have "thread_next ?s2 (ready ?s2) = NULL" using head_null [OF e(6) R] schedD(3) [OF e(6)] by simp
        then have "osRtxThreadWaitEnter osRtxThreadWaitingEventFlags timeout ?s2 = Some (False, ?s2)" by (simp add: WaitEnter_no)
        then show ?thesis using w Nil met False s1(2) enteredD(1) [OF E2]
          by - (rule exI [of _ "status_word osErrorTimeout"], rule exI [of _ ?s2], rule exI [of _ Q], rule exI [of _ D],
              rule exI [of _ W], simp add: fun_upd_idem)
      next
        case (Cons x xs)
        have R': "Q (ready ?s2) = Some (x # xs)" and n2: "ef \<noteq> ready ?s2" using R Cons ne by simp_all
        obtain s3 s' D' W' where 2: "osRtxThreadWaitEnter osRtxThreadWaitingEventFlags timeout ?s2 = Some (True, s3)"
          "osRtxThreadListPut ef (run_curr ?s2) s3 = Some s'" "touched ?s2 s3" "touched ?s2 s'"
          "settled s' (Q(ready ?s2 \<mapsto> xs, ef \<mapsto> pinsert (priority ?s2) (run_curr ?s2) ws)) D' W'"
          "delayed ?s2 D W (run_curr ?s2) timeout s' D' W'" "run_next s' = x"
          "ob_state s' = (ob_state ?s2)(run_curr ?s2 := osRtxThreadWaitingEventFlags, x := osRtxThreadRunning)"
          by (rule settled_block [OF E2 R' Q en n2 False]) blast
        note f = touched_fields [OF 2(4)]
        have rx: "?r \<noteq> x" using enteredD(5) [OF E] R Cons unfolding loose_def in_members by force
        have "delayed s D W ?r timeout s' D' W'" using 2(6) delayed_cong [of ?s2 s s' s' D W ?r timeout D' W'] by simp
        then show ?thesis using w 2(1,2,5,7,8) Cons met False s1(2) f rx
          by - (rule exI [of _ "status_word osErrorTimeout"], rule exI [of _ s'],
              rule exI [of _ "Q(ready s \<mapsto> xs, ef \<mapsto> pinsert (priority s) ?r ws)"], rule exI [of _ D'], rule exI [of _ W'],
              simp add: fun_upd_idem)
      qed
    qed
  qed
qed

theorem svcRtxEventFlagsWait_spec_witness:
  "\<exists>s' Q' D' W'. svcRtxEventFlagsWait 0x5200 6 0 osWaitForever demo = Some (0xFFFFFFFE, s') \<and> settled s' Q' D' W' \<and>
     Q' 0x5200 = Some [0x1000] \<and> wait_flags s' 0x1000 = 6 \<and> run_next s' = 0x2000"
proof -
  have v: "demo_lists 0x5200 = Some []" "0x5200 \<noteq> ready demo" "demo_lists (ready demo) = Some [0x2000, 0x3000]"
    "ob_check osRtxIdEventFlags 0x5200 demo = osOK" "(6 :: u32) AND 0x80000000 = 0" "event_flags demo 0x5200 AND 0x80000000 = 0"
    by (simp_all add: demo_lists_def demo_def blank_def ob_check_def)
  have "flags_met (event_flags demo 0x5200) 6 0 = 0" "run_curr demo = 0x1000"
    by (simp_all add: demo_def blank_def flags_met_def)
  with svcRtxEventFlagsWait_spec [OF demo_entered v, of 0 osWaitForever]
  obtain s' Q' D' W' where "svcRtxEventFlagsWait 0x5200 6 0 osWaitForever demo = Some (0xFFFFFFFE, s')" "settled s' Q' D' W'"
    "Q' 0x5200 = Some [0x1000]" "wait_flags s' 0x1000 = 6" "run_next s' = 0x2000"
    by auto
  then show ?thesis by blast
qed

end
