(* ===== verification/MemInv.thy ===== *)
theory MemInv
  imports RtxMemory Links
begin

text \<open>
  Correctness of the two memory managers modelled in RtxMemory: the heap of rtx_memory.c as a chain
  of blocks that never overlap, and the pools of rtx_mempool.c as stacks of free blocks. The locale
  \<open>block_pool\<close> is what the users of a pool rely on.
\<close>

unbundle bit_operations_syntax

section \<open>Specification vocabulary\<close>

text \<open>
  The heap of rtx_memory.c as the list of its block headers. \<open>heap_chain m p qs\<close>: the chain from the
  header \<open>p\<close> continues with \<open>qs\<close>, its last element being the end marker; each block ends before
  the next header. \<open>heap_ok\<close> adds the first header and the end of the region. \<open>need_of\<close> is the
  length of the block for a request (with its header, a multiple of eight).
\<close>

definition blk_len :: "(ptr \<Rightarrow> u32) \<Rightarrow> ptr \<Rightarrow> u32" where
  "blk_len m p = m (p + 4) AND MB_INFO_LEN_MASK"

fun heap_chain :: "(ptr \<Rightarrow> u32) \<Rightarrow> ptr \<Rightarrow> ptr list \<Rightarrow> bool" where
  "heap_chain m p [] \<longleftrightarrow> m p = NULL"
| "heap_chain m p (q # qs) \<longleftrightarrow> m p = q \<and> p < q \<and> unat p + unat (blk_len m p) \<le> unat q \<and> q AND 7 = 0 \<and>
     blk_len m p AND 7 = 0 \<and> (m (p + 4) = 0 \<longleftrightarrow> blk_len m p = 0) \<and> heap_chain m q qs"

definition heap_ok :: "ptr \<Rightarrow> (ptr \<Rightarrow> u32) \<Rightarrow> ptr list \<Rightarrow> bool" where
  "heap_ok base m qs \<longleftrightarrow> base \<noteq> NULL \<and> base AND 7 = 0 \<and> unat base + unat (m base) < 2 ^ 32 \<and> 24 \<le> unat (m base) \<and>
     m base AND 7 = 0 \<and> qs \<noteq> [] \<and> heap_chain m (base + 8) qs \<and> last qs = base + (m base - 8)"

definition need_of :: "u32 \<Rightarrow> u32" where
  "need_of size' = (size' + 8 + 7) AND NOT 7"

fun has_hole :: "(ptr \<Rightarrow> u32) \<Rightarrow> nat \<Rightarrow> ptr \<Rightarrow> ptr list \<Rightarrow> bool" where
  "has_hole m need p [] \<longleftrightarrow> False"
| "has_hole m need p (q # qs) \<longleftrightarrow> unat p + unat (blk_len m p) + need \<le> unat q \<or> has_hole m need q qs"

text \<open>What an allocation of \<open>size'\<close> bytes at \<open>r\<close> makes of the heap \<open>m\<close> with the headers \<open>qs\<close>.\<close>

definition alloc_result :: "ptr \<Rightarrow> (ptr \<Rightarrow> u32) \<Rightarrow> ptr list \<Rightarrow> u32 \<Rightarrow> ptr \<Rightarrow> (ptr \<Rightarrow> u32) \<Rightarrow> ptr list \<Rightarrow> bool" where
  "alloc_result base m qs size' r m' qs' \<longleftrightarrow> heap_ok base m' qs' \<and>
     r AND 7 = 0 \<and> unat r + unat size' \<le> unat (last qs) \<and> last qs' = last qs \<and>
     r - 8 \<in> set (butlast ((base + 8) # qs')) \<and> blk_len m' (r - 8) = need_of size' \<and>
     set ((base + 8) # qs') = insert (r - 8) (set ((base + 8) # qs)) \<and>
     (\<forall>x\<in>set (butlast ((base + 8) # qs)). blk_len m x \<noteq> 0 \<longrightarrow> blk_len m' x = blk_len m x \<and>
       (unat x + unat (blk_len m x) \<le> unat (r - 8) \<or> unat r + unat size' \<le> unat x))"

text \<open>What freeing the block with the header \<open>h\<close> makes of the heap.\<close>

definition free_result :: "ptr \<Rightarrow> (ptr \<Rightarrow> u32) \<Rightarrow> ptr list \<Rightarrow> ptr \<Rightarrow> (ptr \<Rightarrow> u32) \<Rightarrow> ptr list \<Rightarrow> bool" where
  "free_result base m qs h m' qs' \<longleftrightarrow> heap_ok base m' qs' \<and>
     (if h = base + 8 then qs' = qs \<and> blk_len m' (base + 8) = 0 else qs' = remove1 h qs) \<and>
     m' (base + 4) = m (base + 4) - blk_len m h \<and>
     (\<forall>x\<in>set (butlast ((base + 8) # qs)). x \<noteq> h \<longrightarrow> blk_len m' x = blk_len m x)"

text \<open>Memory after an allocation has counted its \<open>n\<close> bytes.\<close>

definition heap_count :: "ptr \<Rightarrow> u32 \<Rightarrow> (ptr \<Rightarrow> u32) \<Rightarrow> ptr \<Rightarrow> u32" where
  "heap_count base n m = (let m1 = m(base + 4 := m (base + 4) + n); e = base + (m1 base - 8)
     in if m1 (e + 4) < m1 (base + 4) then m1(e + 4 := m1 (base + 4)) else m1)"

text \<open>
  A pool's free blocks as a list, linked through their first words; \<open>B\<close> is the set of all its
  blocks. \<open>alloc_n\<close> and \<open>free_all\<close> are sequences of calls with their results.
\<close>

definition pool_rep :: "ptr \<Rightarrow> ptr set \<Rightarrow> rtx \<Rightarrow> ptr list \<Rightarrow> bool" where
  "pool_rep i B s fs \<longleftrightarrow> i \<noteq> NULL \<and> forward ((mem s)(NULL := block_free s i)) NULL fs \<and> distinct fs \<and> set fs \<subseteq> B \<and>
     finite B \<and> NULL \<notin> B \<and> card B = unat (max_blocks s i) \<and> unat (used_blocks s i) + length fs = card B \<and>
     (\<forall>b\<in>B. block_base s i \<le> b \<and> b < block_lim s i)"

definition pool_blocks :: "ptr \<Rightarrow> nat \<Rightarrow> u32 \<Rightarrow> ptr list" where
  "pool_blocks p n bsize = map (\<lambda>k. p + of_nat k * bsize) [0..<n]"

fun alloc_n :: "('s \<Rightarrow> 'a \<times> 's) \<Rightarrow> nat \<Rightarrow> 's \<Rightarrow> 'a list \<times> 's" where
  "alloc_n alloc 0 s = ([], s)"
| "alloc_n alloc (Suc n) s = (let (b, s) = alloc s; (bs, s) = alloc_n alloc n s in (b # bs, s))"

fun free_all :: "('a \<Rightarrow> 's \<Rightarrow> 'r \<times> 's) \<Rightarrow> 'a list \<Rightarrow> 's \<Rightarrow> 'r list \<times> 's" where
  "free_all free [] s = ([], s)"
| "free_all free (b # bs) s = (let (r, s) = free b s; (rs, s) = free_all free bs s in (r # rs, s))"

section \<open>Alignment\<close>

lemma unat32: "unat (w :: u32) < 4294967296"
  using unsigned_less [of w] by simp

lemma and7_unat: "unat ((w :: u32) AND 7) = unat w mod 8"
proof -
  have "w AND 7 = take_bit 3 w" by (simp add: take_bit_eq_mask mask_eq_exp_minus_1)
  then show ?thesis by (simp add: take_bit_eq_mod unat_mod)
qed

lemma mult8: "(w :: u32) AND 7 = 0 \<longleftrightarrow> 8 dvd unat w"
  by (metis and7_unat dvd_eq_mod_eq_0 unsigned_0 unsigned_eq_0_iff)

lemma and_not7: "unat ((w :: u32) AND NOT 7) = unat w - unat w mod 8"
proof -
  have "(w AND NOT 7) + (w AND 7) = ((w AND NOT 7) AND (w AND 7)) + ((w AND NOT 7) OR (w AND 7))"
    by (rule word_plus_and_or [symmetric])
  also have "(w AND NOT 7) AND (w AND 7) = 0" by (simp only: bit_eq_iff bit_simps) auto
  also have "(w AND NOT 7) OR (w AND 7) = w" by (simp only: bit_eq_iff bit_simps) auto
  finally have "w AND NOT 7 = w - (w AND 7)" by (simp add: eq_diff_eq)
  moreover have "w AND 7 \<le> w" by (simp add: word_le_nat_alt and7_unat)
  ultimately show ?thesis by (simp add: unat_sub and7_unat)
qed

lemma unat_add32: "unat a + unat b < 2 ^ 32 \<Longrightarrow> unat (a + b :: u32) = unat a + unat b"
  by (simp add: unat_plus_if')

lemma need_of_unat:
  assumes "unat size' + 15 < 2 ^ 32" shows "unat (need_of size') = (unat size' + 15) - (unat size' + 15) mod 8"
proof -
  have "size' + 8 + 7 = size' + 15" by simp
  moreover have "unat (size' + 15) = unat size' + 15" using unat_add32 [of size' 15] assms by simp
  ultimately show ?thesis unfolding need_of_def and_not7 by (simp only:)
qed

lemma need_of_mult: "need_of size' AND 7 = 0"
  unfolding need_of_def mult8 and_not7 by (metis dvd_minus_mod)

lemma aligned_plus4: "a AND 7 = 0 \<Longrightarrow> x AND 7 = 0 \<Longrightarrow> a + 4 \<noteq> (x :: u32)"
proof
  assume a: "a AND 7 = 0" "x AND 7 = 0" "a + 4 = x"
  have "8 dvd unat (a + 4)" using a mult8 by simp
  then have "8 dvd (unat a + 4) mod 2 ^ 32" by (simp add: unat_word_ariths)
  then have "8 dvd unat a + 4" by (simp add: dvd_mod_iff)
  moreover have "8 dvd unat a" using a mult8 by simp
  ultimately show False by presburger
qed

lemma aligned_add: "a AND 7 = 0 \<Longrightarrow> b AND 7 = 0 \<Longrightarrow> unat a + unat b < 2 ^ 32 \<Longrightarrow> (a + b :: u32) AND 7 = 0"
  by (simp add: mult8 unat_plus_if')

lemma info_len: "need AND 7 = 0 \<Longrightarrow> type' AND NOT 3 = 0 \<Longrightarrow> (need OR type') AND MB_INFO_LEN_MASK = (need :: u32)"
proof -
  assume n: "need AND 7 = 0" and t: "type' AND NOT 3 = 0"
  have m: "(0xFFFFFFFC :: u32) = NOT 3" by simp
  have "need AND 3 = (need AND 7) AND 3" by (simp add: and.assoc)
  then have "need AND 3 = 0" using n by simp
  moreover have "need = (need AND NOT 3) OR (need AND 3)" by (simp only: bit_eq_iff bit_simps) auto
  ultimately have "need AND NOT 3 = need" by simp
  then show ?thesis unfolding m using t by (simp only: bit.conj_disj_distrib2 or.right_neutral)
qed

section \<open>Chains\<close>

lemma chain_order: "heap_chain m p qs \<Longrightarrow> x \<in> set qs \<Longrightarrow> p < x"
  by (induction qs arbitrary: p) (auto dest: less_trans)

lemma chain_nonnull: "heap_chain m p qs \<Longrightarrow> NULL \<notin> set qs"
  using chain_order [of m p qs 0] by (auto simp: word_less_nat_alt)

lemma chain_aligned: "heap_chain m p qs \<Longrightarrow> x \<in> set qs \<Longrightarrow> x AND 7 = 0"
  by (induction qs arbitrary: p) auto

lemma chain_cong:
  assumes "\<And>x. x \<in> set (p # qs) \<Longrightarrow> m' x = m x" "\<And>x. x \<in> set (butlast (p # qs)) \<Longrightarrow> m' (x + 4) = m (x + 4)"
  shows "heap_chain m' p qs = heap_chain m p qs"
  using assms by (induction qs arbitrary: p) (auto simp: blk_len_def)

lemma chain_distinct: "heap_chain m p qs \<Longrightarrow> distinct (p # qs)"
proof (induction qs arbitrary: p)
  case (Cons q qs)
  then have "heap_chain m q qs" by simp
  then have "distinct (q # qs)" by (rule Cons.IH)
  moreover have "p \<notin> set (q # qs)" using chain_order [OF Cons.prems] by auto
  ultimately show ?case by simp
qed simp

lemma chain_end_word: "heap_chain m p qs \<Longrightarrow> p AND 7 = 0 \<Longrightarrow> x \<in> set (p # qs) \<Longrightarrow> x AND 7 = 0"
  using chain_aligned by auto

text \<open>Space between two neighbours.\<close>

lemma hole_size:
  assumes "p < q" "unat p + unat l \<le> unat q" shows "unat (q - p - l :: u32) = unat q - unat p - unat l"
proof -
  have "unat (q - p) = unat q - unat p" using assms by (simp add: unat_sub)
  then show ?thesis using assms(2) by (subst unat_sub) (simp_all add: word_le_nat_alt)
qed

text \<open>The search returns the first header that is followed by a large enough hole.\<close>

lemma find_hole_spec:
  assumes "heap_chain m p qs" "qs \<noteq> []" "p \<noteq> NULL"
  shows "if has_hole m (unat need) p qs
     then \<exists>us a b vs. find_hole m need p = Some a \<and> p # qs = us @ a # b # vs \<and> a \<noteq> NULL \<and>
            unat a + unat (blk_len m a) + unat need \<le> unat b
     else find_hole m need p = Some NULL"
  using assms
proof (induction qs arbitrary: p)
  case (Cons q qs)
  have c: "m p = q" "p < q" "unat p + unat (blk_len m p) \<le> unat q" "heap_chain m q qs" using Cons.prems(1) by auto
  have qn: "q \<noteq> NULL" using chain_nonnull [OF Cons.prems(1)] by auto
  have h: "need \<le> q - p - blk_len m p \<longleftrightarrow> unat p + unat (blk_len m p) + unat need \<le> unat q"
    unfolding word_le_nat_alt hole_size [OF c(2,3)] using c(3) by arith
  show ?case
  proof (cases "need \<le> q - p - blk_len m p")
    case True
    then have "find_hole m need p = Some p"
      using c(1) Cons.prems(3) by (subst find_hole.simps) (simp add: blk_len_def Let_def)
    moreover have "p # q # qs = [] @ p # q # qs" by simp
    ultimately show ?thesis using True h Cons.prems(3) by (metis has_hole.simps(2))
  next
    case False
    show ?thesis
    proof (cases qs)
      case Nil
      then have "find_hole m need p = Some NULL"
        using c False Cons.prems(3) qn by (subst find_hole.simps) (simp add: blk_len_def Let_def)
      with False h Nil show ?thesis by simp
    next
      case (Cons r rs)
      then have "m q \<noteq> NULL" using c(4) chain_nonnull [OF c(4)] by auto
      then have f: "find_hole m need p = find_hole m need q"
        using c False Cons.prems(3) qn by (subst find_hole.simps) (simp add: blk_len_def Let_def)
      have "has_hole m (unat need) p (q # qs) = has_hole m (unat need) q qs" using False h by simp
      moreover have "\<exists>us a b vs. find_hole m need p = Some a \<and> p # q # qs = us @ a # b # vs \<and> a \<noteq> NULL \<and>
            unat a + unat (blk_len m a) + unat need \<le> unat b" if "has_hole m (unat need) q qs"
        using Cons.IH [OF c(4) _ qn] that Cons f by (simp add: Cons_eq_append_conv) (metis append_Cons)
      ultimately show ?thesis using Cons.IH [OF c(4) _ qn] Cons f by (auto split: if_splits)
    qed
  qed
qed simp

text \<open>Inserting a header, and filling the first block.\<close>

lemma chain_insert:
  assumes "heap_chain m p qs" "p AND 7 = 0" "p # qs = us @ a # b # vs" "c = a + blk_len m a" "blk_len m a \<noteq> 0"
    "unat a + unat (blk_len m a) + unat need \<le> unat b" "need AND 7 = 0" "need \<noteq> 0"
    "m' = m(c := b, c + 4 := need OR type', a := c)" "type' AND NOT 3 = 0"
  shows "\<exists>qs'. heap_chain m' p qs' \<and> p # qs' = us @ a # c # b # vs \<and> c AND 7 = 0 \<and> a < c \<and> c < b"
  using assms
proof (induction us arbitrary: p qs)
  case Nil
  note P = Nil.prems
  have pa: "p = a" "qs = b # vs" using P(3) by auto
  have ch: "m a = b" "a < b" "unat a + unat (blk_len m a) \<le> unat b" "b AND 7 = 0" "blk_len m a AND 7 = 0" "heap_chain m b vs"
    using P(1) pa by auto
  have b32: "unat b < 4294967296" by (rule unat32)
  have uc: "unat c = unat a + unat (blk_len m a)" unfolding P(4) by (rule unat_add32) (use ch(3) b32 in simp)
  have al: "c AND 7 = 0" unfolding P(4) by (rule aligned_add) (use P(2) pa ch b32 in simp_all)
  have "0 < unat (blk_len m a)" "0 < unat need" using P(5,8) by (simp_all add: unat_gt_0)
  then have ac: "a < c" "c < b" using P(6) uc by (simp_all add: word_less_nat_alt)
  have n4: "c + 4 \<noteq> x" "a + 4 \<noteq> x" if "x AND 7 = 0" for x using aligned_plus4 al P(2) pa that by blast+
  have bv: "x AND 7 = 0 \<and> x \<noteq> c \<and> x \<noteq> a" if "x \<in> set (b # vs)" for x
    using that chain_order [OF ch(6)] chain_aligned [OF ch(6)] ac ch(2,4) by (auto dest: less_trans)
  have "heap_chain m' b vs = heap_chain m b vs"
  proof (rule chain_cong)
    show "m' x = m x" if "x \<in> set (b # vs)" for x using bv [OF that] n4 P(9) by auto
    show "m' (x + 4) = m (x + 4)" if "x \<in> set (butlast (b # vs))" for x
    proof -
      have "x \<in> set (b # vs)" using that in_set_butlastD by fast
      from bv [OF this] show ?thesis using aligned_plus4 [of x] al P(2,9) pa by auto
    qed
  qed
  moreover have "m' a = c" "m' (a + 4) = m (a + 4)" "m' c = b" "m' (c + 4) = need OR type'"
    using P(9) n4 al P(2) pa ac by auto
  moreover have "blk_len m' c = need" "blk_len m' a = blk_len m a"
    using calculation info_len [OF P(7,10)] by (simp_all add: blk_len_def)
  moreover have "need OR type' \<noteq> 0" using P(8) by (metis or_eq_0_iff)
  ultimately have "heap_chain m' a (c # b # vs)"
    using ac al ch P(5,6,7,8) uc P(1) pa by simp
  then show ?case using pa al ac by auto
next
  case (Cons u us)
  note P = Cons.prems
  then obtain q rs where pu: "p = u" "qs = q # rs" by (cases qs) auto
  have ch: "m p = q" "p < q" "unat p + unat (blk_len m p) \<le> unat q" "q AND 7 = 0" "blk_len m p AND 7 = 0"
    "m (p + 4) = 0 \<longleftrightarrow> blk_len m p = 0" "heap_chain m q rs" using P(1) pu by auto
  have sp: "q # rs = us @ a # b # vs" using P(3) pu by simp
  obtain qs' where 1: "heap_chain m' q qs'" "q # qs' = us @ a # c # b # vs" "c AND 7 = 0" "a < c" "c < b"
    using Cons.IH [OF ch(7,4) sp P(4-10)] by blast
  have "a \<in> set (q # rs)" using sp by auto
  then have pa: "p < a" "a AND 7 = 0" using chain_order [OF P(1)] chain_aligned [OF P(1)] pu by auto
  then have ne: "p \<noteq> a" "p \<noteq> c" using 1(4) by auto
  moreover have "p + 4 \<noteq> a" "p + 4 \<noteq> c" "c + 4 \<noteq> p" using aligned_plus4 P(2) pa 1(3) by blast+
  ultimately have "m' p = m p" "m' (p + 4) = m (p + 4)" using P(9) by auto
  then have "heap_chain m' p (q # qs')" using ch 1(1) by (simp add: blk_len_def)
  moreover have "p # q # qs' = (u # us) @ a # c # b # vs" using 1(2) pu by simp
  ultimately show ?case using 1(3-5) by blast
qed

lemma chain_info:
  assumes "heap_chain m p qs" "p AND 7 = 0" "p # qs = us @ a # b # vs" "m' = m(a + 4 := i)"
    "unat a + unat (i AND MB_INFO_LEN_MASK) \<le> unat b" "(i AND MB_INFO_LEN_MASK) AND 7 = 0" "i = 0 \<longleftrightarrow> i AND MB_INFO_LEN_MASK = 0"
  shows "heap_chain m' p qs"
  using assms
proof (induction us arbitrary: p qs)
  case Nil
  then have pa: "p = a" "qs = b # vs" by auto
  then have ch: "m a = b" "a < b" "b AND 7 = 0" "heap_chain m b vs" using Nil.prems(1) by auto
  have x4: "a + 4 \<noteq> x" if "x \<in> set (a # b # vs)" for x
    using that aligned_plus4 Nil.prems(2) pa ch(3) chain_aligned [OF ch(4)] by auto
  have ax: "a < x" if "x \<in> set (b # vs)" for x using that ch(2) chain_order [OF ch(4)] by (auto dest: less_trans)
  have "heap_chain m' b vs = heap_chain m b vs"
  proof (rule chain_cong)
    show "m' x = m x" if "x \<in> set (b # vs)" for x using x4 [of x] that Nil.prems(4) by auto
    show "m' (x + 4) = m (x + 4)" if "x \<in> set (butlast (b # vs))" for x
      using ax [of x] in_set_butlastD [OF that] Nil.prems(4) by auto
  qed
  then show ?case using ch pa Nil.prems(4-7) x4 [of a] by (simp add: blk_len_def)
next
  case (Cons u us)
  note P = Cons.prems
  then obtain q rs where pu: "p = u" "qs = q # rs" by (cases qs) auto
  have ch: "m p = q" "p < q" "unat p + unat (blk_len m p) \<le> unat q" "q AND 7 = 0" "blk_len m p AND 7 = 0"
    "m (p + 4) = 0 \<longleftrightarrow> blk_len m p = 0" "heap_chain m q rs" using P(1) pu by auto
  have sp: "q # rs = us @ a # b # vs" using P(3) pu by simp
  have "a \<in> set (q # rs)" using sp by auto
  then have pa: "p < a" "a AND 7 = 0" using chain_order [OF P(1)] chain_aligned [OF P(1)] pu by auto
  then have "p \<noteq> a" "a + 4 \<noteq> p" using aligned_plus4 P(2) by auto
  then have "m' p = m p" "m' (p + 4) = m (p + 4)" using P(4) by auto
  with Cons.IH [OF ch(7,4) sp P(4-7)] ch show ?case using pu by (simp add: blk_len_def)
qed

lemma chain_remove:
  assumes "heap_chain m p qs" "p AND 7 = 0" "p # qs = us @ a # h # b # vs" "m' = m(a := b)"
  shows "\<exists>qs'. heap_chain m' p qs' \<and> p # qs' = us @ a # b # vs"
  using assms
proof (induction us arbitrary: p qs)
  case Nil
  then have pa: "p = a" "qs = h # b # vs" by auto
  then have ch: "m a = h" "a < h" "unat a + unat (blk_len m a) \<le> unat h" "h < b" "b AND 7 = 0"
    "blk_len m a AND 7 = 0" "m (a + 4) = 0 \<longleftrightarrow> blk_len m a = 0" "heap_chain m b vs" using Nil.prems(1) by auto
  have ax: "a < x \<and> x AND 7 = 0" if "x \<in> set (b # vs)" for x
    using that ch(2,4,5) chain_order [OF ch(8)] chain_aligned [OF ch(8)] by (auto dest: less_trans)
  have n4: "x + 4 \<noteq> a" if "x AND 7 = 0" for x using aligned_plus4 [OF that] Nil.prems(2) pa by blast
  have "heap_chain m' b vs = heap_chain m b vs"
  proof (rule chain_cong)
    show "m' x = m x" if "x \<in> set (b # vs)" for x using ax [OF that] Nil.prems(4) by auto
    show "m' (x + 4) = m (x + 4)" if "x \<in> set (butlast (b # vs))" for x
      using ax [OF in_set_butlastD [OF that]] n4 Nil.prems(4) by auto
  qed
  moreover have "m' a = b" "m' (a + 4) = m (a + 4)" using Nil.prems(2,4) pa n4 by auto
  moreover have "unat h < unat b" using ch(4) by (simp add: word_less_nat_alt)
  ultimately have "heap_chain m' a (b # vs)" using ch by (auto simp: blk_len_def dest: less_trans)
  then show ?case using pa by auto
next
  case (Cons u us)
  note P = Cons.prems
  then obtain q rs where pu: "p = u" "qs = q # rs" by (cases qs) auto
  have ch: "m p = q" "p < q" "unat p + unat (blk_len m p) \<le> unat q" "q AND 7 = 0" "blk_len m p AND 7 = 0"
    "m (p + 4) = 0 \<longleftrightarrow> blk_len m p = 0" "heap_chain m q rs" using P(1) pu by auto
  have sp: "q # rs = us @ a # h # b # vs" using P(3) pu by simp
  obtain qs' where 1: "heap_chain m' q qs'" "q # qs' = us @ a # b # vs" using Cons.IH [OF ch(7,4) sp P(4)] by blast
  have "a \<in> set (q # rs)" using sp by auto
  then have pa: "p < a" "a AND 7 = 0" using chain_order [OF P(1)] chain_aligned [OF P(1)] pu by auto
  then have "p \<noteq> a" "p + 4 \<noteq> a" using aligned_plus4 P(2) by auto
  then have "m' p = m p" "m' (p + 4) = m (p + 4)" using P(4) by auto
  then have "heap_chain m' p (q # qs')" using ch 1(1) by (simp add: blk_len_def)
  moreover have "p # q # qs' = (u # us) @ a # b # vs" using 1(2) pu by simp
  ultimately show ?case by blast
qed

lemma find_block_in:
  "heap_chain m p qs \<Longrightarrow> p # qs = us @ hdr # vs \<Longrightarrow> find_block m hdr prev p = Some (Some (last (prev # us), hdr))"
proof (induction us arbitrary: p qs prev)
  case Nil then show ?case by (subst find_block.simps) simp
next
  case (Cons u us)
  then obtain q rs where pu: "p = u" "qs = q # rs" by (cases qs) auto
  have "hdr \<in> set qs" using Cons.prems(2) pu by auto
  then have "p \<noteq> hdr" "q \<noteq> NULL" using chain_distinct [OF Cons.prems(1)] chain_nonnull [OF Cons.prems(1)] pu by auto
  moreover have "m p = q" "heap_chain m q rs" using Cons.prems(1) pu by auto
  moreover have "find_block m hdr p q = Some (Some (last (p # us), hdr))"
    by (rule Cons.IH) (use Cons.prems pu in auto)
  ultimately show ?case using pu by (subst find_block.simps) simp
qed

lemma find_block_none:
  "heap_chain m p qs \<Longrightarrow> hdr \<notin> set (p # qs) \<Longrightarrow> find_block m hdr prev p = Some None"
proof (induction qs arbitrary: p prev)
  case Nil then show ?case by (subst find_block.simps) auto
next
  case (Cons q qs)
  have "q \<noteq> NULL" using chain_nonnull [OF Cons.prems(1)] by auto
  moreover have "m p = q" "heap_chain m q qs" "hdr \<noteq> p" "hdr \<notin> set (q # qs)" using Cons.prems by auto
  moreover have "find_block m hdr p q = Some None" by (rule Cons.IH) (use Cons.prems in auto)
  ultimately show ?case by (subst find_block.simps) simp
qed

text \<open>Blocks of one chain do not overlap.\<close>

lemma chain_apart:
  "heap_chain m p qs \<Longrightarrow> p # qs = us @ a # vs \<Longrightarrow> b \<in> set vs \<Longrightarrow> unat a + unat (blk_len m a) \<le> unat b"
proof (induction us arbitrary: p qs)
  case Nil
  then obtain q rs where pu: "p = a" "qs = q # rs" "vs = q # rs" by (cases qs) auto
  then have "unat a + unat (blk_len m a) \<le> unat q" "heap_chain m q rs" using Nil.prems(1) by auto
  moreover have "unat q \<le> unat b"
    using Nil.prems(3) pu(3) chain_order [OF calculation(2), of b] by (auto simp: word_less_nat_alt)
  ultimately show ?case by simp
next
  case (Cons u us)
  then obtain q rs where pu: "p = u" "qs = q # rs" by (cases qs) auto
  then show ?case using Cons.IH [of q rs] Cons.prems by auto
qed

lemma chain_tail: "heap_chain m p qs \<Longrightarrow> p # qs = us @ a # vs \<Longrightarrow> heap_chain m a vs"
proof (induction us arbitrary: p qs)
  case (Cons u us)
  then show ?case by (cases qs) auto
qed simp

section \<open>Allocation and release\<close>

lemma heap_okD:
  assumes "heap_ok base m qs"
  shows "base \<noteq> NULL" "heap_chain m (base + 8) qs" "(base + 8) AND 7 = 0" "base + 8 \<noteq> NULL" "qs \<noteq> []"
    "last qs = base + (m base - 8)" "\<And>x. x \<in> set ((base + 8) # qs) \<Longrightarrow> x AND 7 = 0 \<and> base < x \<and> x \<noteq> base + 4 \<and> x + 4 \<noteq> base"
proof -
  note h = assms [unfolded heap_ok_def]
  have u: "unat (base + 8) = unat base + 8" using unat_add32 [of base 8] h by simp
  have lt: "base < base + 8" using u by (simp add: word_less_nat_alt)
  show c: "heap_chain m (base + 8) qs" and a: "(base + 8) AND 7 = 0"
    using h aligned_add [of base 8] u by simp_all
  show "base + 8 \<noteq> NULL" using lt by (metis not_less_iff_gr_or_eq word_gt_0)
  show "x AND 7 = 0 \<and> base < x \<and> x \<noteq> base + 4 \<and> x + 4 \<noteq> base" if "x \<in> set ((base + 8) # qs)" for x
  proof -
    have "x AND 7 = 0" by (rule chain_end_word [OF c a that])
    moreover have "base < x" using that lt chain_order [OF c, of x] by (auto dest: less_trans)
    ultimately show ?thesis using aligned_plus4 [of base x] aligned_plus4 [of x base] h by auto
  qed
qed (use assms in \<open>simp_all add: heap_ok_def\<close>)

lemma chain_end: "heap_chain m p qs \<Longrightarrow> m (last (p # qs)) = NULL"
  by (induction qs arbitrary: p) auto

lemma chain_le_last: "heap_chain m p qs \<Longrightarrow> x \<in> set (p # qs) \<Longrightarrow> unat x \<le> unat (last (p # qs))"
proof (induction qs arbitrary: p x)
  case (Cons q qs)
  have q: "unat p < unat q" "heap_chain m q qs" using Cons.prems(1) by (simp_all add: word_less_nat_alt)
  have "unat q \<le> unat (last (q # qs))" by (rule Cons.IH [OF q(2)]) simp
  moreover have "unat x \<le> unat (last (q # qs))" if "x \<noteq> p" by (rule Cons.IH [OF q(2)]) (use Cons.prems(2) that in simp)
  ultimately show ?case using q(1) by (cases "x = p") simp_all
qed simp

lemma header_bound:
  assumes H: "heap_ok base m qs" and x: "x \<in> set ((base + 8) # qs)"
  shows "unat x + 8 < 2 ^ 32"
proof -
  have h: "unat base + unat (m base) < 2 ^ 32" "24 \<le> unat (m base)" "qs \<noteq> []" "heap_chain m (base + 8) qs"
    "last qs = base + (m base - 8)" using H by (simp_all add: heap_ok_def)
  have m8: "unat (m base - 8) = unat (m base) - 8" using h(2) by (subst unat_sub) (simp_all add: word_le_nat_alt)
  then have "unat base + unat (m base - 8) < 2 ^ 32" using h(1) by linarith
  from unat_add32 [OF this] have "unat (last qs) = unat base + (unat (m base) - 8)" unfolding h(5) m8 .
  moreover have "unat x \<le> unat (last qs)" using chain_le_last [of m "base + 8" qs x] h x by simp
  ultimately show ?thesis using h by simp
qed

lemma behind_nonnull:
  assumes "heap_ok base m qs" "b \<in> set ((base + 8) # qs)" "unat c \<le> unat b"
  shows "c + 8 \<noteq> (NULL :: ptr)"
proof -
  have "unat (c + 8) = unat c + 8" using header_bound [OF assms(1,2)] assms(3) unat_add32 [of c 8] by simp
  then show ?thesis by (metis add_is_0 unsigned_0 zero_neq_numeral)
qed

lemma heap_ok_change:
  assumes H: "heap_ok base m qs" and c: "heap_chain m' (base + 8) qs'" and b: "m' base = m base" and l: "last qs' = last qs" "qs' \<noteq> []"
  shows "heap_ok base m' qs'"
  using H c b l unfolding heap_ok_def by simp

lemma need_of_bounds:
  assumes "unat size' + 15 < 2 ^ 32" shows "unat size' + 8 \<le> unat (need_of size')" "need_of size' \<noteq> 0"
proof -
  have "(unat size' + 15) mod 8 \<le> 7" by simp
  then show 1: "unat size' + 8 \<le> unat (need_of size')" unfolding need_of_unat [OF assms] by linarith
  then show "need_of size' \<noteq> 0" by auto
qed

text \<open>Accounting in the first and the last header does not touch the chain.\<close>

lemma heap_stat:
  assumes H: "heap_ok base m qs" and m': "m' = m(base + 4 := u) \<or> m' = m(base + 4 := u, last qs + 4 := v)"
  shows "heap_ok base m' qs" "x \<in> set (butlast ((base + 8) # qs)) \<Longrightarrow> m' x = m x \<and> m' (x + 4) = m (x + 4)" "m' base = m base"
proof -
  note h = heap_okD [OF H]
  have lq: "last qs \<in> set qs" using h(5) by simp
  have ls: "last qs AND 7 = 0" "last qs + 4 \<noteq> base" using h(7) [of "last qs"] lq by auto
  have e: "m' x = m x" if "x \<in> set ((base + 8) # qs)" for x
    using m' h(7) [OF that] aligned_plus4 [OF ls(1), of x] by auto
  have e4: "m' (x + 4) = m (x + 4)" if "x \<in> set (butlast ((base + 8) # qs))" for x
  proof -
    have x: "x \<in> set ((base + 8) # qs)" by (rule in_set_butlastD [OF that])
    obtain rs where rs: "qs = rs @ [last qs]" using h(5) append_butlast_last_id by metis
    have "distinct ((base + 8) # rs @ [last qs])" using chain_distinct [OF h(2)] rs by simp
    moreover have "x \<in> set ((base + 8) # rs)" using that rs h(5) by (metis butlast.simps(2) butlast_snoc)
    ultimately have "x \<noteq> last qs" by auto
    then show ?thesis using m' h(7) [OF x] by auto
  qed
  show b: "m' base = m base" using m' ls by auto
  have "heap_chain m' (base + 8) qs = heap_chain m (base + 8) qs" by (rule chain_cong) (use e e4 in auto)
  then show "heap_ok base m' qs" using heap_ok_change [OF H, of m' qs] b h(2,5) by simp
  show "x \<in> set (butlast ((base + 8) # qs)) \<Longrightarrow> m' x = m x \<and> m' (x + 4) = m (x + 4)"
    using e e4 in_set_butlastD by fast
qed

lemma Alloc_steps:
  assumes "base \<noteq> NULL" "size' \<noteq> 0" "type' AND NOT MB_INFO_TYPE_MASK = 0"
    "find_hole m (need_of size') (base + 8) = Some a" "a \<noteq> NULL" "heap_count base (need_of size') m = m2"
    "m2 (a + 4) = i" "m2 a = b"
  shows "osRtxMemoryAlloc base size' type' m = Some
     (if i = 0 then (a + 8, m2(a + 4 := need_of size' OR type'))
      else let c = a + (i AND MB_INFO_LEN_MASK) in (c + 8, m2(c := b, c + 4 := need_of size' OR type', a := c)))"
proof -
  obtain n where n: "need_of size' = n" by blast
  have "(size' + 8 + 7) AND NOT 7 = n" using n by (simp only: need_of_def)
  then show ?thesis
    using assms unfolding osRtxMemoryAlloc_def MemBlockPtr_def Let_def n heap_count_def
    by (simp only: if_False simp_thms bind.bind_lunit if_True)
qed

section \<open>Properties of the heap\<close>

text \<open>The new block has the header \<open>c\<close>, behind the headers \<open>us'\<close> and before \<open>b\<close>.\<close>

lemma alloc_resultI:
  assumes H: "heap_ok base m qs" and sz: "unat size' + 15 < 2 ^ 32" and l: "(base + 8) # qs = us @ a # b # vs"
    and c: "heap_chain m' (base + 8) qs'" "(base + 8) # qs' = us' @ c # b # vs" "blk_len m' c = need_of size'" "m' base = m base"
    and oth: "\<And>x. x \<in> set us' \<union> set (butlast (b # vs)) \<Longrightarrow> blk_len m' x = blk_len m x"
    and hs: "set (us' @ [c]) = insert c (set (us @ [a]))" "c \<notin> set us" "c = a \<Longrightarrow> blk_len m a = 0"
  shows "alloc_result base m qs size' (c + 8) m' qs'"
proof -
  let ?n = "need_of size'" and ?p = "base + 8"
  note h = heap_okD [OF H]
  have bl: "butlast (?p # qs) = us @ a # butlast (b # vs)" unfolding l by (simp add: butlast_append)
  have ch: "heap_chain m a (b # vs)" by (rule chain_tail [OF h(2) l])
  have sz_b: "unat size' + 8 \<le> unat ?n" "?n \<noteq> 0" using need_of_bounds [OF sz] by auto
  have bl_e: "unat b \<le> unat (last qs)"
  proof -
    have "last qs = last (b # vs)" using l h(5) by (metis last_ConsR last_appendR list.distinct(1))
    then show ?thesis using chain_order [of m b vs] ch by (auto simp: word_less_nat_alt intro: less_imp_le)
  qed
  have qn: "qs' \<noteq> []" using c(2) by (cases us') auto
  have lst: "last qs' = last qs"
    using c(2) l h(5) qn by (metis last_ConsR last_appendR list.distinct(1))
  have ok: "heap_ok base m' qs'" by (rule heap_ok_change [OF H c(1,4) lst qn])
  have bl': "butlast (?p # qs') = us' @ c # butlast (b # vs)" unfolding c(2) by (simp add: butlast_append)
  have cal: "c AND 7 = 0" using heap_okD(7) [OF ok, of c] c(2) by auto
  have cb: "unat c + unat ?n \<le> unat b"
    using chain_apart [OF c(1,2), of b] c(3) by simp
  have b32: "unat b < 4294967296" by (rule unat32)
  have r: "unat (c + 8) = unat c + 8" by (rule trans [OF unat_add32]) (use cb b32 sz_b in simp_all)
  have rb: "unat (c + 8) + unat size' \<le> unat b" using r cb sz_b by simp
  have ral: "(c + 8) AND 7 = 0" by (rule aligned_add [OF cal]) (use r in \<open>simp_all add: unat_plus_if' split: if_splits\<close>)
  have dis: "blk_len m' x = blk_len m x \<and> (unat x + unat (blk_len m x) \<le> unat c \<or> unat (c + 8) + unat size' \<le> unat x)"
    if "x \<in> set (butlast (?p # qs))" "blk_len m x \<noteq> 0" for x
  proof -
    have "x \<in> set (us @ [a]) \<or> x \<in> set (butlast (b # vs))" using that(1) unfolding bl by auto
    moreover have "x \<noteq> c" if "x \<in> set (us @ [a])" using that hs(2,3) \<open>blk_len m x \<noteq> 0\<close> by auto
    ultimately have "x \<in> set us' \<or> x \<in> set (butlast (b # vs))" using hs(1) by auto
    then show ?thesis
    proof
      assume x: "x \<in> set us'"
      then obtain u1 u2 where "us' = u1 @ x # u2" using split_list by fast
      then have "unat x + unat (blk_len m' x) \<le> unat c"
        by (intro chain_apart [OF c(1), of u1 x "u2 @ c # b # vs"]) (use c(2) in auto)
      with oth x show ?thesis by simp
    next
      assume x: "x \<in> set (butlast (b # vs))"
      then have "x \<in> set (b # vs)" by (rule in_set_butlastD)
      then have "unat b \<le> unat x" using chain_order [of m b vs x] ch by (auto simp: word_less_nat_alt)
      with oth x rb show ?thesis by simp
    qed
  qed
  have "set (?p # qs') = insert c (set (?p # qs))" unfolding c(2) l using hs(1) by auto
  then show ?thesis using ok lst ral rb bl_e c(3) bl' dis unfolding alloc_result_def by simp
qed

lemma alloc_unused_head:
  assumes H: "heap_ok base m qs" and sz: "size' \<noteq> 0" "unat size' + 15 < 2 ^ 32" and ty: "type' AND NOT 3 = 0"
    and f: "find_hole m (need_of size') (base + 8) = Some a" "(base + 8) # qs = us @ a # b # vs" "a \<noteq> NULL"
      "unat a + unat (blk_len m a) + unat (need_of size') \<le> unat b"
    and True: "m (a + 4) = 0"
  shows "\<exists>r m' qs'. osRtxMemoryAlloc base size' type' m = Some (r, m') \<and> alloc_result base m qs size' r m' qs'"
proof -
  let ?n = "need_of size'" and ?p = "base + 8"
  note h = heap_okD [OF H]
  have t3: "type' AND NOT MB_INFO_TYPE_MASK = 0" using ty by simp
  define m2 where "m2 = heap_count base ?n m"
  have e: "base + (m base - 8) = last qs" using h(6) by simp
  have m2: "m2 = m(base + 4 := m (base + 4) + ?n) \<or> m2 = m(base + 4 := m (base + 4) + ?n, last qs + 4 := m (base + 4) + ?n)"
    unfolding m2_def heap_count_def Let_def using e by (auto simp: fun_upd_same)
  note st = heap_stat [OF H m2]
  note h2 = heap_okD [OF st(1)]
  have bl: "butlast (?p # qs) = us @ a # butlast (b # vs)" unfolding f(2) by (simp add: butlast_append)
  have a2: "m2 a = m a" "m2 (a + 4) = m (a + 4)" using st(2) [of a] bl by auto
  have ch: "heap_chain m a (b # vs)" by (rule chain_tail [OF h(2) f(2)])
  then have ab: "m a = b" "a < b" by auto
  have sz_b: "unat size' + 8 \<le> unat ?n" "?n \<noteq> 0" using need_of_bounds [OF sz(2)] by auto
  let ?m = "m2(a + 4 := ?n OR type')"
  have l0: "blk_len m a = 0" using True by (simp add: blk_len_def)
  have n3: "(?n OR type') AND MB_INFO_LEN_MASK = ?n" by (rule info_len [OF need_of_mult ty])
  have al: "osRtxMemoryAlloc base size' type' m = Some (a + 8, ?m)"
    using Alloc_steps [OF h(1) sz(1) t3 f(1,3) m2_def [symmetric] refl refl] a2 True by simp
  have "heap_chain ?m ?p qs"
    by (rule chain_info [OF h2(2,3) f(2) refl])
      (use f(4) l0 n3 need_of_mult sz_b in \<open>simp_all add: or_eq_0_iff\<close>)
  moreover have "blk_len ?m a = ?n" using n3 by (simp add: blk_len_def)
  moreover have "blk_len ?m x = blk_len m x" if "x \<in> set us \<union> set (butlast (b # vs))" for x
  proof -
    have "x \<in> set us \<union> set (b # vs)" using that in_set_butlastD by fast
    then have "x \<noteq> a" using chain_distinct [OF h(2)] unfolding f(2) by auto
    then show ?thesis using st(2) [of x] that bl by (simp add: blk_len_def)
  qed
  moreover have "?m base = m base" using st(3) h(7) [of a] f(2) by auto
  moreover have "a \<notin> set us" using chain_distinct [OF h(2)] unfolding f(2) by auto
  ultimately have "alloc_result base m qs size' (a + 8) ?m qs" using l0 f(2) by (intro alloc_resultI [OF H sz(2) f(2), of _ _ us]) auto
  with al show ?thesis by blast
qed

lemma alloc_behind:
  assumes H: "heap_ok base m qs" and sz: "size' \<noteq> 0" "unat size' + 15 < 2 ^ 32" and ty: "type' AND NOT 3 = 0"
    and f: "find_hole m (need_of size') (base + 8) = Some a" "(base + 8) # qs = us @ a # b # vs" "a \<noteq> NULL"
      "unat a + unat (blk_len m a) + unat (need_of size') \<le> unat b"
    and False: "m (a + 4) \<noteq> 0"
  shows "\<exists>r m' qs'. osRtxMemoryAlloc base size' type' m = Some (r, m') \<and> alloc_result base m qs size' r m' qs'"
proof -
  let ?n = "need_of size'" and ?p = "base + 8"
  note h = heap_okD [OF H]
  have t3: "type' AND NOT MB_INFO_TYPE_MASK = 0" using ty by simp
  define m2 where "m2 = heap_count base ?n m"
  have e: "base + (m base - 8) = last qs" using h(6) by simp
  have m2: "m2 = m(base + 4 := m (base + 4) + ?n) \<or> m2 = m(base + 4 := m (base + 4) + ?n, last qs + 4 := m (base + 4) + ?n)"
    unfolding m2_def heap_count_def Let_def using e by (auto simp: fun_upd_same)
  note st = heap_stat [OF H m2]
  note h2 = heap_okD [OF st(1)]
  have bl: "butlast (?p # qs) = us @ a # butlast (b # vs)" unfolding f(2) by (simp add: butlast_append)
  have a2: "m2 a = m a" "m2 (a + 4) = m (a + 4)" using st(2) [of a] bl by auto
  have ch: "heap_chain m a (b # vs)" by (rule chain_tail [OF h(2) f(2)])
  then have ab: "m a = b" "a < b" by auto
  have sz_b: "unat size' + 8 \<le> unat ?n" "?n \<noteq> 0" using need_of_bounds [OF sz(2)] by auto
  let ?c = "a + blk_len m a"
  let ?m = "m2(?c := b, ?c + 4 := ?n OR type', a := ?c)"
  have l: "blk_len m2 a = blk_len m a" using a2 by (simp add: blk_len_def)
  have ln: "blk_len m a \<noteq> 0" using False ch by auto
  have al: "osRtxMemoryAlloc base size' type' m = Some (?c + 8, ?m)"
    using Alloc_steps [OF h(1) sz(1) t3 f(1,3) m2_def [symmetric] refl refl] a2 False ab
    by (simp add: blk_len_def Let_def)
  obtain qs' where 1: "heap_chain ?m ?p qs'" "?p # qs' = us @ a # ?c # b # vs" "?c AND 7 = 0" "a < ?c" "?c < b"
    using chain_insert [OF h2(2,3) f(2), where need = ?n and type' = type' and m' = ?m] l ln f(4) need_of_mult sz_b ty
    by auto
  have in_a: "a \<in> set (?p # qs)" using f(2) by auto
  have cn: "?c \<noteq> base" "?c + 4 \<noteq> base" "a \<noteq> base"
    using 1(3,4) h(7) [OF in_a] aligned_plus4 [OF 1(3), of base] H by (auto simp: heap_ok_def dest: less_trans)
  have x: "x AND 7 = 0 \<and> x \<noteq> ?c" if "x \<in> set us \<union> {a} \<union> set (butlast (b # vs))" for x
  proof -
    have "x \<in> set us \<union> {a} \<union> set (b # vs)" using that in_set_butlastD by fast
    moreover from this have "x \<in> set (?p # qs)" unfolding f(2) by auto
    moreover have "?c \<notin> set us \<union> {a} \<union> set (b # vs)"
      using chain_distinct [OF 1(1)] unfolding 1(2) by auto
    ultimately show ?thesis using h(7) by blast
  qed
  have "blk_len ?m x = blk_len m x" if "x \<in> set (us @ [a]) \<union> set (butlast (b # vs))" for x
  proof -
    have "x + 4 \<noteq> ?c + 4" "x + 4 \<noteq> ?c" "x + 4 \<noteq> a"
      using x [of x] that aligned_plus4 [of x] 1(3) h(7) [OF in_a] by auto
    then show ?thesis using st(2) [of x] that bl by (simp add: blk_len_def)
  qed
  moreover have "blk_len ?m ?c = ?n"
    using info_len [OF need_of_mult ty] aligned_plus4 [OF 1(3)] h(7) [OF in_a] by (simp add: blk_len_def)
  moreover have "?m base = m base" using st(3) cn by auto
  moreover have "?p # qs' = (us @ [a]) @ ?c # b # vs" using 1(2) by simp
  moreover have "?c \<notin> set (us @ [a])" using x [of ?c] by auto
  ultimately have "alloc_result base m qs size' (?c + 8) ?m qs'" using 1(1,4) by (intro alloc_resultI [OF H sz(2) f(2), of _ _ "us @ [a]"]) auto
  with al show ?thesis by blast
qed

text \<open>
  C10: osRtxMemoryAlloc on a consistent heap, for every request of up to 2^32 - 16 bytes (from there on the rounding of
  the size wraps round, see osRtxMemoryAlloc_overflow): a request of no bytes or with a type beyond the two type bits, and one that no
  gap between two blocks can hold (rounded up, with its header), returns NULL and changes nothing. Otherwise the call
  returns an 8-byte aligned block of the requested size that lies inside the region and overlaps no allocated block,
  and the heap is consistent with exactly this block added and all others unchanged.
\<close>

theorem osRtxMemoryAlloc_spec:
  assumes H: "heap_ok base m qs" and sz: "unat size' + 15 < 2 ^ 32"
  shows "if size' = 0 \<or> type' AND NOT 3 \<noteq> 0 \<or> \<not> has_hole m (unat (need_of size')) (base + 8) qs
    then osRtxMemoryAlloc base size' type' m = Some (NULL, m)
    else \<exists>r m' qs'. osRtxMemoryAlloc base size' type' m = Some (r, m') \<and> heap_ok base m' qs' \<and>
      r AND 7 = 0 \<and> unat r + unat size' \<le> unat (last qs) \<and> last qs' = last qs \<and>
      r - 8 \<in> set (butlast ((base + 8) # qs')) \<and> blk_len m' (r - 8) = need_of size' \<and>
      set ((base + 8) # qs') = insert (r - 8) (set ((base + 8) # qs)) \<and>
      (\<forall>x\<in>set (butlast ((base + 8) # qs)). blk_len m x \<noteq> 0 \<longrightarrow> blk_len m' x = blk_len m x \<and>
        (unat x + unat (blk_len m x) \<le> unat (r - 8) \<or> unat r + unat size' \<le> unat x))"
proof (cases "size' = 0 \<or> type' AND NOT 3 \<noteq> 0")
  case True
  then have c: "size' = 0 \<or> type' AND NOT 3 \<noteq> 0 \<or> \<not> has_hole m (unat (need_of size')) (base + 8) qs" by blast
  have "osRtxMemoryAlloc base size' type' m = Some (NULL, m)" using True by (auto simp: osRtxMemoryAlloc_def)
  then show ?thesis unfolding if_P [OF c] .
next
  case valid: False
  then have v: "size' \<noteq> 0" "type' AND NOT 3 = 0" by simp_all
  note h = heap_okD [OF H]
  show ?thesis
  proof (cases "has_hole m (unat (need_of size')) (base + 8) qs")
    case False
    have "find_hole m (need_of size') (base + 8) = Some NULL" using find_hole_spec [OF h(2,5,4), of "need_of size'"] False by simp
    then have "osRtxMemoryAlloc base size' type' m = Some (NULL, m)"
      using h(1) v by (simp add: osRtxMemoryAlloc_def MemBlockPtr_def need_of_def Let_def)
    then show ?thesis using False by (simp only: simp_thms if_True)
  next
    case True
    obtain us a b vs where f: "find_hole m (need_of size') (base + 8) = Some a" "(base + 8) # qs = us @ a # b # vs" "a \<noteq> NULL"
      "unat a + unat (blk_len m a) + unat (need_of size') \<le> unat b" using find_hole_spec [OF h(2,5,4), of "need_of size'"] True by auto
    have "\<exists>r m' qs'. osRtxMemoryAlloc base size' type' m = Some (r, m') \<and> alloc_result base m qs size' r m' qs'"
      using alloc_unused_head [OF H v(1) sz v(2) f] alloc_behind [OF H v(1) sz v(2) f] by blast
    then show ?thesis using True v unfolding alloc_result_def by (simp only: simp_thms if_False)
  qed
qed

theorem osRtxMemoryAlloc_spec_witness:
  "\<exists>m r m' qs'. osRtxMemoryInit 0x1000 0x100 (\<lambda>_. 0) = (1, m) \<and> osRtxMemoryAlloc 0x1000 20 1 m = Some (r, m') \<and>
     heap_ok 0x1000 m' qs' \<and> blk_len m' (r - 8) = 32"
proof -
  let ?m = "(\<lambda>_. 0)(0x1000 := 0x100, 0x1004 := 16, 0x1008 := 0x10F8, 0x10F8 := 0, 0x10FC := 16, 0x100C := 0) :: ptr \<Rightarrow> u32"
  have i: "osRtxMemoryInit 0x1000 0x100 (\<lambda>_. 0) = (1, ?m)" by (simp add: osRtxMemoryInit_def MemBlockPtr_def Let_def)
  have H: "heap_ok 0x1000 ?m [0x10F8]" by (simp add: heap_ok_def blk_len_def)
  have n: "need_of 20 = 32" by (simp add: need_of_def)
  have v: "unat (20 :: u32) + 15 < 2 ^ 32" "\<not> ((20 :: u32) = 0 \<or> (1 :: u32) AND NOT 3 \<noteq> 0 \<or>
      \<not> has_hole ?m (unat (need_of 20)) (0x1000 + 8) [0x10F8])" by (simp_all add: n blk_len_def)
  from osRtxMemoryAlloc_spec [OF H v(1), of 1] n i show ?thesis unfolding if_not_P [OF v(2)] by auto
qed

lemma free_steps:
  assumes H: "heap_ok base m qs" and b: "block \<noteq> NULL" and l: "(base + 8) # qs = us @ (block - 8) # x # vs"
    and m1: "m1 = m(base + 4 := m (base + 4) - blk_len m (block - 8))"
  shows "osRtxMemoryFree base block m = Some (1, if last (NULL # us) = NULL then m1(block - 8 + 4 := 0)
    else m1(last (NULL # us) := m (block - 8)))"
proof -
  note h = heap_okD [OF H]
  have hb: "block - 8 \<in> set (butlast ((base + 8) # qs))" unfolding l by (simp add: butlast_append)
  show ?thesis using h(1) b find_block_in [OF h(2) l, of NULL] heap_stat(2) [OF H disjI1 hb, OF m1]
    by (simp add: osRtxMemoryFree_def MemBlockPtr_def blk_len_def Let_def m1)
qed

lemma free_marker:
  assumes H: "heap_ok base m qs" and b: "block \<noteq> NULL" and l: "block - 8 = last qs"
  shows "\<exists>m'. osRtxMemoryFree base block m = Some (1, m') \<and> m' (last (butlast ((base + 8) # qs))) = NULL"
proof -
  note h = heap_okD [OF H]
  let ?p = "last (butlast ((base + 8) # qs))"
  have q: "(base + 8) # qs = butlast ((base + 8) # qs) @ (block - 8) # []" using h(5) l append_butlast_last_id [of "(base + 8) # qs"] by simp
  have n: "butlast ((base + 8) # qs) \<noteq> []" using h(5) by simp
  then have p: "?p \<in> set ((base + 8) # qs)" by (meson in_set_butlastD last_in_set)
  have pn: "?p \<noteq> NULL" using h(7) [OF p] by (auto simp: word_less_nat_alt)
  have e: "m (block - 8) = NULL" using chain_end [OF h(2)] h(5) l by simp
  have ne: "block - 8 \<noteq> base + 4" using h(5,7) l by (metis last_in_set list.set_intros(2))
  have "osRtxMemoryFree base block m = Some (1, (m(base + 4 := m (base + 4) - blk_len m (block - 8)))(?p := NULL))"
    using h(1) b find_block_in [OF h(2) q, of NULL] n pn e ne
    by (simp add: osRtxMemoryFree_def MemBlockPtr_def blk_len_def Let_def)
  then show ?thesis by simp
qed

lemma free_first:
  assumes H: "heap_ok base m qs" and b: "block \<noteq> NULL" and l: "(base + 8) # qs = (block - 8) # x # vs"
  shows "\<exists>m' qs'. osRtxMemoryFree base block m = Some (1, m') \<and> free_result base m qs (block - 8) m' qs'"
proof -
  let ?p = "base + 8" and ?h = "block - 8"
  note h = heap_okD [OF H]
  let ?m1 = "m(base + 4 := m (base + 4) - blk_len m ?h)"
  note st = heap_stat [OF H disjI1, of ?m1, OF refl]
  note h1 = heap_okD [OF st(1)]
  have hb: "?h \<in> set (butlast (?p # qs))" unfolding l by (simp add: butlast_append)
  have hh: "?h \<in> set (?p # qs)" by (rule in_set_butlastD [OF hb])
  have al: "y + 4 \<noteq> z" if "y \<in> set (?p # qs)" "z \<in> set (?p # qs)" for y z
    using aligned_plus4 h(7) that by blast
  have l': "?p # qs = [] @ ?h # x # vs" using l by simp
  have hp: "?h = ?p" and q: "qs = x # vs" using l by auto
  have ne: "?h + 4 \<noteq> base" "?h + 4 \<noteq> base + 4" using h(7) [OF hh] by auto
  have f: "osRtxMemoryFree base block m = Some (1, ?m1(?h + 4 := 0))" using free_steps [OF H b l' refl] by simp
  let ?m = "?m1(?h + 4 := 0)"
  have c: "heap_chain ?m ?p qs"
  proof (rule chain_info [OF h1(2,3) l' refl])
    show "unat ?h + unat (0 AND MB_INFO_LEN_MASK) \<le> unat x"
      using h(2) unfolding q hp by (simp add: word_less_nat_alt)
  qed simp_all
  have "heap_ok base ?m qs" by (rule heap_ok_change [OF H c _ refl h(5)]) (use st(3) ne in auto)
  moreover have "blk_len ?m y = blk_len m y" if "y \<in> set (butlast (?p # qs))" "y \<noteq> ?h" for y
  proof -
    have "8 + y \<noteq> block" using that(2) by (auto simp: algebra_simps)
    then show ?thesis
      using st(2) [OF that(1)] that(2) al [OF in_set_butlastD [OF that(1)] hh] al [of ?h y] by (simp add: blk_len_def)
  qed
  moreover have "osRtxMemoryFree base block m = Some (1, ?m)" by (rule f)
  moreover have "if ?h = ?p then qs = qs \<and> blk_len ?m ?p = 0 else qs = remove1 ?h qs" using hp by (simp add: blk_len_def)
  moreover have "?m (base + 4) = m (base + 4) - blk_len m ?h" using ne by simp
  ultimately show ?thesis unfolding free_result_def by blast
qed

lemma free_inner:
  assumes H: "heap_ok base m qs" and b: "block \<noteq> NULL" and l: "(base + 8) # qs = us' @ a # (block - 8) # x # vs"
  shows "\<exists>m' qs'. osRtxMemoryFree base block m = Some (1, m') \<and> free_result base m qs (block - 8) m' qs'"
proof -
  let ?p = "base + 8" and ?h = "block - 8"
  note h = heap_okD [OF H]
  let ?m1 = "m(base + 4 := m (base + 4) - blk_len m ?h)"
  note st = heap_stat [OF H disjI1, of ?m1, OF refl]
  note h1 = heap_okD [OF st(1)]
  have hb: "?h \<in> set (butlast (?p # qs))" unfolding l by (simp add: butlast_append)
  have hh: "?h \<in> set (?p # qs)" by (rule in_set_butlastD [OF hb])
  have al: "y + 4 \<noteq> z" if "y \<in> set (?p # qs)" "z \<in> set (?p # qs)" for y z
    using aligned_plus4 h(7) that by blast
  have l'': "?p # qs = (us' @ [a]) @ ?h # x # vs" using l by simp
  have aq: "a \<in> set (?p # qs)" "a \<in> set (butlast (?p # qs))"
  proof -
    have "butlast (?p # qs) = us' @ a # ?h # butlast (x # vs)" unfolding l by (simp add: butlast_append)
    then show "a \<in> set (butlast (?p # qs))" by simp
    then show "a \<in> set (?p # qs)" by (rule in_set_butlastD)
  qed
  have an: "a \<noteq> NULL" using h(7) [OF aq(1)] by (auto simp: word_less_nat_alt)
  have mh: "m ?h = x" using chain_tail [OF h(2) l''] by simp
  have f: "osRtxMemoryFree base block m = Some (1, ?m1(a := x))" using free_steps [OF H b l'' refl] an mh by simp
  let ?m = "?m1(a := x)"
  obtain qs' where 1: "heap_chain ?m ?p qs'" "?p # qs' = us' @ a # x # vs"
    using chain_remove [OF h1(2,3) l refl] by blast
  have d: "distinct (?p # qs)" by (rule chain_distinct [OF h(2)])
  have hp: "?h \<noteq> ?p" using l d by (cases us') auto
  have "remove1 ?h (?p # qs) = us' @ a # x # vs" using d unfolding l by (simp add: remove1_append)
  then have "remove1 ?h (?p # qs) = ?p # qs'" using 1(2) by (simp only:)
  then have qs': "qs' = remove1 ?h qs" using hp by simp
  have qn: "qs' \<noteq> []" using 1(2) by (cases us') auto
  have "last qs' = last qs" using 1(2) l qn h(5) by (metis last_ConsR last_appendR list.distinct(1))
  then have "heap_ok base ?m qs'"
    by (rule heap_ok_change [OF H 1(1) _ _ qn, rotated]) (use st(3) h(7) [OF aq(1)] in auto)
  moreover have "blk_len ?m y = blk_len m y" if "y \<in> set (butlast (?p # qs))" for y
    using st(2) [OF that] al [OF in_set_butlastD [OF that] aq(1)] by (simp add: blk_len_def)
  moreover have "?m (base + 4) = m (base + 4) - blk_len m ?h" using h(7) [OF aq(1)] by auto
  ultimately show ?thesis using f hp qs' unfolding free_result_def
    by - (rule exI [of _ ?m], rule exI [of _ qs'], simp)
qed

text \<open>
  C11: osRtxMemoryFree terminates on a consistent heap for every pointer but NULL. Where no header of the chain lies
  eight bytes before the pointer it returns 0 and changes nothing. For the block of a header it returns
  1, removes the header from the chain (the first header stays, marked empty; for it, this also holds when it
  is empty already), leaves all other blocks as they are and lowers the count of used bytes by the block's length, and the
  heap stays consistent. The end marker is not told from a header: for the pointer just behind it the call returns 1, too,
  and takes the marker out of the chain.
\<close>

theorem osRtxMemoryFree_spec:
  assumes H: "heap_ok base m qs" and b: "block \<noteq> NULL"
  shows "if block - 8 \<notin> set ((base + 8) # qs) then osRtxMemoryFree base block m = Some (0, m)
    else if block - 8 = last qs then
      \<exists>m'. osRtxMemoryFree base block m = Some (1, m') \<and> m' (last (butlast ((base + 8) # qs))) = NULL
    else
      \<exists>m' qs'. osRtxMemoryFree base block m = Some (1, m') \<and> heap_ok base m' qs' \<and>
        (if block - 8 = base + 8 then qs' = qs \<and> blk_len m' (base + 8) = 0 else qs' = remove1 (block - 8) qs) \<and>
        m' (base + 4) = m (base + 4) - blk_len m (block - 8) \<and>
        (\<forall>x\<in>set (butlast ((base + 8) # qs)). x \<noteq> block - 8 \<longrightarrow> blk_len m' x = blk_len m x)"
proof (cases "block - 8 \<in> set ((base + 8) # qs)")
  case False
  note h = heap_okD [OF H]
  show ?thesis using find_block_none [OF h(2)] h(1) b False by (simp add: osRtxMemoryFree_def MemBlockPtr_def)
next
  case inside: True
  show ?thesis
  proof (cases "block - 8 = last qs")
    case True
    then have "\<exists>m'. osRtxMemoryFree base block m = Some (1, m') \<and> m' (last (butlast ((base + 8) # qs))) = NULL"
      by (rule free_marker [OF H b])
    then show ?thesis using inside True by (simp only: simp_thms if_False if_True)
  next
    case False
    note h = heap_okD [OF H]
    have "block - 8 \<in> set (butlast ((base + 8) # qs))"
      using inside False append_butlast_last_id [of "(base + 8) # qs"] h(5)
      by (metis Un_iff empty_iff last_ConsR list.distinct(1) set_ConsD set_append list.set(1))
    then obtain us vs0 where "butlast ((base + 8) # qs) = us @ (block - 8) # vs0" using split_list by metis
    then have "(base + 8) # qs = us @ (block - 8) # vs0 @ [last ((base + 8) # qs)]"
      using append_butlast_last_id [of "(base + 8) # qs"] by (metis append.assoc append_Cons list.distinct(1))
    then obtain x vs where l: "(base + 8) # qs = us @ (block - 8) # x # vs" by (cases "vs0 @ [last ((base + 8) # qs)]") auto
    have "\<exists>m' qs'. osRtxMemoryFree base block m = Some (1, m') \<and> free_result base m qs (block - 8) m' qs'"
    proof (cases us rule: rev_cases)
      case Nil then show ?thesis using free_first [OF H b, of x vs] l by simp
    next
      case (snoc us' a) then show ?thesis using free_inner [OF H b, of us' a x vs] l by simp
    qed
    then show ?thesis using inside False unfolding free_result_def by (simp only: simp_thms if_False)
  qed
qed

theorem osRtxMemoryFree_spec_witness:
  "\<exists>m'. osRtxMemoryFree 0x1000 0x1030 ((\<lambda>_. 0)(0x1000 := 0x100, 0x1004 := 80, 0x1008 := 0x1028, 0x100C := 33,
       0x1028 := 0x10F8, 0x102C := 33)) = Some (1, m') \<and> heap_ok 0x1000 m' [0x10F8] \<and> m' 0x1004 = 48 \<and> blk_len m' 0x1008 = 32"
proof -
  let ?m = "(\<lambda>_. 0)(0x1000 := 0x100, 0x1004 := 80, 0x1008 := 0x1028, 0x100C := 33, 0x1028 := 0x10F8, 0x102C := 33) :: ptr \<Rightarrow> u32"
  have H: "heap_ok 0x1000 ?m [0x1028, 0x10F8]" by (simp add: heap_ok_def blk_len_def)
  have b: "(0x1030 :: ptr) \<noteq> NULL" by simp
  show ?thesis using osRtxMemoryFree_spec [OF H b] by (auto simp: blk_len_def)
qed

text \<open>
  C38: osRtxMemoryAlloc does not guard the rounding of the size against overflow: for the sizes from 0xFFFFFFF1 to
  0xFFFFFFF8 the rounded size is zero, and on every consistent heap the call succeeds, returning a pointer that is not
  NULL to a block without any space.
\<close>

theorem osRtxMemoryAlloc_overflow:
  assumes H: "heap_ok base m qs" and sz: "0xFFFFFFF1 \<le> unat size'" "unat size' \<le> 0xFFFFFFF8" and ty: "type' AND NOT 3 = 0"
  shows "\<exists>r m'. osRtxMemoryAlloc base size' type' m = Some (r, m') \<and> r \<noteq> NULL \<and> blk_len m' (r - 8) = 0"
proof -
  note h = heap_okD [OF H]
  have s0: "size' \<noteq> 0" using sz by auto
  have t3: "type' AND NOT MB_INFO_TYPE_MASK = 0" using ty by simp
  have "size' + 8 + 7 = size' + 15" by simp
  moreover have "unat (size' + 15) = unat size' + 15 - 2 ^ 32" using sz unat_plus_if' [of size' 15] by simp
  ultimately have "unat (need_of size') = (unat size' + 15 - 2 ^ 32) - (unat size' + 15 - 2 ^ 32) mod 8"
    unfolding need_of_def and_not7 by (simp only:)
  moreover have "unat size' + 15 - 2 ^ 32 < 8" using sz by simp
  ultimately have "unat (need_of size') = 0" by simp
  then have n0: "need_of size' = 0" by (simp add: unat_eq_0)
  obtain q rs where q: "qs = q # rs" using h(5) by (cases qs) auto
  have "unat (base + 8) + unat (blk_len m (base + 8)) \<le> unat q" using h(2) q by simp
  then have hole: "has_hole m (unat (need_of size')) (base + 8) qs" using q n0 by simp
  obtain us a b vs where f: "find_hole m (need_of size') (base + 8) = Some a" "(base + 8) # qs = us @ a # b # vs" "a \<noteq> NULL"
    using find_hole_spec [OF h(2,5,4), of "need_of size'"] hole by auto
  obtain m2 where m2: "heap_count base (need_of size') m = m2" by blast
  have "(0xFFFFFFFC :: u32) = NOT 3" by simp
  then have tl: "type' AND MB_INFO_LEN_MASK = 0" using ty by (simp only:)
  let ?c = "a + (m2 (a + 4) AND MB_INFO_LEN_MASK)"
  have ab: "a \<in> set ((base + 8) # qs)" "b \<in> set ((base + 8) # qs)" unfolding f(2) by simp_all
  show ?thesis
  proof (cases "m2 (a + 4) = 0")
    case True
    then show ?thesis using behind_nonnull [OF H ab(1) order_refl] Alloc_steps [OF h(1) s0 t3 f(1,3) m2 refl refl] n0 tl by (simp add: blk_len_def)
  next
    case False
    have a2: "m2 (a + 4) = m (a + 4)" "blk_len m a AND 7 = 0" "a AND 7 = 0" "unat a + unat (blk_len m a) \<le> unat b"
    proof -
      have m2': "m2 = m(base + 4 := m (base + 4) + need_of size') \<or>
          m2 = m(base + 4 := m (base + 4) + need_of size', last qs + 4 := m (base + 4) + need_of size')"
        unfolding m2 [symmetric] heap_count_def Let_def using h(6) by (auto simp: fun_upd_same)
      have "a \<in> set (butlast ((base + 8) # qs))" unfolding f(2) by (simp add: butlast_append)
      then show "m2 (a + 4) = m (a + 4)" using heap_stat(2) [OF H m2'] by blast
      show "blk_len m a AND 7 = 0" "unat a + unat (blk_len m a) \<le> unat b" using chain_tail [OF h(2) f(2)] by simp_all
      show "a AND 7 = 0" using h(7) [of a] f(2) by auto
    qed
    have "?c AND 7 = 0"
      using aligned_add [OF a2(3,2)] a2(1,4) unat32 [of b] by (simp add: blk_len_def)
    then have "?c + 4 \<noteq> a" using aligned_plus4 a2(3) by blast
    then have "4 + (m2 (a + 4) AND MB_INFO_LEN_MASK) \<noteq> 0" by (simp add: add.commute)
    moreover have "unat ?c \<le> unat b"
      using a2(1,4) unat_add32 [of a "blk_len m a"] unat32 [of b] by (simp add: blk_len_def)
    ultimately show ?thesis using behind_nonnull [OF H ab(2), of ?c] Alloc_steps [OF h(1) s0 t3 f(1,3) m2 refl refl] n0 tl False
      by (simp add: blk_len_def Let_def)
  qed
qed

theorem osRtxMemoryAlloc_overflow_witness:
  "\<exists>r m'. osRtxMemoryAlloc 0x1000 0xFFFFFFF8 0 ((\<lambda>_. 0)(0x1000 := 0x100, 0x1008 := 0x10F8)) = Some (r, m') \<and>
     r \<noteq> NULL \<and> blk_len m' (r - 8) = 0"
proof -
  have H: "heap_ok 0x1000 ((\<lambda>_. 0)(0x1000 := 0x100, 0x1008 := 0x10F8)) [0x10F8]" by (simp add: heap_ok_def blk_len_def)
  show ?thesis by (rule osRtxMemoryAlloc_overflow [OF H]) simp_all
qed

section \<open>Pools of blocks\<close>

text \<open>
  What the users of a pool rely on: allocation takes the first free block or fails, and a block
  given back is the first to be taken again.
\<close>

locale block_pool =
  fixes rep :: "'s \<Rightarrow> 'a list \<Rightarrow> bool" and alloc :: "'s \<Rightarrow> 'a \<times> 's" and free :: "'a \<Rightarrow> 's \<Rightarrow> 'r \<times> 's"
    and none :: 'a and ok :: 'r and blocks :: "'a set"
  assumes alloc_ok: "rep s (b # fs) \<Longrightarrow> \<exists>s'. alloc s = (b, s') \<and> rep s' fs"
    and alloc_none: "rep s [] \<Longrightarrow> alloc s = (none, s)"
    and free_ok: "rep s fs \<Longrightarrow> b \<in> blocks \<Longrightarrow> b \<notin> set fs \<Longrightarrow> \<exists>s'. free b s = (ok, s') \<and> rep s' (b # fs)"
begin

lemma alloc_many: "rep s fs \<Longrightarrow> \<exists>s'. alloc_n alloc (length fs + k) s = (fs @ replicate k none, s') \<and> rep s' []"
proof (induction fs arbitrary: s)
  case Nil
  then have "alloc_n alloc k s = (replicate k none, s)" by (induction k) (simp_all add: alloc_none)
  with Nil show ?case by simp
next
  case (Cons b fs)
  obtain s1 where 1: "alloc s = (b, s1)" "rep s1 fs" using alloc_ok Cons.prems by blast
  obtain s2 where "alloc_n alloc (length fs + k) s1 = (fs @ replicate k none, s2)" "rep s2 []" using Cons.IH [OF 1(2)] by blast
  with 1 show ?case by simp
qed

lemma free_many:
  "rep s fs \<Longrightarrow> distinct bs \<Longrightarrow> set bs \<subseteq> blocks - set fs \<Longrightarrow>
   \<exists>s'. free_all free bs s = (replicate (length bs) ok, s') \<and> rep s' (rev bs @ fs)"
proof (induction bs arbitrary: s fs)
  case (Cons b bs)
  obtain s1 where 1: "free b s = (ok, s1)" "rep s1 (b # fs)" using free_ok [OF Cons.prems(1), of b] Cons.prems(3) by auto
  have "distinct bs" "set bs \<subseteq> blocks - set (b # fs)" using Cons.prems(2,3) by auto
  then obtain s2 where "free_all free bs s1 = (replicate (length bs) ok, s2)" "rep s2 (rev bs @ b # fs)"
    using Cons.IH [OF 1(2)] by blast
  with 1 show ?case by simp
qed simp

text \<open>All blocks out, some back in, and out again.\<close>

lemma cycle:
  assumes r: "rep s fs" and bs: "distinct bs" "set bs \<subseteq> blocks"
  shows "\<exists>s2 s3 s4. alloc_n alloc (length fs + k) s = (fs @ replicate k none, s2) \<and>
    free_all free bs s2 = (replicate (length bs) ok, s3) \<and> alloc_n alloc (length bs) s3 = (rev bs, s4)"
proof -
  obtain s2 where 2: "alloc_n alloc (length fs + k) s = (fs @ replicate k none, s2)" "rep s2 []"
    using alloc_many [OF r] by blast
  obtain s3 where 3: "free_all free bs s2 = (replicate (length bs) ok, s3)" "rep s3 (rev bs @ [])"
    using free_many [OF 2(2) bs(1)] bs(2) by auto
  obtain s4 where "alloc_n alloc (length bs) s3 = (rev bs, s4)" using alloc_many [of s3 "rev bs" 0] 3(2) by auto
  with 2 3 show ?thesis by blast
qed

end

section \<open>The pools of rtx_mempool.c\<close>

interpretation mempool: block_pool "pool_rep i B" "osRtxMemoryPoolAlloc i" "osRtxMemoryPoolFree i" NULL osOK B for i B
proof
  fix s b fs assume r: "pool_rep i B s (b # fs)"
  then have u: "used_blocks s i < max_blocks s i" "unat (used_blocks s i + 1) = unat (used_blocks s i) + 1"
  proof -
    have "unat (used_blocks s i) < unat (max_blocks s i)" using r by (simp add: pool_rep_def)
    then show "used_blocks s i < max_blocks s i" by (simp add: word_less_nat_alt)
    then show "unat (used_blocks s i + 1) = unat (used_blocks s i) + 1"
      using unat_add32 [of "used_blocks s i" 1] unat32 [of "max_blocks s i"] by (simp add: word_less_nat_alt)
  qed
  have bn: "b \<noteq> NULL" and hd: "block_free s i = b" and fw: "forward ((mem s)(NULL := b)) b fs" "distinct (b # fs)" "set (b # fs) \<subseteq> B" "NULL \<notin> B"
    using r by (auto simp: pool_rep_def)
  have n: "NULL \<notin> set fs" using fw by auto
  have "mem s b = after fs" using forward_at [of "(mem s)(NULL := b)" b "[]" fs] fw(1) bn by simp
  moreover have "forward ((mem s)(NULL := mem s b)) NULL fs"
  proof (cases fs)
    case Nil then show ?thesis using calculation by simp
  next
    case (Cons c cs)
    then have "forward ((mem s)(NULL := b)) c cs" "c \<noteq> NULL" "mem s b = c" using fw(1) bn n by auto
    moreover have "forward ((mem s)(NULL := c)) c cs = forward ((mem s)(NULL := b)) c cs"
      by (rule forward_cong) (use n Cons in auto)
    ultimately show ?thesis using Cons by simp
  qed
  ultimately show "\<exists>s'. osRtxMemoryPoolAlloc i s = (b, s') \<and> pool_rep i B s' fs"
    using r u bn hd by (auto simp: pool_rep_def osRtxMemoryPoolAlloc_def link_get_def atomic_inc32_lt_def Let_def)
next
  fix s assume r: "pool_rep i B s []"
  then have "unat (used_blocks s i) = unat (max_blocks s i)" by (simp add: pool_rep_def)
  then have "used_blocks s i = max_blocks s i" by (rule unsigned_word_eqI)
  then show "osRtxMemoryPoolAlloc i s = (NULL, s)"
    using r by (simp add: pool_rep_def osRtxMemoryPoolAlloc_def atomic_inc32_lt_def Let_def fun_upd_idem)
next
  fix s fs b assume r: "pool_rep i B s fs" and b: "b \<in> B" "b \<notin> set fs"
  have "length fs = card (set fs)" using r by (simp add: pool_rep_def distinct_card)
  also have "\<dots> < card B" using r b by (intro psubset_card_mono) (auto simp: pool_rep_def)
  finally have u: "used_blocks s i \<noteq> 0" using r by (auto simp: pool_rep_def)
  have rng: "\<not> b < block_base s i" "\<not> b \<ge> block_lim s i" "b \<noteq> NULL" "i \<noteq> NULL" using r b by (auto simp: pool_rep_def)
  have "forward ((mem s)(NULL := block_free s i)) NULL fs" "NULL \<notin> set fs" using r by (auto simp: pool_rep_def)
  then have "forward ((mem s)(b := block_free s i, NULL := b)) NULL (b # fs)"
  proof (cases fs)
    case (Cons c cs)
    then have "forward ((mem s)(NULL := block_free s i)) c cs" "c \<noteq> NULL" "block_free s i = c"
      using \<open>forward ((mem s)(NULL := block_free s i)) NULL fs\<close> by auto
    moreover have "forward ((mem s)(b := block_free s i, NULL := b)) c cs = forward ((mem s)(NULL := block_free s i)) c cs"
      by (rule forward_cong) (use \<open>NULL \<notin> set fs\<close> b Cons in auto)
    ultimately show ?thesis using Cons rng by simp
  qed (use rng in auto)
  then show "\<exists>s'. osRtxMemoryPoolFree i b s = (osOK, s') \<and> pool_rep i B s' (b # fs)"
    using r b u rng unat_minus_one [OF u] unat_gt_0 [of "used_blocks s i"]
    by (auto simp: pool_rep_def osRtxMemoryPoolFree_def link_put_def atomic_dec32_nz_def Let_def)
qed

text \<open>The blocks of a new pool.\<close>

lemma unat_mult32: "unat a * unat b < 2 ^ 32 \<Longrightarrow> unat (a * b :: u32) = unat a * unat b"
  by (simp add: unat_word_ariths)

lemma pool_blocks_Suc: "pool_blocks p (Suc n) b = p # pool_blocks (p + b) n b"
  unfolding pool_blocks_def by (subst upt_conv_Cons) (simp_all add: map_Suc_upt [symmetric] algebra_simps del: upt_Suc)

lemma pool_blocks_unat:
  assumes "unat (p :: u32) + n * unat (b :: u32) < 2 ^ 32" "k < n" shows "unat (p + of_nat k * b) = unat p + k * unat b"
proof -
  have "k * unat b \<le> n * unat b" using assms(2) by (simp add: mult_right_mono)
  then have s: "unat p + k * unat b < 2 ^ 32" using assms(1) by linarith
  have k: "unat (of_nat k :: u32) = k \<or> unat b = 0"
  proof (cases "unat b")
    case (Suc j)
    have "k \<le> k * Suc j" by simp
    then have "k < 2 ^ 32" using s unfolding Suc by linarith
    then show ?thesis by (simp add: unsigned_of_nat take_bit_nat_eq_self)
  qed simp
  then have "unat (of_nat k * b) = k * unat b"
  proof
    assume k: "unat (of_nat k :: u32) = k"
    then show ?thesis using unat_mult32 [of "of_nat k" b] s by simp
  next
    assume "unat b = 0"
    then have "b = 0" by (simp add: unat_eq_0)
    then show ?thesis by simp
  qed
  then show ?thesis using unat_add32 [of p "of_nat k * b"] s by simp
qed

lemma pool_blocks_distinct:
  assumes "unat p + n * unat b < 2 ^ 32" "b \<noteq> 0" shows "distinct (pool_blocks p n b)"
proof -
  have "inj_on (\<lambda>k. p + of_nat k * b) {0..<n}"
  proof (rule inj_onI)
    fix j k assume "j \<in> {0..<n}" "k \<in> {0..<n}" "p + of_nat j * b = p + of_nat k * b"
    then have "unat p + j * unat b = unat p + k * unat b" using pool_blocks_unat [OF assms(1)] by (metis atLeastLessThan_iff)
    moreover have "unat b \<noteq> 0" using assms(2) by (simp add: unat_eq_0)
    ultimately show "j = k" by simp
  qed
  then show ?thesis by (simp add: pool_blocks_def distinct_map)
qed

lemma in_pool_blocks:
  assumes "unat p + n * unat b < 2 ^ 32" "b \<noteq> 0" "x \<in> set (pool_blocks p n b)"
  shows "unat p \<le> unat x" "unat x < unat p + n * unat b"
proof -
  obtain k where k: "k < n" "x = p + of_nat k * b" using assms(3) by (auto simp: pool_blocks_def)
  then have u: "unat x = unat p + k * unat b" using pool_blocks_unat [OF assms(1)] by simp
  have "0 < unat b" using assms(2) by (simp add: unat_gt_0)
  then have "k * unat b < n * unat b" using k(1) by simp
  then show "unat p \<le> unat x" "unat x < unat p + n * unat b" using u by simp_all
qed

lemma link_blocks_spec:
  assumes "unat p + unat n * unat b < 2 ^ 32" "b \<noteq> 0" "p \<noteq> NULL" "n \<noteq> 0" "m' NULL = p"
    "\<And>x. x \<noteq> NULL \<Longrightarrow> m' x = link_blocks n b p m x"
  shows "forward m' NULL (pool_blocks p (unat n) b) \<and>
    (\<forall>x. x \<notin> set (pool_blocks p (unat n) b) \<longrightarrow> link_blocks n b p m x = m x)"
  using assms
proof (induction "unat n - 1" arbitrary: n p m m')
  case 0
  then have "unat n = 1" using unat_gt_0 [of n] by simp
  then have n: "n = 1" by (metis unsigned_1 unsigned_word_eqI)
  then have "link_blocks n b p m = m(p := NULL)" by (subst link_blocks.simps) simp
  then show ?case using 0 n by (simp add: pool_blocks_def)
next
  case (Suc k)
  note P = Suc.prems
  have n1: "n - 1 \<noteq> 0" "unat (n - 1) = unat n - 1" using Suc.hyps(2) unat_minus_one [OF P(4)] by auto
  have un: "unat n = Suc (unat (n - 1))" "k = unat (n - 1) - 1" using n1 Suc.hyps(2) by simp_all
  have pb: "pool_blocks p (unat n) b = p # pool_blocks (p + b) (unat (n - 1)) b" unfolding un(1) pool_blocks_Suc ..
  have sum: "unat p + unat b + unat (n - 1) * unat b < 2 ^ 32" using P(1) un(1) by (simp add: algebra_simps)
  then have up: "unat (p + b) = unat p + unat b" by (intro unat_add32) simp
  have "unat p \<noteq> 0" using P(3) by (simp add: unat_eq_0)
  then have pbn: "p + b \<noteq> NULL" using up by (metis add_is_0 unsigned_0)
  have d: "distinct (pool_blocks p (unat n) b)" by (rule pool_blocks_distinct [OF P(1,2)])
  have l: "link_blocks n b p m = link_blocks (n - 1) b (p + b) (m(p := p + b))"
    using n1 by (subst link_blocks.simps) (simp add: Let_def)
  have s': "unat (p + b) + unat (n - 1) * unat b < 2 ^ 32" using sum up by simp
  have IH: "forward (m'(NULL := p + b)) NULL (pool_blocks (p + b) (unat (n - 1)) b) \<and>
    (\<forall>x. x \<notin> set (pool_blocks (p + b) (unat (n - 1)) b) \<longrightarrow> link_blocks (n - 1) b (p + b) (m(p := p + b)) x = (m(p := p + b)) x)"
    by (rule Suc.hyps(1) [OF un(2) s' P(2) pbn n1(1)]) (use P(6) l in auto)
  have "p \<notin> set (pool_blocks (p + b) (unat (n - 1)) b)" using d unfolding pb by simp
  then have mp: "m' p = p + b" using IH P(3,6) l by simp
  obtain xs where xs: "pool_blocks (p + b) (unat (n - 1)) b = (p + b) # xs"
  proof -
    obtain j where "unat (n - 1) = Suc j" using n1(1) by (cases "unat (n - 1)") (simp_all add: unat_eq_0)
    then show thesis using that pool_blocks_Suc [of "p + b" j b] by simp
  qed
  have nx: "NULL \<notin> set xs" using IH forward_nonnull xs by (metis list.set_intros(2))
  have "forward m' (p + b) xs"
    using IH unfolding xs by (auto simp: pbn nx)
  then have "forward m' NULL (p # (p + b) # xs)" using P(3,5) mp pbn by simp
  moreover have "link_blocks n b p m x = m x" if "x \<notin> set (p # (p + b) # xs)" for x
    using IH that unfolding xs l by simp
  ultimately show ?case unfolding pb xs by blast
qed

lemma pool_init:
  assumes "i \<noteq> NULL" "p \<noteq> NULL" "n \<noteq> 0" "b \<noteq> 0" "unat p + unat n * unat b < 2 ^ 32"
  obtains s' where "osRtxMemoryPoolInit i n b p s = (1, s')"
    "pool_rep i (set (pool_blocks p (unat n) b)) s' (pool_blocks p (unat n) b)"
proof -
  let ?B = "pool_blocks p (unat n) b"
  let ?s = "snd (osRtxMemoryPoolInit i n b p s)"
  have f: "osRtxMemoryPoolInit i n b p s = (1, ?s)" "mem ?s = link_blocks n b p (mem s)" "block_free ?s i = p"
    "used_blocks ?s i = 0" "max_blocks ?s i = n" "block_base ?s i = p" "block_lim ?s i = p + n * b"
    using assms by (simp_all add: osRtxMemoryPoolInit_def Let_def)
  have ul: "unat (p + n * b) = unat p + unat n * unat b"
  proof -
    have "unat (n * b) = unat n * unat b" using unat_mult32 [of n b] assms(5) by simp
    then show ?thesis using unat_add32 [of p "n * b"] assms(5) by simp
  qed
  have "forward ((mem ?s)(NULL := block_free ?s i)) NULL ?B"
    using link_blocks_spec [OF assms(5,4,2,3), of "(mem ?s)(NULL := block_free ?s i)" "mem s"] f(2,3) by simp
  moreover have d: "distinct ?B" by (rule pool_blocks_distinct [OF assms(5,4)])
  moreover have r: "p \<le> x \<and> x < p + n * b \<and> x \<noteq> NULL" if "x \<in> set ?B" for x
    using in_pool_blocks [OF assms(5,4) that] ul assms(2) by (auto simp: word_le_nat_alt word_less_nat_alt unat_eq_0)
  moreover have "length ?B = unat n" by (simp add: pool_blocks_def)
  ultimately have "pool_rep i (set ?B) ?s ?B"
    using assms(1) f distinct_card [OF d] by (auto simp: pool_rep_def)
  with f(1) show thesis by (rule that)
qed

text \<open>
  C18: A memory pool works as a stack of its blocks. After osRtxMemoryPoolInit with any number of blocks of a word aligned area
  that fits into the address space, their size a multiple of four (the object constructors round it up), osRtxMemoryPoolAlloc
  returns each block exactly once, pairwise distinct and inside the area, then NULL as often as it is called; blocks given back with
  osRtxMemoryPoolFree, in any order and number, are accepted and can be allocated again, the last one first.
\<close>

theorem memory_pool_cycle:
  assumes i: "i \<noteq> NULL" "p \<noteq> NULL" "n \<noteq> 0" "b \<noteq> 0" "unat p + unat n * unat b < 2 ^ 32"
    and al: "p AND 3 = 0" "b AND 3 = 0"
    and bs: "distinct bs" "set bs \<subseteq> set (pool_blocks p (unat n) b)"
  shows "\<exists>s1 s2 s3 s4. osRtxMemoryPoolInit i n b p s = (1, s1) \<and> distinct (pool_blocks p (unat n) b) \<and>
    (\<forall>x\<in>set (pool_blocks p (unat n) b). unat p \<le> unat x \<and> unat x < unat p + unat n * unat b) \<and>
    alloc_n (osRtxMemoryPoolAlloc i) (unat n + k) s1 = (pool_blocks p (unat n) b @ replicate k NULL, s2) \<and>
    free_all (osRtxMemoryPoolFree i) bs s2 = (replicate (length bs) osOK, s3) \<and>
    alloc_n (osRtxMemoryPoolAlloc i) (length bs) s3 = (rev bs, s4)"
proof -
  obtain s1 where 1: "osRtxMemoryPoolInit i n b p s = (1, s1)"
    "pool_rep i (set (pool_blocks p (unat n) b)) s1 (pool_blocks p (unat n) b)" by (rule pool_init [OF i])
  have l: "length (pool_blocks p (unat n) b) = unat n" by (simp add: pool_blocks_def)
  show ?thesis
    using mempool.cycle [OF 1(2) bs, of k] 1(1) l pool_blocks_distinct [OF i(5,4)] in_pool_blocks [OF i(5,4)] by auto
qed

theorem memory_pool_cycle_witness:
  "\<exists>s1 s2 s3 s4. osRtxMemoryPoolInit 0x100 3 8 0x2000 (undefined :: rtx) = (1, s1) \<and>
     alloc_n (osRtxMemoryPoolAlloc 0x100) (3 + 1) s1 = ([0x2000, 0x2008, 0x2010, 0], s2) \<and>
     free_all (osRtxMemoryPoolFree 0x100) [0x2000, 0x2010] s2 = ([osOK, osOK], s3) \<and>
     alloc_n (osRtxMemoryPoolAlloc 0x100) 2 s3 = ([0x2010, 0x2000], s4)"
proof -
  have b: "pool_blocks 0x2000 3 8 = [0x2000, 0x2008, 0x2010]"
    by (simp add: pool_blocks_def upt_rec)
  have v: "(0x100 :: ptr) \<noteq> NULL" "(0x2000 :: ptr) \<noteq> NULL" "(3 :: u32) \<noteq> 0" "(8 :: u32) \<noteq> 0"
    "unat (0x2000 :: ptr) + unat (3 :: u32) * unat (8 :: u32) < 2 ^ 32" "(0x2000 :: ptr) AND 3 = 0" "(8 :: u32) AND 3 = 0"
    "distinct [0x2000, 0x2010 :: ptr]"
    by simp_all
  have sub: "set [0x2000, 0x2010] \<subseteq> set (pool_blocks 0x2000 (unat (3 :: u32)) 8)" by (simp add: b)
  from memory_pool_cycle [OF v sub, of undefined 1]
  obtain s1 s2 s3 s4 where 1: "osRtxMemoryPoolInit 0x100 3 8 0x2000 (undefined :: rtx) = (1, s1)"
    "alloc_n (osRtxMemoryPoolAlloc 0x100) (unat (3 :: u32) + 1) s1 = (pool_blocks 0x2000 (unat (3 :: u32)) 8 @ replicate 1 NULL, s2)"
    "free_all (osRtxMemoryPoolFree 0x100) [0x2000, 0x2010] s2 = (replicate (length [0x2000, 0x2010 :: ptr]) osOK, s3)"
    "alloc_n (osRtxMemoryPoolAlloc 0x100) (length [0x2000, 0x2010 :: ptr]) s3 = (rev [0x2000, 0x2010], s4)"
    by (elim exE conjE)
  have "alloc_n (osRtxMemoryPoolAlloc 0x100) (3 + 1) s1 = ([0x2000, 0x2008, 0x2010, 0], s2)"
    using 1(2) by (simp add: b del: alloc_n.simps)
  moreover have "free_all (osRtxMemoryPoolFree 0x100) [0x2000, 0x2010] s2 = ([osOK, osOK], s3)"
    using 1(3) by (simp del: free_all.simps)
  moreover have "alloc_n (osRtxMemoryPoolAlloc 0x100) 2 s3 = ([0x2010, 0x2000], s4)"
    using 1(4) by (simp add: numeral_2_eq_2 del: alloc_n.simps)
  ultimately show ?thesis using 1(1) by blast
qed

end
