(* ===== verification/RtxMemPool.thy ===== *)
theory RtxMemPool
  imports RtxSystem MemInv
begin

text \<open>
  Memory pool objects (service calls, interrupt calls and public API of rtx_mempool.c): a pool
  of equal blocks on which threads can wait for a free block. The address of a pool's mp_info is
  that of the pool plus 12.
\<close>

unbundle bit_operations_syntax

section \<open>Operations\<close>

abbreviation (input) "sizeof_mempool \<equiv> 36 :: u32"

abbreviation mp_info :: "ptr \<Rightarrow> ptr" where
  "mp_info p \<equiv> p + 12"

record mp_attr = os_attr +
  mp_mem :: ptr
  mp_size :: u32

definition clz :: "u32 \<Rightarrow> nat" where
  "clz w = length (takeWhile (\<lambda>i. \<not> bit w i) (rev [0..<32]))"

definition osRtxMemoryPoolPostProcess :: "ptr \<Rightarrow> rtx \<Rightarrow> rtx option" where
  "osRtxMemoryPoolPostProcess mp s =
     (if ob_state s mp = osRtxObjectInactive then Some s
      else if thread_list s mp \<noteq> NULL then
        let (block, s) = osRtxMemoryPoolAlloc (mp_info mp) s
        in if block \<noteq> NULL then do {
             (thread, s) \<leftarrow> osRtxThreadListGet mp s;
             osRtxThreadWaitExit thread block False s
           } else Some s
      else Some s)"

text \<open>The check of an optional data area, as for control blocks.\<close>

definition data_valid :: "ptr \<Rightarrow> u32 \<Rightarrow> u32 \<Rightarrow> bool" where
  "data_valid p sz need =
     (if p \<noteq> NULL then p AND 3 = 0 \<and> \<not> sz < need else sz = 0)"

text \<open>
  Allocation of the control block and of the data area, undone when the data area cannot be
  had. \<open>mpi\<close> is the pool of control blocks, \<open>area\<close> the memory for data.
\<close>

definition zero_words :: "ptr \<Rightarrow> u32 \<Rightarrow> (ptr \<Rightarrow> 'a::zero) \<Rightarrow> ptr \<Rightarrow> 'a" where
  "zero_words p n m = (\<lambda>a. if a - p < n then 0 else m a)"

definition object_alloc ::
    "ptr \<Rightarrow> u32 \<Rightarrow> ptr \<Rightarrow> ptr \<Rightarrow> ptr \<Rightarrow> u32 \<Rightarrow> rtx \<Rightarrow> (ptr \<times> ptr \<times> u8 \<times> rtx) option" where
  "object_alloc mpi cbs area obj data n s = do {
     (obj, flags, s) \<leftarrow>
       (if obj = NULL then do {
          (p, s) \<leftarrow> cb_alloc mpi cbs s;
          Some (p, osRtxFlagSystemObject, s)
        } else Some (obj, 0, s));
     (if obj \<noteq> NULL \<and> data = NULL then do {
        (data, m) \<leftarrow> osRtxMemoryAlloc area n 0 (mem s);
        let s = s\<lparr>mem := m\<rparr>;
        (if data = NULL then do {
           s \<leftarrow> (if flags AND osRtxFlagSystemObject \<noteq> 0 then cb_free mpi obj s else Some s);
           Some (NULL, data, flags OR osRtxFlagSystemMemory, s)
         } else
           Some (obj, data, flags OR osRtxFlagSystemMemory,
                 s\<lparr>mem := zero_words data n (mem s), bytes := zero_words data n (bytes s)\<rparr>))
      } else Some (obj, data, flags, s))
   }"

definition svcRtxMemoryPoolNew :: "u32 \<Rightarrow> u32 \<Rightarrow> mp_attr option \<Rightarrow> rtx \<Rightarrow> (ptr \<times> rtx) option" where
  "svcRtxMemoryPoolNew block_count bsize attr s =
     (if block_count = 0 \<or> bsize = 0 then Some (NULL, s)
      else
        let b_count = block_count;
            b_size = (bsize + 3) AND NOT 3
        in if clz b_count + clz b_size < 32 then Some (NULL, s)
           else
             let n = b_count * b_size
             in if (case attr of Some a \<Rightarrow> \<not> (cb_valid sizeof_mempool a \<and> data_valid (mp_mem a) (mp_size a) n)
                    | None \<Rightarrow> False)
                then Some (NULL, s)
                else do {
                  let name = (case attr of Some a \<Rightarrow> at_name a | None \<Rightarrow> NULL);
                  let mp = (case attr of Some a \<Rightarrow> cb_mem a | None \<Rightarrow> NULL);
                  let data = (case attr of Some a \<Rightarrow> mp_mem a | None \<Rightarrow> NULL);
                  (mp, data, flags, s) \<leftarrow>
                    object_alloc (mpi_memory_pool s) sizeof_mempool (mem_mp_data s) mp data n s;
                  (if mp \<noteq> NULL then do {
                     let s = s\<lparr>ob_id := (ob_id s)(mp := osRtxIdMemoryPool)\<rparr>;
                     let s = s\<lparr>ob_state := (ob_state s)(mp := osRtxObjectActive)\<rparr>;
                     let s = s\<lparr>ob_flags := (ob_flags s)(mp := flags)\<rparr>;
                     let s = s\<lparr>ob_name := (ob_name s)(mp := name)\<rparr>;
                     let s = s\<lparr>thread_next := (thread_next s)(mp := NULL)\<rparr>;
                     Some (mp, snd (osRtxMemoryPoolInit (mp_info mp) b_count b_size data s))
                   } else Some (mp, s))
                })"

definition svcRtxMemoryPoolGetName :: "ptr \<Rightarrow> rtx \<Rightarrow> ptr" where
  "svcRtxMemoryPoolGetName mp s =
     (if ob_check osRtxIdMemoryPool mp s \<noteq> osOK then NULL else ob_name s mp)"

definition svcRtxMemoryPoolAlloc :: "ptr \<Rightarrow> u32 \<Rightarrow> rtx \<Rightarrow> (ptr \<times> rtx) option" where
  "svcRtxMemoryPoolAlloc mp timeout s =
     (if ob_check osRtxIdMemoryPool mp s \<noteq> osOK then Some (NULL, s)
      else let (block, s) = osRtxMemoryPoolAlloc (mp_info mp) s
           in if block \<noteq> NULL then Some (block, s)
              else if timeout \<noteq> 0 then do {
                (b, s) \<leftarrow> osRtxThreadWaitEnter osRtxThreadWaitingMemoryPool timeout s;
                s \<leftarrow> (if b then osRtxThreadListPut mp (run_curr s) s else Some s);
                Some (block, s)
              }
              else Some (block, s))"

definition svcRtxMemoryPoolFree :: "ptr \<Rightarrow> ptr \<Rightarrow> rtx \<Rightarrow> (osStatus \<times> rtx) option" where
  "svcRtxMemoryPoolFree mp block s =
     (if ob_check osRtxIdMemoryPool mp s \<noteq> osOK then Some (ob_check osRtxIdMemoryPool mp s, s)
      else let (status, s) = osRtxMemoryPoolFree (mp_info mp) block s
           in if status = osOK \<and> thread_list s mp \<noteq> NULL then
                let (block0, s) = osRtxMemoryPoolAlloc (mp_info mp) s
                in if block0 \<noteq> NULL then do {
                     (thread, s) \<leftarrow> osRtxThreadListGet mp s;
                     s \<leftarrow> osRtxThreadWaitExit thread block0 True s;
                     Some (status, s)
                   } else Some (status, s)
              else Some (status, s))"

definition svcRtxMemoryPoolGetCapacity :: "ptr \<Rightarrow> rtx \<Rightarrow> u32" where
  "svcRtxMemoryPoolGetCapacity mp s =
     (if ob_check osRtxIdMemoryPool mp s \<noteq> osOK then 0 else max_blocks s (mp_info mp))"

definition svcRtxMemoryPoolGetBlockSize :: "ptr \<Rightarrow> rtx \<Rightarrow> u32" where
  "svcRtxMemoryPoolGetBlockSize mp s =
     (if ob_check osRtxIdMemoryPool mp s \<noteq> osOK then 0 else block_size s (mp_info mp))"

definition svcRtxMemoryPoolGetCount :: "ptr \<Rightarrow> rtx \<Rightarrow> u32" where
  "svcRtxMemoryPoolGetCount mp s =
     (if ob_check osRtxIdMemoryPool mp s \<noteq> osOK then 0 else used_blocks s (mp_info mp))"

definition svcRtxMemoryPoolGetSpace :: "ptr \<Rightarrow> rtx \<Rightarrow> u32" where
  "svcRtxMemoryPoolGetSpace mp s =
     (if ob_check osRtxIdMemoryPool mp s \<noteq> osOK then 0
      else max_blocks s (mp_info mp) - used_blocks s (mp_info mp))"

definition svcRtxMemoryPoolDelete :: "ptr \<Rightarrow> rtx \<Rightarrow> (osStatus \<times> rtx) option" where
  "svcRtxMemoryPoolDelete mp s =
     (if ob_check osRtxIdMemoryPool mp s \<noteq> osOK then Some (ob_check osRtxIdMemoryPool mp s, s)
      else do {
        let s = s\<lparr>ob_state := (ob_state s)(mp := osRtxObjectInactive)\<rparr>;
        s \<leftarrow> (if thread_list s mp \<noteq> NULL then do {
                s \<leftarrow> unblock_all mp 0 s;
                osRtxThreadDispatch NULL s
              } else Some s);
        s \<leftarrow> (if ob_flags s mp AND osRtxFlagSystemMemory \<noteq> 0 then do {
                (r, m) \<leftarrow> osRtxMemoryFree (mem_mp_data s) (block_base s (mp_info mp)) (mem s);
                Some (s\<lparr>mem := m\<rparr>)
              } else Some s);
        s \<leftarrow> (if ob_flags s mp AND osRtxFlagSystemObject \<noteq> 0
              then cb_free (mpi_memory_pool s) mp s else Some s);
        Some (osOK, s)
      })"

definition isrRtxMemoryPoolAlloc :: "ptr \<Rightarrow> u32 \<Rightarrow> rtx \<Rightarrow> ptr \<times> rtx" where
  "isrRtxMemoryPoolAlloc mp timeout s =
     (if mp = NULL \<or> ob_id s mp \<noteq> osRtxIdMemoryPool \<or> timeout \<noteq> 0 then (NULL, s)
      else if ob_state s mp = osRtxObjectInactive then (NULL, s)
      else osRtxMemoryPoolAlloc (mp_info mp) s)"

definition isrRtxMemoryPoolFree :: "ptr \<Rightarrow> ptr \<Rightarrow> rtx \<Rightarrow> (osStatus \<times> rtx) option" where
  "isrRtxMemoryPoolFree mp block s =
     (if ob_check osRtxIdMemoryPool mp s \<noteq> osOK then Some (ob_check osRtxIdMemoryPool mp s, s)
      else let (status, s) = osRtxMemoryPoolFree (mp_info mp) block s
           in if status = osOK then do {
                s \<leftarrow> osRtxPostProcess mp s;
                Some (status, s)
              }
              else Some (status, s))"

section \<open>Public API\<close>

definition osMemoryPoolNew :: "u32 \<Rightarrow> u32 \<Rightarrow> mp_attr option \<Rightarrow> rtx \<Rightarrow> (ptr \<times> rtx) option" where
  "osMemoryPoolNew block_count bsize attr s =
     (if IsIrqMode s \<or> IsIrqMasked s then Some (NULL, s)
      else svcRtxMemoryPoolNew block_count bsize attr s)"

definition osMemoryPoolGetName :: "ptr \<Rightarrow> rtx \<Rightarrow> ptr" where
  "osMemoryPoolGetName mp_id s =
     (if IsIrqMode s \<or> IsIrqMasked s then NULL else svcRtxMemoryPoolGetName mp_id s)"

definition osMemoryPoolAlloc :: "ptr \<Rightarrow> u32 \<Rightarrow> rtx \<Rightarrow> (ptr \<times> rtx) option" where
  "osMemoryPoolAlloc mp_id timeout s =
     (if IsIrqMode s \<or> IsIrqMasked s then Some (isrRtxMemoryPoolAlloc mp_id timeout s)
      else svcRtxMemoryPoolAlloc mp_id timeout s)"

definition osMemoryPoolFree :: "ptr \<Rightarrow> ptr \<Rightarrow> rtx \<Rightarrow> (osStatus \<times> rtx) option" where
  "osMemoryPoolFree mp_id block s =
     (if IsIrqMode s \<or> IsIrqMasked s then isrRtxMemoryPoolFree mp_id block s
      else svcRtxMemoryPoolFree mp_id block s)"

definition osMemoryPoolGetCapacity :: "ptr \<Rightarrow> rtx \<Rightarrow> u32" where
  "osMemoryPoolGetCapacity mp_id s = svcRtxMemoryPoolGetCapacity mp_id s"

definition osMemoryPoolGetBlockSize :: "ptr \<Rightarrow> rtx \<Rightarrow> u32" where
  "osMemoryPoolGetBlockSize mp_id s = svcRtxMemoryPoolGetBlockSize mp_id s"

definition osMemoryPoolGetCount :: "ptr \<Rightarrow> rtx \<Rightarrow> u32" where
  "osMemoryPoolGetCount mp_id s = svcRtxMemoryPoolGetCount mp_id s"

definition osMemoryPoolGetSpace :: "ptr \<Rightarrow> rtx \<Rightarrow> u32" where
  "osMemoryPoolGetSpace mp_id s = svcRtxMemoryPoolGetSpace mp_id s"

definition osMemoryPoolDelete :: "ptr \<Rightarrow> rtx \<Rightarrow> (osStatus \<times> rtx) option" where
  "osMemoryPoolDelete mp_id s =
     (if IsIrqMode s \<or> IsIrqMasked s then Some (osErrorISR, s) else svcRtxMemoryPoolDelete mp_id s)"

section \<open>Sizes\<close>

lemma bit_ge_zero:
  assumes "\<And>i. k \<le> i \<Longrightarrow> i < 32 \<Longrightarrow> \<not> bit (w :: u32) i" shows "unat w < 2 ^ k"
proof -
  have "take_bit k w = w"
    by (rule bit_eqI) (use assms not_le in \<open>auto simp: bit_take_bit_iff\<close>)
  then have "unat w = take_bit k (unat w)" by (metis unsigned_take_bit_eq)
  then show ?thesis by (metis take_bit_nat_less_exp)
qed

lemma clz_bound: "unat w < 2 ^ (32 - clz w)" "clz w \<le> 32"
proof -
  let ?l = "rev [0..<32]" and ?P = "\<lambda>i. \<not> bit w i"
  show l: "clz w \<le> 32" unfolding clz_def using length_takeWhile_le [of ?P ?l] by simp
  show "unat w < 2 ^ (32 - clz w)"
  proof (rule bit_ge_zero)
    fix i assume i: "32 - clz w \<le> i" "i < 32"
    then have k: "31 - i < length (takeWhile ?P ?l)" using l by (simp add: clz_def)
    then have "takeWhile ?P ?l ! (31 - i) = ?l ! (31 - i)" by (rule takeWhile_nth)
    also have "\<dots> = i" using i(2) by (simp add: rev_nth)
    finally show "\<not> bit w i" using nth_mem [OF k] set_takeWhileD by fastforce
  qed
qed

lemma clz_product:
  assumes "\<not> clz a + clz b < 32" shows "unat a * unat b < 2 ^ 32" "unat (a * b) = unat a * unat b"
proof -
  have "unat a * unat b < 2 ^ (32 - clz a) * 2 ^ (32 - clz b)"
    using clz_bound(1) [of a] clz_bound(1) [of b] by (rule mult_strict_mono') simp_all
  also have "\<dots> = 2 ^ ((32 - clz a) + (32 - clz b))" by (simp add: power_add)
  also have "\<dots> \<le> 2 ^ 32" using assms by (intro power_increasing) simp_all
  finally show "unat a * unat b < 2 ^ 32" .
  then show "unat (a * b) = unat a * unat b" by (rule unat_mult32)
qed

lemma object_alloc_data:
  "object_alloc mpi cbs area obj data n s = Some (obj', data', f, s') \<Longrightarrow> obj' \<noteq> NULL \<Longrightarrow> data' \<noteq> NULL"
  by (auto simp: object_alloc_def bind_eq_Some_conv Let_def split: if_splits)

section \<open>What the pool functions leave alone\<close>

lemma pool_take:
  assumes r: "pool_rep i B s (b # fs)"
  obtains u f where "osRtxMemoryPoolAlloc i s = (b, s\<lparr>used_blocks := u, block_free := f\<rparr>)"
    "pool_rep i B (s\<lparr>used_blocks := u, block_free := f\<rparr>) fs" "b \<noteq> NULL"
proof -
  have h: "i \<noteq> NULL" "block_free s i = b" "b \<noteq> NULL" "unat (used_blocks s i) < unat (max_blocks s i)"
    using r by (auto simp: pool_rep_def)
  have e: "osRtxMemoryPoolAlloc i s = (b, s\<lparr>used_blocks := (used_blocks s)(i := used_blocks s i + 1),
      block_free := (block_free s)(i := mem s b)\<rparr>)"
    using h by (simp add: osRtxMemoryPoolAlloc_def link_get_def atomic_inc32_lt_def Let_def word_less_nat_alt)
  then show thesis using mempool.alloc_ok [OF r] h(3) by (intro that [OF e]) auto
qed

lemma pool_give:
  assumes r: "pool_rep i B s fs" and b: "b \<in> B" "b \<notin> set fs"
  obtains u f v where "osRtxMemoryPoolFree i b s = (osOK, s\<lparr>used_blocks := u, mem := (mem s)(b := v), block_free := f\<rparr>)"
    "pool_rep i B (s\<lparr>used_blocks := u, mem := (mem s)(b := v), block_free := f\<rparr>) (b # fs)"
proof -
  obtain s' where 1: "osRtxMemoryPoolFree i b s = (osOK, s')" "pool_rep i B s' (b # fs)"
    using mempool.free_ok [OF r b] by blast
  have ok: "\<not> (i = NULL \<or> b < block_base s i \<or> b \<ge> block_lim s i)" using r b by (auto simp: pool_rep_def)
  have "used_blocks s i \<noteq> 0"
  proof
    assume "used_blocks s i = 0"
    then have "fst (osRtxMemoryPoolFree i b s) \<noteq> osOK"
      using ok by (simp add: osRtxMemoryPoolFree_def atomic_dec32_nz_def Let_def)
    with 1(1) show False by simp
  qed
  then have "osRtxMemoryPoolFree i b s = (osOK, s\<lparr>used_blocks := (used_blocks s)(i := used_blocks s i - 1),
      mem := (mem s)(b := block_free s i), block_free := (block_free s)(i := b)\<rparr>)"
    using ok by (simp add: osRtxMemoryPoolFree_def link_put_def atomic_dec32_nz_def Let_def)
  with 1 show thesis by (intro that) auto
qed

lemma touched_pool:
  assumes "touched s s'" shows "block_base s' = block_base s" "block_lim s' = block_lim s" "msg_size s' = msg_size s" "bytes s' = bytes s"
proof -
  have f: "g s' = g s" if "\<And>x. g (core x) = g x" for g :: "rtx \<Rightarrow> 'b"
    using that [of s] that [of s'] assms by (simp add: touched_def)
  show "block_base s' = block_base s" "block_lim s' = block_lim s" "msg_size s' = msg_size s" "bytes s' = bytes s"
    by (rule f, simp add: core_def)+
qed

lemma pool_rep_touched: "touched s s' \<Longrightarrow> pool_rep i B s [] \<Longrightarrow> pool_rep i B s' []"
  using touched_fields(30-32) [of s s'] touched_pool [of s s'] by (simp add: pool_rep_def)

section \<open>Properties\<close>

text \<open>
  svcRtxMemoryPoolNew never creates a pool whose size overflows: when it returns a pool, the number
  of blocks times the rounded block size is below two to the 32, and the rounded size holds
  a block unless the rounding itself has wrapped round (block sizes from 0xFFFFFFFD).
\<close>

theorem svcRtxMemoryPoolNew_size:
  assumes "svcRtxMemoryPoolNew block_count bsize attr s = Some (mp, s')" "mp \<noteq> NULL"
  shows "unat block_count * unat ((bsize + 3) AND NOT 3) < 2 ^ 32 \<and>
    (unat bsize < 0xFFFFFFFD \<longrightarrow> unat bsize \<le> unat ((bsize + 3) AND NOT 3))"
proof
  have "\<not> clz block_count + clz ((bsize + 3) AND NOT 3) < 32"
    using assms by (auto simp: svcRtxMemoryPoolNew_def Let_def split: if_splits)
  then show "unat block_count * unat ((bsize + 3) AND NOT 3) < 2 ^ 32" by (rule clz_product)
next
  show "unat bsize < 0xFFFFFFFD \<longrightarrow> unat bsize \<le> unat ((bsize + 3) AND NOT 3)"
  proof
    assume b: "unat bsize < 0xFFFFFFFD"
    have "unat (bsize + 3) = unat bsize + 3" using unat_add32 [of bsize 3] b by simp
    moreover have "unat ((bsize + 3) AND NOT 3) \<ge> unat (bsize + 3) - 3"
    proof -
      let ?w = "bsize + 3"
      have "(?w AND NOT 3) + (?w AND 3) = ((?w AND NOT 3) AND (?w AND 3)) + ((?w AND NOT 3) OR (?w AND 3))"
        by (rule word_plus_and_or [symmetric])
      also have "(?w AND NOT 3) AND (?w AND 3) = 0" by (simp only: bit_eq_iff bit_simps) auto
      also have "(?w AND NOT 3) OR (?w AND 3) = ?w" by (simp only: bit_eq_iff bit_simps) auto
      finally have w: "?w AND NOT 3 = ?w - (?w AND 3)" by (simp add: eq_diff_eq)
      have "?w AND 3 = take_bit 2 ?w" by (simp add: take_bit_eq_mask mask_eq_exp_minus_1)
      then have m: "unat (?w AND 3) = unat ?w mod 4" by (simp add: take_bit_eq_mod unat_mod)
      then have "?w AND 3 \<le> ?w" by (simp add: word_le_nat_alt)
      then have "unat (?w AND NOT 3) = unat ?w - unat ?w mod 4" using w m by (simp add: unat_sub)
      then show ?thesis by simp
    qed
    ultimately show "unat bsize \<le> unat ((bsize + 3) AND NOT 3)" by simp
  qed
qed

theorem svcRtxMemoryPoolNew_size_witness:
  "\<exists>mp s'. svcRtxMemoryPoolNew 3 8 (Some \<lparr>at_name = 0, at_bits = 0, cb_mem = 0x7000, cb_size = 36, mp_mem = 0x8000, mp_size = 24\<rparr>) demo =
     Some (mp, s') \<and> mp = 0x7000 \<and> unat (3 :: u32) * unat ((8 + 3 :: u32) AND NOT 3) < 2 ^ 32"
proof -
  have "clz 3 = 30" "clz 8 = 28" by (simp_all add: clz_def upt_rec)
  then have "\<exists>s'. svcRtxMemoryPoolNew 3 8 (Some \<lparr>at_name = 0, at_bits = 0, cb_mem = 0x7000, cb_size = 36, mp_mem = 0x8000, mp_size = 24\<rparr>) demo =
     Some (0x7000, s')"
    by (simp add: svcRtxMemoryPoolNew_def cb_valid_def data_valid_def object_alloc_def)
  then show ?thesis using svcRtxMemoryPoolNew_size [where bsize = 8 and block_count = 3] by fastforce
qed

text \<open>
  svcRtxMemoryPoolAlloc on an existing pool takes the first free block at once and leaves the scheduler
  alone. With no free block it returns NULL: without a timeout nothing changes; with one, when
  another thread is ready, the caller waits in the pool's list by priority and in the delay lists.
\<close>

theorem svcRtxMemoryPoolAlloc_spec:
  assumes E: "entered s Q D W" and Q: "Q mp = Some ws" and mr: "mp \<noteq> ready s" and ok: "ob_check osRtxIdMemoryPool mp s = osOK"
    and P: "pool_rep (mp_info mp) B s fs" and R: "Q (ready s) = Some R"
  shows "\<exists>b s' Q' D' W'. svcRtxMemoryPoolAlloc mp timeout s = Some (b, s') \<and> settled s' Q' D' W' \<and>
    (case fs of
       x # bs \<Rightarrow> b = x \<and> pool_rep (mp_info mp) B s' bs \<and> run_next s' = run_next s \<and> Q' = Q
     | [] \<Rightarrow> b = NULL \<and> pool_rep (mp_info mp) B s' [] \<and>
        (if timeout = 0 \<or> R = [] then s' = s
         else Q' = Q(ready s \<mapsto> tl R, mp \<mapsto> pinsert (priority s) (run_curr s) ws) \<and>
           delayed s D W (run_curr s) timeout s' D' W' \<and> run_next s' = hd R))"
proof (cases fs)
  case (Cons x bs)
  obtain u f where 1: "osRtxMemoryPoolAlloc (mp_info mp) s = (x, s\<lparr>used_blocks := u, block_free := f\<rparr>)"
    "pool_rep (mp_info mp) B (s\<lparr>used_blocks := u, block_free := f\<rparr>) bs" "x \<noteq> NULL"
    using pool_take P Cons by blast
  have "svcRtxMemoryPoolAlloc mp timeout s = Some (x, s\<lparr>used_blocks := u, block_free := f\<rparr>)"
    using ok 1 by (simp add: svcRtxMemoryPoolAlloc_def)
  with 1 Cons enteredD(1) [OF E] show ?thesis
    by - (rule exI [of _ x], rule exI [of _ "s\<lparr>used_blocks := u, block_free := f\<rparr>"], rule exI [of _ Q],
        rule exI [of _ D], rule exI [of _ W], simp)
next
  case Nil
  have none: "osRtxMemoryPoolAlloc (mp_info mp) s = (NULL, s)" using mempool.alloc_none P Nil by simp
  have mn: "mp \<noteq> NULL" using ok by (simp add: ob_check_ok)
  show ?thesis
  proof (cases "timeout = 0 \<or> R = []")
    case True
    have "svcRtxMemoryPoolAlloc mp timeout s = Some (NULL, s)"
    proof (cases "timeout = 0")
      case True then show ?thesis using ok none by (simp add: svcRtxMemoryPoolAlloc_def)
    next
      case False
      then have "thread_next s (ready s) = NULL"
        using head_null [OF enteredD(6) [OF E] R] schedD(3) [OF enteredD(6) [OF E]] \<open>timeout = 0 \<or> R = []\<close> by simp
      then have "osRtxThreadWaitEnter osRtxThreadWaitingMemoryPool timeout s = Some (False, s)" by (simp add: WaitEnter_no)
      with False show ?thesis using ok none by (simp add: svcRtxMemoryPoolAlloc_def)
    qed
    with True Nil P enteredD(1) [OF E] show ?thesis
      by - (rule exI [of _ NULL], rule exI [of _ s], rule exI [of _ Q], rule exI [of _ D], rule exI [of _ W], simp)
  next
    case False
    then obtain x xs where Rx: "R = x # xs" by (cases R) auto
    have R': "Q (ready s) = Some (x # xs)" and d: "timeout \<noteq> 0" using R Rx False by simp_all
    obtain s1 s' D' W' where 1: "osRtxThreadWaitEnter osRtxThreadWaitingMemoryPool timeout s = Some (True, s1)"
      "osRtxThreadListPut mp (run_curr s) s1 = Some s'" "touched s s1" "touched s s'"
      "settled s' (Q(ready s \<mapsto> xs, mp \<mapsto> pinsert (priority s) (run_curr s) ws)) D' W'"
      "delayed s D W (run_curr s) timeout s' D' W'" "run_next s' = x"
      by (rule settled_block [OF E R' Q mn mr d]) blast
    have "svcRtxMemoryPoolAlloc mp timeout s = Some (NULL, s')"
      using ok none d 1(1,2) touched_fields(23) [OF 1(3)] by (simp add: svcRtxMemoryPoolAlloc_def)
    moreover have "pool_rep (mp_info mp) B s' []" using pool_rep_touched [OF 1(4)] P Nil by simp
    ultimately show ?thesis using 1(5-7) Nil False Rx
      by - (rule exI [of _ NULL], rule exI [of _ s'], rule exI [of _ "Q(ready s \<mapsto> xs, mp \<mapsto> pinsert (priority s) (run_curr s) ws)"],
          rule exI [of _ D'], rule exI [of _ W'], simp)
  qed
qed

theorem svcRtxMemoryPoolAlloc_spec_witness:
  "\<exists>s b s' Q' D' W'. svcRtxMemoryPoolAlloc 0x5300 0 s = Some (b, s') \<and> settled s' Q' D' W' \<and> b = 0x9000 \<and>
     pool_rep (mp_info 0x5300) {0x9000} s' []"
proof -
  let ?s = "demo\<lparr>max_blocks := (\<lambda>_. 1), block_base := (\<lambda>_. 0x9000), block_lim := (\<lambda>_. 0x9008), block_free := (\<lambda>_. 0x9000)\<rparr>"
  have E: "entered ?s demo_lists [0x6000] [0x4000]" using demo_entered by simp
  have v: "demo_lists 0x5300 = Some []" "0x5300 \<noteq> ready ?s" "ob_check osRtxIdMemoryPool 0x5300 ?s = osOK"
    "pool_rep (mp_info 0x5300) {0x9000} ?s [0x9000]" "demo_lists (ready ?s) = Some [0x2000, 0x3000]"
    by (simp_all add: demo_lists_def demo_def blank_def ob_check_def pool_rep_def)
  from svcRtxMemoryPoolAlloc_spec [OF E v, of 0]
  obtain b s' Q' D' W' where "svcRtxMemoryPoolAlloc 0x5300 0 ?s = Some (b, s')" "settled s' Q' D' W'" "b = 0x9000"
    "pool_rep (mp_info 0x5300) {0x9000} s' []" by auto
  then show ?thesis by blast
qed

text \<open>
  svcRtxMemoryPoolFree with threads waiting for a block passes the block that is given back straight on to the
  first of them: it becomes the result of that thread's call, the pool's free list stays empty,
  the thread leaves the waiting and delay lists and runs at once if its priority is higher than the caller's.
\<close>

theorem svcRtxMemoryPoolFree_wakes:
  assumes E: "entered s Q D W" and Q: "Q mp = Some (t # us)" and mr: "mp \<noteq> ready s" and ok: "ob_check osRtxIdMemoryPool mp s = osOK"
    and P: "pool_rep (mp_info mp) B s []" and b: "block \<in> B" "block \<noteq> stack_mem s (run_curr s)"
  shows "\<exists>s' Q' D' W'. svcRtxMemoryPoolFree mp block s = Some (osOK, s') \<and> settled s' Q' D' W' \<and>
    Q' mp = Some us \<and> D' = remove1 t D \<and> W' = remove1 t W \<and> mem s' (osRtxThreadRegPtr s t) = block \<and>
    pool_rep (mp_info mp) B s' [] \<and>
    run_next s' = (if priority s t > priority s (run_curr s) then t else run_curr s)"
proof -
  have mn: "mp \<noteq> NULL" using ok by (simp add: ob_check_ok)
  obtain u f v where 1: "osRtxMemoryPoolFree (mp_info mp) block s = (osOK, s\<lparr>used_blocks := u, mem := (mem s)(block := v), block_free := f\<rparr>)"
    "pool_rep (mp_info mp) B (s\<lparr>used_blocks := u, mem := (mem s)(block := v), block_free := f\<rparr>) [block]"
    by (rule pool_give [OF P b(1)]) auto
  let ?s1 = "s\<lparr>used_blocks := u, mem := (mem s)(block := v), block_free := f\<rparr>"
  obtain u2 f2 where 2: "osRtxMemoryPoolAlloc (mp_info mp) ?s1 = (block, ?s1\<lparr>used_blocks := u2, block_free := f2\<rparr>)"
    "pool_rep (mp_info mp) B (?s1\<lparr>used_blocks := u2, block_free := f2\<rparr>) []" "block \<noteq> NULL"
    by (rule pool_take [OF 1(2)]) blast
  let ?s2 = "?s1\<lparr>used_blocks := u2, block_free := f2\<rparr>"
  have "stack_ok ?s2" using enteredD(3) [OF E] b(2) by (simp add: stack_ok_def osRtxThreadRegPtr_def)
  then have E2: "entered ?s2 Q D W" using E by (simp add: entered_def)
  have h: "thread_next s mp \<noteq> NULL" using head_null [OF enteredD(6) [OF E] Q mn] by simp
  have o: "mp \<noteq> ready ?s2" using mr by simp
  obtain s3 s' R' where 3: "osRtxThreadListGet mp ?s2 = Some (t, s3)" "osRtxThreadWaitExit t block True s3 = Some s'"
    "touched ?s2 s'" "settled s' (Q(mp \<mapsto> us, ready ?s2 \<mapsto> R')) (remove1 t D) (remove1 t W)"
    "run_next s' = (if priority ?s2 t > priority ?s2 (run_curr ?s2) then t else run_curr ?s2)"
    "mem s' = (mem ?s2)(osRtxThreadRegPtr ?s2 t := block)"
    by (rule settled_wake [OF E2 Q mn o]) blast
  have "svcRtxMemoryPoolFree mp block s = Some (osOK, s')"
    using ok 1(1) 2(1,3) 3(1,2) h by (simp add: svcRtxMemoryPoolFree_def Let_def)
  moreover have "pool_rep (mp_info mp) B s' []" by (rule pool_rep_touched [OF 3(3) 2(2)])
  ultimately show ?thesis using 3(4-6) mr
    by - (rule exI [of _ s'], rule exI [of _ "Q(mp \<mapsto> us, ready s \<mapsto> R')"], rule exI [of _ "remove1 t D"],
        rule exI [of _ "remove1 t W"], simp add: osRtxThreadRegPtr_def)
qed

text \<open>The semaphore of the configuration as a pool of one block, 0x9000, which is in use.\<close>

theorem svcRtxMemoryPoolFree_wakes_witness:
  "\<exists>s s' Q' D' W'. svcRtxMemoryPoolFree 0x5000 0x9000 s = Some (osOK, s') \<and> settled s' Q' D' W' \<and>
     Q' 0x5000 = Some [] \<and> mem s' 0x40220 = 0x9000 \<and> run_next s' = 0x4000"
proof -
  let ?s = "demo\<lparr>ob_id := (ob_id demo)(0x5000 := 6), max_blocks := (\<lambda>_. 1), used_blocks := (\<lambda>_. 1),
     block_base := (\<lambda>_. 0x9000), block_lim := (\<lambda>_. 0x9008)\<rparr>"
  have "ob_id demo 0x5000 = osRtxIdSemaphore" by (simp add: demo_def blank_def)
  then have E: "entered ?s demo_lists [0x6000] [0x4000]"
    using entered_ids [OF demo_entered, of "(ob_id demo)(0x5000 := 6)"] by simp
  have v: "demo_lists 0x5000 = Some [0x4000]" "0x5000 \<noteq> ready ?s" "ob_check osRtxIdMemoryPool 0x5000 ?s = osOK"
    "pool_rep (mp_info 0x5000) {0x9000} ?s []" "0x9000 \<in> {0x9000 :: ptr}" "0x9000 \<noteq> stack_mem ?s (run_curr ?s)"
    by (simp_all add: demo_lists_def demo_def blank_def ob_check_def pool_rep_def)
  have r: "osRtxThreadRegPtr ?s 0x4000 = 0x40220" "priority ?s 0x4000 > priority ?s (run_curr ?s)"
    by (simp_all add: demo_def blank_def osRtxThreadRegPtr_def StackOffsetR0_def)
  from svcRtxMemoryPoolFree_wakes [OF E v] r
  obtain s' Q' D' W' where "svcRtxMemoryPoolFree 0x5000 0x9000 ?s = Some (osOK, s')" "settled s' Q' D' W'"
    "Q' 0x5000 = Some []" "mem s' 0x40220 = 0x9000" "run_next s' = 0x4000" by auto
  then show ?thesis by blast
qed

end
