(* ===== verification/RtxMsgQueue.thy ===== *)
theory RtxMsgQueue
  imports RtxMemPool
begin

text \<open>
  Message queues (rtx_msgqueue.c): messages live in the blocks of the queue's own memory pool and
  form a list sorted by priority; \<open>msg + 12\<close> is the address of a message's payload. A waiting
  thread finds its buffer and priority arguments in the registers R2 and R3 of its saved frame.
\<close>

unbundle bit_operations_syntax

section \<open>Operations\<close>

abbreviation (input) "sizeof_message \<equiv> 12 :: u32"
abbreviation (input) "sizeof_msgqueue \<equiv> 52 :: u32"

record mq_attr = os_attr +
  mq_mem :: ptr
  mq_size :: u32

definition memcpy :: "ptr \<Rightarrow> ptr \<Rightarrow> u32 \<Rightarrow> rtx \<Rightarrow> rtx" where
  "memcpy dst src n s = s\<lparr>bytes := (\<lambda>a. if a - dst < n then bytes s (src + (a - dst)) else bytes s a)\<rparr>"

text \<open>The search from the tail: past every message of lower priority.\<close>

partial_function (option) msg_pos ::
    "(ptr \<Rightarrow> u8) \<Rightarrow> (ptr \<Rightarrow> ptr) \<Rightarrow> u8 \<Rightarrow> ptr \<Rightarrow> ptr \<Rightarrow> (ptr \<times> ptr) option" where
  "msg_pos pri prv prio prev next =
     (if prev \<noteq> NULL \<and> pri prev < prio then msg_pos pri prv prio (prv prev) prev
      else Some (prev, next))"

definition MessageQueuePut :: "ptr \<Rightarrow> ptr \<Rightarrow> rtx \<Rightarrow> rtx option" where
  "MessageQueuePut mq msg s = do {
     s \<leftarrow> (if msg_last s mq \<noteq> NULL then do {
             (prev, next) \<leftarrow> msg_pos (msg_priority s) (msg_prev s) (msg_priority s msg) (msg_last s mq) NULL;
             let s = s\<lparr>msg_prev := (msg_prev s)(msg := prev)\<rparr>;
             let s = s\<lparr>msg_next := (msg_next s)(msg := next)\<rparr>;
             let s = (if prev \<noteq> NULL then s\<lparr>msg_next := (msg_next s)(prev := msg)\<rparr>
                      else s\<lparr>msg_first := (msg_first s)(mq := msg)\<rparr>);
             Some (if next \<noteq> NULL then s\<lparr>msg_prev := (msg_prev s)(next := msg)\<rparr>
                   else s\<lparr>msg_last := (msg_last s)(mq := msg)\<rparr>)
           } else Some (s\<lparr>msg_prev := (msg_prev s)(msg := NULL), msg_next := (msg_next s)(msg := NULL),
                          msg_first := (msg_first s)(mq := msg), msg_last := (msg_last s)(mq := msg)\<rparr>));
     Some (s\<lparr>msg_count := (msg_count s)(mq := snd (atomic_inc32 (msg_count s mq)))\<rparr>)
   }"

text \<open>The loop of MessageQueueGet: the first message whose flag was still clear.\<close>

partial_function (option) msg_claim :: "ptr \<Rightarrow> rtx \<Rightarrow> (ptr \<times> rtx) option" where
  "msg_claim msg s =
     (if msg \<noteq> NULL then
        let flags = ob_flags s msg;
            s = s\<lparr>ob_flags := (ob_flags s)(msg := 1)\<rparr>
        in if flags = 0 then Some (msg, s) else msg_claim (msg_next s msg) s
      else Some (msg, s))"

definition MessageQueueGet :: "ptr \<Rightarrow> rtx \<Rightarrow> (ptr \<times> rtx) option" where
  "MessageQueueGet mq s =
     (let (count, c) = atomic_dec32_nz (msg_count s mq);
          s = s\<lparr>msg_count := (msg_count s)(mq := c)\<rparr>
      in if count \<noteq> 0 then msg_claim (msg_first s mq) s else Some (NULL, s))"

definition MessageQueueRemove :: "ptr \<Rightarrow> ptr \<Rightarrow> rtx \<Rightarrow> rtx" where
  "MessageQueueRemove mq msg s =
     (let s = (if msg_prev s msg \<noteq> NULL
               then s\<lparr>msg_next := (msg_next s)(msg_prev s msg := msg_next s msg)\<rparr>
               else s\<lparr>msg_first := (msg_first s)(mq := msg_next s msg)\<rparr>)
      in if msg_next s msg \<noteq> NULL
         then s\<lparr>msg_prev := (msg_prev s)(msg_next s msg := msg_prev s msg)\<rparr>
         else s\<lparr>msg_last := (msg_last s)(mq := msg_prev s msg)\<rparr>)"

text \<open>Freeing the block of a message that has been removed.\<close>

definition msg_free :: "ptr \<Rightarrow> ptr \<Rightarrow> rtx \<Rightarrow> rtx" where
  "msg_free mq msg s =
     snd (osRtxMemoryPoolFree (mp_info mq) msg (s\<lparr>ob_state := (ob_state s)(msg := osRtxObjectInactive)\<rparr>))"

text \<open>Initialising a message's control block.\<close>

definition msg_init :: "ptr \<Rightarrow> u8 \<Rightarrow> rtx \<Rightarrow> rtx" where
  "msg_init msg prio s =
     s\<lparr>ob_id := (ob_id s)(msg := osRtxIdMessage), ob_state := (ob_state s)(msg := osRtxObjectActive),
       ob_flags := (ob_flags s)(msg := 0), msg_priority := (msg_priority s)(msg := prio)\<rparr>"

text \<open>
  Storing the message of the first waiting sender in the free block \<open>msg\<close>; the code repeats it
  in PostProcess, Get and Reset.
\<close>

definition take_from_sender :: "ptr \<Rightarrow> ptr \<Rightarrow> bool \<Rightarrow> rtx \<Rightarrow> rtx option" where
  "take_from_sender mq msg dispatch s = do {
     (thread, s) \<leftarrow> osRtxThreadListGet mq s;
     s \<leftarrow> osRtxThreadWaitExit thread (status_word osOK) dispatch s;
     let reg = osRtxThreadRegPtr s thread;
     let s = memcpy (msg + sizeof_message) (mem s (reg + 8)) (msg_size s mq) s;
     let s = msg_init msg (ucast (mem s (reg + 12))) s;
     MessageQueuePut mq msg s
   }"

text \<open>Handing a payload to the first waiting receiver, in PostProcess and Put.\<close>

definition give_to_receiver :: "ptr \<Rightarrow> ptr \<Rightarrow> u8 \<Rightarrow> bool \<Rightarrow> rtx \<Rightarrow> rtx option" where
  "give_to_receiver mq src prio dispatch s = do {
     (thread, s) \<leftarrow> osRtxThreadListGet mq s;
     s \<leftarrow> osRtxThreadWaitExit thread (status_word osOK) dispatch s;
     let reg = osRtxThreadRegPtr s thread;
     let s = memcpy (mem s (reg + 8)) src (msg_size s mq) s;
     Some (if mem s (reg + 12) \<noteq> 0 then s\<lparr>bytes := (bytes s)(mem s (reg + 12) := prio)\<rparr> else s)
   }"

definition waits_for :: "u8 \<Rightarrow> ptr \<Rightarrow> rtx \<Rightarrow> bool" where
  "waits_for state mq s \<longleftrightarrow> thread_list s mq \<noteq> NULL \<and> ob_state s (thread_list s mq) = state"

definition osRtxMessageQueuePostProcess :: "ptr \<Rightarrow> rtx \<Rightarrow> rtx option" where
  "osRtxMessageQueuePostProcess msg s =
     (if ob_state s msg = osRtxObjectInactive then Some s
      else if ob_flags s msg \<noteq> 0 then
        let mq = msg_mq s msg
        in if ob_state s mq = osRtxObjectInactive then Some s
           else
             let s = MessageQueueRemove mq msg s;
                 s = msg_free mq msg s
             in if waits_for osRtxThreadWaitingMessagePut mq s then
                  let (msg0, s) = osRtxMemoryPoolAlloc (mp_info mq) s
                  in if msg0 \<noteq> NULL then take_from_sender mq msg0 False s else Some s
                else Some s
      else
        let mq = msg_next s msg
        in if ob_state s mq = osRtxObjectInactive then Some s
           else if waits_for osRtxThreadWaitingMessageGet mq s then do {
             s \<leftarrow> give_to_receiver mq (msg + sizeof_message) (msg_priority s msg) False s;
             Some (msg_free mq msg s)
           }
           else MessageQueuePut mq msg s)"

definition svcRtxMessageQueueNew :: "u32 \<Rightarrow> u32 \<Rightarrow> mq_attr option \<Rightarrow> rtx \<Rightarrow> (ptr \<times> rtx) option" where
  "svcRtxMessageQueueNew mcount msize attr s =
     (if mcount = 0 \<or> msize = 0 then Some (NULL, s)
      else
        let b_size = ((msize + 3) AND NOT 3) + sizeof_message
        in if clz mcount + clz b_size < 32 then Some (NULL, s)
           else
             let n = mcount * b_size
             in if (case attr of Some a \<Rightarrow> \<not> (cb_valid sizeof_msgqueue a \<and> data_valid (mq_mem a) (mq_size a) n)
                    | None \<Rightarrow> False)
                then Some (NULL, s)
                else do {
                  let name = (case attr of Some a \<Rightarrow> at_name a | None \<Rightarrow> NULL);
                  let mq = (case attr of Some a \<Rightarrow> cb_mem a | None \<Rightarrow> NULL);
                  let data = (case attr of Some a \<Rightarrow> mq_mem a | None \<Rightarrow> NULL);
                  (mq, data, flags, s) \<leftarrow>
                    object_alloc (mpi_message_queue s) sizeof_msgqueue (mem_mq_data s) mq data n s;
                  (if mq \<noteq> NULL then do {
                     let s = s\<lparr>ob_id := (ob_id s)(mq := osRtxIdMessageQueue)\<rparr>;
                     let s = s\<lparr>ob_state := (ob_state s)(mq := osRtxObjectActive)\<rparr>;
                     let s = s\<lparr>ob_flags := (ob_flags s)(mq := flags)\<rparr>;
                     let s = s\<lparr>ob_name := (ob_name s)(mq := name)\<rparr>;
                     let s = s\<lparr>thread_next := (thread_next s)(mq := NULL)\<rparr>;
                     let s = s\<lparr>msg_size := (msg_size s)(mq := msize)\<rparr>;
                     let s = s\<lparr>msg_count := (msg_count s)(mq := 0)\<rparr>;
                     let s = s\<lparr>msg_first := (msg_first s)(mq := NULL)\<rparr>;
                     let s = s\<lparr>msg_last := (msg_last s)(mq := NULL)\<rparr>;
                     Some (mq, snd (osRtxMemoryPoolInit (mp_info mq) mcount b_size data s))
                   } else Some (mq, s))
                })"

definition svcRtxMessageQueueGetName :: "ptr \<Rightarrow> rtx \<Rightarrow> ptr" where
  "svcRtxMessageQueueGetName mq s =
     (if ob_check osRtxIdMessageQueue mq s \<noteq> osOK then NULL else ob_name s mq)"

definition svcRtxMessageQueuePut :: "ptr \<Rightarrow> ptr \<Rightarrow> u8 \<Rightarrow> u32 \<Rightarrow> rtx \<Rightarrow> (osStatus \<times> rtx) option" where
  "svcRtxMessageQueuePut mq msg_ptr msg_prio timeout s =
     (if mq = NULL \<or> ob_id s mq \<noteq> osRtxIdMessageQueue \<or> msg_ptr = NULL then Some (osErrorParameter, s)
      else if ob_state s mq = osRtxObjectInactive then Some (osErrorResource, s)
      else if waits_for osRtxThreadWaitingMessageGet mq s then do {
        s \<leftarrow> give_to_receiver mq msg_ptr msg_prio True s;
        Some (osOK, s)
      }
      else
        let (msg, s) = osRtxMemoryPoolAlloc (mp_info mq) s
        in if msg \<noteq> NULL then do {
             let s = memcpy (msg + sizeof_message) msg_ptr (msg_size s mq) s;
             s \<leftarrow> MessageQueuePut mq msg (msg_init msg msg_prio s);
             Some (osOK, s)
           }
           else if timeout \<noteq> 0 then do {
             (b, s) \<leftarrow> osRtxThreadWaitEnter osRtxThreadWaitingMessagePut timeout s;
             s \<leftarrow> (if b then do {
                     s \<leftarrow> osRtxThreadListPut mq (run_curr s) s;
                     Some (s\<lparr>mem := (mem s)(psp s + 8 := msg_ptr, psp s + 12 := ucast msg_prio)\<rparr>)
                   } else Some s);
             Some (osErrorTimeout, s)
           }
           else Some (osErrorResource, s))"

definition svcRtxMessageQueueGet :: "ptr \<Rightarrow> ptr \<Rightarrow> ptr \<Rightarrow> u32 \<Rightarrow> rtx \<Rightarrow> (osStatus \<times> rtx) option" where
  "svcRtxMessageQueueGet mq msg_ptr msg_prio timeout s =
     (if mq = NULL \<or> ob_id s mq \<noteq> osRtxIdMessageQueue \<or> msg_ptr = NULL then Some (osErrorParameter, s)
      else if ob_state s mq = osRtxObjectInactive then Some (osErrorResource, s)
      else do {
        (msg, s) \<leftarrow> MessageQueueGet mq s;
        (if msg \<noteq> NULL then do {
           let s = MessageQueueRemove mq msg s;
           let s = memcpy msg_ptr (msg + sizeof_message) (msg_size s mq) s;
           let s = (if msg_prio \<noteq> NULL then s\<lparr>bytes := (bytes s)(msg_prio := msg_priority s msg)\<rparr> else s);
           let s = msg_free mq msg s;
           s \<leftarrow> (if waits_for osRtxThreadWaitingMessagePut mq s then
                   let (msg, s) = osRtxMemoryPoolAlloc (mp_info mq) s
                   in if msg \<noteq> NULL then take_from_sender mq msg True s else Some s
                 else Some s);
           Some (osOK, s)
         }
         else if timeout \<noteq> 0 then do {
           (b, s) \<leftarrow> osRtxThreadWaitEnter osRtxThreadWaitingMessageGet timeout s;
           s \<leftarrow> (if b then do {
                   s \<leftarrow> osRtxThreadListPut mq (run_curr s) s;
                   Some (s\<lparr>mem := (mem s)(psp s + 8 := msg_ptr, psp s + 12 := msg_prio)\<rparr>)
                 } else Some s);
           Some (osErrorTimeout, s)
         }
         else Some (osErrorResource, s))
      })"

definition svcRtxMessageQueueGetCapacity :: "ptr \<Rightarrow> rtx \<Rightarrow> u32" where
  "svcRtxMessageQueueGetCapacity mq s =
     (if ob_check osRtxIdMessageQueue mq s \<noteq> osOK then 0 else max_blocks s (mp_info mq))"

definition svcRtxMessageQueueGetMsgSize :: "ptr \<Rightarrow> rtx \<Rightarrow> u32" where
  "svcRtxMessageQueueGetMsgSize mq s =
     (if ob_check osRtxIdMessageQueue mq s \<noteq> osOK then 0 else msg_size s mq)"

definition svcRtxMessageQueueGetCount :: "ptr \<Rightarrow> rtx \<Rightarrow> u32" where
  "svcRtxMessageQueueGetCount mq s =
     (if ob_check osRtxIdMessageQueue mq s \<noteq> osOK then 0 else msg_count s mq)"

definition svcRtxMessageQueueGetSpace :: "ptr \<Rightarrow> rtx \<Rightarrow> u32" where
  "svcRtxMessageQueueGetSpace mq s =
     (if ob_check osRtxIdMessageQueue mq s \<noteq> osOK then 0
      else max_blocks s (mp_info mq) - msg_count s mq)"

text \<open>The two loops of svcRtxMessageQueueReset.\<close>

partial_function (option) mq_drain :: "ptr \<Rightarrow> rtx \<Rightarrow> rtx option" where
  "mq_drain mq s = do {
     (msg, s) \<leftarrow> MessageQueueGet mq s;
     (if msg = NULL then Some s
      else mq_drain mq (msg_free mq msg (MessageQueueRemove mq msg s)))
   }"

partial_function (option) mq_refill :: "ptr \<Rightarrow> rtx \<Rightarrow> rtx option" where
  "mq_refill mq s = do {
     let (msg, s) = osRtxMemoryPoolAlloc (mp_info mq) s;
     (if msg \<noteq> NULL then do {
        s \<leftarrow> take_from_sender mq msg False s;
        (if thread_list s mq \<noteq> NULL then mq_refill mq s else Some s)
      } else Some s)
   }"

definition svcRtxMessageQueueReset :: "ptr \<Rightarrow> rtx \<Rightarrow> (osStatus \<times> rtx) option" where
  "svcRtxMessageQueueReset mq s =
     (if ob_check osRtxIdMessageQueue mq s \<noteq> osOK then Some (ob_check osRtxIdMessageQueue mq s, s)
      else do {
        s \<leftarrow> mq_drain mq s;
        s \<leftarrow> (if waits_for osRtxThreadWaitingMessagePut mq s then do {
                s \<leftarrow> mq_refill mq s;
                osRtxThreadDispatch NULL s
              } else Some s);
        Some (osOK, s)
      })"

definition svcRtxMessageQueueDelete :: "ptr \<Rightarrow> rtx \<Rightarrow> (osStatus \<times> rtx) option" where
  "svcRtxMessageQueueDelete mq s =
     (if ob_check osRtxIdMessageQueue mq s \<noteq> osOK then Some (ob_check osRtxIdMessageQueue mq s, s)
      else do {
        let s = s\<lparr>ob_state := (ob_state s)(mq := osRtxObjectInactive)\<rparr>;
        s \<leftarrow> (if thread_list s mq \<noteq> NULL then do {
                s \<leftarrow> unblock_all mq (status_word osErrorResource) s;
                osRtxThreadDispatch NULL s
              } else Some s);
        s \<leftarrow> (if ob_flags s mq AND osRtxFlagSystemMemory \<noteq> 0 then do {
                (r, m) \<leftarrow> osRtxMemoryFree (mem_mq_data s) (block_base s (mp_info mq)) (mem s);
                Some (s\<lparr>mem := m\<rparr>)
              } else Some s);
        s \<leftarrow> (if ob_flags s mq AND osRtxFlagSystemObject \<noteq> 0
              then cb_free (mpi_message_queue s) mq s else Some s);
        Some (osOK, s)
      })"

definition isrRtxMessageQueuePut :: "ptr \<Rightarrow> ptr \<Rightarrow> u8 \<Rightarrow> u32 \<Rightarrow> rtx \<Rightarrow> (osStatus \<times> rtx) option" where
  "isrRtxMessageQueuePut mq msg_ptr msg_prio timeout s =
     (if mq = NULL \<or> ob_id s mq \<noteq> osRtxIdMessageQueue \<or> msg_ptr = NULL \<or> timeout \<noteq> 0
      then Some (osErrorParameter, s)
      else if ob_state s mq = osRtxObjectInactive then Some (osErrorResource, s)
      else
        let (msg, s) = osRtxMemoryPoolAlloc (mp_info mq) s
        in if msg \<noteq> NULL then do {
             let s = memcpy (msg + sizeof_message) msg_ptr (msg_size s mq) s;
             let s = msg_init msg msg_prio s;
             let s = s\<lparr>msg_prev := (msg_prev s)(msg := msg_ptr)\<rparr>;
             let s = s\<lparr>msg_next := (msg_next s)(msg := mq)\<rparr>;
             s \<leftarrow> osRtxPostProcess msg s;
             Some (osOK, s)
           }
           else Some (osErrorResource, s))"

definition isrRtxMessageQueueGet :: "ptr \<Rightarrow> ptr \<Rightarrow> ptr \<Rightarrow> u32 \<Rightarrow> rtx \<Rightarrow> (osStatus \<times> rtx) option" where
  "isrRtxMessageQueueGet mq msg_ptr msg_prio timeout s =
     (if mq = NULL \<or> ob_id s mq \<noteq> osRtxIdMessageQueue \<or> msg_ptr = NULL \<or> timeout \<noteq> 0
      then Some (osErrorParameter, s)
      else if ob_state s mq = osRtxObjectInactive then Some (osErrorResource, s)
      else do {
        (msg, s) \<leftarrow> MessageQueueGet mq s;
        (if msg \<noteq> NULL then do {
           let s = memcpy msg_ptr (msg + sizeof_message) (msg_size s mq) s;
           let s = (if msg_prio \<noteq> NULL then s\<lparr>bytes := (bytes s)(msg_prio := msg_priority s msg)\<rparr> else s);
           let s = s\<lparr>msg_mq := (msg_mq s)(msg := mq)\<rparr>;
           s \<leftarrow> osRtxPostProcess msg s;
           Some (osOK, s)
         }
         else Some (osErrorResource, s))
      })"

section \<open>Public API\<close>

definition osMessageQueueNew :: "u32 \<Rightarrow> u32 \<Rightarrow> mq_attr option \<Rightarrow> rtx \<Rightarrow> (ptr \<times> rtx) option" where
  "osMessageQueueNew mcount msize attr s =
     (if IsIrqMode s \<or> IsIrqMasked s then Some (NULL, s) else svcRtxMessageQueueNew mcount msize attr s)"

definition osMessageQueueGetName :: "ptr \<Rightarrow> rtx \<Rightarrow> ptr" where
  "osMessageQueueGetName mq_id s =
     (if IsIrqMode s \<or> IsIrqMasked s then NULL else svcRtxMessageQueueGetName mq_id s)"

definition osMessageQueuePut :: "ptr \<Rightarrow> ptr \<Rightarrow> u8 \<Rightarrow> u32 \<Rightarrow> rtx \<Rightarrow> (osStatus \<times> rtx) option" where
  "osMessageQueuePut mq_id msg_ptr msg_prio timeout s =
     (if IsIrqMode s \<or> IsIrqMasked s then isrRtxMessageQueuePut mq_id msg_ptr msg_prio timeout s
      else svcRtxMessageQueuePut mq_id msg_ptr msg_prio timeout s)"

definition osMessageQueueGet :: "ptr \<Rightarrow> ptr \<Rightarrow> ptr \<Rightarrow> u32 \<Rightarrow> rtx \<Rightarrow> (osStatus \<times> rtx) option" where
  "osMessageQueueGet mq_id msg_ptr msg_prio timeout s =
     (if IsIrqMode s \<or> IsIrqMasked s then isrRtxMessageQueueGet mq_id msg_ptr msg_prio timeout s
      else svcRtxMessageQueueGet mq_id msg_ptr msg_prio timeout s)"

definition osMessageQueueGetCapacity :: "ptr \<Rightarrow> rtx \<Rightarrow> u32" where
  "osMessageQueueGetCapacity mq_id s = svcRtxMessageQueueGetCapacity mq_id s"

definition osMessageQueueGetMsgSize :: "ptr \<Rightarrow> rtx \<Rightarrow> u32" where
  "osMessageQueueGetMsgSize mq_id s = svcRtxMessageQueueGetMsgSize mq_id s"

definition osMessageQueueGetCount :: "ptr \<Rightarrow> rtx \<Rightarrow> u32" where
  "osMessageQueueGetCount mq_id s = svcRtxMessageQueueGetCount mq_id s"

definition osMessageQueueGetSpace :: "ptr \<Rightarrow> rtx \<Rightarrow> u32" where
  "osMessageQueueGetSpace mq_id s = svcRtxMessageQueueGetSpace mq_id s"

definition osMessageQueueReset :: "ptr \<Rightarrow> rtx \<Rightarrow> (osStatus \<times> rtx) option" where
  "osMessageQueueReset mq_id s =
     (if IsIrqMode s \<or> IsIrqMasked s then Some (osErrorISR, s) else svcRtxMessageQueueReset mq_id s)"

definition osMessageQueueDelete :: "ptr \<Rightarrow> rtx \<Rightarrow> (osStatus \<times> rtx) option" where
  "osMessageQueueDelete mq_id s =
     (if IsIrqMode s \<or> IsIrqMasked s then Some (osErrorISR, s) else svcRtxMessageQueueDelete mq_id s)"

section \<open>Specification vocabulary\<close>

text \<open>
  The messages of a queue as a list, first message first, with the priorities \<open>p\<close>. \<open>mq_take\<close> is
  how svcRtxMessageQueueGet takes a message out of the list, \<open>mq_store\<close> how svcRtxMessageQueuePut
  puts one in.
\<close>

definition qnext :: "rtx \<Rightarrow> ptr \<Rightarrow> ptr \<Rightarrow> ptr" where
  "qnext s mq = (msg_next s)(NULL := msg_first s mq)"

definition mq_rep :: "ptr \<Rightarrow> (ptr \<Rightarrow> u8) \<Rightarrow> rtx \<Rightarrow> ptr list \<Rightarrow> bool" where
  "mq_rep mq p s xs \<longleftrightarrow> dll (qnext s mq) (msg_prev s) NULL xs \<and> msg_last s mq = before NULL xs \<and>
     unat (msg_count s mq) = length xs \<and> by_priority (\<lambda>x. uint (p x)) xs \<and>
     (\<forall>x\<in>set xs. msg_priority s x = p x \<and> ob_flags s x = 0)"

definition mq_take :: "ptr \<Rightarrow> rtx \<Rightarrow> (ptr \<times> rtx) option" where
  "mq_take mq s = do { (msg, s) \<leftarrow> MessageQueueGet mq s; Some (msg, MessageQueueRemove mq msg s) }"

definition mq_store :: "ptr \<Rightarrow> (ptr \<Rightarrow> u8) \<Rightarrow> ptr \<Rightarrow> rtx \<Rightarrow> rtx option" where
  "mq_store mq p msg s = MessageQueuePut mq msg (msg_init msg (p msg) s)"

section \<open>The message list is a priority queue\<close>

lemma backward_prefix: "backward b p (xs @ ys) \<Longrightarrow> backward b p xs"
  by (induction xs arbitrary: p) auto

lemma takeWhile_snoc: "\<not> P y \<Longrightarrow> takeWhile P (ys @ [y]) = takeWhile P ys"
  by (induction ys) auto

lemma dropWhile_snoc_neg: "\<not> P y \<Longrightarrow> dropWhile P (ys @ [y]) = dropWhile P ys @ [y]"
  by (induction ys) auto

lemma msg_pos_spec:
  assumes "backward prv NULL xs" "NULL \<notin> set xs" "by_priority (\<lambda>x. uint (pri x)) xs"
  shows "msg_pos pri prv k (before NULL xs) (after zs) =
    Some (before NULL (takeWhile (\<lambda>x. uint (pri x) \<ge> uint k) xs), after (dropWhile (\<lambda>x. uint (pri x) \<ge> uint k) xs @ zs))"
  using assms
proof (induction xs arbitrary: zs rule: rev_induct)
  case Nil then show ?case by (subst msg_pos.simps) simp
next
  case (snoc y ys)
  let ?P = "\<lambda>x. uint (pri x) \<ge> uint k"
  have y: "y \<noteq> NULL" using snoc.prems(2) by auto
  show ?case
  proof (cases "?P y")
    case True
    then have "\<forall>x\<in>set (ys @ [y]). ?P x" using snoc.prems(3) by (fastforce simp: sorted_wrt_append)
    then have "takeWhile ?P (ys @ [y]) = ys @ [y]" "dropWhile ?P (ys @ [y]) = []" by (simp_all add: takeWhile_eq_all_conv dropWhile_eq_Nil_conv)
    moreover have "\<not> pri y < k" using True by (simp add: word_less_def)
    ultimately show ?thesis by (subst msg_pos.simps) simp
  next
    case False
    have b: "prv y = before NULL ys" using backward_at [of prv NULL ys y "[]"] snoc.prems(1) by simp
    have "msg_pos pri prv k (before NULL ys) (after (y # zs)) =
        Some (before NULL (takeWhile ?P ys), after (dropWhile ?P ys @ y # zs))"
      by (rule snoc.IH) (use snoc.prems backward_prefix in \<open>auto simp: sorted_wrt_append\<close>)
    moreover have "pri y < k" using False by (simp add: word_less_def)
    ultimately have "msg_pos pri prv k (before NULL (ys @ [y])) (after zs) =
        Some (before NULL (takeWhile ?P ys), after (dropWhile ?P ys @ y # zs))"
      using y b by (subst msg_pos.simps) simp
    then show ?thesis unfolding takeWhile_snoc [of ?P y ys, OF False] dropWhile_snoc_neg [of ?P y ys, OF False] by simp
  qed
qed

lemma list_bound: "distinct (xs :: ptr list) \<Longrightarrow> NULL \<notin> set xs \<Longrightarrow> length xs < 2 ^ 32"
proof -
  assume d: "distinct xs" "NULL \<notin> set xs"
  then have "length (NULL # xs) = card (set (NULL # xs))" by (simp add: distinct_card)
  also have "\<dots> \<le> card (UNIV :: ptr set)" by (rule card_mono) simp_all
  finally show ?thesis by (simp add: card_word)
qed

lemma MessageQueuePut_spec:
  assumes r: "mq_rep mq p s xs" and x: "msg \<noteq> NULL" "msg \<notin> set xs"
  shows "\<exists>s'. mq_store mq p msg s = Some s' \<and> mq_rep mq p s' (pinsert (\<lambda>x. uint (p x)) msg xs)"
proof -
  let ?f = "\<lambda>x. uint (p x)"
  have d: "dll (qnext s mq) (msg_prev s) NULL xs" and l: "msg_last s mq = before NULL xs"
    and c: "unat (msg_count s mq) = length xs" and so: "by_priority ?f xs"
    and pr: "\<And>x. x \<in> set xs \<Longrightarrow> msg_priority s x = p x \<and> ob_flags s x = 0"
    using r by (auto simp: mq_rep_def)
  have nn: "NULL \<notin> set xs" and dx: "distinct xs" using dll_nonnull [OF d] dll_distinct [OF d] by auto
  obtain us vs where us: "takeWhile (\<lambda>x. ?f x \<ge> ?f msg) xs = us" and vs: "dropWhile (\<lambda>x. ?f x \<ge> ?f msg) xs = vs" by blast
  let ?s1 = "msg_init msg (p msg) s"
  have ps: "pinsert ?f msg xs = us @ msg # vs" unfolding us [symmetric] vs [symmetric] by (rule pinsert_split)
  have xs: "xs = us @ vs" unfolding us [symmetric] vs [symmetric] by simp
  have fx: "msg_priority ?s1 msg = p msg" "msg_prev ?s1 = msg_prev s" "msg_next ?s1 = msg_next s" "msg_first ?s1 = msg_first s"
    "msg_last ?s1 = msg_last s" "msg_count ?s1 = msg_count s" by (simp_all add: msg_init_def)
  have srt: "by_priority (\<lambda>x. uint (msg_priority ?s1 x)) xs"
    using so by (rule sorted_wrt_mono_rel [rotated]) (use pr x(2) in \<open>auto simp: msg_init_def\<close>)
  have tk: "takeWhile (\<lambda>y. uint (msg_priority ?s1 y) \<ge> uint (p msg)) xs = us" "dropWhile (\<lambda>y. uint (msg_priority ?s1 y) \<ge> uint (p msg)) xs = vs"
    unfolding us [symmetric] vs [symmetric] using pr x(2) by (auto intro!: takeWhile_cong dropWhile_cong simp: msg_init_def)
  have pos: "msg_pos (msg_priority ?s1) (msg_prev s) (p msg) (before NULL xs) NULL = Some (before NULL us, after vs)"
    using msg_pos_spec [of "msg_prev s" xs "msg_priority ?s1" "p msg" "[]"] d nn srt tk by (simp add: dll_def)
  have sub: "set us \<subseteq> set xs" "set vs \<subseteq> set xs" using xs by auto
  have bu: "before NULL us = NULL \<longleftrightarrow> us = []" using nn sub by (intro null_before) auto
  have av: "after vs = NULL \<longleftrightarrow> vs = []" using nn sub by (intro after_null) auto
  have bx: "before NULL xs = NULL \<longleftrightarrow> xs = []" using nn by (rule null_before)
  let ?n = "if us = [] then (msg_next s)(msg := after vs) else (msg_next s)(msg := after vs, before NULL us := msg)"
  let ?b = "if vs = [] then (msg_prev s)(msg := before NULL us) else (msg_prev s)(msg := before NULL us, after vs := msg)"
  let ?h = "if us = [] then (msg_first s)(mq := msg) else msg_first s"
  let ?t = "if vs = [] then (msg_last s)(mq := msg) else msg_last s"
  let ?s2 = "?s1\<lparr>msg_prev := ?b, msg_next := ?n, msg_first := ?h, msg_last := ?t,
     msg_count := (msg_count s)(mq := msg_count s mq + 1)\<rparr>"
  have put: "mq_store mq p msg s = Some ?s2"
  proof (cases "xs = []")
    case True
    then have "us = []" "vs = []" using xs by auto
    with True show ?thesis using l fx by (simp add: mq_store_def MessageQueuePut_def atomic_inc32_def)
  next
    case False
    obtain a c s1 where ac: "before NULL us = a" "after vs = c" and s1: "?s1 = s1" by blast
    have lst: "msg_last s1 mq \<noteq> NULL" using False l fx bx s1 by simp
    have pos': "msg_pos (msg_priority s1) (msg_prev s1) (msg_priority s1 msg) (msg_last s1 mq) NULL = Some (a, c)"
      using pos l fx s1 ac by simp
    have e: "mq_store mq p msg s = Some (
        let s = s1\<lparr>msg_prev := (msg_prev s1)(msg := a)\<rparr>; s = s\<lparr>msg_next := (msg_next s)(msg := c)\<rparr>;
            s = (if a \<noteq> NULL then s\<lparr>msg_next := (msg_next s)(a := msg)\<rparr> else s\<lparr>msg_first := (msg_first s)(mq := msg)\<rparr>);
            s = (if c \<noteq> NULL then s\<lparr>msg_prev := (msg_prev s)(c := msg)\<rparr> else s\<lparr>msg_last := (msg_last s)(mq := msg)\<rparr>)
        in s\<lparr>msg_count := (msg_count s)(mq := msg_count s mq + 1)\<rparr>)"
      by (simp only: mq_store_def MessageQueuePut_def s1 if_P [OF lst] pos' atomic_inc32_def Let_def bind.bind_lunit prod.case snd_conv)
    show ?thesis unfolding e Let_def s1 [symmetric] ac [symmetric] bu av using fx by (cases "us = []"; cases "vs = []") simp_all
  qed
  have mu: "msg \<notin> set us" "msg \<notin> set vs" using x(2) sub by auto
  have "dll (qnext ?s2 mq) (msg_prev ?s2) NULL (us @ msg # vs)"
  proof (rule dll_insert [of "qnext s mq" "msg_prev s"])
    show "dll (qnext s mq) (msg_prev s) NULL (us @ vs)" using d unfolding xs .
    have bm: "before NULL us \<noteq> msg" using mu x(1) before_in [of NULL us] by auto
    show "qnext ?s2 mq (before NULL us) = msg" using x(1) bu bm by (auto simp: qnext_def)
    show "qnext ?s2 mq msg = after vs" using x(1) bm by (auto simp: qnext_def)
    show "qnext ?s2 mq y = qnext s mq y" if "y \<noteq> msg" "y \<noteq> before NULL us" for y
      using that bu by (auto simp: qnext_def)
    show "msg_prev ?s2 msg = before NULL us" using mu(2) by (cases vs) auto
    show "msg_prev ?s2 (hd vs) = msg" if "vs \<noteq> []" using that by simp
    show "msg_prev ?s2 y = msg_prev s y" if "y \<noteq> msg" "vs = [] \<or> y \<noteq> hd vs" for y using that by auto
  qed (use x nn sub in auto)
  moreover have "msg_last ?s2 mq = before NULL (us @ msg # vs)" using l xs by (cases vs rule: rev_cases) auto
  moreover have "unat (msg_count s mq + 1) = length (us @ msg # vs)"
  proof -
    have "length xs + 1 < 2 ^ 32" using list_bound [of "msg # xs"] dx nn x by simp
    then have "unat (msg_count s mq + 1) = unat (msg_count s mq) + 1" using unat_add32 [of "msg_count s mq" 1] c by simp
    then show ?thesis using c xs by (metis Suc_eq_plus1 add_Suc_right length_Cons length_append)
  qed
  moreover have "by_priority ?f (us @ msg # vs)" using sorted_pinsert [OF so, of msg] ps by simp
  moreover have "msg_priority ?s2 y = p y \<and> ob_flags ?s2 y = 0" if "y \<in> set (us @ msg # vs)" for y
    using that pr sub by (auto simp: msg_init_def)
  ultimately have "mq_rep mq p ?s2 (us @ msg # vs)" unfolding mq_rep_def by auto
  with put ps show ?thesis by auto
qed

lemma MessageQueueTake_spec:
  assumes r: "mq_rep mq p s (x # xs)"
  shows "\<exists>s'. mq_take mq s = Some (x, s') \<and> mq_rep mq p s' xs"
proof -
  have d: "dll (qnext s mq) (msg_prev s) NULL (x # xs)" and l: "msg_last s mq = before NULL (x # xs)"
    and c: "unat (msg_count s mq) = Suc (length xs)" and so: "by_priority (\<lambda>x. uint (p x)) (x # xs)"
    and pr: "\<And>y. y \<in> set (x # xs) \<Longrightarrow> msg_priority s y = p y \<and> ob_flags s y = 0"
    using r by (auto simp: mq_rep_def)
  have nn: "NULL \<notin> set (x # xs)" "x \<notin> set xs" "distinct xs" using dll_nonnull [OF d] dll_distinct [OF d] by auto
  have h: "msg_first s mq = x" "msg_prev s x = NULL" using d by (auto simp: dll_def qnext_def)
  have "qnext s mq x = after xs" using d forward_at [of "qnext s mq" NULL "[x]" xs] by (simp add: dll_def)
  then have nx: "msg_next s x = after xs" using nn(1) by (simp add: qnext_def)
  have c1: "msg_count s mq \<noteq> 0" using c by auto
  then have c0: "msg_count s mq \<noteq> 0" "unat (msg_count s mq - 1) = length xs" using c unat_minus_one [OF c1] by auto
  let ?s1 = "s\<lparr>msg_count := (msg_count s)(mq := msg_count s mq - 1), ob_flags := (ob_flags s)(x := 1)\<rparr>"
  have g: "MessageQueueGet mq s = Some (x, ?s1)"
    using c0 h pr nn(1) by (simp add: MessageQueueGet_def atomic_dec32_nz_def Let_def) (subst msg_claim.simps, simp add: Let_def)
  let ?s2 = "MessageQueueRemove mq x ?s1"
  have f: "msg_first ?s2 = (msg_first s)(mq := after xs)" "msg_next ?s2 = msg_next s"
    "msg_prev ?s2 = (if xs = [] then msg_prev s else (msg_prev s)(hd xs := NULL))"
    "msg_last ?s2 = (if xs = [] then (msg_last s)(mq := NULL) else msg_last s)"
    "msg_count ?s2 = (msg_count s)(mq := msg_count s mq - 1)" "ob_flags ?s2 = (ob_flags s)(x := 1)" "msg_priority ?s2 = msg_priority s"
    using h nx nn(1) by (cases xs; simp add: MessageQueueRemove_def Let_def)+
  have "dll (qnext ?s2 mq) (msg_prev ?s2) NULL ([] @ xs)"
  proof (rule dll_remove [of "qnext s mq" "msg_prev s" NULL "[]" x xs])
    show "dll (qnext s mq) (msg_prev s) NULL ([] @ x # xs)" using d by simp
  qed (use f nx nn(1) in \<open>auto simp: qnext_def\<close>)
  moreover have "msg_last ?s2 mq = before NULL xs" using f(4) l by (cases xs) auto
  moreover have "msg_priority ?s2 y = p y \<and> ob_flags ?s2 y = 0" if "y \<in> set xs" for y
    using that f pr nn(2) by auto
  ultimately have "mq_rep mq p ?s2 xs" using f(5) c0(2) so by (simp add: mq_rep_def)
  with g show ?thesis by (simp add: mq_take_def)
qed

interpretation message_queue: prio_queue where rep = "mq_rep mq p" and put = "mq_store mq p" and get = "mq_take mq"
    and pri = "\<lambda>x. uint (p x)" and fresh = "\<lambda>x. x \<noteq> NULL" for mq p
  by unfold_locales (simp_all add: MessageQueuePut_spec MessageQueueTake_spec)

section \<open>Properties\<close>

text \<open>
  C17: Messages stored in an empty queue in any order (as svcRtxMessageQueuePut does: initialise, then
  insert) are taken out (as svcRtxMessageQueueGet does) sorted by descending priority, those of equal
  priority in the order in which they were sent, and the queue is empty and consistent again.
\<close>

theorem message_queue_sorts:
  assumes r: "mq_rep mq p s []" and d: "distinct msgs" "NULL \<notin> set msgs"
  shows "\<exists>s1 s2. put_all (mq_store mq p) msgs s = Some s1 \<and> unat (msg_count s1 mq) = length msgs \<and>
    get_all (mq_take mq) (length msgs) s1 = Some (sort_key (\<lambda>x. - uint (p x)) msgs, s2) \<and> mq_rep mq p s2 []"
proof -
  obtain s1 where 1: "put_all (mq_store mq p) msgs s = Some s1" "mq_rep mq p s1 (sort_key (\<lambda>x. - uint (p x)) msgs)"
    using message_queue.fill [OF r d(1)] d(2) by (auto simp: fold_pinsert_sort)
  obtain s2 where "get_all (mq_take mq) (length msgs) s1 = Some (sort_key (\<lambda>x. - uint (p x)) msgs, s2)" "mq_rep mq p s2 []"
    using message_queue.drain [OF 1(2)] by auto
  with 1 show ?thesis by (auto simp: mq_rep_def)
qed

theorem message_queue_sorts_witness:
  "\<exists>s1 s2. put_all (mq_store 0x5400 ((\<lambda>_. 0)(0x9000 := 1, 0x9020 := 7))) [0x9000, 0x9010, 0x9020] demo = Some s1 \<and>
     get_all (mq_take 0x5400) 3 s1 = Some ([0x9020, 0x9000, 0x9010], s2)"
proof -
  let ?p = "(\<lambda>_. 0)(0x9000 := 1, 0x9020 := 7) :: ptr \<Rightarrow> u8"
  have r: "mq_rep 0x5400 ?p demo []" by (simp add: mq_rep_def qnext_def demo_def blank_def)
  have l: "length [0x9000, 0x9010, 0x9020 :: ptr] = 3" by simp
  have k: "sort_key (\<lambda>x. - uint (?p x)) [0x9000, 0x9010, 0x9020] = [0x9020, 0x9000, 0x9010]" by simp_all
  have v: "distinct [0x9000, 0x9010, 0x9020 :: ptr]" "NULL \<notin> set [0x9000, 0x9010, 0x9020 :: ptr]" by simp_all
  show ?thesis using message_queue_sorts [OF r v] unfolding l k by blast
qed

text \<open>
  C33: svcRtxMessageQueuePut to a queue on which a thread waits for a message delivers it directly: it
  returns osOK, copies \<open>msg_size\<close> bytes from the sender's to the receiver's buffer and the priority to
  where the receiver asked for it (if it did), the receiver's call returns osOK, the receiver leaves
  the waiting and delay lists and runs at once if its priority is higher than the sender's.
\<close>

theorem svcRtxMessageQueuePut_delivers:
  assumes E: "entered s Q D W" and Q: "Q mq = Some (t # us)" and mr: "mq \<noteq> ready s"
    and ok: "ob_check osRtxIdMessageQueue mq s = osOK" and w: "ob_state s t = osRtxThreadWaitingMessageGet" and src: "src \<noteq> NULL"
    and reg: "osRtxThreadRegPtr s t = reg" "mem s (reg + 8) = dst" "mem s (reg + 12) = pp"
  shows "\<exists>s' Q' D' W'. svcRtxMessageQueuePut mq src prio timeout s = Some (osOK, s') \<and> settled s' Q' D' W' \<and>
    Q' mq = Some us \<and> D' = remove1 t D \<and> W' = remove1 t W \<and> mem s' reg = status_word osOK \<and>
    bytes s' = (let b = \<lambda>a. if a - dst < msg_size s mq then bytes s (src + (a - dst)) else bytes s a
                in if pp \<noteq> 0 then b(pp := prio) else b) \<and>
    run_next s' = (if priority s t > priority s (run_curr s) then t else run_curr s)"
proof -
  have mn: "mq \<noteq> NULL" and chk: "\<not> (mq = NULL \<or> ob_id s mq \<noteq> osRtxIdMessageQueue \<or> src = NULL)" "ob_state s mq \<noteq> osRtxObjectInactive"
    using ok src by (simp_all add: ob_check_ok)
  have hd: "thread_next s mq = t" "t \<noteq> NULL"
    using list_head [OF schedD(1) [OF enteredD(6) [OF E]] Q mn] dll_nonnull [OF lists_ok_dll [OF schedD(1) [OF enteredD(6) [OF E]] Q]] by auto
  then have wf: "waits_for osRtxThreadWaitingMessageGet mq s" using w by (simp add: waits_for_def)
  obtain s1 s2 R' where 1: "osRtxThreadListGet mq s = Some (t, s1)" "osRtxThreadWaitExit t (status_word osOK) True s1 = Some s2"
    "touched s s2" "settled s2 (Q(mq \<mapsto> us, ready s \<mapsto> R')) (remove1 t D) (remove1 t W)"
    "run_next s2 = (if priority s t > priority s (run_curr s) then t else run_curr s)"
    "mem s2 = (mem s)(osRtxThreadRegPtr s t := status_word osOK)"
    by (rule settled_wake [OF E Q mn mr]) blast
  note f = touched_fields [OF 1(3)] and g = touched_pool [OF 1(3)]
  have rg: "osRtxThreadRegPtr s2 t = reg" using f reg(1) by (simp add: osRtxThreadRegPtr_def)
  have m2: "mem s2 (reg + 8) = dst" "mem s2 (reg + 12) = pp" "mem s2 reg = status_word osOK" using 1(6) reg by simp_all
  let ?b = "\<lambda>a. if a - dst < msg_size s mq then bytes s (src + (a - dst)) else bytes s a"
  let ?s' = "s2\<lparr>bytes := if pp \<noteq> 0 then ?b(pp := prio) else ?b\<rparr>"
  have "give_to_receiver mq src prio True s = Some ?s'"
    using 1(1,2) rg m2 g by (simp add: give_to_receiver_def memcpy_def Let_def cong: if_cong del: status_word.simps)
  then have "svcRtxMessageQueuePut mq src prio timeout s = Some (osOK, ?s')"
    using chk wf by (simp add: svcRtxMessageQueuePut_def)
  then show ?thesis using 1(4,5) m2(3) mr
    by - (rule exI [of _ ?s'], rule exI [of _ "Q(mq \<mapsto> us, ready s \<mapsto> R')"], rule exI [of _ "remove1 t D"],
        rule exI [of _ "remove1 t W"], simp add: Let_def del: status_word.simps)
qed

text \<open>The semaphore of the configuration as a queue on which 0x4000 waits for a message of four bytes at 0xA000.\<close>

theorem svcRtxMessageQueuePut_delivers_witness:
  "\<exists>s s' Q' D' W'. svcRtxMessageQueuePut 0x5000 0xB000 9 0 s = Some (osOK, s') \<and> settled s' Q' D' W' \<and>
     Q' 0x5000 = Some [] \<and> bytes s 0xB003 = 77 \<and> bytes s' 0xA003 = 77 \<and> bytes s' 0xA008 = 9 \<and> run_next s' = 0x4000"
proof -
  let ?s = "demo\<lparr>ob_id := (ob_id demo)(0x5000 := 8), ob_state := (ob_state demo)(0x4000 := osRtxThreadWaitingMessageGet),
     msg_size := (\<lambda>_. 4), mem := (mem demo)(0x40228 := 0xA000, 0x4022C := 0xA008), bytes := (\<lambda>_. 0)(0xB003 := 77)\<rparr>"
  have i: "ob_id demo 0x5000 = osRtxIdSemaphore" by (simp add: demo_def blank_def)
  let ?d = "demo\<lparr>ob_id := (ob_id demo)(0x5000 := 8)\<rparr>"
  have "entered ?d demo_lists [0x6000] [0x4000]" using i by (intro entered_ids [OF demo_entered]) auto
  then have E0: "entered (?d\<lparr>ob_state := (ob_state ?d)(0x4000 := osRtxThreadWaitingMessageGet)\<rparr>) demo_lists [0x6000] [0x4000]"
    by (rule entered_state [of ?d _ _ _ "[0x2000, 0x3000]"]) (simp_all add: demo_lists_def demo_def blank_def)
  have E: "entered ?s demo_lists [0x6000] [0x4000]"
  proof -
    have "stack_ok ?s" by (simp add: stack_ok_def demo_def blank_def osRtxThreadRegPtr_def StackOffsetR0_def)
    then show ?thesis using E0 by (simp add: entered_def)
  qed
  have v: "demo_lists 0x5000 = Some [0x4000]" "0x5000 \<noteq> ready ?s" "ob_check osRtxIdMessageQueue 0x5000 ?s = osOK"
    "ob_state ?s 0x4000 = osRtxThreadWaitingMessageGet" "(0xB000 :: ptr) \<noteq> NULL" "osRtxThreadRegPtr ?s 0x4000 = 0x40220"
    "mem ?s (0x40220 + 8) = 0xA000" "mem ?s (0x40220 + 12) = 0xA008" "priority ?s 0x4000 > priority ?s (run_curr ?s)" "bytes ?s 0xB003 = 77"
    by (simp_all add: demo_lists_def demo_def blank_def ob_check_def osRtxThreadRegPtr_def StackOffsetR0_def)
  from svcRtxMessageQueuePut_delivers [OF E v(1-8), of 9 0]
  obtain s' Q' D' W' where "svcRtxMessageQueuePut 0x5000 0xB000 9 0 ?s = Some (osOK, s')" "settled s' Q' D' W'" "Q' 0x5000 = Some []"
    "bytes s' 0xA003 = 77" "bytes s' 0xA008 = 9" "run_next s' = 0x4000" using v(9) by (auto simp: Let_def)
  with v(10) show ?thesis by blast
qed

text \<open>
  svcRtxMessageQueueNew does not guard the rounding of the message size: for the sizes from
  0xFFFFFFFD to 0xFFFFFFFF the rounded size is zero, and the queue that is created (with the size recorded
  as requested) has blocks with room for the 12 bytes of a message header and none for its payload.
\<close>

theorem svcRtxMessageQueueNew_wraps:
  assumes new: "svcRtxMessageQueueNew mcount msize attr s = Some (mq, s')" "mq \<noteq> NULL" and sz: "0xFFFFFFFD \<le> msize" and i: "mp_info mq \<noteq> NULL"
  shows "msg_size s' mq = msize \<and> block_size s' (mp_info mq) = 12"
proof -
  have "unat msize \<ge> 0xFFFFFFFD" using sz by (simp add: word_le_nat_alt)
  then have "unat msize = 0xFFFFFFFD \<or> unat msize = 0xFFFFFFFE \<or> unat msize = 0xFFFFFFFF" using unat32 [of msize] by linarith
  moreover have "msize = word_of_nat (unat msize)" by simp
  ultimately have "msize = 0xFFFFFFFD \<or> msize = 0xFFFFFFFE \<or> msize = 0xFFFFFFFF" by (metis of_nat_numeral)
  then have b: "((msize + 3) AND NOT 3) + sizeof_message = 12" by auto
  have out: "\<not> c \<and> x = Some (mq, s')" if "(if c then Some (NULL, s) else x) = Some (mq, s')" for c x
    using that new(2) by (auto split: if_split_asm)
  note n1 = out [OF new(1) [unfolded svcRtxMessageQueueNew_def Let_def b]]
  note n2 = out [OF conjunct2 [OF n1]]
  note n3 = out [OF conjunct2 [OF n2]]
  from conjunct2 [OF n3] obtain mq1 d f s1 where 1: "object_alloc (mpi_message_queue s) sizeof_msgqueue (mem_mq_data s)
      (case attr of Some a \<Rightarrow> cb_mem a | None \<Rightarrow> NULL) (case attr of Some a \<Rightarrow> mq_mem a | None \<Rightarrow> NULL) (mcount * 12) s =
      Some (mq1, d, f, s1)"
    by (auto simp: bind_eq_Some_conv)
  have mq1: "mq1 = mq" using conjunct2 [OF n3] 1 by (auto split: if_split_asm)
  have "d \<noteq> NULL" using object_alloc_data [OF 1] new(2) mq1 by simp
  then show ?thesis using conjunct2 [OF n3] conjunct1 [OF n1] 1 mq1 i new(2) by (auto simp: osRtxMemoryPoolInit_def Let_def)
qed

theorem svcRtxMessageQueueNew_wraps_witness:
  "\<exists>s'. svcRtxMessageQueueNew 1 0xFFFFFFFE (Some \<lparr>at_name = 0, at_bits = 0, cb_mem = 0x7000, cb_size = 52, mq_mem = 0x8000, mq_size = 12\<rparr>) demo =
     Some (0x7000, s') \<and> msg_size s' 0x7000 = 0xFFFFFFFE \<and> block_size s' (mp_info 0x7000) = 12"
proof -
  have b: "((0xFFFFFFFE + 3 :: u32) AND NOT 3) + 12 = 12" by simp
  have "clz 1 = 31" "clz 12 = 28" by (simp_all add: clz_def upt_rec)
  then obtain s' where s: "svcRtxMessageQueueNew 1 0xFFFFFFFE (Some \<lparr>at_name = 0, at_bits = 0, cb_mem = 0x7000, cb_size = 52, mq_mem = 0x8000, mq_size = 12\<rparr>) demo =
     Some (0x7000, s')"
    unfolding svcRtxMessageQueueNew_def Let_def b by (simp add: cb_valid_def data_valid_def object_alloc_def)
  have "mp_info 0x7000 \<noteq> NULL" by simp
  then show ?thesis using s svcRtxMessageQueueNew_wraps [OF s] by fastforce
qed

end
