(* ===== verification/RtxTimer.thy ===== *)
theory RtxTimer
  imports RtxMsgQueue
begin

text \<open>
  Software timers (rtx_timer.c): the active timers form a list with relative tick counts like
  the threads' delay list; an expired timer's callback is queued as a message for the timer
  thread. The callback and its argument are stored in the bytes of the control block's finfo
  (offset 24), which is the payload of that message.
\<close>

unbundle bit_operations_syntax

section \<open>Operations\<close>

abbreviation (input) "sizeof_timer \<equiv> 32 :: u32"
abbreviation (input) "sizeof_finfo \<equiv> 8 :: u32"
abbreviation (input) "osRtxTimerInactive \<equiv> 0 :: u8"
abbreviation (input) "osRtxTimerStopped \<equiv> 1 :: u8"
abbreviation (input) "osRtxTimerRunning \<equiv> 2 :: u8"
abbreviation (input) "osTimerOnce \<equiv> 0 :: u32"
abbreviation (input) "osTimerPeriodic \<equiv> 1 :: u32"

abbreviation finfo :: "ptr \<Rightarrow> ptr" where
  "finfo timer \<equiv> timer + 24"

definition store32 :: "ptr \<Rightarrow> u32 \<Rightarrow> (ptr \<Rightarrow> u8) \<Rightarrow> ptr \<Rightarrow> u8" where
  "store32 p v b = b(p := ucast v, p + 1 := ucast (drop_bit 8 v), p + 2 := ucast (drop_bit 16 v),
                     p + 3 := ucast (drop_bit 24 v))"

definition load32 :: "ptr \<Rightarrow> (ptr \<Rightarrow> u8) \<Rightarrow> u32" where
  "load32 p b = ucast (b p) OR push_bit 8 (ucast (b (p + 1))) OR push_bit 16 (ucast (b (p + 2))) OR
     push_bit 24 (ucast (b (p + 3)))"

text \<open>The search is the same loop as in the threads' delay list.\<close>

definition TimerInsert :: "ptr \<Rightarrow> u32 \<Rightarrow> rtx \<Rightarrow> rtx option" where
  "TimerInsert timer tick s = do {
     (tick, prev, next) \<leftarrow> delay_pos (timer_ticks s) (timer_next s) tick NULL (timer_list s);
     let s = s\<lparr>timer_ticks := (timer_ticks s)(timer := tick)\<rparr>;
     let s = s\<lparr>timer_prev := (timer_prev s)(timer := prev)\<rparr>;
     let s = s\<lparr>timer_next := (timer_next s)(timer := next)\<rparr>;
     let s = (if next \<noteq> NULL
              then s\<lparr>timer_ticks := (timer_ticks s)(next := timer_ticks s next - timer_ticks s timer),
                     timer_prev := (timer_prev s)(next := timer)\<rparr>
              else s);
     Some (if prev \<noteq> NULL then s\<lparr>timer_next := (timer_next s)(prev := timer)\<rparr>
           else s\<lparr>timer_list := timer\<rparr>)
   }"

definition TimerRemove :: "ptr \<Rightarrow> rtx \<Rightarrow> rtx" where
  "TimerRemove timer s =
     (let s = (if timer_next s timer \<noteq> NULL
               then s\<lparr>timer_ticks := (timer_ticks s)(timer_next s timer :=
                        timer_ticks s (timer_next s timer) + timer_ticks s timer),
                      timer_prev := (timer_prev s)(timer_next s timer := timer_prev s timer)\<rparr>
               else s)
      in if timer_prev s timer \<noteq> NULL
         then s\<lparr>timer_next := (timer_next s)(timer_prev s timer := timer_next s timer)\<rparr>
         else s\<lparr>timer_list := timer_next s timer\<rparr>)"

definition TimerUnlink :: "ptr \<Rightarrow> rtx \<Rightarrow> rtx" where
  "TimerUnlink timer s =
     (let s = (if timer_next s timer \<noteq> NULL
               then s\<lparr>timer_prev := (timer_prev s)(timer_next s timer := timer_prev s timer)\<rparr> else s)
      in s\<lparr>timer_list := timer_next s timer\<rparr>)"

partial_function (option) timer_expire :: "ptr \<Rightarrow> rtx \<Rightarrow> rtx option" where
  "timer_expire timer s =
     (if timer \<noteq> NULL \<and> timer_ticks s timer = 0 then do {
        let s = TimerUnlink timer s;
        (status, s) \<leftarrow> osMessageQueuePut (timer_mq s) (finfo timer) 0 0 s;
        guard (status = osOK);
        s \<leftarrow> (if ucast (ob_attr s timer) = osTimerPeriodic then TimerInsert timer (timer_load s timer) s
              else Some (s\<lparr>ob_state := (ob_state s)(timer := osRtxTimerStopped)\<rparr>));
        timer_expire (timer_list s) s
      } else Some s)"

definition osRtxTimerTick :: "rtx \<Rightarrow> rtx option" where
  "osRtxTimerTick s =
     (let timer = timer_list s
      in if timer = NULL then Some s
         else timer_expire timer
                (s\<lparr>timer_ticks := (timer_ticks s)(timer := timer_ticks s timer - 1)\<rparr>))"

text \<open>
  The timer thread: its start creates the message queue and enables the tick; one round of its
  endless loop takes a message (into \<open>buf\<close>, the local finfo) and calls the function found there.
\<close>

definition osRtxTimerThread_start :: "u32 \<Rightarrow> mq_attr option \<Rightarrow> rtx \<Rightarrow> rtx option" where
  "osRtxTimerThread_start mcnt attr s = do {
     (mq, s) \<leftarrow> osMessageQueueNew mcnt sizeof_finfo attr s;
     let s = s\<lparr>timer_mq := mq\<rparr>;
     Some (if mq = NULL then s else s\<lparr>timer_tick_set := True\<rparr>)
   }"

definition osRtxTimerThread_round ::
    "ptr \<Rightarrow> rtx \<Rightarrow> ((u32 \<times> u32) option \<times> rtx) option" where
  "osRtxTimerThread_round buf s = do {
     (status, s) \<leftarrow> osMessageQueueGet (timer_mq s) buf NULL osWaitForever s;
     Some (if status = osOK then Some (load32 buf (bytes s), load32 (buf + 4) (bytes s)) else None, s)
   }"

definition svcRtxTimerNew :: "u32 \<Rightarrow> u32 \<Rightarrow> u32 \<Rightarrow> os_attr option \<Rightarrow> rtx \<Rightarrow> (ptr \<times> rtx) option" where
  "svcRtxTimerNew func type' argument attr s =
     (if func = 0 \<or> type' \<noteq> osTimerOnce \<and> type' \<noteq> osTimerPeriodic then Some (NULL, s)
      else if (case attr of Some a \<Rightarrow> \<not> cb_valid sizeof_timer a | None \<Rightarrow> False) then Some (NULL, s)
      else do {
        let name = (case attr of Some a \<Rightarrow> at_name a | None \<Rightarrow> NULL);
        let timer = (case attr of Some a \<Rightarrow> cb_mem a | None \<Rightarrow> NULL);
        (timer, flags, s) \<leftarrow>
          (if timer = NULL then do {
             (p, s) \<leftarrow> cb_alloc (mpi_timer s) sizeof_timer s;
             Some (p, osRtxFlagSystemObject, s)
           } else Some (timer, 0, s));
        (if timer \<noteq> NULL then do {
           let s = s\<lparr>ob_id := (ob_id s)(timer := osRtxIdTimer)\<rparr>;
           let s = s\<lparr>ob_state := (ob_state s)(timer := osRtxTimerStopped)\<rparr>;
           let s = s\<lparr>ob_flags := (ob_flags s)(timer := flags)\<rparr>;
           let s = s\<lparr>ob_attr := (ob_attr s)(timer := ucast type')\<rparr>;
           let s = s\<lparr>ob_name := (ob_name s)(timer := name)\<rparr>;
           let s = s\<lparr>timer_prev := (timer_prev s)(timer := NULL)\<rparr>;
           let s = s\<lparr>timer_next := (timer_next s)(timer := NULL)\<rparr>;
           let s = s\<lparr>timer_ticks := (timer_ticks s)(timer := 0)\<rparr>;
           let s = s\<lparr>timer_load := (timer_load s)(timer := 0)\<rparr>;
           Some (timer, s\<lparr>bytes := store32 (finfo timer + 4) argument (store32 (finfo timer) func (bytes s))\<rparr>)
         } else Some (timer, s))
      })"

definition svcRtxTimerGetName :: "ptr \<Rightarrow> rtx \<Rightarrow> ptr" where
  "svcRtxTimerGetName timer s =
     (if ob_check osRtxIdTimer timer s \<noteq> osOK then NULL else ob_name s timer)"

definition svcRtxTimerStart :: "ptr \<Rightarrow> u32 \<Rightarrow> rtx \<Rightarrow> (osStatus \<times> rtx) option" where
  "svcRtxTimerStart timer ticks s =
     (if timer = NULL \<or> ob_id s timer \<noteq> osRtxIdTimer \<or> ticks = 0 then Some (osErrorParameter, s)
      else if ob_state s timer = osRtxTimerInactive then Some (osErrorResource, s)
      else if ob_state s timer = osRtxTimerRunning then do {
        s \<leftarrow> TimerInsert timer ticks (TimerRemove timer s);
        Some (osOK, s)
      }
      else if \<not> timer_tick_set s then Some (osErrorResource, s)
      else do {
        let s = s\<lparr>ob_state := (ob_state s)(timer := osRtxTimerRunning)\<rparr>;
        let s = s\<lparr>timer_load := (timer_load s)(timer := ticks)\<rparr>;
        s \<leftarrow> TimerInsert timer ticks s;
        Some (osOK, s)
      })"

definition svcRtxTimerStop :: "ptr \<Rightarrow> rtx \<Rightarrow> osStatus \<times> rtx" where
  "svcRtxTimerStop timer s =
     (if timer = NULL \<or> ob_id s timer \<noteq> osRtxIdTimer then (osErrorParameter, s)
      else if ob_state s timer \<noteq> osRtxTimerRunning then (osErrorResource, s)
      else (osOK, TimerRemove timer (s\<lparr>ob_state := (ob_state s)(timer := osRtxTimerStopped)\<rparr>)))"

definition svcRtxTimerIsRunning :: "ptr \<Rightarrow> rtx \<Rightarrow> u32" where
  "svcRtxTimerIsRunning timer s =
     (if timer = NULL \<or> ob_id s timer \<noteq> osRtxIdTimer then 0
      else if ob_state s timer = osRtxTimerRunning then 1 else 0)"

definition svcRtxTimerDelete :: "ptr \<Rightarrow> rtx \<Rightarrow> (osStatus \<times> rtx) option" where
  "svcRtxTimerDelete timer s =
     (if timer = NULL \<or> ob_id s timer \<noteq> osRtxIdTimer then Some (osErrorParameter, s)
      else if ob_state s timer = osRtxTimerInactive then Some (osErrorResource, s)
      else do {
        let s = (if ob_state s timer = osRtxTimerRunning then TimerRemove timer s else s);
        let s = s\<lparr>ob_state := (ob_state s)(timer := osRtxTimerInactive)\<rparr>;
        s \<leftarrow> (if ob_flags s timer AND osRtxFlagSystemObject \<noteq> 0
              then cb_free (mpi_timer s) timer s else Some s);
        Some (osOK, s)
      })"

section \<open>Public API\<close>

definition osTimerNew :: "u32 \<Rightarrow> u32 \<Rightarrow> u32 \<Rightarrow> os_attr option \<Rightarrow> rtx \<Rightarrow> (ptr \<times> rtx) option" where
  "osTimerNew func type' argument attr s =
     (if IsIrqMode s \<or> IsIrqMasked s then Some (NULL, s) else svcRtxTimerNew func type' argument attr s)"

definition osTimerGetName :: "ptr \<Rightarrow> rtx \<Rightarrow> ptr" where
  "osTimerGetName timer_id s =
     (if IsIrqMode s \<or> IsIrqMasked s then NULL else svcRtxTimerGetName timer_id s)"

definition osTimerStart :: "ptr \<Rightarrow> u32 \<Rightarrow> rtx \<Rightarrow> (osStatus \<times> rtx) option" where
  "osTimerStart timer_id ticks s =
     (if IsIrqMode s \<or> IsIrqMasked s then Some (osErrorISR, s) else svcRtxTimerStart timer_id ticks s)"

definition osTimerStop :: "ptr \<Rightarrow> rtx \<Rightarrow> osStatus \<times> rtx" where
  "osTimerStop timer_id s =
     (if IsIrqMode s \<or> IsIrqMasked s then (osErrorISR, s) else svcRtxTimerStop timer_id s)"

definition osTimerIsRunning :: "ptr \<Rightarrow> rtx \<Rightarrow> u32" where
  "osTimerIsRunning timer_id s =
     (if IsIrqMode s \<or> IsIrqMasked s then 0 else svcRtxTimerIsRunning timer_id s)"

definition osTimerDelete :: "ptr \<Rightarrow> rtx \<Rightarrow> (osStatus \<times> rtx) option" where
  "osTimerDelete timer_id s =
     (if IsIrqMode s \<or> IsIrqMasked s then Some (osErrorISR, s) else svcRtxTimerDelete timer_id s)"

end
