(* ===== verification/RtxKernel.thy ===== *)
theory RtxKernel
  imports RtxThread RtxSemaphore RtxEvFlags RtxTimer
begin

text \<open>
  The exception handlers of rtx_system.c and the kernel control calls of rtx_kernel.c.
  A registered post-processing function is always the one of its object type, so the PendSV
  handler's calls through osRtxInfo.post_process are direct calls.
\<close>

unbundle bit_operations_syntax

section \<open>Exception handlers\<close>

partial_function (option) pendsv_loop :: "rtx \<Rightarrow> rtx option" where
  "pendsv_loop s =
     (let (object, s) = isr_queue_get s
      in if object = NULL then Some s
         else do {
           s \<leftarrow> (if ob_id s object = osRtxIdThread then osRtxThreadPostProcess object s
                 else if ob_id s object = osRtxIdEventFlags then osRtxEventFlagsPostProcess object s
                 else if ob_id s object = osRtxIdSemaphore then osRtxSemaphorePostProcess object s
                 else if ob_id s object = osRtxIdMemoryPool then osRtxMemoryPoolPostProcess object s
                 else if ob_id s object = osRtxIdMessage then osRtxMessageQueuePostProcess object s
                 else Some s);
           pendsv_loop s
         })"

definition osRtxPendSV_Handler :: "rtx \<Rightarrow> rtx option" where
  "osRtxPendSV_Handler s = do {
     s \<leftarrow> pendsv_loop s;
     osRtxThreadDispatch NULL s
   }"

definition round_robin :: "rtx \<Rightarrow> rtx option" where
  "round_robin s =
     (if robin_timeout s \<noteq> 0 then
        if robin_thread s \<noteq> run_next s
        then Some (s\<lparr>robin_thread := run_next s, robin_tick := robin_timeout s\<rparr>)
        else
          let s = (if robin_tick s \<noteq> 0 then s\<lparr>robin_tick := robin_tick s - 1\<rparr> else s)
          in if robin_tick s = 0 \<and> kernel_state s = osRtxKernelRunning then
               let thread = thread_list s (ready s)
               in if thread \<noteq> NULL \<and> priority s thread = priority s (robin_thread s) then do {
                    s \<leftarrow> osRtxThreadListRemove thread s;
                    s \<leftarrow> osRtxThreadReadyPut (robin_thread s) s;
                    s \<leftarrow> osRtxThreadSwitch thread s;
                    Some (s\<lparr>robin_thread := thread, robin_tick := robin_timeout s\<rparr>)
                  }
                  else Some s
             else Some s
      else Some s)"

definition osRtxTick_Handler :: "rtx \<Rightarrow> rtx option" where
  "osRtxTick_Handler s = do {
     let s = s\<lparr>kernel_tick := kernel_tick s + 1\<rparr>;
     s \<leftarrow> (if timer_tick_set s then osRtxTimerTick s else Some s);
     s \<leftarrow> osRtxThreadDelayTick s;
     s \<leftarrow> osRtxThreadDispatch NULL s;
     round_robin s
   }"

section \<open>Kernel control\<close>

definition KernelBlock :: "rtx \<Rightarrow> rtx" where
  "KernelBlock s =
     (let s = s\<lparr>kernel_blocked := 1\<rparr>
      in if pendsv_set s then s\<lparr>pendsv_set := False, kernel_pendSV := 1\<rparr> else s)"

definition KernelUnblock :: "rtx \<Rightarrow> rtx" where
  "KernelUnblock s =
     (let s = s\<lparr>kernel_blocked := 0\<rparr>
      in if kernel_pendSV s \<noteq> 0 then SetPendSV (s\<lparr>kernel_pendSV := 0\<rparr>) else s)"

text \<open>The part of osRtxConfig that the initialisation reads; pools are already described in
  their osRtxMpInfo_t.\<close>

record rtx_config =
  cf_isr_data :: ptr
  cf_isr_max :: u16
  cf_robin_timeout :: u32
  cf_common :: "ptr \<times> u32"
  cf_stack :: "ptr \<times> u32"
  cf_mp_data :: "ptr \<times> u32"
  cf_mq_data :: "ptr \<times> u32"
  cf_mpi_stack :: ptr
  cf_mpi_thread :: ptr
  cf_mpi_timer :: ptr
  cf_mpi_event_flags :: ptr
  cf_mpi_mutex :: ptr
  cf_mpi_semaphore :: ptr
  cf_mpi_memory_pool :: ptr
  cf_mpi_message_queue :: ptr

text \<open>One variable-size memory: its address if it can be initialised, else \<open>other\<close>.\<close>

definition init_area :: "ptr \<times> u32 \<Rightarrow> ptr \<Rightarrow> rtx \<Rightarrow> ptr \<times> rtx" where
  "init_area area other s =
     (let (r, m) = osRtxMemoryInit (fst area) (snd area) (mem s)
      in (if r \<noteq> 0 then fst area else other, s\<lparr>mem := m\<rparr>))"

definition init_pool :: "ptr \<Rightarrow> rtx \<Rightarrow> ptr \<times> rtx" where
  "init_pool mpi s =
     (if mpi \<noteq> NULL then
        let (r, s) = osRtxMemoryPoolInit mpi (max_blocks s mpi) (block_size s mpi) (block_base s mpi) s
        in (if r \<noteq> 0 then mpi else NULL, s)
      else (NULL, s))"

definition svcRtxKernelInitialize :: "rtx_config \<Rightarrow> rtx \<Rightarrow> osStatus \<times> rtx" where
  "svcRtxKernelInitialize cf s =
     (if kernel_state s = osRtxKernelReady then (osOK, s)
      else if kernel_state s \<noteq> osRtxKernelInactive then (osError, s)
      else if config_stack_size s < 64 + 8 then (osError, s)
      else if cf_isr_data cf = NULL \<or> cf_isr_max cf = 0 then (osError, s)
      else
        let s = s\<lparr>kernel_state := 0, kernel_blocked := 0, kernel_pendSV := 0, kernel_tick := 0,
                  run_curr := NULL, run_next := NULL, thread_next := (thread_next s)(ready s := NULL),
                  ob_id := (ob_id s)(ready s := osRtxIdInvalid),
                  ob_state := (ob_state s)(ready s := 0), ob_flags := (ob_flags s)(ready s := 0),
                  ob_attr := (ob_attr s)(ready s := 0), ob_name := (ob_name s)(ready s := NULL),
                  idle_thread := NULL, delay_list := NULL, wait_list := NULL, terminate_list := NULL,
                  robin_thread := NULL, robin_tick := 0, robin_timeout := 0,
                  timer_list := NULL, timer_thread := NULL, timer_mq := NULL, timer_tick_set := False,
                  isr_max := 0, isr_cnt := 0, isr_in := 0, isr_out := 0,
                  mem_stack := NULL, mem_mp_data := NULL, mem_mq_data := NULL, mem_common := NULL,
                  mpi_stack := NULL, mpi_thread := NULL, mpi_timer := NULL, mpi_event_flags := NULL,
                  mpi_mutex := NULL, mpi_semaphore := NULL, mpi_memory_pool := NULL,
                  mpi_message_queue := NULL\<rparr>;
            s = s\<lparr>isr_max := cf_isr_max cf\<rparr>;
            s = s\<lparr>robin_timeout := cf_robin_timeout cf\<rparr>;
            (p, s) = init_area (cf_common cf) NULL s;
            s = s\<lparr>mem_common := p\<rparr>;
            (p, s) = init_area (cf_stack cf) (mem_common s) s;
            s = s\<lparr>mem_stack := p\<rparr>;
            (p, s) = init_area (cf_mp_data cf) (mem_common s) s;
            s = s\<lparr>mem_mp_data := p\<rparr>;
            (p, s) = init_area (cf_mq_data cf) (mem_common s) s;
            s = s\<lparr>mem_mq_data := p\<rparr>;
            (p, s) = init_pool (cf_mpi_stack cf) s;
            s = s\<lparr>mpi_stack := p\<rparr>;
            (p, s) = init_pool (cf_mpi_thread cf) s;
            s = s\<lparr>mpi_thread := p\<rparr>;
            (p, s) = init_pool (cf_mpi_timer cf) s;
            s = s\<lparr>mpi_timer := p\<rparr>;
            (p, s) = init_pool (cf_mpi_event_flags cf) s;
            s = s\<lparr>mpi_event_flags := p\<rparr>;
            (p, s) = init_pool (cf_mpi_mutex cf) s;
            s = s\<lparr>mpi_mutex := p\<rparr>;
            (p, s) = init_pool (cf_mpi_semaphore cf) s;
            s = s\<lparr>mpi_semaphore := p\<rparr>;
            (p, s) = init_pool (cf_mpi_memory_pool cf) s;
            s = s\<lparr>mpi_memory_pool := p\<rparr>;
            (p, s) = init_pool (cf_mpi_message_queue cf) s;
            s = s\<lparr>mpi_message_queue := p\<rparr>
        in (osOK, s\<lparr>kernel_state := osRtxKernelReady\<rparr>))"

text \<open>
  Starting the scheduler. \<open>tick_ok\<close> is the result of OS_Tick_Setup; the CONTROL register and the
  exception priorities are not part of the state.
\<close>

definition svcRtxKernelStart ::
    "u32 \<Rightarrow> u32 \<times> thread_attr option \<Rightarrow> u32 \<times> thread_attr option \<Rightarrow> u32 \<Rightarrow> bool \<Rightarrow> rtx \<Rightarrow>
     (osStatus \<times> rtx) option" where
  "svcRtxKernelStart exit_addr idle timer mcnt tick_ok s =
     (if kernel_state s \<noteq> osRtxKernelReady then Some (osError, s)
      else do {
        (ok, s) \<leftarrow> osRtxThreadStartup exit_addr idle timer mcnt s;
        (if \<not> ok \<or> \<not> tick_ok then Some (osError, s)
         else do {
           (thread, s) \<leftarrow> osRtxThreadListGet (ready s) s;
           (if thread = NULL then Some (osError, s)
            else do {
              s \<leftarrow> osRtxThreadSwitch thread s;
              Some (osOK, s\<lparr>kernel_state := osRtxKernelRunning\<rparr>)
            })
         })
      })"

definition svcRtxKernelGetState :: "rtx \<Rightarrow> u8" where
  "svcRtxKernelGetState s = kernel_state s"

definition svcRtxKernelLock :: "rtx \<Rightarrow> int \<times> rtx" where
  "svcRtxKernelLock s =
     (if kernel_state s = osRtxKernelRunning then (0, s\<lparr>kernel_state := osRtxKernelLocked\<rparr>)
      else if kernel_state s = osRtxKernelLocked then (1, s)
      else (- 1, s))"

definition svcRtxKernelUnlock :: "rtx \<Rightarrow> int \<times> rtx" where
  "svcRtxKernelUnlock s =
     (if kernel_state s = osRtxKernelRunning then (0, s)
      else if kernel_state s = osRtxKernelLocked then (1, s\<lparr>kernel_state := osRtxKernelRunning\<rparr>)
      else (- 1, s))"

definition svcRtxKernelRestoreLock :: "int \<Rightarrow> rtx \<Rightarrow> int \<times> rtx" where
  "svcRtxKernelRestoreLock lk s =
     (if kernel_state s = osRtxKernelRunning \<or> kernel_state s = osRtxKernelLocked then
        if lk = 0 then (0, s\<lparr>kernel_state := osRtxKernelRunning\<rparr>)
        else if lk = 1 then (1, s\<lparr>kernel_state := osRtxKernelLocked\<rparr>)
        else (- 1, s)
      else (- 1, s))"

definition svcRtxKernelSuspend :: "rtx \<Rightarrow> u32 \<times> rtx" where
  "svcRtxKernelSuspend s =
     (if kernel_state s \<noteq> osRtxKernelRunning then (0, s)
      else
        let s = KernelBlock s;
            d = osWaitForever;
            d = (if delay_list s \<noteq> NULL then delay s (delay_list s) else d);
            d = (if timer_list s \<noteq> NULL \<and> timer_ticks s (timer_list s) < d
                 then timer_ticks s (timer_list s) else d)
        in (d, s\<lparr>kernel_state := osRtxKernelSuspended\<rparr>))"

text \<open>The two do-while loops of svcRtxKernelResume.\<close>

partial_function (option) resume_delays :: "u32 \<Rightarrow> rtx \<Rightarrow> rtx option" where
  "resume_delays d s = do {
     s \<leftarrow> osRtxThreadDelayTick s;
     (if d = 0 then Some s
      else do {
        let d = d - 1;
        let s = s\<lparr>kernel_tick := kernel_tick s + 1\<rparr>;
        (if delay_list s \<noteq> NULL then resume_delays d s else Some s)
      })
   }"

partial_function (option) resume_timers :: "u32 \<Rightarrow> rtx \<Rightarrow> rtx option" where
  "resume_timers sleep_ticks s = do {
     s \<leftarrow> osRtxTimerTick s;
     (if sleep_ticks = 0 then Some s
      else do {
        let sleep_ticks = sleep_ticks - 1;
        (if timer_list s \<noteq> NULL then resume_timers sleep_ticks s else Some s)
      })
   }"

definition svcRtxKernelResume :: "u32 \<Rightarrow> rtx \<Rightarrow> rtx option" where
  "svcRtxKernelResume sleep_ticks s =
     (if kernel_state s \<noteq> osRtxKernelSuspended then Some s
      else do {
        let thread = delay_list s;
        s \<leftarrow> (if thread \<noteq> NULL then
                let d = sleep_ticks
                in if d \<ge> delay s thread then
                     let d = d - delay s thread;
                         s = s\<lparr>kernel_tick := kernel_tick s + delay s thread\<rparr>;
                         s = s\<lparr>delay := (delay s)(thread := 1)\<rparr>
                     in resume_delays d s
                   else Some (s\<lparr>delay := (delay s)(thread := delay s thread - d),
                                kernel_tick := kernel_tick s + d\<rparr>)
              else Some (s\<lparr>kernel_tick := kernel_tick s + sleep_ticks\<rparr>));
        let timer = timer_list s;
        s \<leftarrow> (if timer \<noteq> NULL then
                if sleep_ticks \<ge> timer_ticks s timer then
                  resume_timers (sleep_ticks - timer_ticks s timer)
                    (s\<lparr>timer_ticks := (timer_ticks s)(timer := 1)\<rparr>)
                else Some (s\<lparr>timer_ticks := (timer_ticks s)(timer := timer_ticks s timer - sleep_ticks)\<rparr>)
              else Some s);
        let s = s\<lparr>kernel_state := osRtxKernelRunning\<rparr>;
        s \<leftarrow> osRtxThreadDispatch NULL s;
        Some (KernelUnblock s)
      })"

definition svcRtxKernelGetTickCount :: "rtx \<Rightarrow> u32" where
  "svcRtxKernelGetTickCount s = kernel_tick s"

text \<open>
  The system timer: \<open>counts\<close> are the values of the two reads of OS_Tick_GetCount, \<open>overflow\<close>
  whether the tick interrupt is pending between them, \<open>interval\<close> is OS_Tick_GetInterval.
\<close>

definition svcRtxKernelGetSysTimerCount :: "u32 \<times> u32 \<Rightarrow> bool \<Rightarrow> u32 \<Rightarrow> rtx \<Rightarrow> u32" where
  "svcRtxKernelGetSysTimerCount counts overflow interval s =
     (let tick = kernel_tick s;
          (count, tick) = (if overflow then (snd counts, tick + 1) else (fst counts, tick))
      in count + tick * interval)"

section \<open>Public API\<close>

definition osKernelInitialize :: "rtx_config \<Rightarrow> rtx \<Rightarrow> osStatus \<times> rtx" where
  "osKernelInitialize cf s = (if irq_context s then (osErrorISR, s) else svcRtxKernelInitialize cf s)"

definition osKernelStart ::
    "u32 \<Rightarrow> u32 \<times> thread_attr option \<Rightarrow> u32 \<times> thread_attr option \<Rightarrow> u32 \<Rightarrow> bool \<Rightarrow> rtx \<Rightarrow>
     (osStatus \<times> rtx) option" where
  "osKernelStart exit_addr idle timer mcnt tick_ok s =
     (if irq_context s then Some (osErrorISR, s)
      else svcRtxKernelStart exit_addr idle timer mcnt tick_ok s)"

definition osKernelGetState :: "rtx \<Rightarrow> u8" where
  "osKernelGetState s = svcRtxKernelGetState s"

definition osKernelLock :: "rtx \<Rightarrow> int \<times> rtx" where
  "osKernelLock s = (if irq_context s then (- 6, s) else svcRtxKernelLock s)"

definition osKernelUnlock :: "rtx \<Rightarrow> int \<times> rtx" where
  "osKernelUnlock s = (if irq_context s then (- 6, s) else svcRtxKernelUnlock s)"

definition osKernelRestoreLock :: "int \<Rightarrow> rtx \<Rightarrow> int \<times> rtx" where
  "osKernelRestoreLock lk s = (if irq_context s then (- 6, s) else svcRtxKernelRestoreLock lk s)"

definition osKernelSuspend :: "rtx \<Rightarrow> u32 \<times> rtx" where
  "osKernelSuspend s = (if irq_context s then (0, s) else svcRtxKernelSuspend s)"

definition osKernelResume :: "u32 \<Rightarrow> rtx \<Rightarrow> rtx option" where
  "osKernelResume sleep_ticks s = (if irq_context s then Some s else svcRtxKernelResume sleep_ticks s)"

definition osKernelGetTickCount :: "rtx \<Rightarrow> u32" where
  "osKernelGetTickCount s = svcRtxKernelGetTickCount s"

definition osKernelGetSysTimerCount :: "u32 \<times> u32 \<Rightarrow> bool \<Rightarrow> u32 \<Rightarrow> rtx \<Rightarrow> u32" where
  "osKernelGetSysTimerCount counts overflow interval s =
     svcRtxKernelGetSysTimerCount counts overflow interval s"

end
