(* ===== verification/ThreadInv.thy ===== *)
theory ThreadInv
  imports RtxKernel RtxPriority
begin

text \<open>
  The invariant of the running kernel and the thread calls: yield, delay, change of priority, suspend and
  resume return from every state that satisfies it and keep it.
\<close>

unbundle bit_operations_syntax

section \<open>Specification vocabulary\<close>

text \<open>
  \<open>kernel_inv\<close> is the invariant of the running kernel: the scheduler has settled, the thread states agree
  with the lists, every active semaphore and event flags object has a waiting list, no software timer is
  active and the queue of the interrupt handlers holds such objects only. \<open>kept\<close> relates two states with
  the same objects and queue, \<open>quiet\<close> is the invariant inside a handler, before its dispatch.
\<close>

definition objects :: "rtx \<Rightarrow> (ptr \<rightharpoonup> ptr list) \<Rightarrow> bool" where
  "objects s Q \<longleftrightarrow> (\<forall>p. ob_id s p \<in> {osRtxIdSemaphore, osRtxIdEventFlags} \<longrightarrow> ob_state s p \<noteq> osRtxObjectInactive \<longrightarrow>
     p \<in> dom Q \<and> p \<noteq> ready s)"

definition isr_ok :: "rtx \<Rightarrow> bool" where
  "isr_ok s \<longleftrightarrow> (\<exists>xs. isr_rep (unat (isr_max s)) s xs \<and>
     (\<forall>x\<in>set xs. x \<noteq> NULL \<and> ob_id s x \<in> {osRtxIdSemaphore, osRtxIdEventFlags}))"

definition kernel_inv :: "rtx \<Rightarrow> (ptr \<rightharpoonup> ptr list) \<Rightarrow> ptr list \<Rightarrow> ptr list \<Rightarrow> bool" where
  "kernel_inv s Q D W \<longleftrightarrow> settled s Q D W \<and> tstates {} s Q D W \<and> objects s Q \<and> timer_list s = NULL \<and> isr_ok s"

definition kept :: "rtx \<Rightarrow> rtx \<Rightarrow> bool" where
  "kept s s' \<longleftrightarrow> ob_id s' = ob_id s \<and> ready s' = ready s \<and> timer_list s' = timer_list s \<and> isr_max s' = isr_max s \<and>
     isr_cnt s' = isr_cnt s \<and> isr_in s' = isr_in s \<and> isr_out s' = isr_out s \<and> isr_data s' = isr_data s \<and>
     (\<forall>x. ob_id s x \<noteq> osRtxIdThread \<longrightarrow> ob_state s' x = ob_state s x)"

definition quiet :: "rtx \<Rightarrow> (ptr \<rightharpoonup> ptr list) \<Rightarrow> ptr list \<Rightarrow> ptr list \<Rightarrow> bool" where
  "quiet s Q D W \<longleftrightarrow> sched s Q D W \<and> loose s Q D W (run_next s) \<and> run_curr s = run_next s \<and>
     kernel_state s = osRtxKernelRunning \<and> ob_state s (run_next s) = osRtxThreadRunning \<and> stack_ok s \<and> tstates {} s Q D W"

section \<open>Moving threads between the running, ready and blocked states\<close>

text \<open>The head of the ready list takes over from the chosen thread, which goes to the end of its priority.\<close>

lemma settled_rotate:
  assumes S: "settled s Q D W" and so: "stack_ok s" and R: "Q (ready s) = Some (x # xs)"
    and p: "priority s x = priority s (run_next s)"
  obtains s1 s2 s' where "osRtxThreadListRemove x s = Some s1" "osRtxThreadReadyPut (run_next s) s1 = Some s2"
    "osRtxThreadSwitch x s2 = Some s'" "touched s s'" "mem s' = mem s" "run_next s' = x"
    "settled s' (Q(ready s \<mapsto> pinsert (priority s) (run_next s) xs)) D W" "touched s s1" "touched s s2"
    "tstates {} s Q D W \<Longrightarrow> tstates {} s' (Q(ready s \<mapsto> pinsert (priority s) (run_next s) xs)) D W"
    "\<forall>y. ob_id s y \<noteq> osRtxIdThread \<longrightarrow> ob_state s' y = ob_state s y"
proof -
  note sd = settledD [OF S] and DD = schedD [OF settledD(1) [OF S]]
  let ?r = "run_next s" and ?R = "pinsert (priority s) (run_next s) xs"
  obtain s1 where 1: "osRtxThreadListRemove x s = Some s1" "touched s s1"
    "sched s1 (Q(ready s \<mapsto> remove1 x (x # xs))) D W" "ob_state s1 = ob_state s" "run_next s1 = run_next s" "mem s1 = mem s"
    "x \<noteq> NULL" "x \<notin> members (Q(ready s \<mapsto> remove1 x (x # xs)))" "ob_id s x = osRtxIdThread"
    by (rule ListRemove_sched [OF sd(1) R DD(3), of x]) auto
  note f = touched_fields [OF 1(2)]
  let ?Q = "Q(ready s \<mapsto> xs)"
  have xr: "x \<noteq> ?r" using sd(2) R unfolding loose_def in_members by force
  have sub: "members ?Q \<subseteq> members Q" by (rule members_upd_sub [of Q "ready s" "x # xs"]) (use R in auto)
  have l: "loose s1 ?Q D W ?r" using sd(2) sub f(1) by (auto simp: loose_def)
  have S1: "sched s1 ?Q D W" and R1: "?Q (ready s1) = Some xs" using 1(3) f(24) by simp_all
  obtain s2 where 2: "osRtxThreadReadyPut ?r s1 = Some s2" "touched s1 s2"
    "sched s2 (?Q(ready s1 \<mapsto> pinsert (priority s1) ?r xs)) D W" "ob_state s2 = (ob_state s1)(?r := osRtxThreadReady)"
    "run_next s2 = run_next s1" "mem s2 = mem s1"
    by (rule ReadyPut_spec [OF S1 R1 l]) blast
  note f2 = touched_fields [OF 2(2)]
  have S2: "sched s2 (Q(ready s \<mapsto> ?R)) D W" and R2: "(Q(ready s \<mapsto> ?R)) (ready s2) = Some ?R"
    using 2(3) f(6,24) f2(24) by simp_all
  have so2: "stack_ok s2"
    using so stack_ok_cong [OF 1(2,6)] stack_ok_cong [OF 2(2,6)] by simp
  have xQ: "x \<notin> members ?Q" using 1(8) by simp
  then have xx: "x \<notin> set xs" using membersI [of ?Q "ready s" xs x] by auto
  have xD: "x \<notin> set D \<and> x \<notin> set W" using DD(10) [OF R, of x] by simp
  let ?s' = "s2\<lparr>ob_state := (ob_state s2)(x := osRtxThreadRunning), run_next := x\<rparr>"
  have S3: "sched ?s' (Q(ready s \<mapsto> ?R)) D W"
    using sched_state [OF S2 R2, of x] xx xr by (simp del: fun_upd_apply)
  have "x \<notin> members (Q(ready s \<mapsto> ?R))" using xQ xx xr unfolding in_members by (auto split: if_splits)
  then have lx: "loose ?s' (Q(ready s \<mapsto> ?R)) D W x" using 1(7,9) xD f(1) f2(1) by (simp add: loose_def)
  have mx: "\<forall>y\<in>set ?R. priority s y \<le> priority s x" using sd(5) [OF R] p by auto
  have "settled ?s' (Q(ready s \<mapsto> ?R)) D W"
    using S3 lx mx sd(3) f(6,22,24) f2(6,22,24) by (simp add: settled_def)
  moreover have "tstates {} ?s' (Q(ready s \<mapsto> ?R)) D W" if "tstates {} s Q D W"
    by (rule tstates_step [OF that R, of _ ?R ?s' "{x, ?r}"]) (use 1(4) 2(4) xr f(1,24) f2(1,24) in auto)
  moreover have "\<forall>y. ob_id s y \<noteq> osRtxIdThread \<longrightarrow> ob_state ?s' y = ob_state s y"
    using sd(2) 1(4,9) 2(4) by (auto simp: loose_def)
  ultimately show thesis
    using 1(1,2,5,6) 2(1,5,6) Switch_spec [OF 1(7) so2] touched_trans [OF 1(2) 2(2)]
    by (intro that [of s1 s2 ?s']) simp_all
qed

text \<open>Suspending: a loose thread is put on the wait list in the plain blocked state.\<close>

lemma suspend_loose:
  assumes S: "sched s Q D W" and t: "loose s Q D W t" and R: "Q (ready s) = Some R"
  obtains s' D' W' where "osRtxThreadDelayInsert t osWaitForever (s\<lparr>ob_state := (ob_state s)(t := osRtxThreadBlocked),
      thread_prev := (thread_prev s)(t := NULL), thread_next := (thread_next s)(t := NULL)\<rparr>) = Some s'"
    "touched s s'" "sched s' Q D' W'" "set D' \<union> set W' = insert t (set D \<union> set W)"
    "ob_state s' = (ob_state s)(t := osRtxThreadBlocked)" "run_next s' = run_next s" "mem s' = mem s"
proof -
  note DD = schedD [OF S]
  let ?s1 = "s\<lparr>ob_state := (ob_state s)(t := osRtxThreadBlocked)\<rparr>"
  let ?s = "s\<lparr>ob_state := (ob_state s)(t := osRtxThreadBlocked),
      thread_prev := (thread_prev s)(t := NULL), thread_next := (thread_next s)(t := NULL)\<rparr>"
  have t': "t \<notin> members Q" "ob_id s t = osRtxIdThread" "t \<noteq> NULL" using t by (auto simp: loose_def)
  then have "t \<notin> set R" using R unfolding in_members by blast
  then have S1: "sched ?s1 Q D W" by (rule sched_state [OF S R])
  have tp: "(thread_prev s)(t := NULL) = thread_prev s" using DD(9) t' by (simp add: fun_upd_idem)
  have td: "t \<notin> dom Q" by (rule sched_not_dom [OF S t'(2,3)])
  have "lists_ok (tnext ?s) (thread_prev ?s) Q"
    by (rule lists_ok_frame [OF DD(1)]) (use t' td in \<open>auto simp: tnext_def\<close>)
  moreover have "delays_ok ?s D W = delays_ok ?s1 D W"
    by (simp add: delays_ok_def delay_ok_def dnext_def wait_ok_def wnext_def)
  ultimately have S2: "sched ?s Q D W" using S1 unfolding sched_def by (simp add: tp)
  have l: "loose ?s Q D W t" and w: "osWaitForever \<noteq> 0" using t by (simp_all add: loose_def)
  obtain s' D' W' where 1: "osRtxThreadDelayInsert t osWaitForever ?s = Some s'" "touched ?s s'" "sched s' Q D' W'"
    "delayed ?s D W t osWaitForever s' D' W'" "ob_state s' = ob_state ?s" "run_next s' = run_next ?s" "mem s' = mem ?s"
    by (rule DelayInsert_sched [OF S2 l w]) blast
  have "touched s ?s" by simp
  from touched_trans [OF this 1(2)] 1 show thesis by (intro that [of s' D' W']) (simp_all add: delayed_def)
qed

section \<open>Lemmas on the invariant\<close>

lemma kept_refl [simp]: "kept s s" by (simp add: kept_def)

lemma kept_trans [trans]: "kept s s1 \<Longrightarrow> kept s1 s2 \<Longrightarrow> kept s s2"
  by (simp add: kept_def)

lemma touched_kept:
  assumes t: "touched s s'" and o: "\<And>x. ob_id s x \<noteq> osRtxIdThread \<Longrightarrow> ob_state s' x = ob_state s x"
  shows "kept s s'"
proof -
  have f: "g s' = g s" if "\<And>x. g (core x) = g x" for g :: "rtx \<Rightarrow> 'b"
    using that [of s] that [of s'] t by (simp add: touched_def)
  have "timer_list s' = timer_list s" "isr_max s' = isr_max s" "isr_cnt s' = isr_cnt s" "isr_in s' = isr_in s"
    "isr_out s' = isr_out s" "isr_data s' = isr_data s"
    by (rule f, simp add: core_def)+
  then show ?thesis using touched_fields(1,24) [OF t] o by (simp add: kept_def)
qed

lemma kept_isr: "kept s s' \<Longrightarrow> isr_ok s \<Longrightarrow> isr_ok s'"
  by (simp add: kept_def isr_ok_def isr_rep_def isr_slot_def)

lemma kept_objects: "kept s s' \<Longrightarrow> objects s Q \<Longrightarrow> dom Q \<subseteq> dom Q' \<Longrightarrow> objects s' Q'"
  unfolding objects_def kept_def by (auto simp del: domIff)

lemma kernel_inv_keep:
  "kernel_inv s Q D W \<Longrightarrow> kept s s' \<Longrightarrow> settled s' Q' D' W' \<Longrightarrow> tstates {} s' Q' D' W' \<Longrightarrow> dom Q \<subseteq> dom Q' \<Longrightarrow>
   kernel_inv s' Q' D' W'"
  using kept_isr kept_objects unfolding kernel_inv_def by (auto simp: kept_def)

lemma kernel_invD:
  assumes "kernel_inv s Q D W" "run_curr s = run_next s" "stack_ok s"
  shows "entered s Q D W" "settled s Q D W" "tstates {} s Q D W" "objects s Q" "isr_ok s" "timer_list s = NULL"
    "quiet s Q D W" "sched s Q D W"
  using assms by (auto simp: kernel_inv_def entered_def quiet_def settled_def)

lemma quiet_dispatch:
  assumes q: "quiet s Q D W"
  obtains s' R' where "osRtxThreadDispatch NULL s = Some s'" "touched s s'" "settled s' (Q(ready s \<mapsto> R')) D W"
    "tstates {} s' (Q(ready s \<mapsto> R')) D W" "mem s' = mem s" "kept s s'"
proof -
  have h: "sched s Q D W" "loose s Q D W (run_curr s)" "run_curr s = run_next s" "kernel_state s = osRtxKernelRunning"
    "ob_state s (run_next s) = osRtxThreadRunning" "stack_ok s" "tstates {} s Q D W"
    using q unfolding quiet_def by metis+
  obtain s' R' where 1: "osRtxThreadDispatch NULL s = Some s'" "touched s s'" "settled s' (Q(ready s \<mapsto> R')) D W"
    "mem s' = mem s" "\<forall>x. ob_id s x \<noteq> osRtxIdThread \<longrightarrow> ob_state s' x = ob_state s x"
    "tstates {} s Q D W \<Longrightarrow> tstates {} s' (Q(ready s \<mapsto> R')) D W"
    by (rule settled_dispatch [OF h(1-6)]) blast
  show thesis using 1 h(7) touched_kept [OF 1(2)] by (intro that [of s' R']) simp_all
qed

section \<open>Service calls keep the invariant\<close>

lemma Yield_keeps:
  assumes K: "kernel_inv s Q D W" and n: "run_curr s = run_next s" and so: "stack_ok s"
  shows "\<exists>r s' Q' D' W'. svcRtxThreadYield s = Some (r, s') \<and> kernel_inv s' Q' D' W'"
proof -
  note k = kernel_invD [OF assms]
  note e = enteredD [OF k(1)] and DD = schedD [OF k(8)]
  obtain R where R: "Q (ready s) = Some R" by (rule sched_ready [OF k(8)])
  have hd: "thread_next s (ready s) = after R" by (rule list_head [OF DD(1) R DD(3)])
  have nn: "NULL \<notin> set R" using dll_nonnull [OF lists_ok_dll [OF DD(1) R]] .
  show ?thesis
  proof (cases "R \<noteq> [] \<and> priority s (hd R) = priority s (run_next s)")
    case False
    then have "svcRtxThreadYield s = Some (osOK, s)" using hd nn n by (cases R) (auto simp: svcRtxThreadYield_def)
    then show ?thesis using K by blast
  next
    case True
    then obtain x xs where Rx: "R = x # xs" "priority s x = priority s (run_next s)" by (cases R) auto
    then have R': "Q (ready s) = Some (x # xs)" and xn: "x \<noteq> NULL" using R nn by auto
    let ?Q = "Q(ready s \<mapsto> pinsert (priority s) (run_next s) xs)"
    obtain s1 s2 s' where 1: "osRtxThreadListRemove x s = Some s1" "osRtxThreadReadyPut (run_next s) s1 = Some s2"
      "osRtxThreadSwitch x s2 = Some s'" "touched s s'" "settled s' ?Q D W"
      "tstates {} s Q D W \<Longrightarrow> tstates {} s' ?Q D W" "\<forall>y. ob_id s y \<noteq> osRtxIdThread \<longrightarrow> ob_state s' y = ob_state s y"
      by (rule settled_rotate [OF k(2) so R' Rx(2)]) blast
    have "svcRtxThreadYield s = Some (osOK, s')"
      using 1(1-3) e(4,7) Rx hd xn n by (simp add: svcRtxThreadYield_def)
    moreover have "kernel_inv s' ?Q D W"
      by (rule kernel_inv_keep [OF K touched_kept [OF 1(4)] 1(5)]) (use 1(6,7) k(3) in auto)
    ultimately show ?thesis by blast
  qed
qed

lemma Delay_keeps:
  assumes K: "kernel_inv s Q D W" and n: "run_curr s = run_next s" and so: "stack_ok s"
  shows "\<exists>r s' Q' D' W'. svcRtxDelay ticks s = Some (r, s') \<and> kernel_inv s' Q' D' W'"
proof -
  note k = kernel_invD [OF assms]
  obtain R where R: "Q (ready s) = Some R" by (rule sched_ready [OF k(8)])
  consider "ticks = 0" | "ticks \<noteq> 0" "R = []" | x xs where "ticks \<noteq> 0" "R = x # xs" by (cases R) auto
  then show ?thesis
  proof cases
    case 1 then show ?thesis using K by (auto simp: svcRtxDelay_def)
  next
    case 2
    then have "thread_next s (ready s) = NULL" using head_null [OF k(8) R schedD(3) [OF k(8)]] by simp
    then have "svcRtxDelay ticks s = Some (osOK, s)" using 2 by (simp add: svcRtxDelay_def WaitEnter_no)
    then show ?thesis using K by blast
  next
    case 3
    then have R': "Q (ready s) = Some (x # xs)" using R by simp
    obtain s' D' W' where 4: "osRtxThreadWaitEnter osRtxThreadWaitingDelay ticks s = Some (True, s')" "touched s s'"
      "settled s' (Q(ready s \<mapsto> xs)) D' W'"
      "ob_state s' = (ob_state s)(run_curr s := osRtxThreadWaitingDelay, x := osRtxThreadRunning)"
      "tstates {} s Q D W \<Longrightarrow> osRtxThreadWaitingDelay AND osRtxThreadStateMask = osRtxThreadBlocked \<Longrightarrow>
         tstates {} s' (Q(ready s \<mapsto> xs)) D' W'"
      by (rule settled_wait [OF k(1) R' 3(1)]) blast
    have xi: "ob_id s x = osRtxIdThread" using schedD(4) [OF k(8) membersI [of Q "ready s" "x # xs"]] R' by simp
    have "ob_id s (run_curr s) = osRtxIdThread" using enteredD(5) [OF k(1)] by (simp add: loose_def)
    then have "kept s s'" using 4(4) xi by (intro touched_kept [OF 4(2)]) auto
    then have "kernel_inv s' (Q(ready s \<mapsto> xs)) D' W'"
      by (rule kernel_inv_keep [OF K _ 4(3)]) (use 4(5) k(3) in auto)
    moreover have "svcRtxDelay ticks s = Some (osOK, s')" using 3(1) 4(1) by (simp add: svcRtxDelay_def)
    ultimately show ?thesis by blast
  qed
qed

lemma SetPriority_keeps:
  assumes K: "kernel_inv s Q D W" and n: "run_curr s = run_next s" and so: "stack_ok s"
  shows "\<exists>r s' Q' D' W'. svcRtxThreadSetPriority t p s = Some (r, s') \<and> kernel_inv s' Q' D' W'"
proof -
  note k = kernel_invD [OF assms]
  note e = enteredD [OF k(1)] and sd = settledD [OF k(2)]
  show ?thesis
  proof (cases "thread_valid t s \<and> \<not> (p < osPriorityIdle \<or> p > osPriorityISR) \<and> \<not> thread_gone t s \<and> priority s t \<noteq> to_int8 p")
    case False
    then have "\<exists>r. svcRtxThreadSetPriority t p s = Some (r, s)" by (auto simp: svcRtxThreadSetPriority_def)
    then show ?thesis using K by blast
  next
    case True
    then have tv: "ob_id s t = osRtxIdThread" "t \<noteq> NULL" by (simp_all add: thread_valid_def)
    obtain v where v: "to_int8 p = v" by blast
    let ?s = "s\<lparr>priority_base := (priority_base s)(t := v)\<rparr>"
    let ?Q = "resort t ((priority s)(t := v)) Q"
    have S0: "sched ?s Q D W" using k(8) by simp
    obtain nx b where 1: "osRtxThreadListSort t (reprio t v ?s) = Some ((reprio t v ?s)\<lparr>thread_next := nx, thread_prev := b\<rparr>)"
      "sched ((reprio t v ?s)\<lparr>thread_next := nx, thread_prev := b\<rparr>) (resort t ((priority ?s)(t := v)) Q) D W"
      by (rule Sort_sched [OF S0, of t v]) (use tv in auto)
    let ?s1 = "(reprio t v ?s)\<lparr>thread_next := nx, thread_prev := b\<rparr>"
    obtain R where R: "Q (ready s) = Some R" by (rule sched_ready [OF k(8)])
    obtain R' where R': "?Q (ready s) = Some R'" "set R' = set R" using set_resort [of Q "ready s" R] R by blast
    have l: "loose ?s1 ?Q D W (run_next ?s1)" using sd(2) by (simp add: loose_def members_resort reprio_def)
    have ts: "tstates {} ?s1 ?Q D W"
      by (rule tstates_step [OF k(3) R, of _ R' ?s1 "{}"]) (use R' in \<open>auto simp: reprio_def\<close>)
    have "stack_ok ?s1" using so by (simp add: stack_ok_def osRtxThreadRegPtr_def reprio_def)
    then have "quiet ?s1 ?Q D W" using 1(2) l ts n e(7) sd(4) by (simp add: quiet_def reprio_def)
    then obtain s' R2 where 2: "osRtxThreadDispatch NULL ?s1 = Some s'" "touched ?s1 s'"
      "settled s' (?Q(ready ?s1 \<mapsto> R2)) D W" "tstates {} s' (?Q(ready ?s1 \<mapsto> R2)) D W" "kept ?s1 s'"
      by (rule quiet_dispatch) blast
    have "kept s ?s1" by (simp add: kept_def reprio_def)
    from kept_trans [OF this 2(5)] have "kept s s'" .
    moreover have "dom Q \<subseteq> dom (?Q(ready ?s1 \<mapsto> R2))" using set_resort by fastforce
    ultimately have "kernel_inv s' (?Q(ready ?s1 \<mapsto> R2)) D W" by (intro kernel_inv_keep [OF K _ 2(3,4)])
    moreover have "svcRtxThreadSetPriority t p s = Some (osOK, s')"
    proof -
      have e: "s\<lparr>priority := (priority s)(t := v),
            priority_base := (priority_base (s\<lparr>priority := (priority s)(t := v)\<rparr>))(t := v)\<rparr> = reprio t v ?s"
        by (simp add: reprio_def)
      have "\<not> (\<not> thread_valid t s \<or> p < osPriorityIdle \<or> p > osPriorityISR)" "\<not> thread_gone t s" "priority s t \<noteq> v"
        using True v by auto
      then show ?thesis
        unfolding svcRtxThreadSetPriority_def v Let_def by (simp only: if_False if_True not_False_eq_True e 1(1) 2(1) bind.bind_lunit)
    qed
    ultimately show ?thesis by blast
  qed
qed

lemma members_strip: "members (strip t Q) \<subseteq> members Q"
proof
  fix y assume "y \<in> members (strip t Q)"
  then obtain p ys where "Q p = Some ys" "y \<in> set (remove1 t ys)" unfolding in_members by (auto simp: strip_def)
  then show "y \<in> members Q" using membersI [of Q p ys y] notin_set_remove1 [of y ys t] by blast
qed

lemma Suspend_keeps:
  assumes K: "kernel_inv s Q D W" and n: "run_curr s = run_next s" and so: "stack_ok s"
  shows "\<exists>r s' Q' D' W'. svcRtxThreadSuspend t s = Some (r, s') \<and> kernel_inv s' Q' D' W'"
proof -
  note k = kernel_invD [OF assms]
  note e = enteredD [OF k(1)] and sd = settledD [OF k(2)] and DD = schedD [OF k(8)]
  let ?st = "ob_state s t AND osRtxThreadStateMask"
  obtain R where R: "Q (ready s) = Some R" by (rule sched_ready [OF k(8)])
  have hd: "thread_next s (ready s) = after R" by (rule list_head [OF DD(1) R DD(3)])
  have nn: "NULL \<notin> set R" using dll_nonnull [OF lists_ok_dll [OF DD(1) R]] .
  txt \<open>The common end: the thread has left its lists in \<open>sb\<close>.\<close>
  have fin: ?thesis
    if d: "thread_detach_lists t s = Some (osOK, sa)" and v: "thread_valid t s"
      and m: "(if ob_state sa t = osRtxThreadRunning then do {
                   (next, s) \<leftarrow> osRtxThreadListGet (ready sa) sa;
                   osRtxThreadSwitch next s
                 } else Some sa) = Some sb"
      and S1: "sched sb Qb Db Wb" and l: "loose sb Qb Db Wb t" and rn: "loose sb Qb Db Wb (run_next sb)" "run_next sb \<noteq> t"
      and st: "ob_state sb (run_next sb) = osRtxThreadRunning" "tstates {t} sb Qb Db Wb"
      and mx: "\<And>R x. Qb (ready sb) = Some R \<Longrightarrow> x \<in> set R \<Longrightarrow> priority sb x \<le> priority sb (run_next sb)"
      and kp: "kept s sb" "kernel_state sb = osRtxKernelRunning" "dom Q \<subseteq> dom Qb"
    for sa sb Qb Db Wb
  proof -
    obtain R1 where R1: "Qb (ready sb) = Some R1" by (rule sched_ready [OF S1])
    obtain s' D' W' where 1: "osRtxThreadDelayInsert t osWaitForever (sb\<lparr>ob_state := (ob_state sb)(t := osRtxThreadBlocked),
        thread_prev := (thread_prev sb)(t := NULL), thread_next := (thread_next sb)(t := NULL)\<rparr>) = Some s'"
      "touched sb s'" "sched s' Qb D' W'" "set D' \<union> set W' = insert t (set Db \<union> set Wb)"
      "ob_state s' = (ob_state sb)(t := osRtxThreadBlocked)" "run_next s' = run_next sb" "mem s' = mem sb"
      by (rule suspend_loose [OF S1 l R1]) blast
    note f = touched_fields [OF 1(2)]
    have "run_next sb \<notin> set D' \<union> set W'" unfolding 1(4) using rn by (auto simp: loose_def)
    then have "loose s' Qb D' W' (run_next sb)" using rn(1) f(1) by (simp add: loose_def)
    then have "settled s' Qb D' W'"
      using 1(3,5,6) rn(2) st(1) mx R1 kp(2) f(6,22,24) by (simp add: settled_def)
    moreover have "tstates {} s' Qb D' W'"
      by (rule tstates_step [OF st(2) R1, of _ R1 s' "{t}"]) (use R1 1(4-6) f(1,24) in auto)
    moreover have "kept sb s'" using l 1(5) by (intro touched_kept [OF 1(2)]) (auto simp: loose_def)
    then have "kept s s'" by (rule kept_trans [OF kp(1)])
    ultimately have "kernel_inv s' Qb D' W'" using kernel_inv_keep [OF K] kp(3) by blast
    moreover have "svcRtxThreadSuspend t s = Some (osOK, s')"
      using d v m 1(1) by (simp add: svcRtxThreadSuspend_def)
    ultimately show ?thesis by blast
  qed
  have kept1: "kept s s1" if "touched s s1" "ob_state s1 = ob_state s" for s1
    using touched_kept [OF that(1)] that(2) by simp
  consider "\<not> thread_valid t s"
    | r where "thread_valid t s" "thread_detach_lists t s = Some (r, s)" "r \<noteq> osOK"
    | "thread_valid t s" "?st = osRtxThreadRunning" "R \<noteq> []" | "thread_valid t s" "?st = osRtxThreadReady"
    | "thread_valid t s" "?st = osRtxThreadBlocked"
  proof (cases "?st = osRtxThreadRunning \<and> R \<noteq> [] \<or> ?st = osRtxThreadReady \<or> ?st = osRtxThreadBlocked")
    case True then show ?thesis using that by blast
  next
    case False
    then have "thread_detach_lists t s = Some (osErrorResource, s)" using hd by (auto simp: thread_detach_lists_def Let_def)
    then show ?thesis using that by blast
  qed
  then show ?thesis
  proof cases
    case 1 then show ?thesis using K by (auto simp: svcRtxThreadSuspend_def)
  next
    case 2 then show ?thesis using K by (auto simp: svcRtxThreadSuspend_def)
  next
    case 3
    then obtain x xs where Rx: "R = x # xs" by (cases R) auto
    then have R': "Q (ready s) = Some (x # xs)" using R by simp
    have t: "t = run_next s" using tstatesD(2) [OF k(3)] 3 by (simp add: thread_valid_def)
    obtain s1 where 1: "osRtxThreadListGet (ready s) s = Some (x, s1)" "touched s s1" "sched s1 (Q(ready s \<mapsto> xs)) D W"
      "ob_state s1 = ob_state s" "run_next s1 = run_next s" "mem s1 = mem s" "x \<noteq> NULL" "x \<notin> members (Q(ready s \<mapsto> xs))"
      "ob_id s x = osRtxIdThread"
      by (rule ListGet_sched [OF k(8) R' DD(3)]) blast
    note f = touched_fields [OF 1(2)]
    let ?Q = "Q(ready s \<mapsto> xs)" and ?s2 = "s1\<lparr>ob_state := (ob_state s1)(x := osRtxThreadRunning), run_next := x\<rparr>"
    have so1: "stack_ok s1" using so stack_ok_cong [OF 1(2,6)] by simp
    have sub: "members ?Q \<subseteq> members Q" by (rule members_upd_sub [of Q "ready s" "x # xs"]) (use R' in auto)
    have xt: "x \<noteq> t" using sd(2) R' t unfolding loose_def in_members by force
    have "x \<notin> set xs" using membersI [of ?Q "ready s" xs x] 1(8) by auto
    moreover have "?Q (ready s1) = Some xs" using f(24) by simp
    ultimately have "sched (s1\<lparr>ob_state := (ob_state s1)(x := osRtxThreadRunning)\<rparr>) ?Q D W"
      by (intro sched_state [OF 1(3)])
    then have S2: "sched ?s2 ?Q D W" by simp
    show ?thesis
    proof (rule fin [where sb = ?s2, OF _ 3(1) _ S2])
      show "thread_detach_lists t s = Some (osOK, s)" using 3 Rx hd sd(3) 1(7) by (simp add: thread_detach_lists_def)
      show "(if ob_state s t = osRtxThreadRunning then do {
                   (next, s) \<leftarrow> osRtxThreadListGet (ready s) s;
                   osRtxThreadSwitch next s
                 } else Some s) = Some ?s2"
        using sd(4) t 1(1) Switch_spec [OF 1(7) so1] by simp
      show "loose ?s2 ?Q D W t" using sd(2) t sub f(1) by (auto simp: loose_def)
      show "loose ?s2 ?Q D W (run_next ?s2)" using 1(7-9) DD(10) [OF R', of x] f(1) by (simp add: loose_def)
      show "tstates {t} ?s2 ?Q D W"
        by (rule tstates_step [OF k(3) R', of _ xs ?s2 "{x}"]) (use 1(4) t f(1,24) in auto)
      show "kept s ?s2" using 1(4,9) by (intro touched_kept) (use 1(2) in auto)
      show "priority ?s2 y \<le> priority ?s2 (run_next ?s2)" if "?Q (ready ?s2) = Some R1" "y \<in> set R1" for R1 y
        using that DD(8) [OF R' DD(3)] f(6,24) by auto
    qed (use xt sd(3) f(22) in auto)
  next
    case 4
    then have tR: "t \<in> set R" using tstatesD(1) [OF k(3)] R by (simp add: thread_valid_def)
    have os: "ob_state s t = osRtxThreadReady" "t \<notin> set D" "t \<notin> set W" using DD(10) [OF R tR] by simp_all
    obtain s1 where 1: "osRtxThreadListRemove t s = Some s1" "touched s s1" "sched s1 (Q(ready s \<mapsto> remove1 t R)) D W"
      "ob_state s1 = ob_state s" "run_next s1 = run_next s" "mem s1 = mem s" "t \<noteq> NULL"
      "t \<notin> members (Q(ready s \<mapsto> remove1 t R))" "ob_id s t = osRtxIdThread"
      by (rule ListRemove_sched [OF k(8) R DD(3) tR]) blast
    note f = touched_fields [OF 1(2)]
    let ?Q = "Q(ready s \<mapsto> remove1 t R)"
    have sub: "members ?Q \<subseteq> members Q" by (rule members_upd_sub [of Q "ready s" R]) (use R set_remove1_subset [of t R] in auto)
    show ?thesis
    proof (rule fin [where sb = s1, OF _ 4(1) _ 1(3)])
      show "thread_detach_lists t s = Some (osOK, s1)" using 4 1(1) by (simp add: thread_detach_lists_def)
      show "loose s1 ?Q D W t" using 1(7-9) os f(1) by (simp add: loose_def)
      show "loose s1 ?Q D W (run_next s1)" using sd(2) sub 1(5) f(1) by (auto simp: loose_def)
      show "tstates {t} s1 ?Q D W"
        by (rule tstates_step [OF k(3) R, of _ "remove1 t R" s1 "{}"]) (use 1(4,5) f(1,24) in auto)
      show "priority s1 y \<le> priority s1 (run_next s1)" if "?Q (ready s1) = Some R1" "y \<in> set R1" for R1 y
        using that sd(5) [OF R] 1(5) f(6,24) set_remove1_subset [of t R] by auto
      show "run_next s1 \<noteq> t" using sd(4) os(1) 1(5) by auto
    qed (use os(1) 1(4,5) sd(3,4) f(22) kept1 [OF 1(2,4)] in auto)
  next
    case 5
    then have tD: "t \<in> set D \<union> set W" using tstatesD(3) [OF k(3)] by (simp add: thread_valid_def)
    have os: "ob_state s t \<noteq> osRtxThreadRunning" using 5(2) by auto
    obtain s0 where 1: "osRtxThreadListRemove t s = Some s0" "touched s s0" "sched s0 (strip t Q) D W"
      "ob_state s0 = ob_state s" "run_next s0 = run_next s" "mem s0 = mem s" "t \<notin> members (strip t Q)"
      by (rule ListRemove_strip [OF k(8) tD]) blast
    obtain s1 where 2: "osRtxThreadDelayRemove t s0 = Some s1" "touched s0 s1"
      "sched s1 (strip t Q) (remove1 t D) (remove1 t W)" "loose s1 (strip t Q) (remove1 t D) (remove1 t W) t"
      "ob_state s1 = ob_state s0" "run_next s1 = run_next s0" "mem s1 = mem s0"
      by (rule DelayRemove_sched [OF 1(3) tD 1(7)]) blast
    have tr: "touched s s1" by (rule touched_trans [OF 1(2) 2(2)])
    note f = touched_fields [OF tr]
    have tR: "t \<notin> set R" using DD(10) [OF R] tD by auto
    have sR: "strip t Q (ready s) = Some R" using R tR by (simp add: strip_def remove1_idem)
    note sub = members_strip [of t Q]
    show ?thesis
    proof (rule fin [where sb = s1, OF _ 5(1) _ 2(3,4)])
      show "thread_detach_lists t s = Some (osOK, s1)" using 5 1(1) 2(1) by (simp add: thread_detach_lists_def)
      show "loose s1 (strip t Q) (remove1 t D) (remove1 t W) (run_next s1)"
        using sd(2) sub 1(5) 2(6) f(1) by (auto simp: loose_def dest: notin_set_remove1)
      show "tstates {t} s1 (strip t Q) (remove1 t D) (remove1 t W)"
        by (rule tstates_step [OF k(3) R, of _ R s1 "{}"]) (use sR 1(4,5) 2(5,6) f(1,24) in auto)
      show "priority s1 y \<le> priority s1 (run_next s1)" if "strip t Q (ready s1) = Some R1" "y \<in> set R1" for R1 y
        using that sd(5) [OF R] sR 1(5) 2(6) f(6,24) by auto
      show "dom Q \<subseteq> dom (strip t Q)" by (auto simp: strip_def)
      show "run_next s1 \<noteq> t" using sd(4) os 1(5) 2(6) by auto
    qed (use os 1(4,5) 2(5,6) sd(3,4) f(22) kept1 [OF tr] in auto)
  qed
qed

lemma entered_touched:
  assumes E: "entered s Q D W" and t: "touched s s'" and S: "sched s' Q' D' W'" and l: "loose s' Q' D' W' (run_next s')"
    and o: "ob_state s' = ob_state s" "run_next s' = run_next s" "mem s' = mem s"
    and R: "Q' (ready s) = Some R'" "\<And>x. x \<in> set R' \<Longrightarrow> x \<in> set (the (Q (ready s)))"
  shows "entered s' Q' D' W'"
proof -
  note f = touched_fields [OF t] and e = enteredD [OF E] and sd = settledD [OF enteredD(1) [OF E]]
  obtain R0 where R0: "Q (ready s) = Some R0" by (rule sched_ready [OF e(6)])
  have "\<forall>x\<in>set R'. priority s x \<le> priority s (run_next s)" using sd(5) [OF R0] R R0 by simp
  then show ?thesis using S l o R e(2,3,7) sd(4) f(6,22,23,24) stack_ok_cong [OF t o(3)] by (simp add: entered_def settled_def)
qed

lemma Resume_keeps:
  assumes K: "kernel_inv s Q D W" and n: "run_curr s = run_next s" and so: "stack_ok s"
  shows "\<exists>r s' Q' D' W'. svcRtxThreadResume t s = Some (r, s') \<and> kernel_inv s' Q' D' W'"
proof -
  note k = kernel_invD [OF assms]
  note e = enteredD [OF k(1)] and sd = settledD [OF k(2)] and DD = schedD [OF k(8)]
  show ?thesis
  proof (cases "thread_valid t s \<and> ob_state s t AND osRtxThreadStateMask = osRtxThreadBlocked")
    case False
    then have "\<exists>r. svcRtxThreadResume t s = Some (r, s)" by (auto simp: svcRtxThreadResume_def)
    then show ?thesis using K by blast
  next
    case True
    obtain R where R: "Q (ready s) = Some R" by (rule sched_ready [OF k(8)])
    have tD: "t \<in> set D \<union> set W" using tstatesD(3) [OF k(3)] True by (simp add: thread_valid_def)
    obtain s0 where 1: "osRtxThreadListRemove t s = Some s0" "touched s s0" "sched s0 (strip t Q) D W"
      "ob_state s0 = ob_state s" "run_next s0 = run_next s" "mem s0 = mem s" "t \<notin> members (strip t Q)"
      by (rule ListRemove_strip [OF k(8) tD]) blast
    note f = touched_fields [OF 1(2)]
    have tR: "t \<notin> set R" using DD(10) [OF R] tD by auto
    have sR: "strip t Q (ready s) = Some R" using R tR by (simp add: strip_def remove1_idem)
    have "loose s0 (strip t Q) D W (run_next s0)" using sd(2) members_strip [of t Q] 1(5) f(1) by (auto simp: loose_def)
    then have E0: "entered s0 (strip t Q) D W"
      by (rule entered_touched [OF k(1) 1(2,3) _ 1(4-6) sR]) (use R in simp)
    obtain s1 where 2: "osRtxThreadDelayRemove t s0 = Some s1" "touched s0 s1"
      "entered s1 (strip t Q) (remove1 t D) (remove1 t W)" "loose s1 (strip t Q) (remove1 t D) (remove1 t W) t" "t \<noteq> run_curr s0"
      "ob_state s1 = ob_state s0" "run_next s1 = run_next s0" "mem s1 = mem s0"
      "tstates {} s0 (strip t Q) D W \<Longrightarrow> tstates {t} s1 (strip t Q) (remove1 t D) (remove1 t W)"
      by (rule entered_DelayRemove [OF E0 tD 1(7)]) blast
    have tr: "touched s s1" by (rule touched_trans [OF 1(2) 2(2)])
    note g = touched_fields [OF tr]
    have tc: "t \<noteq> run_curr s1" "strip t Q (ready s1) = Some R" using 2(5) sR f(23) g(23,24) by simp_all
    obtain s' R' where 3: "osRtxThreadDispatch t s1 = Some s'" "touched s1 s'"
      "settled s' ((strip t Q)(ready s1 \<mapsto> R')) (remove1 t D) (remove1 t W)"
      "\<forall>x. ob_id s1 x \<noteq> osRtxIdThread \<longrightarrow> ob_state s' x = ob_state s1 x"
      "tstates {t} s1 (strip t Q) (remove1 t D) (remove1 t W) \<Longrightarrow>
       tstates {} s' ((strip t Q)(ready s1 \<mapsto> R')) (remove1 t D) (remove1 t W)"
      by (rule settled_dispatch_thread [OF 2(3,4) tc]) blast
    have ts: "tstates {} s0 (strip t Q) D W"
      by (rule tstates_step [OF k(3) R, of _ R s0 "{}"]) (use sR 1(4,5) f(1,24) in auto)
    have "kept s s'" using 3(4) 1(4) 2(6) g(1) by (intro touched_kept [OF touched_trans [OF tr 3(2)]]) simp
    moreover have "dom Q \<subseteq> dom ((strip t Q)(ready s1 \<mapsto> R'))" by (auto simp: strip_def)
    ultimately have "kernel_inv s' ((strip t Q)(ready s1 \<mapsto> R')) (remove1 t D) (remove1 t W)"
      using kernel_inv_keep [OF K _ 3(3) 3(5) [OF 2(9) [OF ts]]] by blast
    moreover have "svcRtxThreadResume t s = Some (osOK, s')"
      using True 1(1) 2(1) 3(1) by (simp add: svcRtxThreadResume_def)
    ultimately show ?thesis by blast
  qed
qed

lemma objectsD:
  "objects s Q \<Longrightarrow> ob_id s p = i \<Longrightarrow> i = osRtxIdSemaphore \<or> i = osRtxIdEventFlags \<Longrightarrow> ob_state s p \<noteq> osRtxObjectInactive \<Longrightarrow>
   \<exists>ws. Q p = Some ws \<and> p \<noteq> ready s"
  unfolding objects_def by blast

text \<open>Changing fields the invariant does not read.\<close>

lemma kernel_inv_same:
  assumes "kernel_inv s Q D W" "settled s' Q D W = settled s Q D W" "kept s s'" "ob_state s' = ob_state s" "run_next s' = run_next s"
  shows "kernel_inv s' Q D W"
proof (rule kernel_inv_keep [OF assms(1,3)])
  show "tstates {} s' Q D W" using assms by (simp add: kernel_inv_def kept_def tstates_cong [of s' s])
qed (use assms in \<open>auto simp: kernel_inv_def\<close>)

text \<open>Waiting on an object, as all the Acquire, Wait, Get and Put calls do.\<close>

lemma wait_keeps:
  assumes K: "kernel_inv s Q D W" and n: "run_curr s = run_next s" and so: "stack_ok s"
    and ws: "Q obj = Some ws" "obj \<noteq> NULL" "obj \<noteq> ready s" and d: "d \<noteq> 0"
    and st: "st AND osRtxThreadStateMask = osRtxThreadBlocked"
  obtains b s1 s' Q' D' W' where "osRtxThreadWaitEnter st d s = Some (b, s1)"
    "(if b then osRtxThreadListPut obj (run_curr s) s1 else Some s1) = Some s'" "kernel_inv s' Q' D' W'" "run_curr s1 = run_curr s"
proof -
  note k = kernel_invD [OF K n so]
  obtain R where R: "Q (ready s) = Some R" by (rule sched_ready [OF k(8)])
  show thesis
  proof (cases R)
    case Nil
    then have "thread_next s (ready s) = NULL" using head_null [OF k(8) R schedD(3) [OF k(8)]] by simp
    then show thesis using K by (intro that [of False s s]) (simp_all add: WaitEnter_no)
  next
    case (Cons x xs)
    then have R': "Q (ready s) = Some (x # xs)" using R by simp
    let ?Q = "Q(ready s \<mapsto> xs, obj \<mapsto> pinsert (priority s) (run_curr s) ws)"
    obtain s1 s' D' W' where 4: "osRtxThreadWaitEnter st d s = Some (True, s1)"
      "osRtxThreadListPut obj (run_curr s) s1 = Some s'" "touched s s1" "touched s s'" "settled s' ?Q D' W'"
      "ob_state s' = (ob_state s)(run_curr s := st, x := osRtxThreadRunning)"
      "tstates {} s Q D W \<Longrightarrow> st AND osRtxThreadStateMask = osRtxThreadBlocked \<Longrightarrow> tstates {} s' ?Q D' W'"
      by (rule settled_block [OF k(1) R' ws d]) blast
    have xi: "ob_id s x = osRtxIdThread" using schedD(4) [OF k(8) membersI [of Q "ready s" "x # xs"]] R' by simp
    have "ob_id s (run_curr s) = osRtxIdThread" using enteredD(5) [OF k(1)] by (simp add: loose_def)
    then have "kept s s'" using 4(6) xi by (intro touched_kept [OF 4(4)]) auto
    then have "kernel_inv s' ?Q D' W'"
      by (rule kernel_inv_keep [OF K _ 4(5)]) (use 4(7) k(3) st in auto)
    then show thesis using 4(1,2) touched_fields(23) [OF 4(3)] by (intro that [of True s1 s']) simp_all
  qed
qed

end
