(* ===== verification/KernelInv.thy ===== *)
theory KernelInv
  imports ThreadInv
begin

text \<open>
  The kernel as a transition system: application threads, service calls, interrupts, the tick and the
  PendSV handler. Every step keeps the invariant, so it holds in all reachable states, and no handler
  can hang. The relation has the thread, delay, semaphore and event flags calls; mutexes, memory pools,
  message queues, thread flags and the creation and deletion of objects are treated in the theories of their own.
\<close>

unbundle bit_operations_syntax

section \<open>The kernel as a step relation\<close>

text \<open>
  The service calls, interrupt calls and handlers of the relation: it is the kernel of an application that uses threads, delays,
  semaphores and event flags only, and creates its objects before. An application thread may change
  memory and its stack pointer; every handler runs only while the stack of the running thread is
  intact and ends with the context switch.
\<close>

datatype service = SvcYield | SvcDelay u32 | SvcSetPriority ptr int | SvcSuspend ptr | SvcResume ptr
  | SvcSemaphoreAcquire ptr u32 | SvcSemaphoreRelease ptr | SvcEventFlagsSet ptr u32 | SvcEventFlagsWait ptr u32 u32 u32

datatype isr_service = IsrSemaphoreRelease ptr | IsrEventFlagsSet ptr u32

abbreviation status_result :: "(osStatus \<times> rtx) option \<Rightarrow> (u32 \<times> rtx) option" where
  "status_result \<equiv> map_option (map_prod status_word id)"

fun run_service :: "service \<Rightarrow> rtx \<Rightarrow> (u32 \<times> rtx) option" where
  "run_service SvcYield s = status_result (svcRtxThreadYield s)"
| "run_service (SvcDelay ticks) s = status_result (svcRtxDelay ticks s)"
| "run_service (SvcSetPriority t p) s = status_result (svcRtxThreadSetPriority t p s)"
| "run_service (SvcSuspend t) s = status_result (svcRtxThreadSuspend t s)"
| "run_service (SvcResume t) s = status_result (svcRtxThreadResume t s)"
| "run_service (SvcSemaphoreAcquire sem timeout) s = status_result (svcRtxSemaphoreAcquire sem timeout s)"
| "run_service (SvcSemaphoreRelease sem) s = status_result (svcRtxSemaphoreRelease sem s)"
| "run_service (SvcEventFlagsSet ef flags) s = svcRtxEventFlagsSet ef flags s"
| "run_service (SvcEventFlagsWait ef flags options timeout) s = svcRtxEventFlagsWait ef flags options timeout s"

fun run_isr :: "isr_service \<Rightarrow> rtx \<Rightarrow> (u32 \<times> rtx) option" where
  "run_isr (IsrSemaphoreRelease sem) s = status_result (isrRtxSemaphoreRelease sem s)"
| "run_isr (IsrEventFlagsSet ef flags) s = isrRtxEventFlagsSet ef flags s"

inductive kernel_step :: "rtx \<Rightarrow> rtx \<Rightarrow> bool" where
  thread: "kernel_step s (s\<lparr>mem := m, bytes := b, psp := p\<rparr>)"
| svc: "stack_ok s \<Longrightarrow> service_call (run_service c) r1 regs exc s = Some s' \<Longrightarrow> kernel_step s s'"
| isr: "run_isr i s = Some (r, s') \<Longrightarrow> kernel_step s s'"
| tick: "stack_ok s \<Longrightarrow> osRtxTick_Handler s = Some s' \<Longrightarrow> kernel_step s (context_switch regs exc s')"
| pendsv: "stack_ok s \<Longrightarrow> osRtxPendSV_Handler s = Some s' \<Longrightarrow> kernel_step s (context_switch regs exc s')"

inductive_cases kernel_stepE: "kernel_step s s'"

definition kernel_ok :: "rtx \<Rightarrow> bool" where
  "kernel_ok s \<longleftrightarrow> run_curr s = run_next s \<and> (\<exists>Q D W. kernel_inv s Q D W)"

definition svc_handler :: "service \<Rightarrow> u32 \<Rightarrow> rtx \<Rightarrow> rtx option" where
  "svc_handler c r1 s = map_option (\<lambda>(r, s'). s'\<lparr>mem := (mem s')(psp s := r, psp s + 4 := r1)\<rparr>) (run_service c s)"

lemma SemaphoreAcquire_keeps:
  assumes K: "kernel_inv s Q D W" and n: "run_curr s = run_next s" and so: "stack_ok s"
  shows "\<exists>r s' Q' D' W'. svcRtxSemaphoreAcquire sem timeout s = Some (r, s') \<and> kernel_inv s' Q' D' W'"
proof -
  note k = kernel_invD [OF assms]
  show ?thesis
  proof (cases "ob_check osRtxIdSemaphore sem s = osOK")
    case False then show ?thesis using K by (auto simp: svcRtxSemaphoreAcquire_def)
  next
    case True
    then obtain ws where ws: "Q sem = Some ws" "sem \<noteq> NULL" "sem \<noteq> ready s"
      using objectsD [OF k(4)] by (auto simp: ob_check_ok)
    let ?f = "(tokens s)(sem := tokens s sem - 1)"
    have f: "SemaphoreTokenDecrement sem s = (if tokens s sem \<noteq> 0 then (1, s\<lparr>tokens := ?f\<rparr>) else (0, s))"
      by (simp add: SemaphoreTokenDecrement_def atomic_dec16_nz_def Let_def fun_upd_idem)
    consider "tokens s sem \<noteq> 0" | "tokens s sem = 0" "timeout = 0" | "tokens s sem = 0" "timeout \<noteq> 0" by blast
    then show ?thesis
    proof cases
      case 1
      then have "svcRtxSemaphoreAcquire sem timeout s = Some (osOK, s\<lparr>tokens := ?f\<rparr>)" using True f by (simp add: svcRtxSemaphoreAcquire_def)
      moreover have "kernel_inv (s\<lparr>tokens := ?f\<rparr>) Q D W" by (rule kernel_inv_same [OF K]) (simp_all add: kept_def)
      ultimately show ?thesis by blast
    next
      case 2 then show ?thesis using True f K by (auto simp: svcRtxSemaphoreAcquire_def)
    next
      case 3
      obtain b s1 s' Q' D' W' where 4: "osRtxThreadWaitEnter osRtxThreadWaitingSemaphore timeout s = Some (b, s1)"
        "(if b then osRtxThreadListPut sem (run_curr s) s1 else Some s1) = Some s'" "kernel_inv s' Q' D' W'" "run_curr s1 = run_curr s"
        by (rule wait_keeps [OF K n so ws 3(2), of osRtxThreadWaitingSemaphore]) (simp, blast)
      have "svcRtxSemaphoreAcquire sem timeout s = Some (osErrorTimeout, s')"
        using True f 3 4(1,2,4) by (simp add: svcRtxSemaphoreAcquire_def split: if_splits)
      then show ?thesis using 4(3) by blast
    qed
  qed
qed

lemma SemaphoreRelease_keeps:
  assumes K: "kernel_inv s Q D W" and n: "run_curr s = run_next s" and so: "stack_ok s"
  shows "\<exists>r s' Q' D' W'. svcRtxSemaphoreRelease sem s = Some (r, s') \<and> kernel_inv s' Q' D' W'"
proof -
  note k = kernel_invD [OF assms]
  show ?thesis
  proof (cases "ob_check osRtxIdSemaphore sem s = osOK")
    case False then show ?thesis using K by (auto simp: svcRtxSemaphoreRelease_def)
  next
    case True
    then obtain ws where ws: "Q sem = Some ws" "sem \<noteq> NULL" "sem \<noteq> ready s"
      using objectsD [OF k(4)] by (auto simp: ob_check_ok)
    have hd: "thread_next s sem = after ws" by (rule list_head [OF schedD(1) [OF k(8)] ws(1,2)])
    show ?thesis
    proof (cases ws)
      case Nil
      obtain r f where "SemaphoreTokenIncrement sem s = (r, s\<lparr>tokens := f\<rparr>)"
        by (cases "atomic_inc16_lt (tokens s sem) (max_tokens s sem)") (simp add: SemaphoreTokenIncrement_def)
      then have "\<exists>r. svcRtxSemaphoreRelease sem s = Some (r, s\<lparr>tokens := f\<rparr>)"
        using True Nil hd by (simp add: svcRtxSemaphoreRelease_def)
      moreover have "kernel_inv (s\<lparr>tokens := f\<rparr>) Q D W" by (rule kernel_inv_same [OF K]) (simp_all add: kept_def)
      ultimately show ?thesis by blast
    next
      case (Cons t us)
      then have Q': "Q sem = Some (t # us)" using ws(1) by simp
      have tn: "t \<noteq> NULL" using dll_nonnull [OF lists_ok_dll [OF schedD(1) [OF k(8)] Q']] by auto
      obtain s1 s' R' where 1: "osRtxThreadListGet sem s = Some (t, s1)"
        "osRtxThreadWaitExit t (status_word osOK) True s1 = Some s'" "touched s s'"
        "settled s' (Q(sem \<mapsto> us, ready s \<mapsto> R')) (remove1 t D) (remove1 t W)"
        "\<forall>x. ob_id s x \<noteq> osRtxIdThread \<longrightarrow> ob_state s' x = ob_state s x"
        "tstates {} s Q D W \<Longrightarrow> tstates {} s' (Q(sem \<mapsto> us, ready s \<mapsto> R')) (remove1 t D) (remove1 t W)"
        by (rule settled_wake [OF k(1) Q' ws(2,3)]) blast
      have "svcRtxSemaphoreRelease sem s = Some (osOK, s')"
        using True 1(1,2) hd Cons tn by (simp add: svcRtxSemaphoreRelease_def)
      moreover have "kept s s'" using 1(5) by (intro touched_kept [OF 1(3)]) simp
      moreover have "dom Q \<subseteq> dom (Q(sem \<mapsto> us, ready s \<mapsto> R'))" by auto
      ultimately show ?thesis using kernel_inv_keep [OF K _ 1(4) 1(6) [OF k(3)]] by blast
    qed
  qed
qed

lemma EventFlagsSet_keeps:
  assumes K: "kernel_inv s Q D W" and n: "run_curr s = run_next s" and so: "stack_ok s"
  shows "\<exists>r s' Q' D' W'. svcRtxEventFlagsSet ef flags s = Some (r, s') \<and> kernel_inv s' Q' D' W'"
proof -
  note k = kernel_invD [OF assms]
  show ?thesis
  proof (cases "ob_check osRtxIdEventFlags ef s = osOK \<and> \<not> flags_invalid flags")
    case False
    then have "\<exists>r. svcRtxEventFlagsSet ef flags s = Some (r, s)" by (auto simp: svcRtxEventFlagsSet_def ob_check_def split: if_splits)
    then show ?thesis using K by blast
  next
    case True
    then obtain ws where ws: "Q ef = Some ws" "ef \<noteq> NULL" "ef \<noteq> ready s" using objectsD [OF k(4)] by (auto simp: ob_check_ok)
    have chk: "\<not> (ef = NULL \<or> ob_id s ef \<noteq> osRtxIdEventFlags \<or> flags_invalid flags)" "ob_state s ef \<noteq> osRtxObjectInactive"
      using True by (simp_all add: ob_check_ok)
    let ?s = "s\<lparr>event_flags := (event_flags s)(ef := event_flags s ef OR flags)\<rparr>"
    obtain go stay v where sv: "serve (wait_flags ?s) (flags_options ?s) ws (event_flags ?s ef) = (go, stay, v)"
      by (cases "serve (wait_flags ?s) (flags_options ?s) ws (event_flags ?s ef)") auto
    have E: "entered ?s Q D W" and r: "ef \<noteq> ready ?s" using k(1) ws(3) by simp_all
    obtain s1 s' R' D' W' where 1: "ef_set_loop ef (thread_next ?s ef) (event_flags ?s ef) ?s = Some (v, s1)"
      "osRtxThreadDispatch NULL s1 = Some s'" "touched (?s\<lparr>event_flags := (event_flags ?s)(ef := v)\<rparr>) s'"
      "settled s' (Q(ef \<mapsto> stay, ready ?s \<mapsto> R')) D' W'"
      "tstates {} ?s Q D W \<Longrightarrow> tstates {} s' (Q(ef \<mapsto> stay, ready ?s \<mapsto> R')) D' W'"
      "\<forall>x. ob_id ?s x \<noteq> osRtxIdThread \<longrightarrow> ob_state s' x = ob_state ?s x"
      by (rule settled_flags [OF E ws(1,2) r sv]) blast
    have "EventFlagsSet ef flags s = (event_flags ?s ef, ?s)" by (simp add: EventFlagsSet_def atomic_set32_def)
    then have "svcRtxEventFlagsSet ef flags s = Some (v, s')" using chk 1(1,2) unfolding svcRtxEventFlagsSet_def by simp
    moreover have "kernel_inv s' (Q(ef \<mapsto> stay, ready ?s \<mapsto> R')) D' W'"
    proof (rule kernel_inv_keep [OF K _ 1(4)])
      have "kept (?s\<lparr>event_flags := (event_flags ?s)(ef := v)\<rparr>) s'" using 1(6) by (intro touched_kept [OF 1(3)]) simp
      then show "kept s s'" by (simp add: kept_def)
      show "tstates {} s' (Q(ef \<mapsto> stay, ready ?s \<mapsto> R')) D' W'" using 1(5) k(3) by (simp add: tstates_cong [of ?s s])
    qed auto
    ultimately show ?thesis by blast
  qed
qed

lemma EventFlagsWait_keeps:
  assumes K: "kernel_inv s Q D W" and n: "run_curr s = run_next s" and so: "stack_ok s"
  shows "\<exists>r s' Q' D' W'. svcRtxEventFlagsWait ef flags options timeout s = Some (r, s') \<and> kernel_inv s' Q' D' W'"
proof -
  note k = kernel_invD [OF assms]
  let ?c = "ob_check osRtxIdEventFlags ef s = osOK \<and> \<not> flags_invalid flags \<and> run_curr s \<noteq> NULL"
  obtain r f where c: "EventFlagsCheck ef flags options s = (r, s\<lparr>event_flags := f\<rparr>)" by (simp add: EventFlagsCheck_spec)
  let ?s = "s\<lparr>event_flags := f\<rparr>"
  let ?s2 = "?s\<lparr>wait_flags := (wait_flags ?s)(run_curr s := flags), flags_options := (flags_options ?s)(run_curr s := ucast options)\<rparr>"
  have K1: "kernel_inv ?s Q D W" by (rule kernel_inv_same [OF K]) (simp_all add: kept_def)
  have K2: "kernel_inv ?s2 Q D W" by (rule kernel_inv_same [OF K]) (simp_all add: kept_def)
  have n2: "run_curr ?s2 = run_next ?s2" "stack_ok ?s2" using n so by simp_all
  consider "\<not> ?c" | "?c" "r \<noteq> 0 \<or> timeout = 0" | "?c" "r = 0" "timeout \<noteq> 0" by blast
  then show ?thesis
  proof cases
    case 1
    then have "\<exists>r. svcRtxEventFlagsWait ef flags options timeout s = Some (r, s)"
      by (auto simp: svcRtxEventFlagsWait_def ob_check_def Let_def split: if_splits)
    then show ?thesis using K by blast
  next
    case 2
    then have "\<exists>r. svcRtxEventFlagsWait ef flags options timeout s = Some (r, ?s)"
      using c by (auto simp: svcRtxEventFlagsWait_def ob_check_ok Let_def)
    then show ?thesis using K1 by blast
  next
    case 3
    obtain ws where ws: "Q ef = Some ws" "ef \<noteq> NULL" "ef \<noteq> ready ?s2" using objectsD [OF k(4)] 3(1) by (auto simp: ob_check_ok)
    obtain b s1 s' Q' D' W' where 4: "osRtxThreadWaitEnter osRtxThreadWaitingEventFlags timeout ?s2 = Some (b, s1)"
      "(if b then osRtxThreadListPut ef (run_curr ?s2) s1 else Some s1) = Some s'" "kernel_inv s' Q' D' W'"
      by (rule wait_keeps [OF K2 n2 ws 3(3), of osRtxThreadWaitingEventFlags]) (simp, blast)
    have chk: "\<not> (ef = NULL \<or> ob_id s ef \<noteq> osRtxIdEventFlags \<or> flags_invalid flags)" "ob_state s ef \<noteq> osRtxObjectInactive" "run_curr s \<noteq> NULL"
      using 3(1) by (simp_all add: ob_check_ok)
    have "svcRtxEventFlagsWait ef flags options timeout s = Some (status_word osErrorTimeout, s')"
      using chk c 3(2,3) 4(1,2) by (simp add: svcRtxEventFlagsWait_def Let_def split: if_splits)
    then show ?thesis using 4(3) by blast
  qed
qed

section \<open>The tick handler\<close>

lemma stack_ok_touched: "touched s s' \<Longrightarrow> mem s' = mem s \<Longrightarrow> stack_ok s \<Longrightarrow> stack_ok s'"
  using stack_ok_cong by blast

lemma round_robin_keeps:
  assumes K: "kernel_inv s Q D W" and so: "stack_ok s"
  shows "\<exists>s' Q'. round_robin s = Some s' \<and> kernel_inv s' Q' D W"
proof -
  have S: "settled s Q D W" and ts: "tstates {} s Q D W" using K by (simp_all add: kernel_inv_def)
  note sd = settledD [OF S] and DD = schedD [OF settledD(1) [OF S]]
  obtain R where R: "Q (ready s) = Some R" by (rule sched_ready [OF sd(1)])
  have hd: "thread_next s (ready s) = after R" by (rule list_head [OF DD(1) R DD(3)])
  have nn: "NULL \<notin> set R" using dll_nonnull [OF lists_ok_dll [OF DD(1) R]] .
  let ?s = "if robin_tick s \<noteq> 0 then s\<lparr>robin_tick := robin_tick s - 1\<rparr> else s"
  have Ks: "kernel_inv (s\<lparr>robin_thread := a, robin_tick := b\<rparr>) Q D W" "kernel_inv (s\<lparr>robin_tick := b\<rparr>) Q D W" for a b
    by (rule kernel_inv_same [OF K]; simp add: kept_def)+
  then have Ks': "kernel_inv ?s Q D W" using K by simp
  consider "robin_timeout s = 0" | "robin_timeout s \<noteq> 0" "robin_thread s \<noteq> run_next s"
    | "robin_timeout s \<noteq> 0" "robin_thread s = run_next s" "robin_tick ?s \<noteq> 0 \<or> R = [] \<or> priority s (hd R) \<noteq> priority s (run_next s)"
    | "robin_timeout s \<noteq> 0" "robin_thread s = run_next s" "robin_tick ?s = 0" "R \<noteq> []" "priority s (hd R) = priority s (run_next s)"
    by blast
  then show ?thesis
  proof cases
    case 1 then show ?thesis using K by (auto simp: round_robin_def)
  next
    case 2 then show ?thesis using Ks(1) by (auto simp: round_robin_def)
  next
    case 3
    have "round_robin s = Some ?s"
      using 3 hd nn sd(3) by (cases R) (auto simp: round_robin_def Let_def)
    then show ?thesis using Ks' by blast
  next
    case 4
    then obtain x xs where Rx: "R = x # xs" by (cases R) auto
    have h: "settled ?s Q D W" "stack_ok ?s" "Q (ready ?s) = Some (x # xs)" "priority ?s x = priority ?s (run_next ?s)"
      "tstates {} ?s Q D W"
      using S so R Rx 4(5) ts tstates_cong [of ?s s "{}" Q D W] by simp_all
    let ?Q = "Q(ready ?s \<mapsto> pinsert (priority ?s) (run_next ?s) xs)"
    obtain s1 s2 s' where 5: "osRtxThreadListRemove x ?s = Some s1" "osRtxThreadReadyPut (run_next ?s) s1 = Some s2"
      "osRtxThreadSwitch x s2 = Some s'" "touched ?s s'" "settled s' ?Q D W" "touched ?s s1"
      "tstates {} ?s Q D W \<Longrightarrow> tstates {} s' ?Q D W" "\<forall>y. ob_id ?s y \<noteq> osRtxIdThread \<longrightarrow> ob_state s' y = ob_state ?s y"
      by (rule settled_rotate [OF h(1-4)]) blast
    have xn: "x \<noteq> NULL" using nn Rx by auto
    have rt: "robin_thread s1 = robin_thread s"
    proof -
      have "g s1 = g ?s" if "\<And>x. g (core x) = g x" for g :: "rtx \<Rightarrow> ptr"
        using that [of ?s] that [of s1] 5(6) by (simp add: touched_def)
      from this [of robin_thread] show ?thesis by (simp add: core_def)
    qed
    have rr: "round_robin s = Some (s'\<lparr>robin_thread := x, robin_tick := robin_timeout s'\<rparr>)"
      using 4 5(1-3) hd Rx xn sd(3) rt by (cases "robin_tick s = 0") (simp_all add: round_robin_def)
    have "kept ?s s'" using 5(8) by (intro touched_kept [OF 5(4)]) simp
    moreover have "dom Q \<subseteq> dom ?Q" by auto
    ultimately have "kernel_inv s' ?Q D W" using kernel_inv_keep [OF Ks' _ 5(5) 5(7) [OF h(5)]] by blast
    then have "kernel_inv (s'\<lparr>robin_thread := x, robin_tick := robin_timeout s'\<rparr>) ?Q D W"
      by (rule kernel_inv_same) (simp_all add: kept_def)
    then show ?thesis using rr by blast
  qed
qed

lemma due_parts: "set D = set (due_now s D) \<union> set (map fst (due_later s D))"
proof -
  have "map fst (due_later s D) = map fst (filter (\<lambda>p. snd p \<noteq> 1) (due_times (delay s) 0 D))"
    by (simp add: due_later_def comp_def split_def)
  moreover have "set (map fst L) = set (map fst (filter P L)) \<union> set (map fst (filter (\<lambda>p. \<not> P p) L))"
    for P and L :: "(ptr \<times> nat) list" by (induction L) auto
  from this [of "due_times (delay s) 0 D" "\<lambda>p. snd p = 1"]
  have "set D = set (due_now s D) \<union> set (map fst (filter (\<lambda>p. snd p \<noteq> 1) (due_times (delay s) 0 D)))"
    by (simp only: map_fst_due due_now_def)
  ultimately show ?thesis by simp
qed

lemma members_wakes: "rdy \<in> dom Q \<Longrightarrow> members (fold (wake pri rdy) ts Q) \<subseteq> members Q \<union> set ts"
proof (induction ts arbitrary: Q)
  case (Cons t ts)
  obtain R where R: "Q rdy = Some R" using Cons.prems by auto
  have "members (wake pri rdy t Q) \<subseteq> set (pinsert pri t R) \<union> members (strip t Q)"
    using members_upd [of "strip t Q" rdy "pinsert pri t R"] R by (simp add: wake_def)
  moreover have "set R \<subseteq> members Q" using membersI [of Q rdy R, OF R] by blast
  ultimately have "members (wake pri rdy t Q) \<subseteq> insert t (members Q)" using members_strip [of t Q] by auto
  moreover have "rdy \<in> dom (wake pri rdy t Q)" by (simp add: wake_def)
  ultimately show ?case using Cons.IH [of "wake pri rdy t Q"] by auto
qed simp

lemma dom_wakes: "dom Q \<subseteq> dom (fold (wake pri rdy) ts Q)"
proof (induction ts arbitrary: Q)
  case (Cons t ts)
  have "dom Q \<subseteq> dom (wake pri rdy t Q)" by (auto simp: wake_def strip_def)
  with Cons [of "wake pri rdy t Q"] show ?case by simp
qed simp

lemma tick_wakes:
  assumes S: "sched s Q D W" and l: "loose s Q D W (run_next s)" and ts: "tstates {} s Q D W" and so: "stack_ok s"
  obtains s' Q' D' where "osRtxThreadDelayTick s = Some s'" "touched s s'" "kept s s'" "mem s' = mem s" "run_next s' = run_next s"
    "sched s' Q' D' W" "loose s' Q' D' W (run_next s)" "tstates {} s' Q' D' W" "stack_ok s'" "dom Q \<subseteq> dom Q'"
    "due_times (delay s') 0 D' = due_later s D" "ob_state s' = (\<lambda>t. if t \<in> set (due_now s D) then osRtxThreadReady else ob_state s t)"
    "run_next s \<notin> set (due_now s D)"
proof -
  obtain R where R: "Q (ready s) = Some R" by (rule sched_ready [OF S])
  let ?now = "due_now s D" and ?D = "map fst (due_later s D)"
  let ?Q = "fold (wake (priority s) (ready s)) ?now Q"
  obtain s1 where 1: "osRtxThreadDelayTick s = Some s1" "touched s s1" "sched s1 ?Q ?D W" "due_times (delay s1) 0 ?D = due_later s D"
    "ob_state s1 = (\<lambda>t. if t \<in> set ?now then osRtxThreadReady else ob_state s t)" "run_next s1 = run_next s" "mem s1 = mem s"
    by (rule DelayTick_spec [OF S]) blast
  note f = touched_fields [OF 1(2)]
  obtain R1 where R1: "?Q (ready s) = Some R1" "set R1 = set R \<union> set ?now"
    using fold_wake_ready [where Q = Q and R = R and rdy = "ready s" and pri = "priority s" and ts = ?now] R by auto
  have DD: "set D = set ?now \<union> set ?D" by (rule due_parts)
  have "ready s \<in> dom Q" using R by auto
  then have mem: "members ?Q \<subseteq> members Q \<union> set ?now" using members_wakes [of "ready s" Q] by simp
  have rn: "run_next s \<notin> set ?now" using l DD by (auto simp: loose_def)
  have "loose s1 ?Q ?D W (run_next s)" using l f(1) mem rn DD by (auto simp: loose_def)
  moreover have "tstates {} s1 ?Q ?D W"
    by (rule tstates_step [OF ts R, of _ R1 s1 "set ?now"]) (use R1 1(5,6) DD f(1,24) in auto)
  moreover have "stack_ok s1" by (rule stack_ok_touched [OF 1(2,7) so])
  moreover have "x \<notin> set ?now" if "ob_id s x \<noteq> osRtxIdThread" for x using that schedD(5) [OF S, of x] DD by auto
  then have "kept s s1" using 1(5) by (intro touched_kept [OF 1(2)]) simp
  ultimately show thesis using 1 rn dom_wakes [of Q] by (intro that [of s1 ?Q ?D]) auto
qed

text \<open>The tick from a state in which a switch may be due already, as after the kernel was unlocked.\<close>

lemma quiet_tick:
  assumes q: "quiet s Q D W" and o: "objects s Q" and i: "isr_ok s" and t: "timer_list s = NULL"
  shows "\<exists>s' Q' D' W'. osRtxTick_Handler s = Some s' \<and> kernel_inv s' Q' D' W'"
proof -
  let ?s = "s\<lparr>kernel_tick := kernel_tick s + 1\<rparr>"
  have S: "sched ?s Q D W" "loose ?s Q D W (run_next ?s)" "tstates {} ?s Q D W" "stack_ok ?s"
    and r: "run_curr s = run_next s" "kernel_state s = osRtxKernelRunning" "ob_state s (run_next s) = osRtxThreadRunning"
    using q tstates_cong [of ?s s "{}" Q D W] unfolding quiet_def by (simp_all add: loose_def)
  have tt: "osRtxTimerTick ?s = Some ?s" using t by (simp add: osRtxTimerTick_def)
  obtain s1 Q1 D1 where 1: "osRtxThreadDelayTick ?s = Some s1" "touched ?s s1" "kept ?s s1" "mem s1 = mem ?s" "run_next s1 = run_next ?s"
    "sched s1 Q1 D1 W" "loose s1 Q1 D1 W (run_next ?s)" "tstates {} s1 Q1 D1 W" "stack_ok s1" "dom Q \<subseteq> dom Q1"
    "ob_state s1 = (\<lambda>t. if t \<in> set (due_now ?s D) then osRtxThreadReady else ob_state ?s t)" "run_next ?s \<notin> set (due_now ?s D)"
    by (rule tick_wakes [OF S]) blast
  note f = touched_fields [OF 1(2)]
  have "quiet s1 Q1 D1 W" using 1(5-9,11,12) r f(22,23) by (simp add: quiet_def)
  then obtain s2 R2 where 2: "osRtxThreadDispatch NULL s1 = Some s2" "touched s1 s2" "settled s2 (Q1(ready s1 \<mapsto> R2)) D1 W"
    "tstates {} s2 (Q1(ready s1 \<mapsto> R2)) D1 W" "mem s2 = mem s1" "kept s1 s2"
    by (rule quiet_dispatch) blast
  let ?Q = "Q1(ready s1 \<mapsto> R2)"
  have "kept s ?s" by (simp add: kept_def)
  from kept_trans [OF kept_trans [OF this 1(3)] 2(6)] have kp: "kept s s2" .
  have "dom Q \<subseteq> dom ?Q" using 1(10) by auto
  then have "kernel_inv s2 ?Q D1 W"
    using 2(3,4) kept_isr [OF kp i] kept_objects [OF kp o] kp t unfolding kernel_inv_def by (simp add: kept_def)
  then obtain s' Q' where 3: "round_robin s2 = Some s'" "kernel_inv s' Q' D1 W"
    using round_robin_keeps [OF _ stack_ok_touched [OF 2(2,5) 1(9)]] by blast
  have "osRtxTick_Handler s = Some s'" using tt 1(1) 2(1) 3(1) by (simp add: osRtxTick_Handler_def Let_def)
  then show ?thesis using 3(2) by blast
qed

lemma Tick_keeps:
  assumes K: "kernel_inv s Q D W" and n: "run_curr s = run_next s" and so: "stack_ok s"
  shows "\<exists>s' Q' D' W'. osRtxTick_Handler s = Some s' \<and> kernel_inv s' Q' D' W'"
  using quiet_tick kernel_invD [OF assms] by blast

section \<open>Interrupts and the PendSV handler\<close>

lemma quiet_same:
  assumes "quiet s Q D W" "sched s' Q D W" "kept s s'" "ob_state s' = ob_state s" "run_next s' = run_next s"
    "run_curr s' = run_curr s" "kernel_state s' = kernel_state s" "stack_ok s'"
  shows "quiet s' Q D W"
  using assms tstates_cong [of s' s "{}" Q D W] unfolding quiet_def kept_def loose_def by simp

lemma quiet_step:
  assumes q: "quiet s Q D W" and S: "sched s' Q' D' W'" and f: "kept s s'" "run_curr s' = run_curr s" "kernel_state s' = kernel_state s"
    and r: "run_next s' = run_next s" "ob_state s' (run_next s) = ob_state s (run_next s)" "stack_ok s'"
    and m: "members Q' \<subseteq> members Q" "set D' \<subseteq> set D" "set W' \<subseteq> set W" and t: "tstates {} s' Q' D' W'"
  shows "quiet s' Q' D' W'"
  using assms unfolding quiet_def kept_def loose_def by auto

lemma SemaphorePost_keeps:
  assumes q: "quiet s Q D W" and o: "objects s Q" and id: "ob_id s sem = osRtxIdSemaphore" and sn: "sem \<noteq> NULL"
  shows "\<exists>s' Q' D' W'. osRtxSemaphorePostProcess sem s = Some s' \<and> quiet s' Q' D' W' \<and> kept s s' \<and> dom Q \<subseteq> dom Q'"
proof -
  have S: "sched s Q D W" and so: "stack_ok s" and ts: "tstates {} s Q D W" and l: "loose s Q D W (run_next s)"
    using q unfolding quiet_def by metis+
  obtain R where R: "Q (ready s) = Some R" by (rule sched_ready [OF S])
  show ?thesis
  proof (cases "ob_state s sem = osRtxObjectInactive")
    case True then show ?thesis using q by (intro exI [of _ s]) (auto simp: osRtxSemaphorePostProcess_def)
  next
    case act: False
    obtain ws where ws: "Q sem = Some ws" "sem \<noteq> ready s" using objectsD [OF o id] act by auto
    have hd: "thread_next s sem = after ws" by (rule list_head [OF schedD(1) [OF S] ws(1) sn])
    have nn: "NULL \<notin> set ws" using dll_nonnull [OF lists_ok_dll [OF schedD(1) [OF S] ws(1)]] .
    let ?s = "s\<lparr>tokens := (tokens s)(sem := tokens s sem - 1)\<rparr>"
    have dec: "SemaphoreTokenDecrement sem s = (if tokens s sem \<noteq> 0 then (1, ?s) else (0, s))"
      by (simp add: SemaphoreTokenDecrement_def atomic_dec16_nz_def Let_def fun_upd_idem)
    show ?thesis
    proof (cases "ws \<noteq> [] \<and> tokens s sem \<noteq> 0")
      case False
      then have "osRtxSemaphorePostProcess sem s = Some s" using act hd dec by (auto simp: osRtxSemaphorePostProcess_def)
      then show ?thesis using q by (intro exI [of _ s]) auto
    next
      case True
      then obtain t us where w: "ws = t # us" by (cases ws) auto
      have Q': "Q sem = Some (t # us)" and tn: "t \<noteq> NULL" using ws w nn by auto
      have S0: "sched ?s Q D W" and R0: "Q (ready ?s) = Some R" and sr: "sem \<noteq> ready ?s" using S R ws(2) by simp_all
      let ?Q = "Q(sem \<mapsto> us, ready ?s \<mapsto> pinsert (priority ?s) t R)"
      obtain s1 s' where 1: "osRtxThreadListGet sem ?s = Some (t, s1)" "osRtxThreadWaitExit t (status_word osOK) False s1 = Some s'"
        "touched ?s s'" "sched s' ?Q (remove1 t D) (remove1 t W)" "ob_state s' = (ob_state ?s)(t := osRtxThreadReady)"
        "run_next s' = run_next ?s" "mem s' = (mem ?s)(osRtxThreadRegPtr ?s t := status_word osOK)"
        by (rule wake_waiter [OF S0 Q' sn sr R0]) blast
      note f = touched_fields [OF 1(3)]
      have tm: "t \<in> members Q" using members_sub [of Q sem "t # us"] Q' by simp
      then have ti: "ob_id s t = osRtxIdThread" and tr: "t \<noteq> run_next s" using schedD(4) [OF S] l by (auto simp: loose_def)
      have tD: "t \<in> set D \<union> set W" using schedD(11) [OF S Q' sn ws(2)] by simp
      have "kept ?s s'" using 1(5) ti by (intro touched_kept [OF 1(3)]) auto
      then have kp: "kept s s'" by (simp add: kept_def)
      have "quiet s' ?Q (remove1 t D) (remove1 t W)"
      proof (rule quiet_step [OF q 1(4) kp])
        have "stack_ok (?s\<lparr>mem := (mem ?s)(osRtxThreadRegPtr ?s t := status_word osOK)\<rparr>)"
          by (rule stack_ok_reg) (use so ti in simp_all)
        then show "stack_ok s'" using f(1,8,9,10,23) 1(7) by (simp add: stack_ok_def osRtxThreadRegPtr_def)
        show "members ?Q \<subseteq> members Q"
          using members_upd [of "Q(sem \<mapsto> us)" "ready ?s" "pinsert (priority ?s) t R"] members_upd [of Q sem us]
            members_sub [of Q "ready s" R] members_sub [of Q sem "t # us"] R Q' tm by auto
        show "tstates {} s' ?Q (remove1 t D) (remove1 t W)"
          by (rule tstates_step [OF ts R, of _ "pinsert (priority ?s) t R" s' "{t}"]) (use 1(5,6) f(1,24) in auto)
      qed (use 1(5,6) f(22,23) tr set_remove1_subset [of t D] set_remove1_subset [of t W] in auto)
      moreover have "osRtxSemaphorePostProcess sem s = Some s'"
        using act hd dec True w tn 1(1,2) by (simp add: osRtxSemaphorePostProcess_def)
      moreover have "dom Q \<subseteq> dom ?Q" by auto
      ultimately show ?thesis using kp by blast
    qed
  qed
qed

lemma EventFlagsPost_keeps:
  assumes q: "quiet s Q D W" and o: "objects s Q" and id: "ob_id s ef = osRtxIdEventFlags" and en: "ef \<noteq> NULL"
  shows "\<exists>s' Q' D' W'. osRtxEventFlagsPostProcess ef s = Some s' \<and> quiet s' Q' D' W' \<and> kept s s' \<and> dom Q \<subseteq> dom Q'"
proof -
  have S: "sched s Q D W" and so: "stack_ok s" and ts: "tstates {} s Q D W" and l: "loose s Q D W (run_next s)"
    using q unfolding quiet_def by metis+
  note DD = schedD [OF S]
  obtain R where R: "Q (ready s) = Some R" by (rule sched_ready [OF S])
  show ?thesis
  proof (cases "ob_state s ef = osRtxObjectInactive")
    case True then show ?thesis using q by (intro exI [of _ s]) (auto simp: osRtxEventFlagsPostProcess_def)
  next
    case act: False
    obtain ws where ws: "Q ef = Some ws" "ef \<noteq> ready s" using objectsD [OF o id] act by auto
    then have Q': "Q ef = Some ([] @ ws)" by simp
    have hd: "thread_next s ef = after ws" by (rule list_head [OF DD(1) ws(1) en])
    obtain go stay v where sv: "serve (wait_flags s) (flags_options s) ws (event_flags s ef) = (go, stay, v)"
      by (cases "serve (wait_flags s) (flags_options s) ws (event_flags s ef)") auto
    let ?s0 = "s\<lparr>event_flags := (event_flags s)(ef := v)\<rparr>"
    obtain s' R' D' W' where 1: "ef_post_loop ef (after ws) s = Some s'" "touched ?s0 s'"
      "sched s' (Q(ef \<mapsto> [] @ stay, ready s \<mapsto> R')) D' W'" "set R' = set R \<union> fst ` set go"
      "\<forall>x. ob_state s' x = (if x \<in> fst ` set go then osRtxThreadReady else ob_state s x)" "run_next s' = run_next s"
      "mem s' = regs_set s go (mem s)" "set D' = set D - fst ` set go" "set W' = set W - fst ` set go"
      using flags_loop [OF S Q' en ws(2) R sv refl] by (elim exE conjE) (rule that; assumption)
    note f = touched_fields [OF 1(2)]
    let ?Q = "Q(ef \<mapsto> stay, ready s \<mapsto> R')"
    have sws: "fst ` set go \<union> set stay = set ws" by (rule serve_split [OF sv])
    have wm: "set ws \<subseteq> members Q" "set R \<subseteq> members Q" using members_sub ws R by blast+
    have mem: "members ?Q \<subseteq> members Q"
      using members_upd [of "Q(ef \<mapsto> stay)" "ready s" R'] members_upd [of Q ef stay] 1(4) wm sws by blast
    have rg: "run_next s \<notin> fst ` set go" using l wm sws by (auto simp: loose_def)
    have "fst ` set go \<subseteq> members Q" using wm sws by blast
    then have "kept ?s0 s'" using 1(5) DD(4) by (intro touched_kept [OF 1(2)]) auto
    then have kp: "kept s s'" by (simp add: kept_def)
    have "quiet s' ?Q D' W'"
    proof (rule quiet_step [OF q _ kp])
      show "sched s' ?Q D' W'" using 1(3) by simp
      have "osRtxThreadRegPtr s t \<noteq> stack_mem s (run_curr s)" if "run_curr s \<noteq> NULL" "t \<in> fst ` set go" for t
      proof -
        have "ob_id s t = osRtxIdThread" using that wm sws DD(4) [of t] by blast
        then show ?thesis using so that(1) by (simp add: stack_ok_def)
      qed
      then have "run_curr s \<noteq> NULL \<Longrightarrow> regs_set s go (mem s) (stack_mem s (run_curr s)) = mem s (stack_mem s (run_curr s))"
        by (intro regs_set_other)
      then show "stack_ok s'"
        using so 1(7) f(1,8,9,10,23) by (cases "run_curr s = NULL") (simp_all add: stack_ok_def osRtxThreadRegPtr_def)
      show "tstates {} s' ?Q D' W'"
        by (rule tstates_step [OF ts R, of _ R' s' "fst ` set go"]) (use 1(4-6,8,9) f(1,24) in auto)
    qed (use 1(5,6,8,9) f(22,23) rg mem in auto)
    moreover have "osRtxEventFlagsPostProcess ef s = Some s'" using act hd 1(1) by (simp add: osRtxEventFlagsPostProcess_def)
    moreover have "dom Q \<subseteq> dom ?Q" by auto
    ultimately show ?thesis using kp by blast
  qed
qed

lemma isr_get_frame: "\<exists>c out. snd (isr_queue_get s) = s\<lparr>isr_cnt := c, isr_out := out\<rparr>"
proof -
  have "\<exists>c' out. s\<lparr>isr_cnt := c\<rparr> = s\<lparr>isr_cnt := c', isr_out := out\<rparr>" for c
    by (rule exI [of _ c], rule exI [of _ "isr_out s"]) simp
  then show ?thesis by (auto simp: isr_queue_get_def Let_def split: prod.split)
qed

lemma pendsv_keeps:
  assumes "isr_rep cap s xs" "\<forall>x\<in>set xs. x \<noteq> NULL \<and> ob_id s x \<in> {osRtxIdSemaphore, osRtxIdEventFlags}"
    "quiet s Q D W" "objects s Q"
  shows "\<exists>s' Q' D' W'. pendsv_loop s = Some s' \<and> quiet s' Q' D' W' \<and> objects s' Q' \<and> isr_rep cap s' [] \<and>
    timer_list s' = timer_list s"
  using assms
proof (induction xs arbitrary: s Q D W)
  case Nil
  obtain s1 where 1: "isr_queue_get s = (NULL, s1)" "isr_rep cap s1 []" using isr_queue.get_empty [OF Nil(1)] by blast
  obtain c out where s1: "s1 = s\<lparr>isr_cnt := c, isr_out := out\<rparr>" using isr_get_frame [of s] 1(1) by auto
  have "pendsv_loop s = Some s1" using 1(1) by (subst pendsv_loop.simps) simp
  moreover have "quiet s1 Q D W" using Nil(3) tstates_cong [of s1 s "{}" Q D W] unfolding quiet_def by (simp add: s1)
  moreover have "objects s1 Q" using Nil(4) by (simp add: objects_def s1)
  ultimately show ?case using 1(2) by (auto simp: s1)
next
  case (Cons x xs)
  obtain s1 where 1: "isr_queue_get s = (x, s1)" "isr_rep cap s1 xs" using isr_queue.get_ok [OF Cons.prems(1)] by blast
  obtain c out where s1: "s1 = s\<lparr>isr_cnt := c, isr_out := out\<rparr>" using isr_get_frame [of s] 1(1) by auto
  have q1: "quiet s1 Q D W" using Cons.prems(3) tstates_cong [of s1 s "{}" Q D W] unfolding quiet_def by (simp add: s1)
  have o1: "objects s1 Q" using Cons.prems(4) by (simp add: objects_def s1)
  have x: "x \<noteq> NULL" "ob_id s1 x = osRtxIdSemaphore \<or> ob_id s1 x = osRtxIdEventFlags" using Cons.prems(2) by (simp_all add: s1)
  let ?post = "if ob_id s1 x = osRtxIdThread then osRtxThreadPostProcess x s1
                 else if ob_id s1 x = osRtxIdEventFlags then osRtxEventFlagsPostProcess x s1
                 else if ob_id s1 x = osRtxIdSemaphore then osRtxSemaphorePostProcess x s1
                 else if ob_id s1 x = osRtxIdMemoryPool then osRtxMemoryPoolPostProcess x s1
                 else if ob_id s1 x = osRtxIdMessage then osRtxMessageQueuePostProcess x s1
                 else Some s1"
  obtain s2 Q' D' W' where 2: "?post = Some s2" "quiet s2 Q' D' W'" "kept s1 s2" "dom Q \<subseteq> dom Q'"
  proof (cases "ob_id s1 x = osRtxIdSemaphore")
    case True
    then have p: "?post = osRtxSemaphorePostProcess x s1" by simp
    from SemaphorePost_keeps [OF q1 o1 True x(1)]
    show thesis by (elim exE conjE) (rule that [OF trans [OF p]]; assumption)
  next
    case False
    then have e: "ob_id s1 x = osRtxIdEventFlags" using x(2) by simp
    then have p: "?post = osRtxEventFlagsPostProcess x s1" by simp
    from EventFlagsPost_keeps [OF q1 o1 e x(1)]
    show thesis by (elim exE conjE) (rule that [OF trans [OF p]]; assumption)
  qed
  have o2: "objects s2 Q'" by (rule kept_objects [OF 2(3) o1 2(4)])
  have r2: "isr_rep cap s2 xs" using 1(2) 2(3) by (simp add: kept_def isr_rep_def isr_slot_def)
  have i2: "\<forall>x\<in>set xs. x \<noteq> NULL \<and> ob_id s2 x \<in> {osRtxIdSemaphore, osRtxIdEventFlags}"
    using Cons.prems(2) 2(3) by (simp add: kept_def s1)
  obtain s' Q2 D2 W2 where 3: "pendsv_loop s2 = Some s'" "quiet s' Q2 D2 W2" "objects s' Q2" "isr_rep cap s' []"
    "timer_list s' = timer_list s2"
    using Cons.IH [OF r2 i2 2(2) o2] by blast
  have "pendsv_loop s = pendsv_loop s2" using 1(1) x(1) 2(1) by (subst pendsv_loop.simps) (simp only: prod.case Let_def if_False bind.bind_lunit)
  moreover have "timer_list s2 = timer_list s" using 2(3) by (simp add: kept_def s1)
  ultimately show ?case using 3 by auto
qed

lemma PendSV_keeps:
  assumes K: "kernel_inv s Q D W" and n: "run_curr s = run_next s" and so: "stack_ok s"
  shows "\<exists>s' Q' D' W'. osRtxPendSV_Handler s = Some s' \<and> kernel_inv s' Q' D' W'"
proof -
  note k = kernel_invD [OF assms]
  obtain xs where xs: "isr_rep (unat (isr_max s)) s xs" "\<forall>x\<in>set xs. x \<noteq> NULL \<and> ob_id s x \<in> {osRtxIdSemaphore, osRtxIdEventFlags}"
    using k(5) by (auto simp: isr_ok_def)
  obtain s1 Q1 D1 W1 where 1: "pendsv_loop s = Some s1" "quiet s1 Q1 D1 W1" "objects s1 Q1" "isr_rep (unat (isr_max s)) s1 []"
    "timer_list s1 = timer_list s"
    using pendsv_keeps [OF xs k(7,4)] by blast
  obtain s' R' where 2: "osRtxThreadDispatch NULL s1 = Some s'" "settled s' (Q1(ready s1 \<mapsto> R')) D1 W1"
    "tstates {} s' (Q1(ready s1 \<mapsto> R')) D1 W1" "kept s1 s'"
    by (rule quiet_dispatch [OF 1(2)]) blast
  have "isr_ok s1" using 1(4) by (auto simp: isr_ok_def isr_rep_def)
  moreover have "dom Q1 \<subseteq> dom (Q1(ready s1 \<mapsto> R'))" by auto
  ultimately have "kernel_inv s' (Q1(ready s1 \<mapsto> R')) D1 W1"
    using 2(2,3) kept_isr [OF 2(4)] kept_objects [OF 2(4) 1(3)] 2(4) 1(5) k(6) unfolding kernel_inv_def by (simp add: kept_def)
  moreover have "osRtxPendSV_Handler s = Some s'" using 1(1) 2(1) by (simp add: osRtxPendSV_Handler_def)
  ultimately show ?thesis by blast
qed

section \<open>Calls from interrupt handlers\<close>

lemma isr_rep_cong:
  "isr_max s' = isr_max s \<Longrightarrow> isr_cnt s' = isr_cnt s \<Longrightarrow> isr_in s' = isr_in s \<Longrightarrow> isr_out s' = isr_out s \<Longrightarrow>
   isr_data s' = isr_data s \<Longrightarrow> isr_rep cap s' xs = isr_rep cap s xs"
  by (simp add: isr_rep_def isr_slot_def)

lemma isr_post_keeps:
  assumes K: "kernel_inv s Q D W" and x: "x \<noteq> NULL" "ob_id s x \<in> {osRtxIdSemaphore, osRtxIdEventFlags}"
    and p: "osRtxPostProcess x s = Some s'"
  shows "kernel_inv s' Q D W \<and> run_next s' = run_next s \<and> run_curr s' = run_curr s"
proof -
  have k: "settled s Q D W" "tstates {} s Q D W" "objects s Q" "timer_list s = NULL" using K by (simp_all add: kernel_inv_def)
  obtain xs where xs: "isr_rep (unat (isr_max s)) s xs" "\<forall>x\<in>set xs. x \<noteq> NULL \<and> ob_id s x \<in> {osRtxIdSemaphore, osRtxIdEventFlags}"
    using K by (auto simp: kernel_inv_def isr_ok_def)
  obtain r s1 where 1: "isr_queue_put x s = (r, s1)" by (cases "isr_queue_put x s")
  then have s': "r \<noteq> 0" "s' = SetPendSV s1 \<or> s' = s1\<lparr>kernel_pendSV := 1\<rparr>"
    using p by (auto simp: osRtxPostProcess_def split: if_splits)
  have "length xs < unat (isr_max s)"
  proof (rule ccontr)
    assume "\<not> ?thesis"
    then obtain s2 where "isr_queue_put x s = (0, s2)" using isr_queue.put_full [OF xs(1), of x] by auto
    with 1 s'(1) show False by simp
  qed
  then have "isr_rep (unat (isr_max s)) s1 (xs @ [x])" using isr_queue.put_ok [OF xs(1), of x] 1 by auto
  moreover obtain c i d where s1: "s1 = s\<lparr>isr_cnt := c, isr_in := i, isr_data := d\<rparr>"
  proof -
    obtain old cnt n inx where c: "atomic_inc16_lt (isr_cnt s) (isr_max s) = (old, cnt)"
      "atomic_inc16_lim (isr_in s) (isr_max s) = (n, inx)" by fastforce
    then have "s1 = s\<lparr>isr_cnt := cnt, isr_in := inx, isr_data := (isr_data s)(n := x)\<rparr>"
      using 1 s'(1) by (simp add: isr_queue_put_def Let_def split: if_splits)
    then show thesis by (rule that)
  qed
  moreover have "isr_rep (unat (isr_max s)) s' (xs @ [x]) = isr_rep (unat (isr_max s)) s1 (xs @ [x])"
    by (rule isr_rep_cong) (use s'(2) in \<open>auto simp: SetPendSV_def\<close>)
  ultimately have r: "isr_rep (unat (isr_max s')) s' (xs @ [x])" and f: "ob_id s' = ob_id s" "ob_state s' = ob_state s"
    "ready s' = ready s" "run_next s' = run_next s" "run_curr s' = run_curr s" "timer_list s' = timer_list s"
    using s'(2) by (auto simp: SetPendSV_def)
  have "settled s' Q D W" using k(1) s'(2) s1 by (auto simp: SetPendSV_def)
  moreover have "isr_ok s'" unfolding isr_ok_def
    by (rule exI [of _ "xs @ [x]"]) (use r xs(2) x f(1) in auto)
  ultimately show ?thesis
    using k(2-4) f tstates_cong [OF f(1-4), of "{}" Q D W] by (simp add: kernel_inv_def objects_def)
qed

section \<open>Every step keeps the invariant\<close>

lemma switch_keeps:
  assumes "kernel_inv s Q D W" shows "kernel_ok (context_switch regs exc s)"
proof -
  have "kernel_inv (context_switch regs exc s) Q D W"
    by (rule kernel_inv_same [OF assms]) (simp_all add: context_switch_def kept_def Let_def)
  moreover have "run_curr (context_switch regs exc s) = run_next (context_switch regs exc s)"
    by (simp add: context_switch_def Let_def)
  ultimately show ?thesis by (auto simp: kernel_ok_def)
qed

text \<open>What every handler promises: from a good state it returns, and after the switch the state is good.\<close>

locale kernel_handler =
  fixes handler :: "rtx \<Rightarrow> rtx option"
  assumes keeps: "kernel_inv s Q D W \<Longrightarrow> run_curr s = run_next s \<Longrightarrow> stack_ok s \<Longrightarrow>
    \<exists>s' Q' D' W'. handler s = Some s' \<and> kernel_inv s' Q' D' W'"
begin

lemma returns: "kernel_ok s \<Longrightarrow> stack_ok s \<Longrightarrow> \<exists>s'. handler s = Some s' \<and> kernel_ok (context_switch regs exc s')"
  using keeps switch_keeps unfolding kernel_ok_def by metis

lemma step: "kernel_ok s \<Longrightarrow> stack_ok s \<Longrightarrow> handler s = Some s' \<Longrightarrow> kernel_ok (context_switch regs exc s')"
  using returns by fastforce

end

interpretation tick: kernel_handler osRtxTick_Handler
  by unfold_locales (rule Tick_keeps)

interpretation pendsv: kernel_handler osRtxPendSV_Handler
  by unfold_locales (rule PendSV_keeps)

lemma service_call_handler: "service_call (run_service c) r1 regs exc s = map_option (context_switch regs exc) (svc_handler c r1 s)"
  by (cases "run_service c s") (auto simp: service_call_def svc_handler_def)

lemma run_service_keeps:
  assumes "kernel_inv s Q D W" "run_curr s = run_next s" "stack_ok s"
  shows "\<exists>r s' Q' D' W'. run_service c s = Some (r, s') \<and> kernel_inv s' Q' D' W'"
  using Yield_keeps [OF assms] Delay_keeps [OF assms] SetPriority_keeps [OF assms] Suspend_keeps [OF assms]
    Resume_keeps [OF assms] SemaphoreAcquire_keeps [OF assms] SemaphoreRelease_keeps [OF assms]
    EventFlagsSet_keeps [OF assms] EventFlagsWait_keeps [OF assms]
  by (cases c) fastforce+

interpretation svc: kernel_handler "svc_handler c r1" for c r1
proof
  fix s Q D W assume h: "kernel_inv s Q D W" "run_curr s = run_next s" "stack_ok s"
  obtain r s' Q' D' W' where 1: "run_service c s = Some (r, s')" "kernel_inv s' Q' D' W'" using run_service_keeps [OF h] by metis
  have "kernel_inv (s'\<lparr>mem := (mem s')(psp s := r, psp s + 4 := r1)\<rparr>) Q' D' W'"
    by (rule kernel_inv_same [OF 1(2)]) (simp_all add: kept_def)
  then show "\<exists>s' Q' D' W'. svc_handler c r1 s = Some s' \<and> kernel_inv s' Q' D' W'"
    using 1(1) by (auto simp: svc_handler_def)
qed

lemma isr_keeps:
  assumes K: "kernel_ok s" and i: "run_isr i s = Some (r, s')" shows "kernel_ok s'"
proof -
  obtain Q D W where k: "run_curr s = run_next s" "kernel_inv s Q D W" using K by (auto simp: kernel_ok_def)
  show ?thesis
  proof (cases i)
    case (IsrSemaphoreRelease sem)
    obtain q f where q: "SemaphoreTokenIncrement sem s = (q, s\<lparr>tokens := f\<rparr>)"
      by (cases "atomic_inc16_lt (tokens s sem) (max_tokens s sem)") (simp add: SemaphoreTokenIncrement_def)
    have K1: "kernel_inv (s\<lparr>tokens := f\<rparr>) Q D W" by (rule kernel_inv_same [OF k(2)]) (simp_all add: kept_def)
    obtain x where x: "isrRtxSemaphoreRelease sem s = Some (x, s')" using i IsrSemaphoreRelease by auto
    have "s' = s \<or> s' = s\<lparr>tokens := f\<rparr> \<or> ob_check osRtxIdSemaphore sem s = osOK \<and> osRtxPostProcess sem (s\<lparr>tokens := f\<rparr>) = Some s'"
    proof (cases "ob_check osRtxIdSemaphore sem s = osOK")
      case True
      then have "(if q \<noteq> 0 then osRtxPostProcess sem (s\<lparr>tokens := f\<rparr>) \<bind> (\<lambda>s. Some (osOK, s))
          else Some (osErrorResource, s\<lparr>tokens := f\<rparr>)) = Some (x, s')"
        using x q by (simp add: isrRtxSemaphoreRelease_def)
      then show ?thesis using True by (cases "osRtxPostProcess sem (s\<lparr>tokens := f\<rparr>)") (simp_all split: if_splits)
    next
      case False then show ?thesis using x by (simp add: isrRtxSemaphoreRelease_def)
    qed
    then consider "s' = s" | "s' = s\<lparr>tokens := f\<rparr>" | "ob_check osRtxIdSemaphore sem s = osOK" "osRtxPostProcess sem (s\<lparr>tokens := f\<rparr>) = Some s'"
      by blast
    then show ?thesis
      by cases (use K k K1 isr_post_keeps [OF K1, of sem s'] in \<open>auto simp: kernel_ok_def ob_check_ok\<close>)
  next
    case (IsrEventFlagsSet ef flags)
    obtain q f where q: "EventFlagsSet ef flags s = (q, s\<lparr>event_flags := f\<rparr>)" by (simp add: EventFlagsSet_def atomic_set32_def)
    have K1: "kernel_inv (s\<lparr>event_flags := f\<rparr>) Q D W" by (rule kernel_inv_same [OF k(2)]) (simp_all add: kept_def)
    have x: "isrRtxEventFlagsSet ef flags s = Some (r, s')" using i IsrEventFlagsSet by simp
    have "s' = s \<or> ef \<noteq> NULL \<and> ob_id s ef = osRtxIdEventFlags \<and> osRtxPostProcess ef (s\<lparr>event_flags := f\<rparr>) = Some s'"
    proof (cases "ef = NULL \<or> ob_id s ef \<noteq> osRtxIdEventFlags \<or> flags_invalid flags \<or> ob_state s ef = osRtxObjectInactive")
      case True then show ?thesis using x by (auto simp: isrRtxEventFlagsSet_def split: if_splits)
    next
      case False
      then have "osRtxPostProcess ef (s\<lparr>event_flags := f\<rparr>) \<bind> (\<lambda>s. Some (q, s)) = Some (r, s')"
        using x q by (simp add: isrRtxEventFlagsSet_def)
      then show ?thesis using False by (cases "osRtxPostProcess ef (s\<lparr>event_flags := f\<rparr>)") simp_all
    qed
    then consider "s' = s" | "ef \<noteq> NULL" "ob_id s ef = osRtxIdEventFlags" "osRtxPostProcess ef (s\<lparr>event_flags := f\<rparr>) = Some s'"
      by blast
    then show ?thesis
      by cases (use K k isr_post_keeps [OF K1, of ef s'] in \<open>auto simp: kernel_ok_def\<close>)
  qed
qed

lemma step_keeps: "kernel_step s s' \<Longrightarrow> kernel_ok s \<Longrightarrow> kernel_ok s'"
proof (induction rule: kernel_step.induct)
  case (thread s p b m)
  then obtain Q D W where k: "run_curr s = run_next s" "kernel_inv s Q D W" by (auto simp: kernel_ok_def)
  have "kernel_inv (s\<lparr>mem := m, bytes := b, psp := p\<rparr>) Q D W" by (rule kernel_inv_same [OF k(2)]) (simp_all add: kept_def)
  then show ?case using k(1) by (auto simp: kernel_ok_def)
next
  case (svc s c r1 regs exc s')
  then show ?case using svc.step by (auto simp: service_call_handler)
next
  case (isr i s r s') then show ?case using isr_keeps by blast
next
  case (tick s s' regs exc) then show ?case using tick.step by blast
next
  case (pendsv s s' regs exc) then show ?case using pendsv.step by blast
qed

lemma reachable_ok: "kernel_step\<^sup>*\<^sup>* s0 s \<Longrightarrow> kernel_ok s0 \<Longrightarrow> kernel_ok s"
  by (induction rule: rtranclp_induct) (auto intro: step_keeps)

section \<open>The configuration is a good state\<close>

lemma demo_kernel: "kernel_ok demo"
proof -
  have ids: "ob_id demo t = osRtxIdThread \<longleftrightarrow> t \<in> {0x1000, 0x2000, 0x3000, 0x4000, 0x6000}" for t by (simp add: demo_def blank_def)
  have "tstates {} demo demo_lists [0x6000] [0x4000]"
    unfolding tstates_def ids by (simp add: demo_def blank_def demo_lists_def)
  moreover have "objects demo demo_lists" by (simp add: objects_def demo_def blank_def demo_lists_def)
  moreover have "isr_ok demo" unfolding isr_ok_def
    by (rule exI [of _ "[]"]) (simp add: isr_rep_def isr_slot_def demo_def blank_def)
  moreover have "timer_list demo = NULL" "run_curr demo = run_next demo" by (simp_all add: demo_def blank_def)
  ultimately show ?thesis using enteredD(1) [OF demo_entered] by (auto simp: kernel_ok_def kernel_inv_def)
qed

lemma demo_delay_step:
  obtains s where "kernel_step demo s" "run_curr s = 0x2000"
proof -
  have R: "demo_lists (ready demo) = Some (0x2000 # [0x3000])" by (simp add: demo_def blank_def demo_lists_def)
  obtain s' where 1: "osRtxThreadWaitEnter osRtxThreadWaitingDelay 10 demo = Some (True, s')" "run_next s' = 0x2000" "touched demo s'"
    by (rule settled_wait [OF demo_entered R, of 10]) auto
  let ?s = "context_switch [] 0xFD (s'\<lparr>mem := (mem s')(psp demo := 0, psp demo + 4 := 0)\<rparr>)"
  have "service_call (run_service (SvcDelay 10)) 0 [] 0xFD demo = Some ?s"
    using 1(1) by (simp add: service_call_def svcRtxDelay_def)
  moreover have "stack_ok demo" by (rule enteredD(3) [OF demo_entered])
  ultimately have "kernel_step demo ?s" by (intro kernel_step.svc)
  moreover have "run_curr demo = 0x1000" by (simp add: demo_def blank_def)
  then have "run_curr ?s = 0x2000" using 1(2) touched_fields(23) [OF 1(3)] by (simp add: context_switch_def Let_def)
  ultimately show thesis by (rule that)
qed

section \<open>Properties\<close>

text \<open>
  C1: In every state that the steps of \<open>kernel_step\<close> reach from a good one, exactly one thread is in state Running, the one
  whose context is loaded, and no ready thread has a higher priority than it. The steps, in any order and number, are: an
  application thread writing memory, the nine service calls osThreadYield, osDelay, osThreadSetPriority, osThreadSuspend, osThreadResume,
  osSemaphoreAcquire, osSemaphoreRelease, osEventFlagsSet and osEventFlagsWait, the calls osSemaphoreRelease and osEventFlagsSet from
  interrupt handlers, the tick and PendSV. No other call is a step, and no timer runs: in particular the kernel is never locked,
  for under osKernelLock a ready thread may have a higher priority than the running one (see kernel_lock_holds).
\<close>

theorem reachable_highest_runs:
  assumes "kernel_ok s0" "kernel_step\<^sup>*\<^sup>* s0 s"
  shows "ob_id s (run_curr s) = osRtxIdThread \<and> ob_state s (run_curr s) = osRtxThreadRunning \<and>
    (\<forall>t. ob_id s t = osRtxIdThread \<longrightarrow> t \<noteq> run_curr s \<longrightarrow> ob_state s t AND osRtxThreadStateMask \<noteq> osRtxThreadRunning \<and>
       (ob_state s t AND osRtxThreadStateMask = osRtxThreadReady \<longrightarrow> priority s t \<le> priority s (run_curr s)))"
proof -
  obtain Q D W where k: "run_curr s = run_next s" "settled s Q D W" "tstates {} s Q D W"
    using reachable_ok [OF assms(2,1)] by (auto simp: kernel_ok_def kernel_inv_def)
  note sd = settledD [OF k(2)] and ts = tstatesD [OF k(3), simplified]
  obtain R where R: "Q (ready s) = Some R" by (rule sched_ready [OF sd(1)])
  have "ob_state s t AND osRtxThreadStateMask \<noteq> osRtxThreadRunning \<and>
       (ob_state s t AND osRtxThreadStateMask = osRtxThreadReady \<longrightarrow> priority s t \<le> priority s (run_curr s))"
    if t: "ob_id s t = osRtxIdThread" "t \<noteq> run_curr s" for t
  proof (intro conjI notI impI)
    assume "ob_state s t AND osRtxThreadStateMask = osRtxThreadRunning"
    from ts(2) [OF t(1) this] t(2) k(1) show False by simp
  next
    assume "ob_state s t AND osRtxThreadStateMask = osRtxThreadReady"
    from ts(1) [OF t(1) this R] show "priority s t \<le> priority s (run_curr s)" using sd(5) [OF R] k(1) by simp
  qed
  then show ?thesis using sd(2,4) k(1) by (simp add: loose_def)
qed

theorem reachable_highest_runs_witness:
  "\<exists>s. kernel_step\<^sup>*\<^sup>* demo s \<and> run_curr s = 0x2000 \<and> ob_state s 0x2000 = osRtxThreadRunning"
proof -
  obtain s where s: "kernel_step demo s" "run_curr s = 0x2000" by (rule demo_delay_step)
  then have r: "kernel_step\<^sup>*\<^sup>* demo s" by simp
  show ?thesis using reachable_highest_runs [OF demo_kernel r] s(2) r by (intro exI [of _ s]) simp
qed

text \<open>
  C3: In every reachable state the state of a thread tells where it is: the running thread is in no list, a
  ready one is in the ready list and not delayed, a blocked one is in exactly one of the delay and
  the wait list and not ready. The lists themselves are well linked, disjoint and sorted by priority.
\<close>

theorem reachable_places:
  assumes "kernel_ok s0" "kernel_step\<^sup>*\<^sup>* s0 s"
  shows "\<exists>Q D W R. sched s Q D W \<and> Q (ready s) = Some R \<and> by_priority (priority s) R \<and>
    (\<forall>t. ob_id s t = osRtxIdThread \<longrightarrow>
       (ob_state s t AND osRtxThreadStateMask = osRtxThreadRunning \<longrightarrow> t \<notin> members Q \<union> set D \<union> set W) \<and>
       (ob_state s t AND osRtxThreadStateMask = osRtxThreadReady \<longrightarrow> t \<in> set R - (set D \<union> set W)) \<and>
       (ob_state s t AND osRtxThreadStateMask = osRtxThreadBlocked \<longrightarrow> (t \<in> set D) \<noteq> (t \<in> set W) \<and> t \<notin> set R))"
proof -
  obtain Q D W where k: "settled s Q D W" "tstates {} s Q D W"
    using reachable_ok [OF assms(2,1)] by (auto simp: kernel_ok_def kernel_inv_def)
  note sd = settledD [OF k(1)] and ts = tstatesD [OF k(2), simplified] and DD = schedD [OF settledD(1) [OF k(1)]]
  obtain R where R: "Q (ready s) = Some R" by (rule sched_ready [OF sd(1)])
  have d: "set D \<inter> set W = {}" using DD(2) by (simp add: delays_ok_def)
  have "(ob_state s t AND osRtxThreadStateMask = osRtxThreadRunning \<longrightarrow> t \<notin> members Q \<union> set D \<union> set W) \<and>
       (ob_state s t AND osRtxThreadStateMask = osRtxThreadReady \<longrightarrow> t \<in> set R - (set D \<union> set W)) \<and>
       (ob_state s t AND osRtxThreadStateMask = osRtxThreadBlocked \<longrightarrow> (t \<in> set D) \<noteq> (t \<in> set W) \<and> t \<notin> set R)"
    if t: "ob_id s t = osRtxIdThread" for t
  proof (intro conjI impI)
    assume "ob_state s t AND osRtxThreadStateMask = osRtxThreadRunning"
    from ts(2) [OF t this] show "t \<notin> members Q \<union> set D \<union> set W" using sd(2) by (simp add: loose_def)
  next
    assume "ob_state s t AND osRtxThreadStateMask = osRtxThreadReady"
    from ts(1) [OF t this R] show "t \<in> set R - (set D \<union> set W)" using DD(10) [OF R] by blast
  next
    assume "ob_state s t AND osRtxThreadStateMask = osRtxThreadBlocked"
    from ts(3) [OF t this] show "(t \<in> set D) \<noteq> (t \<in> set W)" "t \<notin> set R" using d DD(10) [OF R] by blast+
  qed
  then show ?thesis using sd(1) R DD(8) [OF R DD(3)] by blast
qed

theorem reachable_places_witness:
  "\<exists>s Q D W. kernel_step\<^sup>*\<^sup>* demo s \<and> sched s Q D W \<and> 0x2000 \<notin> members Q \<union> set D \<union> set W"
proof -
  obtain s where s: "kernel_step demo s" "run_curr s = 0x2000" by (rule demo_delay_step)
  then have r: "kernel_step\<^sup>*\<^sup>* demo s" by simp
  obtain Q D W where "run_curr s = run_next s" "settled s Q D W"
    using reachable_ok [OF r demo_kernel] by (auto simp: kernel_ok_def kernel_inv_def)
  then have "ob_id s 0x2000 = osRtxIdThread" "ob_state s 0x2000 = osRtxThreadRunning"
    using s(2) by (auto simp: settled_def loose_def)
  then show ?thesis using reachable_places [OF demo_kernel r] r by fastforce
qed

text \<open>
  C2: The modelled calls never hang: in every state that the steps of \<open>kernel_step\<close> reach (no timer runs in these), with an intact
  stack of the running thread, each of the nine service calls of \<open>service\<close> (osThreadYield, osDelay, osThreadSetPriority, osThreadSuspend,
  osThreadResume, osSemaphoreAcquire, osSemaphoreRelease, osEventFlagsSet and osEventFlagsWait), with any arguments, and the tick and PendSV
  handlers return, and the state after the context switch is good again (every loop of theirs over the kernel's lists ends).
  Mutex, memory pool, message queue, thread flag, timer, creation and deletion calls are not among them.
\<close>

theorem kernel_never_stuck:
  assumes "kernel_ok s0" "kernel_step\<^sup>*\<^sup>* s0 s" "stack_ok s"
  shows "(\<exists>s'. service_call (run_service c) r1 regs exc s = Some s' \<and> kernel_ok s') \<and>
    (\<exists>s'. osRtxTick_Handler s = Some s' \<and> kernel_ok (context_switch regs exc s')) \<and>
    (\<exists>s'. osRtxPendSV_Handler s = Some s' \<and> kernel_ok (context_switch regs exc s'))"
proof -
  have ok: "kernel_ok s" by (rule reachable_ok [OF assms(2,1)])
  show ?thesis using svc.returns [OF ok assms(3), of c r1 regs exc] tick.returns [OF ok assms(3)] pendsv.returns [OF ok assms(3)]
    by (auto simp: service_call_handler)
qed

theorem kernel_never_stuck_witness:
  "\<exists>s'. service_call (run_service (SvcSemaphoreAcquire 0x5000 osWaitForever)) 0 [] 0xFD demo = Some s'"
  using kernel_never_stuck [where c = "SvcSemaphoreAcquire 0x5000 osWaitForever" and regs = "[]" and ?r1.0 = 0 and exc = "0xFD",
      OF demo_kernel rtranclp.rtrancl_refl enteredD(3) [OF demo_entered]] by blast

end
