(* ===== verification/KernelCtl.thy ===== *)
theory KernelCtl
  imports KernelInv
begin

text \<open>
  Time and control of the kernel: round robin scheduling over many ticks, the locked kernel, the tick count after
  a suspension and the enumeration of threads.
\<close>

unbundle bit_operations_syntax

section \<open>Specification vocabulary\<close>

text \<open>
  \<open>ticks n s s'\<close>: \<open>n\<close> tick interrupts lead from \<open>s\<close> to \<open>s'\<close>, the threads in between changing memory only. \<open>slice k pri L lower j s\<close>:
  the head of \<open>L\<close> runs, the rest of \<open>L\<close> is ready with the same priority, \<open>lower\<close> behind it, and \<open>j\<close> of the \<open>k\<close> ticks of the
  time slice are over. \<open>locked\<close> is the invariant of the locked kernel.
\<close>

inductive ticks :: "nat \<Rightarrow> rtx \<Rightarrow> rtx \<Rightarrow> bool" where
  none: "ticks 0 s s"
| tick: "ticks n s0 s \<Longrightarrow> stack_ok (s\<lparr>mem := m, bytes := b, psp := p\<rparr>) \<Longrightarrow>
    osRtxTick_Handler (s\<lparr>mem := m, bytes := b, psp := p\<rparr>) = Some s' \<Longrightarrow> ticks (Suc n) s0 (context_switch regs exc s')"

definition slice :: "u32 \<Rightarrow> int \<Rightarrow> ptr list \<Rightarrow> ptr list \<Rightarrow> nat \<Rightarrow> rtx \<Rightarrow> bool" where
  "slice k pri L lower j s \<longleftrightarrow> 1 < length L \<and> k \<noteq> 0 \<and> (\<exists>Q W. kernel_inv s Q [] W \<and> Q (ready s) = Some (tl L @ lower)) \<and>
     run_next s = hd L \<and> run_curr s = hd L \<and> robin_thread s = hd L \<and> robin_timeout s = k \<and> robin_tick s = k - of_nat j \<and>
     (\<forall>x\<in>set L. priority s x = pri) \<and> (\<forall>x\<in>set lower. priority s x < pri)"

definition locked :: "rtx \<Rightarrow> (ptr \<rightharpoonup> ptr list) \<Rightarrow> ptr list \<Rightarrow> ptr list \<Rightarrow> bool" where
  "locked s Q D W \<longleftrightarrow> sched s Q D W \<and> loose s Q D W (run_next s) \<and> run_curr s = run_next s \<and> tstates {} s Q D W \<and>
     kernel_state s = osRtxKernelLocked \<and> ob_state s (run_next s) = osRtxThreadRunning \<and>
     objects s Q \<and> isr_ok s \<and> timer_list s = NULL"

text \<open>The words stored so far: the first threads of \<open>ys\<close>, as many as fit.\<close>

definition enumerated :: "ptr \<Rightarrow> u32 \<Rightarrow> (ptr \<Rightarrow> u32) \<Rightarrow> ptr list \<Rightarrow> ptr \<times> u32 \<times> (ptr \<Rightarrow> u32)" where
  "enumerated arr items m ys =
     (let ws = take (unat items) ys in (arr + 4 * of_nat (length ws), of_nat (length ws), store_words arr ws m))"

text \<open>The configuration of SchedInv without its delayed thread, round robin with slices of one tick.\<close>

definition demo_turns :: rtx where
  "demo_turns = demo\<lparr>ob_id := (ob_id demo)(0x6000 := 0), delay_list := NULL, robin_timeout := 1, robin_thread := 0x1000, robin_tick := 1\<rparr>"

section \<open>Round robin\<close>

lemma touched_robin:
  "touched s s' \<Longrightarrow> robin_thread s' = robin_thread s \<and> robin_tick s' = robin_tick s \<and> robin_timeout s' = robin_timeout s"
proof -
  assume t: "touched s s'"
  have f: "g s' = g s" if "\<And>x. g (core x) = g x" for g :: "rtx \<Rightarrow> 'b"
    using that [of s] that [of s'] t by (simp add: touched_def)
  show ?thesis by (intro conjI; rule f, simp add: core_def)
qed

lemma undelayed:
  assumes K: "kernel_inv s Q [] W" and n: "run_curr s = run_next s" and so: "stack_ok s"
  shows "osRtxTick_Handler s = round_robin (s\<lparr>kernel_tick := kernel_tick s + 1\<rparr>)"
proof -
  note k = kernel_invD [OF assms]
  note sd = settledD [OF k(2)]
  let ?s = "s\<lparr>kernel_tick := kernel_tick s + 1\<rparr>"
  obtain R where R: "Q (ready s) = Some R" by (rule sched_ready [OF k(8)])
  have "osRtxTimerTick ?s = Some ?s" using k(6) by (simp add: osRtxTimerTick_def)
  moreover have "delay_list s = NULL" using schedD(2) [OF k(8)] by (simp add: delays_ok_def delay_ok_def dnext_def)
  then have "osRtxThreadDelayTick ?s = Some ?s" by (simp add: osRtxThreadDelayTick_def)
  moreover have "osRtxThreadDispatch NULL ?s = Some ?s"
  proof -
    have "thread_next s (ready s) = after R" by (rule list_head [OF schedD(1) [OF k(8)] R schedD(3) [OF k(8)]])
    moreover have "R \<noteq> [] \<Longrightarrow> priority s (hd R) \<le> priority s (run_next s)" using sd(5) [OF R] by (cases R) auto
    ultimately show ?thesis using n by (cases R) (auto simp: osRtxThreadDispatch_def Let_def)
  qed
  ultimately show ?thesis by (simp add: osRtxTick_Handler_def Let_def)
qed

lemma switch_sel [simp]:
  "kernel_inv (context_switch regs exc s) Q D W = kernel_inv s Q D W" "ready (context_switch regs exc s) = ready s"
  "run_next (context_switch regs exc s) = run_next s" "run_curr (context_switch regs exc s) = run_next s"
  "robin_thread (context_switch regs exc s) = robin_thread s" "robin_tick (context_switch regs exc s) = robin_tick s"
  "robin_timeout (context_switch regs exc s) = robin_timeout s" "priority (context_switch regs exc s) = priority s"
proof -
  show "ready (context_switch regs exc s) = ready s" "run_next (context_switch regs exc s) = run_next s"
    "run_curr (context_switch regs exc s) = run_next s" "robin_thread (context_switch regs exc s) = robin_thread s"
    "robin_tick (context_switch regs exc s) = robin_tick s" "robin_timeout (context_switch regs exc s) = robin_timeout s"
    "priority (context_switch regs exc s) = priority s"
    by (simp_all add: context_switch_def Let_def)
  show "kernel_inv (context_switch regs exc s) Q D W = kernel_inv s Q D W"
    by (rule iffI; rule kernel_inv_same, assumption) (simp_all add: context_switch_def kept_def Let_def)
qed

lemma slice_left:
  assumes "j < unat (k :: u32)"
  shows "k - of_nat j \<noteq> 0" "k - of_nat j - 1 = k - of_nat (Suc j)" "k - of_nat (Suc j) = 0 \<longleftrightarrow> Suc j = unat k"
proof -
  have m: "k = of_nat i \<longleftrightarrow> i = unat k" if "i \<le> unat k" for i
  proof
    assume i: "k = of_nat i"
    have "unat k < 2 ^ 32" by (rule order_less_le_trans [OF unsigned_less]) simp
    then have "i < 2 ^ 32" using that by simp
    then have "unat (of_nat i :: u32) = i" by (simp add: unat_of_nat)
    then show "i = unat k" using i by simp
  qed simp
  show "k - of_nat j \<noteq> 0" "k - of_nat (Suc j) = 0 \<longleftrightarrow> Suc j = unat k"
    using m [of j] m [of "Suc j"] assms by (simp_all del: of_nat_Suc)
qed simp

lemma slice_tick:
  assumes s: "slice k pri L lower j s" and j: "j < unat k" and so: "stack_ok s"
  obtains s' where "osRtxTick_Handler s = Some s'"
    "slice k pri (if Suc j = unat k then rotate1 L else L) lower (if Suc j = unat k then 0 else Suc j) (context_switch regs exc s')"
proof -
  obtain r x xs where L: "L = r # x # xs" using s by (cases L; cases "tl L") (auto simp: slice_def)
  obtain Q W where K: "kernel_inv s Q [] W" "Q (ready s) = Some (x # xs @ lower)" using s L by (auto simp: slice_def)
  have f: "run_next s = r" "run_curr s = r" "robin_thread s = r" "robin_timeout s = k" "robin_tick s = k - of_nat j"
    "priority s r = pri" "priority s x = pri" "\<forall>x\<in>set xs. priority s x = pri" "\<forall>x\<in>set lower. priority s x < pri"
    using s L by (auto simp: slice_def)
  let ?s = "s\<lparr>kernel_tick := kernel_tick s + 1\<rparr>"
  let ?s1 = "?s\<lparr>robin_tick := robin_tick s - 1\<rparr>"
  have K1: "kernel_inv ?s1 Q [] W" by (rule kernel_inv_same [OF K(1)]) (simp_all add: kept_def)
  have S: "settled ?s1 Q [] W" and ks: "kernel_state s = osRtxKernelRunning" and ts: "tstates {} ?s1 Q [] W"
    using K1 by (auto simp: kernel_inv_def settled_def)
  have R: "Q (ready ?s1) = Some (x # xs @ lower)" using K(2) by simp
  have S1: "sched ?s1 Q [] W" by (rule settledD(1) [OF S])
  have hd: "thread_next s (ready s) = x" using list_head [OF schedD(1) [OF S1] R schedD(3) [OF S1]] by simp
  have xn: "x \<noteq> NULL" using dll_nonnull [OF lists_ok_dll [OF schedD(1) [OF S1] R]] by auto
  have t: "osRtxTick_Handler s = round_robin ?s" by (rule undelayed [OF K(1) _ so]) (use f in simp)
  have rt: "robin_tick s \<noteq> 0" "robin_tick s - 1 = k - of_nat (Suc j)" "robin_tick s - 1 = 0 \<longleftrightarrow> Suc j = unat k"
    using slice_left [OF j] f(5) by metis+
  have k0: "k \<noteq> 0" using j by auto
  show thesis
  proof (cases "Suc j = unat k")
    case False
    have "round_robin ?s = Some ?s1"
      using False f(1,3,4) k0 rt(1,3) by (simp add: round_robin_def Let_def)
    moreover have "slice k pri L lower (Suc j) (context_switch regs exc ?s1)"
      unfolding slice_def using K1 K(2) f L rt(2) k0 by (simp del: of_nat_Suc) blast
    ultimately show thesis using False t that by simp
  next
    case True
    let ?Q = "Q(ready ?s1 \<mapsto> pinsert (priority ?s1) (run_next ?s1) (xs @ lower))"
    obtain s1 s2 s' where 5: "osRtxThreadListRemove x ?s1 = Some s1" "osRtxThreadReadyPut (run_next ?s1) s1 = Some s2"
      "osRtxThreadSwitch x s2 = Some s'" "touched ?s1 s'" "run_next s' = x" "settled s' ?Q [] W" "touched ?s1 s1"
      "tstates {} ?s1 Q [] W \<Longrightarrow> tstates {} s' ?Q [] W" "\<forall>y. ob_id ?s1 y \<noteq> osRtxIdThread \<longrightarrow> ob_state s' y = ob_state ?s1 y"
      by (rule settled_rotate [OF S _ R]) (use so f in auto)
    note g = touched_fields(6,24) [OF 5(4)] touched_robin [OF 5(4)] touched_robin [OF 5(7)]
    let ?s' = "s'\<lparr>robin_thread := x, robin_tick := robin_timeout s'\<rparr>"
    have "round_robin ?s = Some ?s'"
      using True f(1,3,4,6,7) k0 rt(1,3) hd xn ks 5(1-3) g(3,4) by (simp add: round_robin_def Let_def)
    moreover have "kept ?s1 s'" using 5(9) by (intro touched_kept [OF 5(4)]) simp
    then have "kernel_inv s' ?Q [] W" by (rule kernel_inv_keep [OF K1 _ 5(6) 5(8) [OF ts]]) auto
    then have "kernel_inv ?s' ?Q [] W" by (rule kernel_inv_same) (simp_all add: kept_def)
    moreover have "pinsert (priority ?s1) (run_next ?s1) (xs @ lower) = xs @ r # lower"
      using f pinsert_last [of xs "priority s" r lower] by simp
    ultimately have "slice k pri (rotate1 L) lower 0 (context_switch regs exc ?s')"
      unfolding slice_def using L f(1,4,6-9) g 5(5) k0 by (simp del: fun_upd_apply) (rule exI [of _ ?Q]; auto)
    then show thesis using True t that \<open>round_robin ?s = Some ?s'\<close> by simp
  qed
qed

lemma ticks_slice:
  assumes t: "ticks n s s'" and s: "slice k pri L lower 0 s"
  shows "slice k pri (rotate (n div unat k) L) lower (n mod unat k) s'"
  using t s
proof (induction rule: ticks.induct)
  case (none s) then show ?case by simp
next
  case (tick n s0 s p b m s' regs exc)
  let ?s = "s\<lparr>mem := m, bytes := b, psp := p\<rparr>" and ?L = "rotate (n div unat k) L"
  have "slice k pri ?L lower (n mod unat k) s" using tick by blast
  then obtain Q W where q: "kernel_inv s Q [] W" "slice k pri ?L lower (n mod unat k) s" by (auto simp: slice_def)
  have "kernel_inv (s\<lparr>mem := m, bytes := b, psp := p\<rparr>) Q' [] W'" if "kernel_inv s Q' [] W'" for Q' W'
    by (rule kernel_inv_same [OF that]) (simp_all add: kept_def)
  then have s1: "slice k pri ?L lower (n mod unat k) ?s" using q(2) by (auto simp: slice_def)
  have k: "0 < unat k" using q(2) by (simp add: slice_def unat_gt_0)
  obtain t where t: "osRtxTick_Handler ?s = Some t" "slice k pri (if Suc (n mod unat k) = unat k then rotate1 ?L else ?L) lower
      (if Suc (n mod unat k) = unat k then 0 else Suc (n mod unat k)) (context_switch regs exc t)"
    by (rule slice_tick [OF s1 _ tick.hyps(2)]) (use k in auto)
  have "t = s'" using t(1) tick.hyps(3) by simp
  then show ?case using t(2) by (cases "Suc (n mod unat k) = unat k") (simp_all add: mod_Suc div_Suc)
qed

lemma ticks_reach: "ticks n s s' \<Longrightarrow> kernel_step\<^sup>*\<^sup>* s s'"
proof (induction rule: ticks.induct)
  case (tick n s0 s p b m s' regs exc)
  from tick.IH kernel_step.thread have "kernel_step\<^sup>*\<^sup>* s0 (s\<lparr>mem := m, bytes := b, psp := p\<rparr>)"
    by (rule rtranclp.rtrancl_into_rtrancl)
  then show ?case by (rule rtranclp.rtrancl_into_rtrancl) (rule kernel_step.tick [OF tick.hyps(2,3)])
qed simp

lemma demo_turns_sel:
  "ob_id demo_turns t = osRtxIdThread \<longleftrightarrow> t \<in> {0x1000, 0x2000, 0x3000, 0x4000}" "ob_state demo_turns = ob_state demo"
  "priority demo_turns = priority demo" "ready demo_turns = 0x100" "run_next demo_turns = 0x1000" "run_curr demo_turns = 0x1000"
  "robin_thread demo_turns = 0x1000" "robin_timeout demo_turns = 1" "robin_tick demo_turns = 1" "timer_list demo_turns = NULL"
  "delay demo_turns = delay demo" "thread_prev demo_turns = thread_prev demo" "kernel_state demo_turns = osRtxKernelRunning"
  by (simp_all add: demo_turns_def demo_def blank_def)

lemma demo_turns_sched: "sched demo_turns demo_lists [] [0x4000]"
proof -
  note DD = schedD [OF demo_sched]
  have l: "lists_ok (tnext demo_turns) (thread_prev demo_turns) demo_lists"
    using demo_lists_ok by (simp add: demo_turns_def tnext_def)
  have d: "delays_ok demo_turns [] [0x4000]"
    using SchedInv.demo_delays by (simp add: delays_ok_def delay_ok_def wait_ok_def dll_def dnext_def wnext_def demo_turns_def)
  have r: "ready demo = 0x100" by (simp add: demo_def blank_def)
  have w: "\<forall>p xs. demo_lists p = Some xs \<longrightarrow> p \<noteq> NULL \<longrightarrow> p \<noteq> ready demo_turns \<longrightarrow> set xs \<subseteq> set [] \<union> set [0x4000]"
    unfolding demo_lists_cases demo_turns_sel by auto
  have e: "\<forall>t. ob_id demo_turns t = osRtxIdThread \<longrightarrow> t \<notin> members demo_lists \<longrightarrow> thread_prev demo_turns t = NULL"
    unfolding demo_turns_sel demo_members by (auto simp: demo_def blank_def)
  have f: "\<forall>p\<in>dom demo_lists. p \<noteq> NULL \<longrightarrow> ob_id demo_turns p \<noteq> osRtxIdThread" unfolding demo_dom demo_turns_sel by auto
  show ?thesis unfolding sched_def
    by (intro conjI l d w e f)
      (use demo_sched in \<open>simp_all add: sched_def demo_turns_sel demo_members demo_dom r demo_lists_cases\<close>)
qed

lemma demo_turns_inv: "kernel_inv demo_turns demo_lists [] [0x4000]"
proof -
  have "tstates {} demo_turns demo_lists [] [0x4000]"
    unfolding tstates_def demo_turns_sel by (simp add: demo_def blank_def demo_lists_def)
  moreover have "objects demo_turns demo_lists" by (simp add: objects_def demo_turns_def demo_def blank_def demo_lists_def)
  moreover have "isr_ok demo_turns" unfolding isr_ok_def
    by (rule exI [of _ "[]"]) (simp add: isr_rep_def isr_slot_def demo_turns_def demo_def blank_def)
  moreover have "loose demo_turns demo_lists [] [0x4000] 0x1000" by (simp add: loose_def demo_turns_sel demo_members)
  moreover have "\<forall>x\<in>set (the (demo_lists 0x100)). priority demo x \<le> priority demo 0x1000"
    by (simp add: demo_lists_def demo_def blank_def)
  moreover have "ob_state demo 0x1000 = osRtxThreadRunning" by (simp add: demo_def blank_def)
  ultimately show ?thesis using demo_turns_sched by (simp add: kernel_inv_def settled_def demo_turns_sel)
qed

section \<open>The locked kernel\<close>

lemma lockedD:
  assumes "locked s Q D W"
  shows "sched s Q D W" "loose s Q D W (run_next s)" "run_curr s = run_next s" "tstates {} s Q D W"
    "kernel_state s = osRtxKernelLocked" "ob_state s (run_next s) = osRtxThreadRunning" "objects s Q" "isr_ok s" "timer_list s = NULL"
  using assms unfolding locked_def by metis+

lemma locked_same:
  assumes "locked s Q D W" "sched s' Q D W" "kept s s'" "ob_state s' = ob_state s" "run_next s' = run_next s" "run_curr s' = run_curr s"
    "kernel_state s' = kernel_state s"
  shows "locked s' Q D W"
  using assms tstates_cong [of s' s "{}" Q D W] kept_isr [OF assms(3)] kept_objects [OF assms(3), of Q Q]
  unfolding locked_def kept_def loose_def by simp

lemma locked_round_robin:
  assumes l: "kernel_state s = osRtxKernelLocked"
  shows "\<exists>a b. round_robin s = Some (s\<lparr>robin_thread := a, robin_tick := b\<rparr>)"
proof -
  have i: "s\<lparr>robin_thread := robin_thread s, robin_tick := robin_tick s\<rparr> = s" by simp
  have j: "s\<lparr>robin_thread := robin_thread s, robin_tick := c\<rparr> = s\<lparr>robin_tick := c\<rparr>" for c by simp
  have "round_robin s = Some s \<or> round_robin s = Some (s\<lparr>robin_thread := run_next s, robin_tick := robin_timeout s\<rparr>) \<or>
      round_robin s = Some (s\<lparr>robin_tick := robin_tick s - 1\<rparr>)"
  proof -
    consider "robin_timeout s = 0" | "robin_timeout s \<noteq> 0" "robin_thread s \<noteq> run_next s"
      | "robin_timeout s \<noteq> 0" "robin_thread s = run_next s" "robin_tick s = 0"
      | "robin_timeout s \<noteq> 0" "robin_thread s = run_next s" "robin_tick s \<noteq> 0" by blast
    then show ?thesis
    proof cases
      case 1 then show ?thesis by (simp add: round_robin_def)
    next
      case 2 then show ?thesis by (simp add: round_robin_def)
    next
      case 3 then have "round_robin s = Some s" using l by (simp add: round_robin_def Let_def)
      then show ?thesis by simp
    next
      case 4 then have "round_robin s = Some (s\<lparr>robin_tick := robin_tick s - 1\<rparr>)" using l by (simp add: round_robin_def Let_def)
      then show ?thesis by simp
    qed
  qed
  then show ?thesis using i j by metis
qed

lemma locked_tick:
  assumes L: "locked s Q D W" and so: "stack_ok s"
  obtains s' Q' D' where "osRtxTick_Handler s = Some s'" "locked s' Q' D' W" "run_next s' = run_next s"
    "due_times (delay s') 0 D' = due_later s D" "\<forall>t. ob_state s' t = (if t \<in> set (due_now s D) then osRtxThreadReady else ob_state s t)" "stack_ok s'"
proof -
  note l = lockedD [OF L]
  let ?s = "s\<lparr>kernel_tick := kernel_tick s + 1\<rparr>"
  have S: "sched ?s Q D W" "loose ?s Q D W (run_next ?s)" "tstates {} ?s Q D W" "stack_ok ?s"
    using l(1,2,4) so tstates_cong [of ?s s "{}" Q D W] by (simp_all add: loose_def)
  have tt: "osRtxTimerTick ?s = Some ?s" using l(9) by (simp add: osRtxTimerTick_def)
  obtain s1 Q1 D1 where 1: "osRtxThreadDelayTick ?s = Some s1" "touched ?s s1" "kept ?s s1" "mem s1 = mem ?s" "run_next s1 = run_next ?s"
    "sched s1 Q1 D1 W" "loose s1 Q1 D1 W (run_next ?s)" "tstates {} s1 Q1 D1 W" "stack_ok s1" "dom Q \<subseteq> dom Q1"
    "due_times (delay s1) 0 D1 = due_later ?s D"
    "ob_state s1 = (\<lambda>t. if t \<in> set (due_now ?s D) then osRtxThreadReady else ob_state ?s t)" "run_next ?s \<notin> set (due_now ?s D)"
    by (rule tick_wakes [OF S]) blast
  note f = touched_fields [OF 1(2)]
  have ks: "kernel_state s1 = osRtxKernelLocked" using l(5) f(22) by simp
  then have d: "osRtxThreadDispatch NULL s1 = Some s1" by (simp add: osRtxThreadDispatch_def Let_def)
  have "kept s ?s" by (simp add: kept_def)
  from kept_trans [OF this 1(3)] have kp: "kept s s1" .
  have L1: "locked s1 Q1 D1 W" unfolding locked_def
    using 1(5-8,12,13) l(3,6,9) ks f(23) kp kept_isr [OF kp l(8)] kept_objects [OF kp l(7) 1(10)] by (simp add: kept_def)
  obtain a b where r: "round_robin s1 = Some (s1\<lparr>robin_thread := a, robin_tick := b\<rparr>)" using locked_round_robin [OF ks] by blast
  let ?s' = "s1\<lparr>robin_thread := a, robin_tick := b\<rparr>"
  have "locked ?s' Q1 D1 W" by (rule locked_same [OF L1]) (use 1(6) in \<open>simp_all add: kept_def\<close>)
  moreover have "osRtxTick_Handler s = Some ?s'" using tt 1(1) d r by (simp add: osRtxTick_Handler_def Let_def)
  moreover have "stack_ok ?s'" using 1(9) by simp
  ultimately show thesis using 1(5,11,12) by (intro that [of ?s' Q1 D1]) (auto simp: due_now_def due_later_def)
qed

lemma due_step:
  "map (\<lambda>(t, e). (t, e - 1)) (filter (\<lambda>p. snd p \<noteq> 1) (map (\<lambda>(t, e). (t, e - n)) (filter (\<lambda>p. n < snd p) ps))) =
    map (\<lambda>(t, e). (t, e - Suc n)) (filter (\<lambda>p. Suc n < snd p) ps)"
  by (induction ps) auto

lemma locked_thread:
  "locked s Q D W \<Longrightarrow> locked (s\<lparr>mem := m, bytes := b, psp := p\<rparr>) Q D W"
  by (rule locked_same) (auto simp: kept_def dest: lockedD(1))

lemma ticks_locked:
  assumes "ticks n s s'" "locked s Q D W"
  shows "\<exists>Q' D'. locked s' Q' D' W \<and> run_next s' = run_next s \<and>
    due_times (delay s') 0 D' = map (\<lambda>(t, e). (t, e - n)) (filter (\<lambda>p. n < snd p) (due_times (delay s) 0 D)) \<and>
    (\<forall>p\<in>set (due_times (delay s) 0 D). snd p \<le> n \<longrightarrow> ob_state s' (fst p) = osRtxThreadReady)"
  using assms
proof (induction rule: ticks.induct)
  case (none s)
  have "delay_ok s D" using schedD(2) [OF lockedD(1) [OF none]] by (simp add: delays_ok_def)
  then have "\<forall>p\<in>set (due_times (delay s) 0 D). 0 < snd p" by (simp add: delay_ok_def)
  moreover from this have "filter (\<lambda>p. 0 < snd p) (due_times (delay s) 0 D) = due_times (delay s) 0 D" by (simp add: filter_id_conv)
  ultimately show ?case using none by (intro exI [of _ Q] exI [of _ D]) auto
next
  case (tick n s0 s p b m s' regs exc)
  let ?s = "s\<lparr>mem := m, bytes := b, psp := p\<rparr>" and ?ps = "due_times (delay s0) 0 D"
  obtain Q1 D1 where 1: "locked s Q1 D1 W" "run_next s = run_next s0"
    "due_times (delay s) 0 D1 = map (\<lambda>(t, e). (t, e - n)) (filter (\<lambda>p. n < snd p) ?ps)"
    "\<forall>p\<in>set ?ps. snd p \<le> n \<longrightarrow> ob_state s (fst p) = osRtxThreadReady"
    using tick.IH [OF tick.prems] by blast
  obtain t Q2 D2 where 2: "osRtxTick_Handler ?s = Some t" "locked t Q2 D2 W" "run_next t = run_next ?s"
    "due_times (delay t) 0 D2 = due_later ?s D1" "\<forall>x. ob_state t x = (if x \<in> set (due_now ?s D1) then osRtxThreadReady else ob_state ?s x)"
    by (rule locked_tick [OF locked_thread [OF 1(1)] tick.hyps(2)]) blast
  have t: "t = s'" using 2(1) tick.hyps(3) by simp
  have cs: "context_switch regs exc s' = s'" using lockedD(3) [OF 2(2)] t by (simp add: context_switch_def)
  have "ob_state t (fst p) = osRtxThreadReady" if p: "p \<in> set ?ps" "snd p \<le> Suc n" for p
  proof (cases "snd p \<le> n")
    case True then show ?thesis using 1(4) p 2(5) by simp
  next
    case False
    then have "(fst p, 1) \<in> set (due_times (delay s) 0 D1)"
      unfolding 1(3) set_map by (intro image_eqI [of _ _ p]) (use p in \<open>auto simp: split_def\<close>)
    then have "fst p \<in> set (due_now ?s D1)" unfolding due_now_def set_map by (intro image_eqI [of _ _ "(fst p, 1)"]) auto
    then show ?thesis using 2(5) by simp
  qed
  moreover have "due_times (delay t) 0 D2 = map (\<lambda>(t, e). (t, e - Suc n)) (filter (\<lambda>p. Suc n < snd p) ?ps)"
    using 2(4) 1(3) due_step [of n ?ps] by (simp add: due_later_def del: due_step)
  ultimately show ?case using 2(2,3) 1(2) t cs by (intro exI [of _ Q2] exI [of _ D2]) simp
qed

section \<open>Resume and enumeration\<close>

lemma sched_delay:
  assumes "sched s Q D W" "\<And>t. t \<in> set W \<Longrightarrow> d t = delay s t"
    and "\<And>q. q \<in> set (due_times d 0 D) \<Longrightarrow> 0 < snd q \<and> snd q < 0xFFFFFFFF"
  shows "sched (s\<lparr>delay := d\<rparr>) Q D W"
proof -
  have "sched (timers (delay s) (delay_prev s) (delay_list s) s) Q D W" using assms(1) by (simp add: timers_def)
  then have "sched (timers d (delay_prev s) (delay_list s) s) Q D W" by (rule sched_retime) (use assms(2,3) in auto)
  moreover have "timers d (delay_prev s) (delay_list s) s = s\<lparr>delay := d\<rparr>" by (simp add: timers_def)
  ultimately show ?thesis by simp
qed

lemma store_words_append:
  "store_words p (xs @ ys) m = store_words (p + 4 * of_nat (length xs)) ys (store_words p xs m)"
  by (induction xs arbitrary: p m) (simp_all add: algebra_simps)

lemma enum_list_spec:
  "forward n p xs \<Longrightarrow> (\<And>x. x \<in> set xs \<Longrightarrow> nxt x = n x) \<Longrightarrow>
   enum_list nxt items (n p) (enumerated arr items m ys) = Some (enumerated arr items m (ys @ xs))"
proof (induction xs arbitrary: p ys)
  case Nil then show ?case by (subst enum_list.simps) (simp add: enumerated_def Let_def)
next
  case (Cons x xs)
  have n: "n p = x" "x \<noteq> NULL" "forward n x xs" "nxt x = n x" using Cons.prems by auto
  have un: "unat (of_nat k :: u32) = k" if "k \<le> unat items" for k
  proof -
    have "unat items < 2 ^ 32" by (rule order_less_le_trans [OF unsigned_less]) simp
    then show ?thesis using that by (simp add: unat_of_nat)
  qed
  have c: "fst (snd (enumerated arr items m ys)) < items \<longleftrightarrow> length ys < unat items"
    using un [of "length (take (unat items) ys)"] by (auto simp: enumerated_def Let_def word_less_nat_alt min_def)
  show ?case
  proof (cases "length ys < unat items")
    case True
    have "enum_list nxt items (n p) (enumerated arr items m ys) = enum_list nxt items (n x) (enumerated arr items m (ys @ [x]))"
      using True c n by (subst enum_list.simps) (simp add: enumerated_def Let_def store_words_append algebra_simps)
    then show ?thesis using Cons.IH [OF n(3), of "ys @ [x]"] Cons.prems(2) by simp
  next
    case False
    then have "enumerated arr items m (ys @ x # xs) = enumerated arr items m ys" by (simp add: enumerated_def)
    moreover have "\<not> fst (snd (enumerated arr items m ys)) < items" using False c by simp
    ultimately show ?thesis by (subst enum_list.simps) (auto simp: Let_def split: prod.split)
  qed
qed

section \<open>Properties\<close>

text \<open>
  C4: Round robin is fair. Let a time slice of the running thread have just begun (it is \<open>robin_thread\<close>, and \<open>robin_tick\<close>
  is still the whole \<open>robin_timeout\<close>), no thread be delayed, and the ready threads \<open>peers\<close> have the priority of the
  running thread, all others a lower one. Then the running thread and its peers take turns of exactly
  \<open>robin_timeout\<close> ticks each, in the order of the ready list, for as long as no service call is made: after \<open>n\<close> ticks, whatever the
  threads do to their memory, thread number n div timeout (modulo their number) runs. With an intact stack the next tick returns.
\<close>

theorem round_robin_fair:
  assumes K: "kernel_inv s Q [] W" and R: "Q (ready s) = Some (peers @ lower)" "peers \<noteq> []"
    and r: "run_next s = r" "run_curr s = r" "robin_thread s = r"
    and k: "robin_timeout s \<noteq> 0" "robin_tick s = robin_timeout s"
    and p: "\<forall>x\<in>set peers. priority s x = priority s r" "\<forall>x\<in>set lower. priority s x < priority s r"
    and t: "ticks n s s'"
  shows "run_curr s' = (r # peers) ! (n div unat (robin_timeout s) mod Suc (length peers)) \<and>
    (stack_ok s' \<longrightarrow> (\<exists>s''. ticks (Suc n) s s'' \<and> osRtxTick_Handler s' \<noteq> None))"
proof -
  let ?k = "robin_timeout s" and ?L = "r # peers"
  have s0: "slice ?k (priority s r) ?L lower 0 s" using assms by (auto simp: slice_def)
  have s': "slice ?k (priority s r) (rotate (n div unat ?k) ?L) lower (n mod unat ?k) s'" by (rule ticks_slice [OF t s0])
  have "run_curr s' = hd (rotate (n div unat ?k) ?L)" using s' by (simp add: slice_def)
  then have "run_curr s' = ?L ! (n div unat ?k mod Suc (length peers))" by (simp add: hd_rotate_conv_nth)
  moreover have "\<exists>s''. ticks (Suc n) s s'' \<and> osRtxTick_Handler s' \<noteq> None" if so: "stack_ok s'"
  proof -
    have "n mod unat ?k < unat ?k" using k(1) by (simp add: unat_gt_0)
    then obtain s'' where 1: "osRtxTick_Handler s' = Some s''" by (rule slice_tick [OF s' _ so])
    have "ticks (Suc n) s (context_switch [] 0 s'')"
      using ticks.tick [OF t, of "psp s'" "bytes s'" "mem s'" s'' "[]" 0] so 1 by simp
    then show ?thesis using 1 by blast
  qed
  ultimately show ?thesis by blast
qed

theorem round_robin_fair_witness:
  "\<exists>s'. ticks 1 demo_turns s' \<and> run_curr s' = 0x2000"
proof -
  have h: "demo_lists (ready demo_turns) = Some ([0x2000] @ [0x3000])" by (simp add: demo_turns_sel demo_lists_def)
  have p: "priority demo_turns 0x2000 = priority demo_turns 0x1000" "priority demo_turns 0x3000 < priority demo_turns 0x1000"
    by (simp_all add: demo_turns_sel) (simp_all add: demo_def blank_def)
  have "stack_ok demo_turns"
    by (simp add: stack_ok_def demo_turns_def demo_def blank_def osRtxThreadRegPtr_def StackOffsetR0_def)
  then obtain s' where s': "ticks 1 demo_turns s'"
    using round_robin_fair [OF demo_turns_inv h _ _ _ _ _ _ _ _ ticks.none] p by (auto simp: demo_turns_sel)
  have "run_curr s' = 0x2000"
    using round_robin_fair [OF demo_turns_inv h _ _ _ _ _ _ _ _ s'] p by (simp add: demo_turns_sel)
  with s' show ?thesis by blast
qed

text \<open>
  C5: While the kernel is locked no tick takes the processor away from the running thread, however many
  ticks pass and whatever threads become due, but the due threads do become ready on time. When the lock
  is restored, the next tick makes the ready thread of the highest priority run, and the tick handler returns.
\<close>

theorem kernel_lock_holds:
  assumes K: "kernel_inv s Q D W" and r: "run_curr s = run_next s" and n: "ticks n (snd (svcRtxKernelLock s)) s'"
  shows "fst (svcRtxKernelLock s) = 0 \<and> run_curr s' = run_curr s \<and> run_next s' = run_curr s \<and>
    (\<forall>p\<in>set (due_times (delay s) 0 D). snd p \<le> n \<longrightarrow> ob_state s' (fst p) = osRtxThreadReady) \<and>
    (stack_ok s' \<longrightarrow> (\<exists>s''. osRtxTick_Handler (snd (svcRtxKernelRestoreLock 0 s')) = Some s'' \<and>
       (\<forall>t. ob_id s'' t = osRtxIdThread \<longrightarrow> ob_state s'' t AND osRtxThreadStateMask = osRtxThreadReady \<longrightarrow>
          priority s'' t \<le> priority s'' (run_next s''))))"
proof -
  have k: "settled s Q D W" "tstates {} s Q D W" using K by (simp_all add: kernel_inv_def)
  note sd = settledD [OF k(1)]
  let ?l = "s\<lparr>kernel_state := osRtxKernelLocked\<rparr>"
  have lock: "svcRtxKernelLock s = (0, ?l)" using sd(3) by (simp add: svcRtxKernelLock_def)
  have "locked ?l Q D W"
    using sd(1,2,4) k(2) K r tstates_cong [of ?l s "{}" Q D W]
    by (auto simp: locked_def loose_def kernel_inv_def objects_def isr_ok_def isr_rep_def isr_slot_def)
  then obtain Q' D' where 1: "locked s' Q' D' W" "run_next s' = run_next ?l"
    "\<forall>p\<in>set (due_times (delay ?l) 0 D). snd p \<le> n \<longrightarrow> ob_state s' (fst p) = osRtxThreadReady"
    using ticks_locked n lock by fastforce
  note l = lockedD [OF 1(1)]
  let ?u = "s'\<lparr>kernel_state := osRtxKernelRunning\<rparr>"
  have un: "svcRtxKernelRestoreLock 0 s' = (0, ?u)" using l(5) by (simp add: svcRtxKernelRestoreLock_def)
  have "\<exists>s''. osRtxTick_Handler ?u = Some s'' \<and> (\<forall>t. ob_id s'' t = osRtxIdThread \<longrightarrow>
      ob_state s'' t AND osRtxThreadStateMask = osRtxThreadReady \<longrightarrow> priority s'' t \<le> priority s'' (run_next s''))" if so: "stack_ok s'"
  proof -
    have "quiet ?u Q' D' W"
      using l(1-4,6) so tstates_cong [of ?u s' "{}" Q' D' W] by (simp add: quiet_def loose_def)
    moreover have "objects ?u Q'" "isr_ok ?u" "timer_list ?u = NULL"
      using l(7-9) by (simp_all add: objects_def isr_ok_def isr_rep_def isr_slot_def)
    ultimately obtain s'' Q2 D2 W2 where 2: "osRtxTick_Handler ?u = Some s''" "kernel_inv s'' Q2 D2 W2" using quiet_tick by blast
    have k2: "settled s'' Q2 D2 W2" "tstates {} s'' Q2 D2 W2" using 2(2) by (simp_all add: kernel_inv_def)
    obtain R where R: "Q2 (ready s'') = Some R" by (rule sched_ready [OF settledD(1) [OF k2(1)]])
    have "priority s'' t \<le> priority s'' (run_next s'')"
      if "ob_id s'' t = osRtxIdThread" "ob_state s'' t AND osRtxThreadStateMask = osRtxThreadReady" for t
      using tstatesD(1) [OF k2(2), simplified, OF that R] settledD(5) [OF k2(1) R] by blast
    then show ?thesis using 2(1) by blast
  qed
  then show ?thesis using lock un 1(2,3) l(3) r by simp
qed

theorem kernel_lock_holds_witness:
  "\<exists>s'. ticks 1 (snd (svcRtxKernelLock demo)) s' \<and> run_curr s' = run_curr demo"
proof -
  obtain Q D W where K: "kernel_inv demo Q D W" and r: "run_curr demo = run_next demo"
    using demo_kernel by (auto simp: kernel_ok_def)
  have sd: "kernel_state demo = osRtxKernelRunning" by (simp add: demo_def blank_def)
  let ?l = "demo\<lparr>kernel_state := osRtxKernelLocked\<rparr>"
  have lock: "svcRtxKernelLock demo = (0, ?l)" using sd by (simp add: svcRtxKernelLock_def)
  have k: "settled demo Q D W" "tstates {} demo Q D W" using K by (simp_all add: kernel_inv_def)
  have "locked ?l Q D W"
    using settledD(1,2,4) [OF k(1)] k(2) K r tstates_cong [of ?l demo "{}" Q D W]
    by (auto simp: locked_def loose_def kernel_inv_def objects_def isr_ok_def isr_rep_def isr_slot_def)
  moreover have so: "stack_ok ?l" using enteredD(3) [OF demo_entered] by simp
  ultimately obtain t where "osRtxTick_Handler ?l = Some t" by (rule locked_tick)
  then have "ticks (Suc 0) ?l (context_switch [] 0 t)"
    using ticks.tick [OF ticks.none [of ?l], of "psp ?l" "bytes ?l" "mem ?l" t "[]" 0] so by simp
  then have "\<exists>t. ticks 1 (snd (svcRtxKernelLock demo)) t" using lock by auto
  then show ?thesis using kernel_lock_holds [OF K r] by blast
qed

text \<open>
  C36: What svcRtxKernelResume does to the tick count when a single thread is delayed and no timer runs.
  A sleep of at most its delay \<open>n\<close> is added in full, but a longer one adds only \<open>n + 1\<close>: the ticks
  after the delay list has become empty are lost.
\<close>

theorem kernel_resume_loses_ticks:
  assumes S: "sched s Q [t] W" and l: "loose s Q [t] W (run_curr s)" and so: "stack_ok s"
    and st: "kernel_state s = osRtxKernelSuspended" "timer_list s = NULL"
  shows "\<exists>s'. svcRtxKernelResume sleep s = Some s' \<and>
    kernel_tick s' = kernel_tick s + (if sleep \<le> delay s t then sleep else delay s t + 1)"
proof -
  note DD = schedD [OF S]
  have dk: "delay_ok s [t]" "t \<notin> set W" using DD(2) by (auto simp: delays_ok_def)
  have dl: "delay_list s = t" "t \<noteq> NULL" "delay s t \<noteq> 0" "unat (delay s t) < 0xFFFFFFFF"
    using dk(1) by (auto simp: delay_ok_def dnext_def dll_def unat_gt_0)
  obtain R where R: "Q (ready s) = Some R" by (rule sched_ready [OF S])
  have fin: "\<exists>s'. osRtxThreadDispatch NULL (u\<lparr>kernel_state := osRtxKernelRunning\<rparr>) = Some s' \<and>
      kernel_tick (KernelUnblock s') = k"
    if "sched u Q' D' W" "loose u Q' D' W (run_curr u)" "stack_ok u" "kernel_tick u = k" for u Q' D' k
  proof -
    let ?u = "u\<lparr>kernel_state := osRtxKernelRunning\<rparr>"
    have u: "sched ?u Q' D' W" "stack_ok ?u" "loose ?u Q' D' W (run_curr ?u)" using that by (simp_all add: loose_def)
    obtain R' where R': "Q' (ready ?u) = Some R'" by (rule sched_ready [OF u(1)])
    obtain s' where "osRtxThreadDispatch NULL ?u = Some s'" "touched ?u s'" by (rule Dispatch_NULL [OF u(1) R' u(2) u(3)]) blast
    moreover have "kernel_tick (KernelUnblock s') = kernel_tick s'" by (simp add: KernelUnblock_def SetPendSV_def Let_def)
    ultimately show ?thesis using touched_fields(26) [of ?u s'] that(4) by auto
  qed
  show ?thesis
  proof (cases "sleep < delay s t")
    case True
    let ?u = "s\<lparr>delay := (delay s)(t := delay s t - sleep), kernel_tick := kernel_tick s + sleep\<rparr>"
    have "unat (delay s t - sleep) = unat (delay s t) - unat sleep" using True by (simp add: unat_sub_if_size word_le_nat_alt word_less_nat_alt)
    then have "sched (s\<lparr>delay := (delay s)(t := delay s t - sleep)\<rparr>) Q [t] W"
      by (intro sched_delay [OF S]) (use dk(2) dl(4) True in \<open>auto simp: word_less_nat_alt\<close>)
    moreover have "stack_ok (s\<lparr>delay := (delay s)(t := delay s t - sleep)\<rparr>)" by (rule stack_ok_touched [OF _ _ so]) simp_all
    ultimately have "sched ?u Q [t] W" "loose ?u Q [t] W (run_curr ?u)" "stack_ok ?u" using l by (simp_all add: loose_def)
    from fin [OF this refl] show ?thesis
      using True st dl(1,2) by (auto simp: svcRtxKernelResume_def Let_def)
  next
    case False
    let ?d = "sleep - delay s t"
    let ?u = "s\<lparr>kernel_tick := kernel_tick s + delay s t, delay := (delay s)(t := 1)\<rparr>"
    have "sched (s\<lparr>kernel_tick := kernel_tick s + delay s t\<rparr>) Q [t] W" using S by simp
    then have S1: "sched ?u Q [t] W" by (rule sched_delay) (use dk(2) in auto)
    have due: "due_now ?u [t] = [t]" "due_later ?u [t] = []" by (simp_all add: due_now_def due_later_def)
    let ?Q = "wake (priority ?u) (ready ?u) t Q"
    obtain s1 where 1: "osRtxThreadDelayTick ?u = Some s1" "touched ?u s1" "sched s1 ?Q [] W" "run_next s1 = run_next ?u" "mem s1 = mem ?u"
      by (rule DelayTick_spec [OF S1]) (simp add: due)
    note f = touched_fields [OF 1(2)]
    have dn: "delay_list s1 = NULL" using schedD(2) [OF 1(3)] by (simp add: delays_ok_def delay_ok_def dnext_def)
    have tl: "timer_list s1 = NULL"
    proof -
      have "g s1 = g ?u" if "\<And>x. g (core x) = g x" for g :: "rtx \<Rightarrow> ptr"
        using that [of ?u] that [of s1] 1(2) by (simp add: touched_def)
      from this [of timer_list] st(2) show ?thesis by (simp add: core_def)
    qed
    have "members (fold (wake (priority ?u) (ready ?u)) [t] Q) \<subseteq> members Q \<union> set [t]"
      by (rule members_wakes) (use R in auto)
    then have l1: "loose s1 ?Q [] W (run_curr s1)" using l f(1,23) by (auto simp: loose_def)
    have "stack_ok (s\<lparr>kernel_tick := kernel_tick s + delay s t\<rparr>)" using so by simp
    from stack_ok_touched [OF _ _ this, of ?u] have "stack_ok ?u" by simp
    then have so1: "stack_ok s1" by (rule stack_ok_touched [OF 1(2,5)])
    let ?v = "if ?d = 0 then s1 else s1\<lparr>kernel_tick := kernel_tick s1 + 1\<rparr>"
    have rd: "resume_delays ?d ?u = Some ?v" by (subst resume_delays.simps) (simp add: 1(1) dn)
    have v: "sched ?v ?Q [] W" "loose ?v ?Q [] W (run_curr ?v)" "stack_ok ?v" using 1(3) l1 so1 by (simp_all add: loose_def)
    have tv: "timer_list ?v = NULL" using tl by simp
    have k: "kernel_tick ?v = kernel_tick s + (if sleep \<le> delay s t then sleep else delay s t + 1)"
      using f(26) False by auto
    have "svcRtxKernelResume sleep s = do {
        s \<leftarrow> osRtxThreadDispatch NULL (?v\<lparr>kernel_state := osRtxKernelRunning\<rparr>); Some (KernelUnblock s) }"
      using False st(1) dl(1,2) rd tv unfolding svcRtxKernelResume_def by (simp add: Let_def not_less)
    then show ?thesis using fin [OF v k] by auto
  qed
qed

theorem kernel_resume_loses_ticks_witness:
  "\<exists>s'. svcRtxKernelResume 100 (demo\<lparr>kernel_state := osRtxKernelSuspended\<rparr>) = Some s' \<and> kernel_tick s' = 6"
proof -
  let ?s = "demo\<lparr>kernel_state := osRtxKernelSuspended\<rparr>"
  have "sched ?s demo_lists [0x6000] [0x4000]" using demo_sched by simp
  moreover have "loose ?s demo_lists [0x6000] [0x4000] (run_curr ?s)" "stack_ok ?s"
    using enteredD(3,5) [OF demo_entered] by (simp_all add: loose_def)
  moreover have "timer_list ?s = NULL" "delay ?s 0x6000 = 5" "kernel_tick ?s = 0" by (simp_all add: demo_def blank_def)
  ultimately show ?thesis using kernel_resume_loses_ticks [where s = ?s and Q = demo_lists and t = "0x6000" and W = "[0x4000]" and sleep = 100] by simp
qed

text \<open>
  C35: In every state that the steps of \<open>kernel_step\<close> reach, svcRtxThreadEnumerate stores the running thread, the ready list \<open>R\<close>, the delay
  list \<open>D\<close> and the wait list \<open>W\<close>, in this order and as many as fit, and returns their number. Every thread in one of
  the states Running, Ready and Blocked is among them, and none is listed twice.
\<close>

theorem thread_enumerate_complete:
  assumes ok: "kernel_ok s0" "kernel_step\<^sup>*\<^sup>* s0 s" and a: "arr \<noteq> NULL" "items \<noteq> 0"
  shows "\<exists>Q R D W ts. sched s Q D W \<and> Q (ready s) = Some R \<and> ts = run_curr s # R @ D @ W \<and>
    svcRtxThreadEnumerate arr items s =
      Some (of_nat (length (take (unat items) ts)), s\<lparr>mem := store_words arr (take (unat items) ts) (mem s)\<rparr>) \<and>
    distinct ts \<and> (\<forall>t\<in>set ts. ob_id s t = osRtxIdThread) \<and>
    {t. ob_id s t = osRtxIdThread \<and>
       ob_state s t AND osRtxThreadStateMask \<in> {osRtxThreadRunning, osRtxThreadReady, osRtxThreadBlocked}} \<subseteq> set ts"
proof -
  obtain Q D W where k: "run_curr s = run_next s" "settled s Q D W" "tstates {} s Q D W"
    using reachable_ok [OF ok(2,1)] by (auto simp: kernel_ok_def kernel_inv_def)
  note sd = settledD [OF k(2)] and ts = tstatesD [OF k(3), simplified] and DD = schedD [OF settledD(1) [OF k(2)]]
  obtain R where R: "Q (ready s) = Some R" by (rule sched_ready [OF sd(1)])
  have f: "forward (tnext s) (ready s) R" "forward (dnext s) NULL D" "forward (wnext s) NULL W"
    and d: "distinct R" "distinct D" "distinct W" "set D \<inter> set W = {}"
    using lists_ok_dll [OF DD(1) R] DD(2) by (auto simp: dll_def delays_ok_def delay_ok_def wait_ok_def)
  have n: "NULL \<notin> set R \<union> set D \<union> set W" using forward_nonnull f by blast
  have h: "tnext s (ready s) = thread_next s (ready s)" "dnext s NULL = delay_list s" "wnext s NULL = wait_list s"
    using DD(3) by (simp_all add: tnext_def dnext_def wnext_def)
  have nx: "x \<in> set R \<Longrightarrow> thread_next s x = tnext s x" "x \<in> set D \<Longrightarrow> delay_next s x = dnext s x"
    "x \<in> set W \<Longrightarrow> delay_next s x = wnext s x" for x
    using n by (auto simp: tnext_def dnext_def wnext_def)
  let ?ts = "run_curr s # R @ D @ W"
  have i0: "(arr + 4, 1, (mem s)(arr := run_curr s)) = enumerated arr items (mem s) [run_curr s]"
    using a(2) by (cases "unat items") (simp_all add: enumerated_def unat_eq_0)
  have e: "svcRtxThreadEnumerate arr items s = (case enumerated arr items (mem s) ?ts of (arr, count, m) \<Rightarrow> Some (count, s\<lparr>mem := m\<rparr>))"
    using a enum_list_spec [OF f(1), of "thread_next s" items arr "mem s" "[run_curr s]"]
      enum_list_spec [OF f(2), of "delay_next s" items arr "mem s" "run_curr s # R"]
      enum_list_spec [OF f(3), of "delay_next s" items arr "mem s" "run_curr s # R @ D"] nx
    unfolding svcRtxThreadEnumerate_def i0 h by simp
  have run: "svcRtxThreadEnumerate arr items s =
      Some (of_nat (length (take (unat items) ?ts)), s\<lparr>mem := store_words arr (take (unat items) ?ts) (mem s)\<rparr>)"
    unfolding e enumerated_def Let_def by (simp only: prod.case)
  have "distinct ?ts"
    using d DD(10) [OF R] sd(2) k(1) membersI [of Q "ready s" R, OF R] by (auto simp: loose_def)
  moreover have "\<forall>t\<in>set ?ts. ob_id s t = osRtxIdThread"
    using DD(4,5,6) sd(2) k(1) membersI [of Q "ready s" R, OF R] by (auto simp: loose_def)
  moreover have "t \<in> set ?ts" if "ob_id s t = osRtxIdThread"
    "ob_state s t AND osRtxThreadStateMask \<in> {osRtxThreadRunning, osRtxThreadReady, osRtxThreadBlocked}" for t
    using ts(1) [OF that(1) _ R] ts(2,3) [OF that(1)] that(2) k(1) by auto
  ultimately show ?thesis using sd(1) R run by blast
qed

theorem thread_enumerate_complete_witness:
  "\<exists>(ts :: ptr list) s'. svcRtxThreadEnumerate 0x8000 10 demo = Some (of_nat (length (take (unat (10 :: u32)) ts)), s') \<and> 0x4000 \<in> set ts"
proof -
  have w: "ob_id demo 0x4000 = osRtxIdThread" "ob_state demo 0x4000 AND osRtxThreadStateMask = osRtxThreadBlocked"
    by (simp_all add: demo_def blank_def)
  have nz: "(0x8000 :: ptr) \<noteq> NULL" "(10 :: u32) \<noteq> 0" by simp_all
  obtain ts where ts: "svcRtxThreadEnumerate 0x8000 10 demo = Some (of_nat (length (take (unat (10 :: u32)) ts)),
      demo\<lparr>mem := store_words 0x8000 (take (unat (10 :: u32)) ts) (mem demo)\<rparr>)"
    "{t. ob_id demo t = osRtxIdThread \<and>
       ob_state demo t AND osRtxThreadStateMask \<in> {osRtxThreadRunning, osRtxThreadReady, osRtxThreadBlocked}} \<subseteq> set ts"
    using thread_enumerate_complete [OF demo_kernel rtranclp.rtrancl_refl nz] by blast
  have "0x4000 \<in> set ts" by (rule subsetD [OF ts(2)]) (use w in blast)
  then show ?thesis using ts(1) by blast
qed

end
