(* ===== verification/TimerInv.thy ===== *)
theory TimerInv
  imports RtxTimer
begin

text \<open>
  The timers of rtx_timer.c as a list of timers with the ticks left until each is due (\<open>timer_rep\<close>). TimerInsert, TimerRemove and
  TimerUnlink refine insertion into and removal from this list, svcRtxTimerStart and svcRtxTimerStop with them; a tick of
  osRtxTimerTick fires exactly the timers that are due, by messages left in the interrupt queue for the timer thread.
\<close>

unbundle bit_operations_syntax

section \<open>The list of running timers\<close>

definition timer_rep :: "rtx \<Rightarrow> (ptr \<times> nat) list \<Rightarrow> bool" where
  "timer_rep s ds \<longleftrightarrow> dll ((timer_next s)(NULL := timer_list s)) (timer_prev s) NULL (map fst ds) \<and>
     due_times (timer_ticks s) 0 (map fst ds) = ds \<and> (\<forall>p\<in>set ds. snd p < 2 ^ 32)"

abbreviation "timer_fields s f n b h \<equiv> s\<lparr>timer_ticks := f, timer_next := n, timer_prev := b, timer_list := h\<rparr>"

text \<open>The callback of a timer, function and argument, lies in its control block; a message carries the same two words.\<close>

abbreviation "periodic s t \<equiv> (ucast (ob_attr s t) :: u32) = osTimerPeriodic"

abbreviation "callback s t \<equiv> (load32 (finfo t) (bytes s), load32 (finfo t + 4) (bytes s))"

abbreviation "message s m \<equiv> (load32 (m + sizeof_message) (bytes s), load32 (m + sizeof_message + 4) (bytes s))"

text \<open>
  The messages of the timer queue are blocks of its pool: the payloads of the blocks \<open>B\<close> overlap neither each other nor the
  callbacks in the control blocks of the timers \<open>T\<close>. \<open>can_post\<close>: the tick runs in an interrupt handler and finds the
  queue as osRtxTimerThread_start creates it.
\<close>

definition apart :: "ptr set \<Rightarrow> ptr set \<Rightarrow> bool" where
  "apart B T \<longleftrightarrow> B \<inter> T = {} \<and> (\<forall>m\<in>B. \<forall>i < sizeof_finfo. \<forall>j < sizeof_finfo.
     (\<forall>t\<in>T. m + sizeof_message + i \<noteq> finfo t + j) \<and> (\<forall>m'\<in>B. m' \<noteq> m \<longrightarrow> m + sizeof_message + i \<noteq> m' + sizeof_message + j))"

definition can_post :: "ptr set \<Rightarrow> ptr set \<Rightarrow> rtx \<Rightarrow> bool" where
  "can_post B T s \<longleftrightarrow> (IsIrqMode s \<or> IsIrqMasked s) \<and> timer_mq s \<noteq> NULL \<and> ob_id s (timer_mq s) = osRtxIdMessageQueue \<and>
     ob_state s (timer_mq s) \<noteq> osRtxObjectInactive \<and> msg_size s (timer_mq s) = sizeof_finfo \<and> timer_mq s \<notin> B \<union> T \<and>
     apart B T \<and> (\<forall>t\<in>T. finfo t \<noteq> NULL)"

text \<open>Which parts of the state posting a message keeps.\<close>

definition timer_same :: "rtx \<Rightarrow> rtx \<Rightarrow> bool" where
  "timer_same s s' \<longleftrightarrow> timer_next s' = timer_next s \<and> timer_prev s' = timer_prev s \<and> timer_ticks s' = timer_ticks s \<and>
     timer_list s' = timer_list s"

definition timer_setup :: "rtx \<Rightarrow> rtx \<Rightarrow> bool" where
  "timer_setup s s' \<longleftrightarrow> ob_attr s' = ob_attr s \<and> timer_load s' = timer_load s \<and> timer_mq s' = timer_mq s \<and>
     msg_size s' = msg_size s \<and> ipsr s' = ipsr s \<and> primask s' = primask s \<and> basepri s' = basepri s"

text \<open>
  The specification of a tick that finds the timers \<open>due\<close>: the periodic ones start again with their load, each behind those with the
  same time left (\<open>rearm\<close>); the messages \<open>ms\<close> carry the callbacks in order, other messages and the callbacks stay as
  they are, and the one-shot timers are stopped (\<open>expired\<close>).
\<close>

definition rearm :: "rtx \<Rightarrow> ptr list \<Rightarrow> (ptr \<times> nat) list \<Rightarrow> (ptr \<times> nat) list" where
  "rearm s = fold (\<lambda>t ds. if periodic s t then due_insert t (unat (timer_load s t)) ds else ds)"

definition expired :: "rtx \<Rightarrow> rtx \<Rightarrow> ptr set \<Rightarrow> ptr set \<Rightarrow> ptr list \<Rightarrow> ptr list \<Rightarrow> bool" where
  "expired s s' B T due ms \<longleftrightarrow>
     map (message s') ms = map (callback s) due \<and>
     (\<forall>m\<in>set ms. ob_id s' m = osRtxIdMessage \<and> ob_state s' m = osRtxObjectActive \<and> msg_next s' m = timer_mq s) \<and>
     (\<forall>m\<in>B - set ms. message s' m = message s m \<and> ob_id s' m = ob_id s m \<and> ob_state s' m = ob_state s m \<and> msg_next s' m = msg_next s m) \<and>
     (\<forall>t\<in>T. callback s' t = callback s t \<and>
       ob_state s' t = (if t \<in> set due \<and> \<not> periodic s t then osRtxTimerStopped else ob_state s t))"

abbreviation "one_less \<equiv> map (\<lambda>(t, d). (t, d - 1 :: nat))"

section \<open>Insertion and removal\<close>

lemma timer_repD:
  assumes "timer_rep s ds"
  shows "distinct (map fst ds)" "NULL \<notin> fst ` set ds" "sorted (map snd ds)" "timer_list s = after (map fst ds)"
    "delta_sum (timer_ticks s) (map fst ds) < 2 ^ 32"
proof -
  have D: "dll ((timer_next s)(NULL := timer_list s)) (timer_prev s) NULL (map fst ds)"
    and t: "due_times (timer_ticks s) 0 (map fst ds) = ds" and b: "\<forall>p\<in>set ds. snd p < 2 ^ 32"
    using assms by (auto simp: timer_rep_def)
  show "distinct (map fst ds)" using dll_distinct [OF D] by simp
  show "NULL \<notin> fst ` set ds" using dll_nonnull [OF D] by simp
  show "sorted (map snd ds)" using due_times_sorted [of "timer_ticks s" 0 "map fst ds"] t by simp
  show "timer_list s = after (map fst ds)" using dll_hd [OF D] by simp
  show "delta_sum (timer_ticks s) (map fst ds) < 2 ^ 32"
  proof (cases ds)
    case (Cons d es)
    then have "0 + delta_sum (timer_ticks s) (map fst ds) = snd (last ds)"
      using delta_sum_last [of "map fst ds" 0 "timer_ticks s"] t by simp
    moreover have "last ds \<in> set ds" using Cons by simp
    ultimately show ?thesis using b by auto
  qed simp
qed

lemma fst_due_insert: "fst ` set (due_insert t d ds) = insert t (fst ` set ds)"
  by auto

lemma TimerInsert_spec:
  assumes r: "timer_rep s ds" and t: "t \<notin> fst ` set ds" "t \<noteq> NULL"
  obtains f n b h where "TimerInsert t k s = Some (timer_fields s f n b h)"
    "timer_rep (timer_fields s f n b h) (due_insert t (unat k) ds)"
proof -
  have D: "dll ((timer_next s)(NULL := timer_list s)) (timer_prev s) NULL (map fst ds)"
    and due: "due_times (timer_ticks s) 0 (map fst ds) = ds" and b: "\<forall>p\<in>set ds. snd p < 2 ^ 32"
    using r by (auto simp: timer_rep_def)
  obtain us vs e where 1: "map fst ds = us @ vs"
    "delay_pos (timer_ticks s) (timer_next s) k NULL (timer_list s) = Some (e, before NULL us, after vs)"
    "dll ((next_in t us vs (timer_next s))(NULL := head_in t us (timer_list s))) (prev_in t us vs (timer_prev s)) NULL (us @ t # vs)"
    "due_times (times_in t e vs (timer_ticks s)) 0 (us @ t # vs) = due_insert t (unat k) (due_times (timer_ticks s) 0 (map fst ds))"
    "NULL \<notin> set us" "NULL \<notin> set vs" "t \<notin> set us" "t \<notin> set vs"
    by (rule delta_insert [OF D _ t(2), where d = k and dly = "timer_ticks s"]) (use t(1) in auto)
  let ?s = "timer_fields s (times_in t e vs (timer_ticks s)) (next_in t us vs (timer_next s))
    (prev_in t us vs (timer_prev s)) (head_in t us (timer_list s))"
  have m: "map fst (due_insert t (unat k) ds) = us @ t # vs" using 1(4) due by (metis map_fst_due)
  have "TimerInsert t k s = Some ?s"
    using 1(2) t(2) null_before [OF 1(5)] after_null [OF 1(6)] ends_in(1) [OF _ 1(7)] ends_in(2) [OF _ 1(8)]
    by (cases "us = []"; cases "vs = []") (auto simp: TimerInsert_def Let_def times_in_def prev_in_def next_in_def head_in_def)
  moreover have "timer_rep ?s (due_insert t (unat k) ds)"
    unfolding timer_rep_def m using 1(3,4) b due unsigned_less [of k, where 'a = nat] by auto
  ultimately show thesis by (rule that)
qed

lemma TimerRemove_spec:
  assumes r: "timer_rep s ds" and t: "t \<in> fst ` set ds"
  obtains f n b h where "TimerRemove t s = timer_fields s f n b h"
    "timer_rep (timer_fields s f n b h) (filter (\<lambda>p. fst p \<noteq> t) ds)"
proof -
  have "t \<in> set (map fst ds)" using t by simp
  then obtain us vs where xs: "map fst ds = us @ t # vs" using split_list by fast
  have D: "dll ((timer_next s)(NULL := timer_list s)) (timer_prev s) NULL (us @ t # vs)"
    and due: "due_times (timer_ticks s) 0 (us @ t # vs) = ds" and b: "\<forall>p\<in>set ds. snd p < 2 ^ 32"
    using r by (auto simp: timer_rep_def xs)
  note lk = dll_head_remove [OF D]
  have ds: "t \<notin> set us" "t \<notin> set vs" "t \<noteq> NULL" "NULL \<notin> set us" "NULL \<notin> set vs"
    using dll_distinct [OF D] dll_nonnull [OF D] by auto
  let ?s = "timer_fields s (times_out t vs (timer_ticks s)) (next_out us vs (timer_next s))
    (prev_out us vs (timer_prev s)) (head_out us vs (timer_list s))"
  have f: "due_times (times_out t vs (timer_ticks s)) 0 (us @ vs) = filter (\<lambda>p. fst p \<noteq> t) ds"
    using delta_remove [OF D, of "timer_ticks s"] timer_repD(5) [OF r] due xs by simp
  have m: "map fst (filter (\<lambda>p. fst p \<noteq> t) ds) = us @ vs" using f by (metis map_fst_due)
  have "timer_rep ?s (filter (\<lambda>p. fst p \<noteq> t) ds)"
    unfolding timer_rep_def m using lk(1) f b by auto
  moreover have "TimerRemove t s = ?s"
    using lk(2-4) ds null_before [OF ds(4)] after_null [OF ds(5)] ends_in(1) [OF _ ds(1)] ends_in(2) [OF _ ds(2)]
      ends_in(1) [OF _ ds(4)] ends_in(2) [OF _ ds(5)]
    by (cases "us = []"; cases "vs = []")
      (auto simp: TimerRemove_def Let_def times_out_def prev_out_def next_out_def head_out_def)
  ultimately show thesis by (intro that [where f = "times_out t vs (timer_ticks s)"]) simp_all
qed

lemma TimerUnlink_spec:
  assumes r: "timer_rep s ((t, 0) # ds)"
  obtains b h where "TimerUnlink t s = s\<lparr>timer_prev := b, timer_list := h\<rparr>"
    "timer_rep (s\<lparr>timer_prev := b, timer_list := h\<rparr>) ds"
proof -
  have D: "dll ((timer_next s)(NULL := timer_list s)) (timer_prev s) NULL ([] @ t # map fst ds)"
    and due: "unat (timer_ticks s t) = 0" "due_times (timer_ticks s) (unat (timer_ticks s t)) (map fst ds) = ds"
    and b: "\<forall>p\<in>set ds. snd p < 2 ^ 32"
    using r by (auto simp: timer_rep_def)
  note lk = dll_head_remove [OF D]
  have nn: "NULL \<notin> set (map fst ds)" using dll_nonnull [OF D] by auto
  let ?s = "s\<lparr>timer_prev := prev_out [] (map fst ds) (timer_prev s), timer_list := after (map fst ds)\<rparr>"
  have "timer_rep ?s ds"
    using lk(1) due(2) [unfolded due(1)] b by (simp add: timer_rep_def next_out_def head_out_def)
  moreover have "TimerUnlink t s = ?s"
    using lk(2-4) after_null [OF nn] by (cases ds) (auto simp: TimerUnlink_def Let_def prev_out_def)
  ultimately show thesis by (rule that [rotated])
qed

section \<open>Posting a callback\<close>

lemma timer_same_rep: "timer_same s s' \<Longrightarrow> timer_rep s' ds = timer_rep s ds"
  by (simp add: timer_same_def timer_rep_def)

lemma load32_cong: "(\<And>i. i < 4 \<Longrightarrow> b (p + i) = b' (p' + i)) \<Longrightarrow> load32 p b = load32 p' b'"
proof -
  assume a: "\<And>i. i < 4 \<Longrightarrow> b (p + i) = b' (p' + i)"
  show ?thesis using a [of 0] a [of 1] a [of 2] a [of 3] by (simp add: load32_def)
qed

lemma isr_queue_put_frame:
  "\<exists>c i d. snd (isr_queue_put x s) = s\<lparr>isr_cnt := c, isr_in := i, isr_data := d\<rparr>"
proof -
  obtain old c n i where e: "atomic_inc16_lt (isr_cnt s) (isr_max s) = (old, c)" "atomic_inc16_lim (isr_in s) (isr_max s) = (n, i)"
    by fastforce
  show ?thesis
  proof (cases "old < isr_max s")
    case True
    then have "snd (isr_queue_put x s) = s\<lparr>isr_cnt := c, isr_in := i, isr_data := (isr_data s)(n := x)\<rparr>"
      using e by (simp add: isr_queue_put_def)
    then show ?thesis by blast
  next
    case False
    then have "snd (isr_queue_put x s) = s\<lparr>isr_cnt := c, isr_in := isr_in s, isr_data := isr_data s\<rparr>"
      using e by (simp add: isr_queue_put_def)
    then show ?thesis by blast
  qed
qed

lemma isr_message_put:
  assumes irq: "IsIrqMode s \<or> IsIrqMasked s"
    and mq: "mq \<noteq> NULL" "ob_id s mq = osRtxIdMessageQueue" "ob_state s mq \<noteq> osRtxObjectInactive" and p: "p \<noteq> NULL"
    and P: "pool_rep (mp_info mq) B s (m # fs)" and I: "isr_rep cap s xs" "length xs < cap"
  obtains s' where "osMessageQueuePut mq p k 0 s = Some (osOK, s')" "pool_rep (mp_info mq) B s' fs" "isr_rep cap s' (xs @ [m])"
    "bytes s' = (\<lambda>a. if a - (m + sizeof_message) < msg_size s mq then bytes s (p + (a - (m + sizeof_message))) else bytes s a)"
    "ob_id s' = (ob_id s)(m := osRtxIdMessage)" "ob_state s' = (ob_state s)(m := osRtxObjectActive)"
    "msg_next s' = (msg_next s)(m := mq)" "timer_same s s'" "timer_setup s s'"
proof -
  obtain u f where 1: "osRtxMemoryPoolAlloc (mp_info mq) s = (m, s\<lparr>used_blocks := u, block_free := f\<rparr>)" "m \<noteq> NULL"
    and P': "pool_rep (mp_info mq) B (s\<lparr>used_blocks := u, block_free := f\<rparr>) fs"
    by (rule pool_take [OF P])
  let ?s = "(msg_init m k (memcpy (m + sizeof_message) p (msg_size s mq)
       (s\<lparr>used_blocks := u, block_free := f\<rparr>)))\<lparr>msg_prev := (msg_prev s)(m := p), msg_next := (msg_next s)(m := mq)\<rparr>"
  have "isr_rep cap ?s xs" using I(1) by (simp add: isr_rep_def isr_slot_def msg_init_def memcpy_def)
  then obtain s2 where 2: "isr_queue_put m ?s = (1, s2)" "isr_rep cap s2 (xs @ [m])" using isr_queue.put_ok I(2) by blast
  obtain c i d where s2: "s2 = ?s\<lparr>isr_cnt := c, isr_in := i, isr_data := d\<rparr>"
    using isr_queue_put_frame [of m ?s] 2(1) by auto
  have "\<exists>pk pv. osRtxPostProcess m ?s = Some (s2\<lparr>kernel_pendSV := pk, pendsv_set := pv\<rparr>)"
  proof (cases "kernel_blocked s2 = 0")
    case True
    then have "osRtxPostProcess m ?s = Some (s2\<lparr>kernel_pendSV := kernel_pendSV s2, pendsv_set := True\<rparr>)"
      using 2 by (simp add: osRtxPostProcess_def SetPendSV_def)
    then show ?thesis by blast
  next
    case False
    then have "osRtxPostProcess m ?s = Some (s2\<lparr>kernel_pendSV := 1, pendsv_set := pendsv_set s2\<rparr>)"
      using 2 by (simp add: osRtxPostProcess_def)
    then show ?thesis by blast
  qed
  then obtain pk pv where 3: "osRtxPostProcess m ?s = Some (s2\<lparr>kernel_pendSV := pk, pendsv_set := pv\<rparr>)" by blast
  let ?s' = "s2\<lparr>kernel_pendSV := pk, pendsv_set := pv\<rparr>"
  show thesis
  proof (rule that)
    show "osMessageQueuePut mq p k 0 s = Some (osOK, ?s')"
      using irq mq p 1 3 by (simp add: osMessageQueuePut_def isrRtxMessageQueuePut_def Let_def msg_init_def memcpy_def)
    show "pool_rep (mp_info mq) B ?s' fs" using P' by (simp add: pool_rep_def s2 msg_init_def memcpy_def)
    have "isr_rep cap ?s' ys = isr_rep cap s2 ys" for ys by (simp add: isr_rep_def isr_slot_def)
    then show "isr_rep cap ?s' (xs @ [m])" using 2(2) by blast
    show "bytes ?s' = (\<lambda>a. if a - (m + sizeof_message) < msg_size s mq then bytes s (p + (a - (m + sizeof_message))) else bytes s a)"
      by (rule ext) (simp add: s2 msg_init_def memcpy_def)
  qed (simp_all add: s2 msg_init_def memcpy_def timer_same_def timer_setup_def)
qed

section \<open>The loop over the due timers\<close>

lemma copied:
  assumes "apart B T" "m \<in> B"
    and b: "b' = (\<lambda>a. if a - (m + sizeof_message) < sizeof_finfo then b (p + (a - (m + sizeof_message))) else b a)"
  shows "load32 (m + sizeof_message) b' = load32 p b" "load32 (m + sizeof_message + 4) b' = load32 (p + 4) b"
    "t \<in> T \<Longrightarrow> load32 (finfo t) b' = load32 (finfo t) b \<and> load32 (finfo t + 4) b' = load32 (finfo t + 4) b"
    "m' \<in> B \<Longrightarrow> m' \<noteq> m \<Longrightarrow> load32 (m' + sizeof_message) b' = load32 (m' + sizeof_message) b \<and>
       load32 (m' + sizeof_message + 4) b' = load32 (m' + sizeof_message + 4) b"
proof -
  have inside: "b' (m + sizeof_message + i) = b (p + i)" if "i < sizeof_finfo" for i
    using that by (simp add: b)
  have outside: "b' (q + j) = b (q + j)" if "\<And>i. i < sizeof_finfo \<Longrightarrow> m + sizeof_message + i \<noteq> q + j" for q j
    using that [of "q + j - (m + sizeof_message)"] by (auto simp: b)
  have lt: "i < sizeof_finfo" "4 + i < sizeof_finfo" if "i < 4" for i :: u32
    using that by (simp_all add: word_less_nat_alt unat_word_ariths)
  show "load32 (m + sizeof_message) b' = load32 p b" by (rule load32_cong) (rule inside, rule lt(1))
  show "load32 (m + sizeof_message + 4) b' = load32 (p + 4) b"
    using inside [OF lt(2)] by (intro load32_cong) (simp add: add.assoc)
  have eq: "load32 q b' = load32 q b \<and> load32 (q + 4) b' = load32 (q + 4) b"
    if far: "\<And>i j. i < sizeof_finfo \<Longrightarrow> j < sizeof_finfo \<Longrightarrow> m + sizeof_message + i \<noteq> q + j" for q
  proof
    show "load32 q b' = load32 q b" by (rule load32_cong, rule outside, rule far) (assumption, erule lt(1))
    have "b' (q + 4 + j) = b (q + 4 + j)" if j: "j < 4" for j
    proof -
      have "b' (q + (4 + j)) = b (q + (4 + j))" by (rule outside) (rule far [OF _ lt(2) [OF j]])
      then show ?thesis by (simp only: add.assoc)
    qed
    then show "load32 (q + 4) b' = load32 (q + 4) b" by (rule load32_cong)
  qed
  show "t \<in> T \<Longrightarrow> load32 (finfo t) b' = load32 (finfo t) b \<and> load32 (finfo t + 4) b' = load32 (finfo t + 4) b"
    by (rule eq) (use assms(1,2) in \<open>simp add: apart_def\<close>)
  show "m' \<in> B \<Longrightarrow> m' \<noteq> m \<Longrightarrow> load32 (m' + sizeof_message) b' = load32 (m' + sizeof_message) b \<and>
       load32 (m' + sizeof_message + 4) b' = load32 (m' + sizeof_message + 4) b"
    by (rule eq) (use assms(1,2) in \<open>simp add: apart_def\<close>)
qed

lemma due_insert_behind: "0 < k \<Longrightarrow> due_insert t k (map (\<lambda>t. (t, 0)) ts @ ds) = map (\<lambda>t. (t, 0)) ts @ due_insert t k ds"
  by (rule due_insert_append) simp

lemma expired_Cons:
  assumes e: "expired s3 s' B T due ms" and m: "m \<in> B" "m \<notin> set ms" "set ms \<subseteq> B" and T: "t \<in> T" "set due \<subseteq> T" "B \<inter> T = {}"
    and msg: "message s3 m = callback s t" "\<And>t. t \<in> T \<Longrightarrow> callback s3 t = callback s t"
      "\<And>m'. m' \<in> B \<Longrightarrow> m' \<noteq> m \<Longrightarrow> message s3 m' = message s m'"
    and h: "ob_id s3 = (ob_id s)(m := osRtxIdMessage)" "msg_next s3 = (msg_next s)(m := timer_mq s)"
      "ob_state s3 = (let f = (ob_state s)(m := osRtxObjectActive) in if periodic s t then f else f(t := osRtxTimerStopped))"
    and k: "timer_mq s3 = timer_mq s" "ob_attr s3 = ob_attr s"
  shows "expired s s' B T (t # due) (m # ms)"
proof -
  have e1: "map (message s') ms = map (callback s3) due"
    and e2: "\<forall>m\<in>set ms. ob_id s' m = osRtxIdMessage \<and> ob_state s' m = osRtxObjectActive \<and> msg_next s' m = timer_mq s"
    and e3: "\<And>m. m \<in> B \<Longrightarrow> m \<notin> set ms \<Longrightarrow> message s' m = message s3 m \<and> ob_id s' m = ob_id s3 m \<and> ob_state s' m = ob_state s3 m \<and> msg_next s' m = msg_next s3 m"
    and e4: "\<And>t. t \<in> T \<Longrightarrow> callback s' t = callback s3 t \<and>
       ob_state s' t = (if t \<in> set due \<and> \<not> periodic s t then osRtxTimerStopped else ob_state s3 t)"
    using e k unfolding expired_def by simp_all
  have ne: "\<And>b t. b \<in> B \<Longrightarrow> t \<in> T \<Longrightarrow> b \<noteq> t" using T(3) by blast
  show ?thesis unfolding expired_def
  proof (intro conjI ballI)
    have "map (callback s3) due = map (callback s) due" using msg(2) T(2) by (intro map_cong) auto
    then show "map (message s') (m # ms) = map (callback s) (t # due)" using e1 e3 [OF m(1,2)] msg(1) by simp
  next
    fix m' assume "m' \<in> set (m # ms)"
    then show "ob_id s' m' = osRtxIdMessage" "ob_state s' m' = osRtxObjectActive" "msg_next s' m' = timer_mq s"
      using e2 e3 [OF m(1,2)] h ne [OF m(1) T(1)] by (auto simp: Let_def)
  next
    fix m' assume m': "m' \<in> B - set (m # ms)"
    then have f: "m' \<in> B" "m' \<notin> set ms" "m' \<noteq> m" by auto
    show "message s' m' = message s m'" using e3 [OF f(1,2)] msg(3) [OF f(1,3)] by metis
    show "ob_id s' m' = ob_id s m'" "msg_next s' m' = msg_next s m'" using e3 [OF f(1,2)] h f(3) by auto
    show "ob_state s' m' = ob_state s m'" using e3 [OF f(1,2)] h f(3) ne [OF f(1) T(1)] by (auto simp: Let_def)
  next
    fix t' assume t': "t' \<in> T"
    show "callback s' t' = callback s t'" using e4 [OF t'] msg(2) [OF t'] by metis
    have "t' \<noteq> m" using ne [OF m(1) t'] by blast
    then show "ob_state s' t' = (if t' \<in> set (t # due) \<and> \<not> periodic s t' then osRtxTimerStopped else ob_state s t')"
      using e4 [OF t'] h by (auto simp: Let_def)
  qed
qed

text \<open>The end of an iteration: the timer \<open>t\<close>, already unlinked, starts again or stops.\<close>

lemma restart_or_stop:
  assumes r: "timer_rep s (map (\<lambda>t. (t, 0)) due @ later)" and t: "t \<notin> set due \<union> fst ` set later" "t \<noteq> NULL"
    and ld: "periodic s t \<Longrightarrow> timer_load s t \<noteq> 0"
  obtains s' where "(if periodic s t then TimerInsert t (timer_load s t) s
      else Some (s\<lparr>ob_state := (ob_state s)(t := osRtxTimerStopped)\<rparr>)) = Some s'"
    "timer_rep s' (map (\<lambda>t. (t, 0)) due @ (if periodic s t then due_insert t (unat (timer_load s t)) later else later))"
    "timer_setup s s'" "ob_state s' = (if periodic s t then ob_state s else (ob_state s)(t := osRtxTimerStopped))" "bytes s' = bytes s"
    "ob_id s' = ob_id s" "msg_next s' = msg_next s" "\<And>i B ys. pool_rep i B s' ys = pool_rep i B s ys" "\<And>cap ys. isr_rep cap s' ys = isr_rep cap s ys"
proof (cases "periodic s t")
  case True
  have t': "t \<notin> fst ` set (map (\<lambda>t. (t, 0)) due @ later)" using t(1) by (auto simp: image_Un image_image)
  have k: "0 < unat (timer_load s t)" using ld [OF True] by (simp add: unat_gt_0)
  obtain f n b h where 1: "TimerInsert t (timer_load s t) s = Some (timer_fields s f n b h)"
    "timer_rep (timer_fields s f n b h) (due_insert t (unat (timer_load s t)) (map (\<lambda>t. (t, 0)) due @ later))"
    by (rule TimerInsert_spec [OF r t' t(2)])
  show thesis
    by (rule that [of "timer_fields s f n b h"])
      (use True 1 due_insert_behind [OF k] in \<open>simp_all add: timer_setup_def pool_rep_def isr_rep_def isr_slot_def\<close>)
next
  case False
  show thesis
    by (rule that [of "s\<lparr>ob_state := (ob_state s)(t := osRtxTimerStopped)\<rparr>"])
      (use False r in \<open>simp_all add: timer_setup_def timer_rep_def pool_rep_def isr_rep_def isr_slot_def\<close>)
qed

text \<open>One iteration, up to the next call of the loop.\<close>

lemma expire_one:
  assumes r: "timer_rep s ((t, 0) # map (\<lambda>t. (t, 0)) due @ later)" and cp: "can_post B T s" and t: "t \<in> T"
    and P: "pool_rep (mp_info (timer_mq s)) B s (m # fs)" and I: "isr_rep cap s xs" "length xs < cap"
    and ld: "periodic s t \<Longrightarrow> timer_load s t \<noteq> 0"
  obtains s' where "timer_expire (timer_list s) s = timer_expire (timer_list s') s'"
    "timer_rep s' (map (\<lambda>t. (t, 0)) due @ (if periodic s t then due_insert t (unat (timer_load s t)) later else later))"
    "pool_rep (mp_info (timer_mq s)) B s' fs" "isr_rep cap s' (xs @ [m])" "timer_setup s s'"
    "bytes s' = (\<lambda>a. if a - (m + sizeof_message) < sizeof_finfo then bytes s (finfo t + (a - (m + sizeof_message))) else bytes s a)"
    "ob_id s' = (ob_id s)(m := osRtxIdMessage)" "msg_next s' = (msg_next s)(m := timer_mq s)"
    "ob_state s' = (let f = (ob_state s)(m := osRtxObjectActive) in if periodic s t then f else f(t := osRtxTimerStopped))"
proof -
  let ?mq = "timer_mq s"
  have tl: "timer_list s = t" "t \<noteq> NULL" "timer_ticks s t = 0" "t \<notin> set due \<union> fst ` set later"
    using timer_repD(1,2,4) [OF r] r by (auto simp: timer_rep_def unat_eq_0 comp_def)
  note cp = cp [unfolded can_post_def]
  obtain b h where 1: "TimerUnlink t s = s\<lparr>timer_prev := b, timer_list := h\<rparr>"
    "timer_rep (s\<lparr>timer_prev := b, timer_list := h\<rparr>) (map (\<lambda>t. (t, 0)) due @ later)" by (rule TimerUnlink_spec [OF r])
  let ?s1 = "s\<lparr>timer_prev := b, timer_list := h\<rparr>"
  have irq: "IsIrqMode ?s1 \<or> IsIrqMasked ?s1" using cp by (simp add: IsIrqMode_def IsIrqMasked_def)
  have mq: "?mq \<noteq> NULL" "ob_id ?s1 ?mq = osRtxIdMessageQueue" "ob_state ?s1 ?mq \<noteq> osRtxObjectInactive" "finfo t \<noteq> NULL"
    using cp t by simp_all
  have "pool_rep (mp_info ?mq) B ?s1 ys = pool_rep (mp_info ?mq) B s ys" "isr_rep cap ?s1 xs = isr_rep cap s xs" for ys
    by (simp_all add: pool_rep_def isr_rep_def isr_slot_def)
  then have PI: "pool_rep (mp_info ?mq) B ?s1 (m # fs)" "isr_rep cap ?s1 xs" using P I(1) by blast+
  obtain s2 where 2: "osMessageQueuePut ?mq (finfo t) 0 0 ?s1 = Some (osOK, s2)" "pool_rep (mp_info ?mq) B s2 fs"
    "isr_rep cap s2 (xs @ [m])"
    "bytes s2 = (\<lambda>a. if a - (m + sizeof_message) < msg_size ?s1 ?mq then bytes ?s1 (finfo t + (a - (m + sizeof_message))) else bytes ?s1 a)"
    "ob_id s2 = (ob_id ?s1)(m := osRtxIdMessage)" "ob_state s2 = (ob_state ?s1)(m := osRtxObjectActive)"
    "msg_next s2 = (msg_next ?s1)(m := ?mq)" "timer_same ?s1 s2" "timer_setup ?s1 s2"
    by (rule isr_message_put [OF irq mq PI I(2)]) blast
  have b2: "bytes s2 = (\<lambda>a. if a - (m + sizeof_message) < sizeof_finfo then bytes s (finfo t + (a - (m + sizeof_message))) else bytes s a)"
  proof (rule ext)
    have "msg_size s ?mq = sizeof_finfo" using cp by blast
    then show "bytes s2 a = (if a - (m + sizeof_message) < sizeof_finfo then bytes s (finfo t + (a - (m + sizeof_message))) else bytes s a)" for a
      by (simp add: 2(4))
  qed
  have su: "timer_setup s s2" using 2(9) by (simp add: timer_setup_def)
  then have f: "periodic s2 t = periodic s t" "timer_load s2 t = timer_load s t" by (simp_all add: timer_setup_def)
  have r2: "timer_rep s2 (map (\<lambda>t. (t, 0)) due @ later)" using 1(2) timer_same_rep [OF 2(8)] by blast
  obtain s3 where 3: "(if periodic s2 t then TimerInsert t (timer_load s2 t) s2
      else Some (s2\<lparr>ob_state := (ob_state s2)(t := osRtxTimerStopped)\<rparr>)) = Some s3"
    "timer_rep s3 (map (\<lambda>t. (t, 0)) due @ (if periodic s2 t then due_insert t (unat (timer_load s2 t)) later else later))"
    "timer_setup s2 s3" "ob_state s3 = (if periodic s2 t then ob_state s2 else (ob_state s2)(t := osRtxTimerStopped))" "bytes s3 = bytes s2"
    "ob_id s3 = ob_id s2" "msg_next s3 = msg_next s2" "\<And>i B ys. pool_rep i B s3 ys = pool_rep i B s2 ys" "\<And>cap ys. isr_rep cap s3 ys = isr_rep cap s2 ys"
    by (rule restart_or_stop [OF r2 tl(4,2)]) (use ld f in auto)
  note r3 = 3(2) [unfolded f]
  have "timer_expire (timer_list s) s = timer_expire (timer_list s3) s3"
    using tl(1-3) 1(1) 2(1) 3(1) by (subst timer_expire.simps) (auto simp: Let_def split: if_splits)
  then show thesis
    by (rule that) (use 2 3(3-9) r3 f su b2 in \<open>simp_all add: timer_setup_def Let_def\<close>)
qed

lemma can_post_step:
  assumes cp: "can_post B T s" and su: "timer_setup s s'" and t: "m \<in> B" "t \<in> T"
    and h: "ob_id s' = (ob_id s)(m := osRtxIdMessage)"
      "ob_state s' = (let f = (ob_state s)(m := osRtxObjectActive) in if periodic s t then f else f(t := osRtxTimerStopped))"
  shows "can_post B T s'"
proof -
  have "timer_mq s \<noteq> m" "timer_mq s \<noteq> t" using cp t unfolding can_post_def by blast+
  then show ?thesis using cp su h by (auto simp: can_post_def timer_setup_def IsIrqMode_def IsIrqMasked_def Let_def)
qed

lemma expire_loop:
  assumes "timer_rep s (map (\<lambda>t. (t, 0)) due @ later)" "\<forall>p\<in>set later. 0 < snd p" "can_post B T s"
    "set due \<union> fst ` set later \<subseteq> T" "pool_rep (mp_info (timer_mq s)) B s (ms @ fs)" "length ms = length due"
    "isr_rep cap s xs" "length xs + length due \<le> cap" "\<forall>t\<in>set due. periodic s t \<longrightarrow> timer_load s t \<noteq> 0"
  shows "\<exists>s'. timer_expire (timer_list s) s = Some s' \<and> timer_rep s' (rearm s due later) \<and>
    pool_rep (mp_info (timer_mq s)) B s' fs \<and> isr_rep cap s' (xs @ ms) \<and> timer_setup s s' \<and> expired s s' B T due ms"
  using assms
proof (induction due arbitrary: s later ms xs)
  case Nil
  have "timer_list s = NULL \<or> timer_ticks s (timer_list s) \<noteq> 0"
    using timer_repD(4) [OF Nil.prems(1)] Nil.prems(1,2) by (cases later) (auto simp: timer_rep_def)
  then have "timer_expire (timer_list s) s = Some s" by (subst timer_expire.simps) auto
  then show ?case using Nil.prems by (auto simp: rearm_def expired_def timer_setup_def)
next
  case (Cons t due)
  obtain m ms' where ms: "ms = m # ms'" using Cons.prems(6) by (cases ms) auto
  have r: "timer_rep s ((t, 0) # map (\<lambda>t. (t, 0)) due @ later)" using Cons.prems(1) by simp
  have P: "pool_rep (mp_info (timer_mq s)) B s (m # ms' @ fs)" and len: "length xs < cap" using Cons.prems(5,8) ms by simp_all
  then have mB: "m \<in> B" "m \<notin> set ms'" "set ms' \<subseteq> B" by (auto simp: pool_rep_def)
  have tT: "t \<in> T" and ap: "apart B T" using Cons.prems(3,4) by (simp_all add: can_post_def)
  let ?later = "if periodic s t then due_insert t (unat (timer_load s t)) later else later"
  obtain s2 where 2: "timer_expire (timer_list s) s = timer_expire (timer_list s2) s2"
    "timer_rep s2 (map (\<lambda>t. (t, 0)) due @ ?later)" "pool_rep (mp_info (timer_mq s)) B s2 (ms' @ fs)" "isr_rep cap s2 (xs @ [m])"
    "timer_setup s s2"
    "bytes s2 = (\<lambda>a. if a - (m + sizeof_message) < sizeof_finfo then bytes s (finfo t + (a - (m + sizeof_message))) else bytes s a)"
    "ob_id s2 = (ob_id s)(m := osRtxIdMessage)" "msg_next s2 = (msg_next s)(m := timer_mq s)"
    "ob_state s2 = (let f = (ob_state s)(m := osRtxObjectActive) in if periodic s t then f else f(t := osRtxTimerStopped))"
    by (rule expire_one [OF r Cons.prems(3) tT P Cons.prems(7) len]) (use Cons.prems(9) in auto)
  note c = copied [OF ap mB(1) 2(6)]
  have f: "ob_attr s2 = ob_attr s" "timer_load s2 = timer_load s" "timer_mq s2 = timer_mq s" using 2(5) by (simp_all add: timer_setup_def)
  have "\<exists>s'. timer_expire (timer_list s2) s2 = Some s' \<and> timer_rep s' (rearm s2 due ?later) \<and>
      pool_rep (mp_info (timer_mq s2)) B s' fs \<and> isr_rep cap s' ((xs @ [m]) @ ms') \<and> timer_setup s2 s' \<and> expired s2 s' B T due ms'"
  proof (rule Cons.IH [OF 2(2) _ can_post_step [OF Cons.prems(3) 2(5) mB(1) tT 2(7,9)] _ _ _ 2(4)])
    show "\<forall>p\<in>set ?later. 0 < snd p" using Cons.prems(2,9) by (auto simp: unat_gt_0)
    show "set due \<union> fst ` set ?later \<subseteq> T" using Cons.prems(4) by auto
    show "pool_rep (mp_info (timer_mq s2)) B s2 (ms' @ fs)" using 2(3) f by simp
  qed (use Cons.prems(6,8,9) ms f in auto)
  then obtain s' where 3: "timer_expire (timer_list s2) s2 = Some s'" "timer_rep s' (rearm s2 due ?later)"
    "pool_rep (mp_info (timer_mq s2)) B s' fs" "isr_rep cap s' ((xs @ [m]) @ ms')" "timer_setup s2 s'" "expired s2 s' B T due ms'" by blast
  have "expired s s' B T (t # due) ms" unfolding ms
    by (rule expired_Cons [OF 3(6) mB tT])
      (use Cons.prems(4) ap c 2(7-9) f in \<open>auto simp: apart_def\<close>)
  moreover have "rearm s2 = rearm s" unfolding rearm_def f by (rule refl)
  then have "rearm s2 due ?later = rearm s (t # due) later" by (simp add: rearm_def)
  moreover have "timer_setup s s'" using 2(5) 3(5) by (simp add: timer_setup_def)
  ultimately show ?case using 2(1) 3 f ms by (intro exI [of _ s']) simp
qed

section \<open>A tick\<close>

lemma fst_one_less: "map fst (one_less ds) = map fst ds"
  by (induction ds) auto

lemma due_split:
  "sorted (map snd ds) \<Longrightarrow> \<forall>p\<in>set ds. 0 < snd p \<Longrightarrow>
   one_less ds = map (\<lambda>t. (t, 0)) (map fst (filter (\<lambda>p. snd p = 1) ds)) @ one_less (filter (\<lambda>p. 1 < snd p) ds)"
proof (induction ds)
  case (Cons p ds)
  show ?case
  proof (cases "snd p = 1")
    case True then show ?thesis using Cons by (cases p) auto
  next
    case False
    then have p: "1 < snd p" using Cons.prems(2) by (cases p) auto
    then have "\<forall>q\<in>set ds. 1 < snd q" using Cons.prems(1) by auto
    then have "filter (\<lambda>p. snd p = 1) ds = []" "filter (\<lambda>p. 1 < snd p) ds = ds" by (auto simp: filter_empty_conv filter_id_conv)
    then show ?thesis using p by simp
  qed
qed simp

lemma timer_head_dec:
  assumes r: "timer_rep s ds" and ne: "ds \<noteq> []" and pos: "\<forall>p\<in>set ds. 0 < snd p"
  shows "timer_rep (s\<lparr>timer_ticks := (timer_ticks s)(timer_list s := timer_ticks s (timer_list s) - 1)\<rparr>) (one_less ds)"
proof -
  obtain x d es where ds: "ds = (x, d) # es" using ne by (cases ds) auto
  have D: "dll ((timer_next s)(NULL := timer_list s)) (timer_prev s) NULL (x # map fst es)"
    and due: "due_times (timer_ticks s) 0 (x # map fst es) = (x, d) # es" and b: "\<forall>p\<in>set ds. snd p < 2 ^ 32"
    using r by (auto simp: timer_rep_def ds)
  have x: "timer_list s = x" "x \<notin> fst ` set es" using timer_repD(1,4) [OF r] by (simp_all add: ds)
  let ?f = "(timer_ticks s)(x := timer_ticks s x - 1)"
  have d: "d = unat (timer_ticks s x)" "es = due_times (timer_ticks s) d (map fst es)" "0 < d" using due pos by (auto simp: ds)
  then have u: "unat (timer_ticks s x - 1) = d - 1" "Suc (d - 1) = d" by (auto simp: unat_minus_one unat_gt_0)
  have "due_times ?f (d - 1) (map fst es) = due_times (timer_ticks s) (d - 1) (map fst es)"
    by (rule due_times_cong) (use x(2) in auto)
  also have "\<dots> = one_less es" using due_dec [of "timer_ticks s" "d - 1" "map fst es"] d(2) u(2) by simp
  finally have "due_times ?f 0 (map fst ds) = one_less ds" using u(1) by (simp add: ds)
  moreover have "\<forall>p\<in>set (one_less ds). snd p < 2 ^ 32" using b by auto
  ultimately show ?thesis unfolding timer_rep_def fst_one_less using D x(1) u(1) by (simp add: ds)
qed

section \<open>Starting and stopping\<close>

lemma svcRtxTimerStart_stopped:
  assumes r: "timer_rep s ds" and t: "t \<notin> fst ` set ds" "t \<noteq> NULL" "ob_id s t = osRtxIdTimer" "ob_state s t = osRtxTimerStopped"
    and k: "k \<noteq> 0" "timer_tick_set s"
  shows "\<exists>s'. svcRtxTimerStart t k s = Some (osOK, s') \<and> timer_rep s' (due_insert t (unat k) ds) \<and> timer_load s' t = k \<and>
    ob_state s' t = osRtxTimerRunning"
proof -
  let ?s = "s\<lparr>ob_state := (ob_state s)(t := osRtxTimerRunning), timer_load := (timer_load s)(t := k)\<rparr>"
  have "timer_rep ?s ds" using r by (simp add: timer_rep_def)
  from TimerInsert_spec [OF this t(1,2), of k] obtain f n b h where "TimerInsert t k ?s = Some (timer_fields ?s f n b h)"
    "timer_rep (timer_fields ?s f n b h) (due_insert t (unat k) ds)" .
  then show ?thesis using t k by (simp add: svcRtxTimerStart_def)
qed

text \<open>
  Starting a running timer again changes the time of its next expiry, but not its load: a periodic timer goes on with
  the period of its first start.
\<close>

lemma svcRtxTimerStart_running:
  assumes r: "timer_rep s ds" and t: "t \<in> fst ` set ds" "ob_id s t = osRtxIdTimer" "ob_state s t = osRtxTimerRunning" and k: "k \<noteq> 0"
  shows "\<exists>s'. svcRtxTimerStart t k s = Some (osOK, s') \<and> timer_rep s' (due_insert t (unat k) (filter (\<lambda>p. fst p \<noteq> t) ds)) \<and>
    timer_load s' = timer_load s"
proof -
  have nn: "t \<noteq> NULL" using timer_repD(2) [OF r] t(1) by blast
  obtain f n b h where 1: "TimerRemove t s = timer_fields s f n b h"
    "timer_rep (timer_fields s f n b h) (filter (\<lambda>p. fst p \<noteq> t) ds)" by (rule TimerRemove_spec [OF r t(1)])
  have "t \<notin> fst ` set (filter (\<lambda>p. fst p \<noteq> t) ds)" by auto
  from TimerInsert_spec [OF 1(2) this nn, of k] obtain f' n' b' h' where
    2: "TimerInsert t k (timer_fields s f n b h) = Some (timer_fields (timer_fields s f n b h) f' n' b' h')"
    "timer_rep (timer_fields (timer_fields s f n b h) f' n' b' h') (due_insert t (unat k) (filter (\<lambda>p. fst p \<noteq> t) ds))" .
  then show ?thesis using t k nn 1(1) by (simp add: svcRtxTimerStart_def)
qed

lemma svcRtxTimerStop_spec:
  assumes r: "timer_rep s ds" and t: "t \<in> fst ` set ds" "ob_id s t = osRtxIdTimer" "ob_state s t = osRtxTimerRunning"
  shows "\<exists>s'. svcRtxTimerStop t s = (osOK, s') \<and> timer_rep s' (filter (\<lambda>p. fst p \<noteq> t) ds) \<and> ob_state s' t = osRtxTimerStopped"
proof -
  have nn: "t \<noteq> NULL" using timer_repD(2) [OF r] t(1) by blast
  let ?s = "s\<lparr>ob_state := (ob_state s)(t := osRtxTimerStopped)\<rparr>"
  have "timer_rep ?s ds" using r by (simp add: timer_rep_def)
  from TimerRemove_spec [OF this t(1)] obtain f n b h where "TimerRemove t ?s = timer_fields ?s f n b h"
    "timer_rep (timer_fields ?s f n b h) (filter (\<lambda>p. fst p \<noteq> t) ds)" .
  then show ?thesis using t nn by (simp add: svcRtxTimerStop_def)
qed

lemma word_near:
  fixes a b i j :: u32
  assumes "a + i = b + j" "i < k" "j < k" shows "a - b < k \<or> b - a < k"
proof (cases "i \<le> j")
  case True
  have "a = b + j - i" using assms(1) by (simp add: eq_diff_eq)
  then have "a - b = j - i" by simp
  moreover have "j - i < k" using assms(3) True by (simp add: word_less_nat_alt unat_sub)
  ultimately show ?thesis by simp
next
  case False
  have "b = a + i - j" using assms(1) by (simp add: eq_diff_eq)
  then have "b - a = i - j" by simp
  moreover have "i - j < k" using assms(2) False by (simp add: word_less_nat_alt unat_sub)
  ultimately show ?thesis by simp
qed

lemma apartI:
  assumes "B \<inter> T = {}"
    "\<And>m t. m \<in> B \<Longrightarrow> t \<in> T \<Longrightarrow> \<not> (m + sizeof_message) - finfo t < sizeof_finfo \<and> \<not> finfo t - (m + sizeof_message) < sizeof_finfo"
    "\<And>m m'. m \<in> B \<Longrightarrow> m' \<in> B \<Longrightarrow> m' \<noteq> m \<Longrightarrow> \<not> m - m' < sizeof_finfo"
  shows "apart B T"
  unfolding apart_def
proof (intro conjI ballI allI impI)
  show "B \<inter> T = {}" by (rule assms(1))
next
  fix m i j t assume "m \<in> B" "i < sizeof_finfo" "j < sizeof_finfo" "t \<in> T"
  then show "m + sizeof_message + i \<noteq> finfo t + j" using word_near [of "m + sizeof_message" i "finfo t" j sizeof_finfo] assms(2) by blast
next
  fix m i j m' assume "m \<in> B" "i < sizeof_finfo" "j < sizeof_finfo" "m' \<in> B" "m' \<noteq> m"
  then show "m + sizeof_message + i \<noteq> m' + sizeof_message + j"
    using word_near [of m i m' j sizeof_finfo] assms(3) [of m m'] assms(3) [of m' m] by auto
qed

section \<open>Properties\<close>

text \<open>
  C34: A tick fires exactly the timers that are due. Let the timers of \<open>ds\<close> run, each with the ticks it has left (at least one), and let
  \<open>due\<close> be those with one tick left, in the order of the timer list; the periodic ones among them have a load other than zero. Let
  the tick run in an interrupt handler, the message queue of the timer thread exist, with memory of its messages that overlaps neither
  itself nor the callbacks of the timers, and let its pool have a free message (\<open>ms\<close>, in the order of the free list) and the
  interrupt queue a free entry for each due timer. Then osRtxTimerTick returns; the interrupt queue has got one message for each due
  timer and no other, in the same order, with the timer's function and argument; the one-shot timers among them are stopped; and
  the timer list now holds the other timers with one tick less, and each due periodic timer again with its load as the ticks left,
  sorted by the ticks left, a restarted timer behind those of the same time.
\<close>

theorem timer_tick_fires:
  assumes "timer_rep s ds" "\<forall>p\<in>set ds. 0 < snd p" "fst ` set ds \<subseteq> T"
    and due: "due = map fst (filter (\<lambda>p. snd p = 1) ds)" "\<forall>t\<in>set due. periodic s t \<longrightarrow> timer_load s t \<noteq> 0"
    and q: "can_post B T s" "pool_rep (mp_info (timer_mq s)) B s (ms @ fs)" "isr_rep cap s xs"
    and room: "length ms = length due" "length xs + length due \<le> cap"
  shows "\<exists>s'. osRtxTimerTick s = Some s' \<and> isr_rep cap s' (xs @ ms) \<and>
    timer_rep s' (rearm s due (one_less (filter (\<lambda>p. 1 < snd p) ds))) \<and> expired s s' B T due ms \<and>
    pool_rep (mp_info (timer_mq s)) B s' fs"
proof (cases "ds = []")
  case True
  then have "osRtxTimerTick s = Some s" using assms(1) by (simp add: osRtxTimerTick_def timer_rep_def)
  then show ?thesis using assms True by (simp add: rearm_def expired_def)
next
  case False
  let ?s = "s\<lparr>timer_ticks := (timer_ticks s)(timer_list s := timer_ticks s (timer_list s) - 1)\<rparr>"
  let ?later = "one_less (filter (\<lambda>p. 1 < snd p) ds)"
  have hd: "timer_list s \<noteq> NULL" using timer_repD(2,4) [OF assms(1)] False by (cases ds) auto
  have r: "timer_rep ?s (map (\<lambda>t. (t, 0)) due @ ?later)"
    using timer_head_dec [OF assms(1) False assms(2)] due_split [OF timer_repD(3) [OF assms(1)] assms(2)] by (simp only: due(1))
  have e: "isr_rep cap ?s ys = isr_rep cap s ys" "pool_rep i B ?s ys = pool_rep i B s ys" "can_post B T ?s = can_post B T s" "rearm ?s = rearm s"
      "expired ?s s' B T due ys = expired s s' B T due ys" for i ys s'
    by (simp_all add: isr_rep_def isr_slot_def pool_rep_def can_post_def IsIrqMode_def IsIrqMasked_def rearm_def expired_def cong: if_cong)
  have "\<exists>s'. timer_expire (timer_list ?s) ?s = Some s' \<and> timer_rep s' (rearm ?s due ?later) \<and>
      pool_rep (mp_info (timer_mq ?s)) B s' fs \<and> isr_rep cap s' (xs @ ms) \<and> timer_setup ?s s' \<and> expired ?s s' B T due ms"
    by (rule expire_loop [OF r]) (use assms in \<open>auto simp: e\<close>)
  then show ?thesis using hd by (auto simp: osRtxTimerTick_def Let_def e)
qed


theorem timer_tick_fires_witness:
  "\<exists>s s'. callback s 0x1000 = (77, 0) \<and> callback s 0x2000 = (88, 0) \<and> osRtxTimerTick s = Some s' \<and> isr_rep 4 s' [0x6000, 0x7000] \<and>
     message s' 0x6000 = (77, 0) \<and> message s' 0x7000 = (88, 0) \<and> timer_rep s' [(0x3000, 2), (0x1000, 5)] \<and>
     ob_state s' 0x1000 = osRtxTimerRunning \<and> ob_state s' 0x2000 = osRtxTimerStopped"
proof -
  let ?s = "blank\<lparr>ob_id := (\<lambda>_. 0)(0x5000 := 8), ob_state := (\<lambda>_. 2), ob_attr := (\<lambda>_. 0)(0x1000 := 1), max_blocks := \<lambda>_. 2, used_blocks := \<lambda>_. 0,
     block_base := \<lambda>_. 0x6000, block_lim := \<lambda>_. 0x8000, block_free := \<lambda>_. 0x6000, mem := (\<lambda>_. 0)(0x6000 := 0x7000), msg_size := \<lambda>_. 8,
     timer_list := 0x1000, timer_next := (\<lambda>_. 0)(0x1000 := 0x2000, 0x2000 := 0x3000), timer_prev := (\<lambda>_. 0)(0x2000 := 0x1000, 0x3000 := 0x2000),
     timer_ticks := (\<lambda>_. 0)(0x1000 := 1, 0x3000 := 2), timer_load := \<lambda>_. 5, timer_mq := 0x5000, ipsr := 15, isr_max := 4, isr_cnt := 0, isr_in := 0, isr_out := 0,
     bytes := (\<lambda>_. 0)(0x1018 := 77, 0x2018 := 88)\<rparr>"
  let ?B = "{0x6000, 0x7000 :: ptr}" and ?T = "{0x1000, 0x2000, 0x3000 :: ptr}"
  have r: "timer_rep ?s [(0x1000, 1), (0x2000, 1), (0x3000, 3)]" by (simp add: timer_rep_def dll_def)
  have ap: "apart ?B ?T" by (rule apartI) auto
  have c: "can_post ?B ?T ?s" using ap by (simp add: can_post_def IsIrqMode_def)
  have P: "pool_rep (mp_info (timer_mq ?s)) ?B ?s ([0x6000, 0x7000] @ [])" by (simp add: pool_rep_def)
  have I: "isr_rep 4 ?s []" by (simp add: isr_rep_def isr_slot_def)
  have due: "[0x1000, 0x2000] = map fst (filter (\<lambda>p. snd p = 1) [(0x1000 :: ptr, 1 :: nat), (0x2000, 1), (0x3000, 3)])" by simp
  have later: "rearm ?s [0x1000, 0x2000] (one_less (filter (\<lambda>p. 1 < snd p) [(0x1000, 1), (0x2000, 1), (0x3000, 3)])) = [(0x3000, 2), (0x1000, 5)]"
    by (simp add: rearm_def blank_def)
  have cb: "callback ?s 0x1000 = (77, 0)" "callback ?s 0x2000 = (88, 0)" by (simp_all add: load32_def)
  from timer_tick_fires [OF r _ _ due _ c P I, unfolded later]
  obtain s' where 1: "osRtxTimerTick ?s = Some s'" "isr_rep 4 s' [0x6000, 0x7000]" "timer_rep s' [(0x3000, 2), (0x1000, 5)]"
    "expired ?s s' ?B ?T [0x1000, 0x2000] [0x6000, 0x7000]" by auto
  have "message s' 0x6000 = callback ?s 0x1000" "message s' 0x7000 = callback ?s 0x2000" using 1(4) by (simp_all add: expired_def)
  moreover have "ob_state s' 0x1000 = osRtxTimerRunning" "ob_state s' 0x2000 = osRtxTimerStopped" using 1(4) by (simp_all add: expired_def)
  ultimately show ?thesis using 1 cb by metis
qed

end
