(* ===== verification/PortReg.thy ===== *)
theory PortReg
  imports Prelude
begin

text \<open>
  The pin control register PCR of a port pin, as the processor's header (MKE18F16.h) and the comments in
  LNDC01_INIT_SYS.h describe it: once the lock bit LK (15) is set, bits 15 to 0 are not updated by a store; the
  interrupt status flag ISF (24) is cleared by storing a one and kept by storing a zero.
\<close>

unbundle bit_operations_syntax

definition pcr_value :: "u32 \<Rightarrow> u32 \<Rightarrow> u32" where
  "pcr_value old v =
     (let v = (if bit old 15 then (old AND 0xFFFF) OR (v AND NOT 0xFFFF) else v)
      in (v AND NOT 0x1000000) OR (old AND 0x1000000 AND NOT v))"

lemma bit_FFFF: "bit (0xFFFF :: u32) n \<longleftrightarrow> n < 16"
proof -
  have "(0xFFFF :: u32) = mask 16" by (simp add: mask_eq_exp_minus_1)
  then show ?thesis by (simp only: bit_mask_iff) auto
qed

lemma bit_ISF: "bit (0x1000000 :: u32) n \<longleftrightarrow> n = 24"
proof -
  have "(0x1000000 :: u32) = push_bit 24 1" by simp
  then show ?thesis by (simp only: bit_push_bit_iff bit_1_iff) auto
qed

lemma store_bits:
  fixes L F old v :: u32
  assumes L: "\<And>k. bit L k \<longleftrightarrow> k < 16" and F: "\<And>k. bit F k \<longleftrightarrow> k = 24" and n: "n < 32"
  defines "u \<equiv> if bit old 15 then (old AND L) OR (v AND NOT L) else v"
  shows "bit ((u AND NOT F) OR (old AND F AND NOT u)) n \<longleftrightarrow>
    (if n = 24 then bit old n \<and> \<not> bit v n else if n < 16 \<and> bit old 15 then bit old n else bit v n)"
  using n by (auto simp: u_def bit_or_iff bit_and_iff bit_not_iff L F)

lemma bit_pcr_value:
  "n < 32 \<Longrightarrow> bit (pcr_value old v) n \<longleftrightarrow>
     (if n = 24 then bit old n \<and> \<not> bit v n else if n < 16 \<and> bit old 15 then bit old n else bit v n)"
  unfolding pcr_value_def Let_def by (rule store_bits [OF bit_FFFF bit_ISF])

text \<open>A store that leaves the low half as it is works in the same way whether the register is locked or not.\<close>

lemma pcr_value_low:
  assumes "v AND 0xFFFF = old AND 0xFFFF"
  shows "pcr_value old v = (v AND NOT 0x1000000) OR (old AND 0x1000000 AND NOT v)"
proof (cases "bit old 15")
  case True
  have "(old AND 0xFFFF) OR (v AND NOT 0xFFFF) = (v AND 0xFFFF) OR (v AND NOT 0xFFFF)" unfolding assms ..
  also have "(v AND L) OR (v AND NOT L) = v" for L by (rule bit_word_eqI) (auto simp: bit_or_iff bit_and_iff bit_not_iff)
  finally show ?thesis unfolding pcr_value_def Let_def by (simp only: if_True True)
next
  case False then show ?thesis unfolding pcr_value_def Let_def by (simp only: if_False)
qed

end
