(* ===== verification/Board.thy ===== *)
theory Board
  imports PortReg
begin

text \<open>
  The board application: App/main.cpp and App/Peripherial (pin table, Init_Pins.c).
  Each GPIO/PORT register the code touches is a field of the record \<open>board\<close>; a store to a pin control register
  respects its lock and its interrupt flag (\<open>pcr_value\<close>); PCOR and PSOR are
  the port's clear and set registers, so a store to them clears or sets bits of the port's
  output register PDOR. \<open>wait\<close> only lets time pass and is an event of the blink trace.
\<close>

unbundle bit_operations_syntax

section \<open>Registers and the pin table\<close>

datatype port = PA | PB | PC | PD | PE

record board =
  PCR :: "port \<Rightarrow> u8 \<Rightarrow> u32"
  PDOR :: "port \<Rightarrow> u32"
  PDDR :: "port \<Rightarrow> u32"
  CLKCFG :: "port \<Rightarrow> u32"

record T_IO_pins_configuration =
  gpio :: port
  pport :: port
  pin_num :: u8
  irqc :: u8
  lock :: u8
  mux :: u8
  DSE :: u8
  ODE :: u8
  PFE :: u8
  PUPD :: u8
  dir :: u8
  init :: u8

definition LSHIFT :: "'a::len word \<Rightarrow> nat \<Rightarrow> u32" where
  "LSHIFT v n = push_bit n (ucast v)"

definition BIT :: "nat \<Rightarrow> u32" where
  "BIT n = push_bit n 1"

definition write_PCOR :: "port \<Rightarrow> u32 \<Rightarrow> board \<Rightarrow> board" where
  "write_PCOR p v b = b\<lparr>PDOR := (PDOR b)(p := PDOR b p AND NOT v)\<rparr>"

definition write_PSOR :: "port \<Rightarrow> u32 \<Rightarrow> board \<Rightarrow> board" where
  "write_PSOR p v b = b\<lparr>PDOR := (PDOR b)(p := PDOR b p OR v)\<rparr>"

abbreviation (input) "IRQ_DIS \<equiv> 0 :: u8"
abbreviation (input) "ALT0 \<equiv> 0 :: u8"
abbreviation (input) "ALT1 \<equiv> 1 :: u8"
abbreviation (input) "ALT2 \<equiv> 2 :: u8"
abbreviation (input) "ALT3 \<equiv> 3 :: u8"
abbreviation (input) "ALT6 \<equiv> 6 :: u8"
abbreviation (input) "DSE_HI \<equiv> 1 :: u8"
abbreviation (input) "OD_DIS \<equiv> 0 :: u8"
abbreviation (input) "PFE_DIS \<equiv> 0 :: u8"
abbreviation (input) "PUPD_DIS \<equiv> 0 :: u8"
abbreviation (input) "GP_INP \<equiv> 0 :: u8"
abbreviation (input) "GP_OUT \<equiv> 1 :: u8"

definition mk_pin :: "port \<Rightarrow> port \<Rightarrow> u8 \<Rightarrow> u8 \<Rightarrow> u8 \<Rightarrow> u8 \<Rightarrow> u8 \<Rightarrow> u8 \<Rightarrow> u8 \<Rightarrow> u8 \<Rightarrow> u8 \<Rightarrow> u8
    \<Rightarrow> T_IO_pins_configuration" where
  "mk_pin g p n i l m ds od pf pu d v =
     \<lparr>gpio = g, pport = p, pin_num = n, irqc = i, lock = l, mux = m, DSE = ds, ODE = od, PFE = pf,
      PUPD = pu, dir = d, init = v\<rparr>"

definition LNDC01_pins_conf :: "T_IO_pins_configuration list" where
  "LNDC01_pins_conf =
    [
     mk_pin PA PA 0 IRQ_DIS 0 ALT0 DSE_HI OD_DIS PFE_DIS PUPD_DIS GP_INP 0,
     mk_pin PA PA 1 IRQ_DIS 0 ALT0 DSE_HI OD_DIS PFE_DIS PUPD_DIS GP_INP 0,
     mk_pin PA PA 2 IRQ_DIS 0 ALT6 DSE_HI OD_DIS PFE_DIS PUPD_DIS GP_INP 0,
     mk_pin PA PA 3 IRQ_DIS 0 ALT6 DSE_HI OD_DIS PFE_DIS PUPD_DIS GP_INP 0,
     mk_pin PA PA 6 IRQ_DIS 0 ALT0 DSE_HI OD_DIS PFE_DIS PUPD_DIS GP_INP 0,
     mk_pin PA PA 7 IRQ_DIS 0 ALT0 DSE_HI OD_DIS PFE_DIS PUPD_DIS GP_INP 0,
     mk_pin PA PA 8 IRQ_DIS 0 ALT0 DSE_HI OD_DIS PFE_DIS PUPD_DIS GP_INP 0,
     mk_pin PA PA 9 IRQ_DIS 0 ALT0 DSE_HI OD_DIS PFE_DIS PUPD_DIS GP_INP 0,
     mk_pin PA PA 11 IRQ_DIS 0 ALT0 DSE_HI OD_DIS PFE_DIS PUPD_DIS GP_INP 0,
     mk_pin PA PA 12 IRQ_DIS 0 ALT0 DSE_HI OD_DIS PFE_DIS PUPD_DIS GP_INP 0,
     mk_pin PA PA 13 IRQ_DIS 0 ALT0 DSE_HI OD_DIS PFE_DIS PUPD_DIS GP_INP 0,
     mk_pin PA PA 14 IRQ_DIS 0 ALT0 DSE_HI OD_DIS PFE_DIS PUPD_DIS GP_INP 0,
     mk_pin PA PA 15 IRQ_DIS 0 ALT0 DSE_HI OD_DIS PFE_DIS PUPD_DIS GP_INP 0,
     mk_pin PA PA 16 IRQ_DIS 0 ALT0 DSE_HI OD_DIS PFE_DIS PUPD_DIS GP_INP 0,
     mk_pin PA PA 17 IRQ_DIS 0 ALT0 DSE_HI OD_DIS PFE_DIS PUPD_DIS GP_INP 0,
     mk_pin PB PB 0 IRQ_DIS 0 ALT0 DSE_HI OD_DIS PFE_DIS PUPD_DIS GP_INP 0,
     mk_pin PB PB 1 IRQ_DIS 0 ALT0 DSE_HI OD_DIS PFE_DIS PUPD_DIS GP_INP 0,
     mk_pin PB PB 2 IRQ_DIS 0 ALT0 DSE_HI OD_DIS PFE_DIS PUPD_DIS GP_INP 0,
     mk_pin PB PB 3 IRQ_DIS 0 ALT0 DSE_HI OD_DIS PFE_DIS PUPD_DIS GP_INP 0,
     mk_pin PB PB 4 IRQ_DIS 0 ALT1 DSE_HI OD_DIS PFE_DIS PUPD_DIS GP_OUT 0,
     mk_pin PB PB 5 IRQ_DIS 0 ALT1 DSE_HI OD_DIS PFE_DIS PUPD_DIS GP_OUT 0,
     mk_pin PB PB 8 IRQ_DIS 0 ALT0 DSE_HI OD_DIS PFE_DIS PUPD_DIS GP_INP 0,
     mk_pin PB PB 9 IRQ_DIS 0 ALT0 DSE_HI OD_DIS PFE_DIS PUPD_DIS GP_INP 0,
     mk_pin PB PB 10 IRQ_DIS 0 ALT0 DSE_HI OD_DIS PFE_DIS PUPD_DIS GP_INP 0,
     mk_pin PB PB 11 IRQ_DIS 0 ALT0 DSE_HI OD_DIS PFE_DIS PUPD_DIS GP_INP 0,
     mk_pin PB PB 12 IRQ_DIS 0 ALT0 DSE_HI OD_DIS PFE_DIS PUPD_DIS GP_INP 0,
     mk_pin PB PB 13 IRQ_DIS 0 ALT1 DSE_HI OD_DIS PFE_DIS PUPD_DIS GP_OUT 0,
     mk_pin PB PB 14 IRQ_DIS 0 ALT3 DSE_HI OD_DIS PFE_DIS PUPD_DIS GP_INP 0,
     mk_pin PB PB 15 IRQ_DIS 0 ALT3 DSE_HI OD_DIS PFE_DIS PUPD_DIS GP_INP 0,
     mk_pin PB PB 16 IRQ_DIS 0 ALT3 DSE_HI OD_DIS PFE_DIS PUPD_DIS GP_INP 0,
     mk_pin PB PB 17 IRQ_DIS 0 ALT3 DSE_HI OD_DIS PFE_DIS PUPD_DIS GP_INP 0,
     mk_pin PC PC 0 IRQ_DIS 0 ALT0 DSE_HI OD_DIS PFE_DIS PUPD_DIS GP_INP 0,
     mk_pin PC PC 1 IRQ_DIS 0 ALT0 DSE_HI OD_DIS PFE_DIS PUPD_DIS GP_INP 0,
     mk_pin PC PC 2 IRQ_DIS 0 ALT3 DSE_HI OD_DIS PFE_DIS PUPD_DIS GP_INP 0,
     mk_pin PC PC 3 IRQ_DIS 0 ALT3 DSE_HI OD_DIS PFE_DIS PUPD_DIS GP_INP 0,
     mk_pin PC PC 5 IRQ_DIS 0 ALT0 DSE_HI OD_DIS PFE_DIS PUPD_DIS GP_INP 0,
     mk_pin PC PC 6 IRQ_DIS 0 ALT3 DSE_HI OD_DIS PFE_DIS PUPD_DIS GP_INP 0,
     mk_pin PC PC 7 IRQ_DIS 0 ALT3 DSE_HI OD_DIS PFE_DIS PUPD_DIS GP_INP 0,
     mk_pin PC PC 8 IRQ_DIS 0 ALT6 DSE_HI OD_DIS PFE_DIS PUPD_DIS GP_INP 0,
     mk_pin PC PC 9 IRQ_DIS 0 ALT6 DSE_HI OD_DIS PFE_DIS PUPD_DIS GP_INP 0,
     mk_pin PC PC 10 IRQ_DIS 0 ALT0 DSE_HI OD_DIS PFE_DIS PUPD_DIS GP_INP 0,
     mk_pin PC PC 11 IRQ_DIS 0 ALT1 DSE_HI OD_DIS PFE_DIS PUPD_DIS GP_INP 0,
     mk_pin PC PC 12 IRQ_DIS 0 ALT1 DSE_HI OD_DIS PFE_DIS PUPD_DIS GP_INP 0,
     mk_pin PC PC 13 IRQ_DIS 0 ALT1 DSE_HI OD_DIS PFE_DIS PUPD_DIS GP_INP 0,
     mk_pin PC PC 14 IRQ_DIS 0 ALT0 DSE_HI OD_DIS PFE_DIS PUPD_DIS GP_INP 0,
     mk_pin PC PC 15 IRQ_DIS 0 ALT0 DSE_HI OD_DIS PFE_DIS PUPD_DIS GP_INP 0,
     mk_pin PC PC 16 IRQ_DIS 0 ALT0 DSE_HI OD_DIS PFE_DIS PUPD_DIS GP_INP 0,
     mk_pin PC PC 17 IRQ_DIS 0 ALT0 DSE_HI OD_DIS PFE_DIS PUPD_DIS GP_INP 0,
     mk_pin PD PD 0 IRQ_DIS 0 ALT1 DSE_HI OD_DIS PFE_DIS PUPD_DIS GP_OUT 0,
     mk_pin PD PD 1 IRQ_DIS 0 ALT1 DSE_HI OD_DIS PFE_DIS PUPD_DIS GP_OUT 0,
     mk_pin PD PD 2 IRQ_DIS 0 ALT1 DSE_HI OD_DIS PFE_DIS PUPD_DIS GP_OUT 0,
     mk_pin PD PD 3 IRQ_DIS 0 ALT1 DSE_HI OD_DIS PFE_DIS PUPD_DIS GP_OUT 0,
     mk_pin PD PD 4 IRQ_DIS 0 ALT0 DSE_HI OD_DIS PFE_DIS PUPD_DIS GP_INP 0,
     mk_pin PD PD 5 IRQ_DIS 0 ALT1 DSE_HI OD_DIS PFE_DIS PUPD_DIS GP_INP 0,
     mk_pin PD PD 6 IRQ_DIS 0 ALT0 DSE_HI OD_DIS PFE_DIS PUPD_DIS GP_INP 0,
     mk_pin PD PD 7 IRQ_DIS 0 ALT0 DSE_HI OD_DIS PFE_DIS PUPD_DIS GP_INP 0,
     mk_pin PD PD 8 IRQ_DIS 0 ALT2 DSE_HI OD_DIS PFE_DIS PUPD_DIS GP_INP 0,
     mk_pin PD PD 9 IRQ_DIS 0 ALT2 DSE_HI OD_DIS PFE_DIS PUPD_DIS GP_INP 0,
     mk_pin PD PD 10 IRQ_DIS 0 ALT2 DSE_HI OD_DIS PFE_DIS PUPD_DIS GP_INP 0,
     mk_pin PD PD 11 IRQ_DIS 0 ALT2 DSE_HI OD_DIS PFE_DIS PUPD_DIS GP_INP 0,
     mk_pin PD PD 12 IRQ_DIS 0 ALT0 DSE_HI OD_DIS PFE_DIS PUPD_DIS GP_INP 0,
     mk_pin PD PD 13 IRQ_DIS 0 ALT0 DSE_HI OD_DIS PFE_DIS PUPD_DIS GP_INP 0,
     mk_pin PD PD 14 IRQ_DIS 0 ALT0 DSE_HI OD_DIS PFE_DIS PUPD_DIS GP_INP 0,
     mk_pin PD PD 15 IRQ_DIS 0 ALT1 DSE_HI OD_DIS PFE_DIS PUPD_DIS GP_OUT 0,
     mk_pin PD PD 16 IRQ_DIS 0 ALT1 DSE_HI OD_DIS PFE_DIS PUPD_DIS GP_OUT 0,
     mk_pin PD PD 17 IRQ_DIS 0 ALT1 DSE_HI OD_DIS PFE_DIS PUPD_DIS GP_OUT 0,
     mk_pin PE PE 0 IRQ_DIS 0 ALT1 DSE_HI OD_DIS PFE_DIS PUPD_DIS GP_OUT 0,
     mk_pin PE PE 1 IRQ_DIS 0 ALT1 DSE_HI OD_DIS PFE_DIS PUPD_DIS GP_OUT 0,
     mk_pin PE PE 2 IRQ_DIS 0 ALT0 DSE_HI OD_DIS PFE_DIS PUPD_DIS GP_INP 0,
     mk_pin PE PE 3 IRQ_DIS 0 ALT1 DSE_HI OD_DIS PFE_DIS PUPD_DIS GP_OUT 0,
     mk_pin PE PE 4 IRQ_DIS 0 ALT1 DSE_HI OD_DIS PFE_DIS PUPD_DIS GP_OUT 0,
     mk_pin PE PE 5 IRQ_DIS 0 ALT1 DSE_HI OD_DIS PFE_DIS PUPD_DIS GP_OUT 0,
     mk_pin PE PE 6 IRQ_DIS 0 ALT0 DSE_HI OD_DIS PFE_DIS PUPD_DIS GP_INP 0,
     mk_pin PE PE 7 IRQ_DIS 0 ALT0 DSE_HI OD_DIS PFE_DIS PUPD_DIS GP_INP 0,
     mk_pin PE PE 8 IRQ_DIS 0 ALT0 DSE_HI OD_DIS PFE_DIS PUPD_DIS GP_INP 0,
     mk_pin PE PE 9 IRQ_DIS 0 ALT0 DSE_HI OD_DIS PFE_DIS PUPD_DIS GP_INP 0,
     mk_pin PE PE 10 IRQ_DIS 0 ALT1 DSE_HI OD_DIS PFE_DIS PUPD_DIS GP_OUT 0,
     mk_pin PE PE 11 IRQ_DIS 0 ALT1 DSE_HI OD_DIS PFE_DIS PUPD_DIS GP_OUT 0,
     mk_pin PE PE 12 IRQ_DIS 0 ALT1 DSE_HI OD_DIS PFE_DIS PUPD_DIS GP_OUT 0,
     mk_pin PE PE 13 IRQ_DIS 0 ALT1 DSE_HI OD_DIS PFE_DIS PUPD_DIS GP_OUT 0,
     mk_pin PE PE 14 IRQ_DIS 0 ALT1 DSE_HI OD_DIS PFE_DIS PUPD_DIS GP_OUT 0,
     mk_pin PE PE 15 IRQ_DIS 0 ALT1 DSE_HI OD_DIS PFE_DIS PUPD_DIS GP_OUT 0,
     mk_pin PE PE 16 IRQ_DIS 0 ALT1 DSE_HI OD_DIS PFE_DIS PUPD_DIS GP_OUT 0
    ]"

section \<open>Pin configuration\<close>

definition Config_pin :: "T_IO_pins_configuration \<Rightarrow> board \<Rightarrow> board" where
  "Config_pin pinc b =
     (let n = unat (pin_num pinc);
          pcr = LSHIFT (irqc pinc) 16 OR LSHIFT (lock pinc) 15 OR LSHIFT (mux pinc) 8 OR
                LSHIFT (DSE pinc) 6 OR LSHIFT (ODE pinc) 5 OR LSHIFT (PFE pinc) 4 OR
                LSHIFT (PUPD pinc) 0;
          b = b\<lparr>PCR := (PCR b)(pport pinc := (PCR b (pport pinc))(pin_num pinc :=
                 pcr_value (PCR b (pport pinc) (pin_num pinc)) pcr))\<rparr>;
          b = (if init pinc = 0 then write_PCOR (gpio pinc) (LSHIFT (1::u32) n) b
               else write_PSOR (gpio pinc) (LSHIFT (1::u32) n) b)
      in b\<lparr>PDDR := (PDDR b)(gpio pinc :=
             (PDDR b (gpio pinc) AND NOT (LSHIFT (1::u32) n)) OR LSHIFT (dir pinc) n)\<rparr>)"

fun config_pins :: "T_IO_pins_configuration list \<Rightarrow> board \<Rightarrow> board" where
  "config_pins [] b = b"
| "config_pins (c # cs) b = config_pins cs (Config_pin c b)"

definition Init_pins :: "board \<Rightarrow> board" where
  "Init_pins b =
     (let b = b\<lparr>CLKCFG := (CLKCFG b)(PA := BIT 30, PB := BIT 30, PC := BIT 30,
                                     PD := BIT 30, PE := BIT 30)\<rparr>
      in config_pins LNDC01_pins_conf b)"

section \<open>The LEDs and the main loop\<close>

definition Set_ESC_LED_state :: "u32 \<Rightarrow> u32 \<Rightarrow> board \<Rightarrow> board" where
  "Set_ESC_LED_state num state b =
     (if state = 0 then
        (if num = 1 then write_PCOR PD (LSHIFT (1::u32) 2) b
         else if num = 2 then write_PCOR PD (LSHIFT (1::u32) 3) b
         else if num = 3 then write_PCOR PE (LSHIFT (1::u32) 11) b
         else if num = 4 then write_PCOR PE (LSHIFT (1::u32) 3) b
         else b)
      else
        (if num = 1 then write_PSOR PD (LSHIFT (1::u32) 2) b
         else if num = 2 then write_PSOR PD (LSHIFT (1::u32) 3) b
         else if num = 3 then write_PSOR PE (LSHIFT (1::u32) 11) b
         else if num = 4 then write_PSOR PE (LSHIFT (1::u32) 3) b
         else b))"

text \<open>
  \<open>main\<close> never returns: its loop body is run for any number of iterations, and the result
  lists the board at each of the two calls of \<open>wait\<close>.
\<close>

fun main_loop :: "nat \<Rightarrow> board \<Rightarrow> board list" where
  "main_loop 0 b = []"
| "main_loop (Suc n) b =
     (let b1 = Set_ESC_LED_state 1 1 b;
          b2 = Set_ESC_LED_state 1 0 b1
      in b1 # b2 # main_loop n b2)"

definition main_trace :: "nat \<Rightarrow> board \<Rightarrow> board list" where
  "main_trace n b = main_loop n (Init_pins b)"

section \<open>Specification vocabulary\<close>

text \<open>
  \<open>led_pin\<close> reads the ESCn_LED_PORT and ESCn_LED_PIN macros of Init_Pins.c; \<open>pin_configured b0 b c\<close> says that in
  \<open>b\<close> the registers of a pin hold what its row \<open>c\<close> of the table asks for, except that the low half of the control register is still
  that of \<open>b0\<close> if the register was locked there, and that a pending interrupt flag is kept.
\<close>

definition pcr_word :: "T_IO_pins_configuration \<Rightarrow> u32" where
  "pcr_word c = LSHIFT (irqc c) 16 OR LSHIFT (lock c) 15 OR LSHIFT (mux c) 8 OR
                LSHIFT (DSE c) 6 OR LSHIFT (ODE c) 5 OR LSHIFT (PFE c) 4 OR LSHIFT (PUPD c) 0"

definition wf_pin :: "T_IO_pins_configuration \<Rightarrow> bool" where
  "wf_pin c \<longleftrightarrow> gpio c = pport c \<and> pin_num c < 32 \<and> dir c < 2 \<and> irqc c < 16 \<and> lock c < 2 \<and>
     mux c < 8 \<and> DSE c < 2 \<and> ODE c < 2 \<and> PFE c < 2 \<and> PUPD c < 4"

definition pin_configured :: "board \<Rightarrow> board \<Rightarrow> T_IO_pins_configuration \<Rightarrow> bool" where
  "pin_configured b0 b c \<longleftrightarrow>
     (let old = PCR b0 (pport c) (pin_num c); new = PCR b (pport c) (pin_num c)
      in take_bit 16 new = take_bit 16 (if bit old 15 then old else pcr_word c) \<and>
         take_bit 4 (drop_bit 16 new) = ucast (irqc c) \<and> bit new 24 = bit old 24) \<and>
     bit (PDDR b (gpio c)) (unat (pin_num c)) = (dir c = 1) \<and>
     bit (PDOR b (gpio c)) (unat (pin_num c)) = (init c \<noteq> 0)"

definition led_pin :: "u32 \<Rightarrow> (port \<times> nat) option" where
  "led_pin num = (if num = 1 then Some (PD, 2) else if num = 2 then Some (PD, 3)
     else if num = 3 then Some (PE, 11) else if num = 4 then Some (PE, 3) else None)"

section \<open>Correctness of the board code\<close>

lemma bit_LSHIFT [simp]:
  "bit (LSHIFT v n) k \<longleftrightarrow> n \<le> k \<and> k < 32 \<and> bit v (k - n)"
  by (auto simp: LSHIFT_def bit_simps)

lemma bit_lit1 [simp]: "bit (1::'a::len word) k \<longleftrightarrow> k = 0"
  by (simp add: bit_1_iff)

lemma PCR_Config_pin:
  "PCR (Config_pin c b) p n = (if p = pport c \<and> n = pin_num c then pcr_value (PCR b p n) (pcr_word c) else PCR b p n)"
  by (simp add: Config_pin_def Let_def write_PCOR_def write_PSOR_def pcr_word_def)

lemma lt2_cases: "d < 2 \<Longrightarrow> d = 0 \<or> d = (1::u8)"
proof -
  assume "d < 2"
  then have "unat d = 0 \<or> unat d = 1"
    by (auto simp: word_less_nat_alt)
  then show ?thesis
    by (auto simp: word_unat_eq_iff)
qed

lemma bit_PDDR_Config_pin:
  assumes "dir c < 2" "k < 32" "pin_num c < 32"
  shows "bit (PDDR (Config_pin c b) p) k =
           (if p = gpio c \<and> k = unat (pin_num c) then dir c = 1 else bit (PDDR b p) k)"
proof -
  have "unat (pin_num c) < 32" using assms(3) by (simp add: word_less_nat_alt)
  with lt2_cases [OF assms(1)] assms(2) show ?thesis
    by (elim disjE) (simp_all add: Config_pin_def Let_def write_PCOR_def write_PSOR_def
      bit_or_iff bit_and_iff bit_not_iff le_less_Suc_eq, auto)
qed

lemma bit_PDOR_Config_pin:
  assumes "k < 32" "pin_num c < 32"
  shows "bit (PDOR (Config_pin c b) p) k =
           (if p = gpio c \<and> k = unat (pin_num c) then init c \<noteq> 0 else bit (PDOR b p) k)"
proof -
  have "unat (pin_num c) < 32" using assms(2) by (simp add: word_less_nat_alt)
  with assms(1) show ?thesis
    by (auto simp add: Config_pin_def Let_def write_PCOR_def write_PSOR_def
      bit_or_iff bit_and_iff bit_not_iff)
qed

lemma pin_bound: "wf_pin c \<Longrightarrow> unat (pin_num c) < 32"
  by (simp add: wf_pin_def word_less_nat_alt)

lemma small_bits: "unat (v::'a::len word) < 2 ^ n \<Longrightarrow> bit v k \<Longrightarrow> k < n"
  by (metis bit_take_bit_iff take_bit_nat_eq_self unsigned_take_bit_eq word_unat_eq_iff)

lemma high_bit_False: "(v::'a::len word) < 2 ^ n \<Longrightarrow> n < LENGTH('a) \<Longrightarrow> n \<le> k \<Longrightarrow> \<not> bit v k"
proof -
  assume a: "v < 2 ^ n" "n < LENGTH('a)" "n \<le> k"
  then have "unat (2 ^ n :: 'a word) = 2 ^ n"
    by (simp add: of_nat_inverse)
  with a show ?thesis
    using small_bits [of v n k] by (auto simp: word_less_nat_alt)
qed

lemma wf_pin_bits:
  assumes "wf_pin c"
  shows "4 \<le> k \<Longrightarrow> \<not> bit (irqc c) k" "1 \<le> k \<Longrightarrow> \<not> bit (lock c) k" "3 \<le> k \<Longrightarrow> \<not> bit (mux c) k"
    "1 \<le> k \<Longrightarrow> \<not> bit (DSE c) k" "1 \<le> k \<Longrightarrow> \<not> bit (ODE c) k" "1 \<le> k \<Longrightarrow> \<not> bit (PFE c) k"
    "2 \<le> k \<Longrightarrow> \<not> bit (PUPD c) k"
  using assms high_bit_False [of "irqc c" 4 k] high_bit_False [of "lock c" 1 k]
    high_bit_False [of "mux c" 3 k] high_bit_False [of "DSE c" 1 k] high_bit_False [of "ODE c" 1 k]
    high_bit_False [of "PFE c" 1 k] high_bit_False [of "PUPD c" 2 k]
  by (simp_all add: wf_pin_def)

lemma bit_pcr_word:
  assumes "wf_pin c"
  shows "bit (pcr_word c) k =
    (if 16 \<le> k then k < 32 \<and> bit (irqc c) (k - 16) else if 15 \<le> k then bit (lock c) (k - 15)
     else if 8 \<le> k then bit (mux c) (k - 8) else if 6 \<le> k then bit (DSE c) (k - 6)
     else if 5 \<le> k then bit (ODE c) (k - 5) else if 4 \<le> k then bit (PFE c) (k - 4)
     else bit (PUPD c) k)"
  by (simp add: pcr_word_def bit_or_iff wf_pin_bits [OF assms])

text \<open>
  From the word of a table row whose entries fit their fields, every field (interrupt configuration, lock, mux, drive strength, open drain, filter,
  pull) can be read back unchanged: the shifted fields do not overlap.
\<close>

lemma pcr_word_fields:
  assumes "wf_pin c"
  shows "take_bit 4 (drop_bit 16 (pcr_word c)) = ucast (irqc c) \<and>
         take_bit 1 (drop_bit 15 (pcr_word c)) = ucast (lock c) \<and>
         take_bit 3 (drop_bit 8 (pcr_word c)) = ucast (mux c) \<and>
         take_bit 1 (drop_bit 6 (pcr_word c)) = ucast (DSE c) \<and>
         take_bit 1 (drop_bit 5 (pcr_word c)) = ucast (ODE c) \<and>
         take_bit 1 (drop_bit 4 (pcr_word c)) = ucast (PFE c) \<and>
         take_bit 2 (pcr_word c) = ucast (PUPD c)"
proof -
  note w = wf_pin_bits [OF assms]
  have f: "take_bit m (drop_bit n (pcr_word c)) = (ucast v :: u32)"
    if "\<And>k. k < 32 \<Longrightarrow> (k < m \<and> bit (pcr_word c) (n + k)) = bit (v::u8) k" for m n v
    by (rule bit_word_eqI) (simp add: bit_take_bit_iff bit_drop_bit_eq bit_ucast_iff that)
  have irqc: "take_bit 4 (drop_bit 16 (pcr_word c)) = ucast (irqc c)"
  proof (rule f)
    fix k show "(k < 4 \<and> bit (pcr_word c) (16 + k)) = bit (irqc c) k"
      by (cases "k < 4") (simp_all add: bit_pcr_word [OF assms] w)
  qed
  have lock: "take_bit 1 (drop_bit 15 (pcr_word c)) = ucast (lock c)"
  proof (rule f)
    fix k show "(k < 1 \<and> bit (pcr_word c) (15 + k)) = bit (lock c) k"
      by (cases "k < 1") (simp_all add: bit_pcr_word [OF assms] w)
  qed
  have mux: "take_bit 3 (drop_bit 8 (pcr_word c)) = ucast (mux c)"
  proof (rule f)
    fix k show "(k < 3 \<and> bit (pcr_word c) (8 + k)) = bit (mux c) k"
      by (cases "k < 3") (simp_all add: bit_pcr_word [OF assms] w)
  qed
  have dse: "take_bit 1 (drop_bit 6 (pcr_word c)) = ucast (DSE c)"
  proof (rule f)
    fix k show "(k < 1 \<and> bit (pcr_word c) (6 + k)) = bit (DSE c) k"
      by (cases "k < 1") (simp_all add: bit_pcr_word [OF assms] w)
  qed
  have ode: "take_bit 1 (drop_bit 5 (pcr_word c)) = ucast (ODE c)"
  proof (rule f)
    fix k show "(k < 1 \<and> bit (pcr_word c) (5 + k)) = bit (ODE c) k"
      by (cases "k < 1") (simp_all add: bit_pcr_word [OF assms] w)
  qed
  have pfe: "take_bit 1 (drop_bit 4 (pcr_word c)) = ucast (PFE c)"
  proof (rule f)
    fix k show "(k < 1 \<and> bit (pcr_word c) (4 + k)) = bit (PFE c) k"
      by (cases "k < 1") (simp_all add: bit_pcr_word [OF assms] w)
  qed
  have pupd: "take_bit 2 (drop_bit 0 (pcr_word c)) = ucast (PUPD c)"
  proof (rule f)
    fix k show "(k < 2 \<and> bit (pcr_word c) (0 + k)) = bit (PUPD c) k"
      by (cases "k < 2") (simp_all add: bit_pcr_word [OF assms] w)
  qed
  show ?thesis
    using irqc lock mux dse ode pfe pupd by simp
qed

lemma take_bit_cong: "(\<And>k. k < n \<Longrightarrow> k < 32 \<Longrightarrow> bit v k = bit w k) \<Longrightarrow> take_bit n v = take_bit n (w :: u32)"
  by (rule bit_word_eqI) (auto simp: bit_take_bit_iff)

lemma pcr_stored:
  assumes "wf_pin c"
  shows "take_bit 16 (pcr_value old (pcr_word c)) = take_bit 16 (if bit old 15 then old else pcr_word c)"
    "take_bit 4 (drop_bit 16 (pcr_value old (pcr_word c))) = ucast (irqc c)"
    "bit (pcr_value old (pcr_word c)) 24 = bit old 24"
proof -
  show "take_bit 16 (pcr_value old (pcr_word c)) = take_bit 16 (if bit old 15 then old else pcr_word c)"
    by (rule take_bit_cong) (simp add: bit_pcr_value)
  have "take_bit 4 (drop_bit 16 (pcr_value old (pcr_word c))) = take_bit 4 (drop_bit 16 (pcr_word c))"
    by (rule take_bit_cong) (simp add: bit_drop_bit_eq bit_pcr_value)
  then show "take_bit 4 (drop_bit 16 (pcr_value old (pcr_word c))) = ucast (irqc c)"
    using pcr_word_fields [OF assms] by simp
  show "bit (pcr_value old (pcr_word c)) 24 = bit old 24"
    using bit_pcr_word [OF assms, of 24] wf_pin_bits(1) [OF assms, of 8] by (simp add: bit_pcr_value)
qed

lemma Config_pin_self:
  assumes "wf_pin c" shows "pin_configured b (Config_pin c b) c"
  using assms pin_bound [OF assms] pcr_stored [OF assms]
  by (simp add: pin_configured_def PCR_Config_pin bit_PDDR_Config_pin bit_PDOR_Config_pin wf_pin_def Let_def)

lemma Config_pin_other:
  assumes "wf_pin c" "wf_pin d" "(pport c, pin_num c) \<noteq> (pport d, pin_num d)"
  shows "pin_configured b0 (Config_pin c b) d = pin_configured b0 b d" "pin_configured (Config_pin c b0) b d = pin_configured b0 b d"
proof -
  have w: "gpio c = pport c" "gpio d = pport d" "pin_num c < 32" "dir c < 2" using assms(1,2) by (simp_all add: wf_pin_def)
  have n: "\<not> (pport d = pport c \<and> unat (pin_num d) = unat (pin_num c))" using assms(3) by (auto simp: word_unat_eq_iff)
  have "PCR (Config_pin c x) (pport d) (pin_num d) = PCR x (pport d) (pin_num d)"
    "bit (PDDR (Config_pin c x) (gpio d)) (unat (pin_num d)) = bit (PDDR x (gpio d)) (unat (pin_num d))"
    "bit (PDOR (Config_pin c x) (gpio d)) (unat (pin_num d)) = bit (PDOR x (gpio d)) (unat (pin_num d))" for x
    using w n pin_bound [OF assms(2)] assms(3)
    by (auto simp: PCR_Config_pin bit_PDDR_Config_pin bit_PDOR_Config_pin)
  then show "pin_configured b0 (Config_pin c b) d = pin_configured b0 b d" "pin_configured (Config_pin c b0) b d = pin_configured b0 b d"
    unfolding pin_configured_def by (simp_all only:)
qed

lemma config_pins_keeps:
  assumes "list_all wf_pin cs" "wf_pin d" "(pport d, pin_num d) \<notin> set (map (\<lambda>c. (pport c, pin_num c)) cs)"
  shows "pin_configured b0 (config_pins cs b) d = pin_configured b0 b d"
  using assms by (induction cs arbitrary: b) (auto simp: Config_pin_other)

lemma config_pins_all:
  assumes "list_all wf_pin cs" "distinct (map (\<lambda>c. (pport c, pin_num c)) cs)"
  shows "list_all (pin_configured b (config_pins cs b)) cs"
  using assms
proof (induction cs arbitrary: b)
  case (Cons c cs)
  have "pin_configured b (config_pins cs (Config_pin c b)) c"
    using Cons.prems by (subst config_pins_keeps) (auto simp: Config_pin_self)
  moreover have "pin_configured b (config_pins cs (Config_pin c b)) d" if "d \<in> set cs" for d
  proof -
    have "(pport c, pin_num c) \<noteq> (pport d, pin_num d)" using Cons.prems(2) that by force
    moreover have "wf_pin c" "wf_pin d" using Cons.prems(1) that by (auto simp: list_all_iff)
    moreover have "pin_configured (Config_pin c b) (config_pins cs (Config_pin c b)) d"
      using Cons.IH [of "Config_pin c b"] Cons.prems that by (auto simp: list_all_iff)
    ultimately show ?thesis using Config_pin_other(2) by blast
  qed
  ultimately show ?case by (simp add: list_all_iff)
qed simp

lemma table_wf: "list_all wf_pin LNDC01_pins_conf"
  by code_simp

lemma table_distinct: "distinct (map (\<lambda>c. (pport c, pin_num c)) LNDC01_pins_conf)"
  by code_simp

lemma table_configured: "list_all (pin_configured b (Init_pins b)) LNDC01_pins_conf"
proof -
  have e: "pin_configured (b\<lparr>CLKCFG := k\<rparr>) = pin_configured b" for k by (intro ext) (simp add: pin_configured_def)
  have "list_all (pin_configured b (config_pins LNDC01_pins_conf (b\<lparr>CLKCFG := k\<rparr>))) LNDC01_pins_conf" for k
    using config_pins_all [OF table_wf table_distinct, of "b\<lparr>CLKCFG := k\<rparr>"] unfolding e .
  then show ?thesis unfolding Init_pins_def Let_def .
qed

text \<open>
  C39: After Init_pins every pin of the board's table has its direction, its initial output level, its interrupt
  configuration and the low half of its control register (mux, drive strength, pull, lock) as the table asks, whatever the
  registers held before, except that the low half of a register that was locked keeps its value. A pending
  interrupt flag stays, and no later row disturbs an earlier one.
\<close>

theorem Init_pins_configures: "list_all (pin_configured b (Init_pins b)) LNDC01_pins_conf"
  by (rule table_configured)

lemma bit_write_PCOR:
  "bit (PDOR (write_PCOR p (LSHIFT (1::u32) n) b) q) k = (if p = q \<and> k = n then False else bit (PDOR b q) k)"
  by (cases "k < 32") (auto simp: write_PCOR_def bit_and_iff bit_not_iff dest: bit_imp_le_length)

lemma bit_write_PSOR:
  "n < 32 \<Longrightarrow> bit (PDOR (write_PSOR p (LSHIFT (1::u32) n) b) q) k = (if p = q \<and> k = n then True else bit (PDOR b q) k)"
  by (cases "k < 32") (auto simp: write_PSOR_def bit_or_iff dest: bit_imp_le_length)

lemma write_SOR_COR_frame [simp]:
  "PDDR (write_PCOR p v b) = PDDR b" "PCR (write_PCOR p v b) = PCR b" "CLKCFG (write_PCOR p v b) = CLKCFG b"
  "PDDR (write_PSOR p v b) = PDDR b" "PCR (write_PSOR p v b) = PCR b" "CLKCFG (write_PSOR p v b) = CLKCFG b"
  by (simp_all add: write_PCOR_def write_PSOR_def)

text \<open>
  Set_ESC_LED_state drives exactly the port pin of the LED macros, to high for any
  non-zero state and low for zero, changes no other output bit and no configuration register,
  and does nothing for numbers other than 1 to 4.
\<close>

theorem Set_ESC_LED_state_spec:
  "bit (PDOR (Set_ESC_LED_state num st b) p) k =
     (if led_pin num = Some (p, k) then st \<noteq> 0 else bit (PDOR b p) k) \<and>
   PCR (Set_ESC_LED_state num st b) = PCR b \<and> PDDR (Set_ESC_LED_state num st b) = PDDR b \<and>
   CLKCFG (Set_ESC_LED_state num st b) = CLKCFG b"
  by (auto simp: Set_ESC_LED_state_def led_pin_def bit_write_PCOR bit_write_PSOR)

text \<open>
  C40: Set_ESC_LED_state for LED 4 drives PTE3 and never touches PTE13. The pin table names
  PTE13 LEDESC4 and PTE3 OK1, so LED 4 is not the one that is switched.
\<close>

theorem Set_ESC_LED_state_4_drives_OK1:
  "bit (PDOR (Set_ESC_LED_state 4 st b) PE) 13 = bit (PDOR b PE) 13 \<and>
   bit (PDOR (Set_ESC_LED_state 4 st b) PE) 3 = (st \<noteq> 0)"
  by (simp add: Set_ESC_LED_state_def bit_write_PCOR bit_write_PSOR)

lemma main_loop_led:
  "map (\<lambda>b. bit (PDOR b PD) 2) (main_loop n b) = concat (replicate n [True, False])"
  by (induction n arbitrary: b) (simp_all add: Let_def Set_ESC_LED_state_def bit_write_PCOR bit_write_PSOR)

lemma main_loop_config:
  "list_all (\<lambda>c. PDDR c = PDDR b \<and> PCR c = PCR b) (main_loop n b)"
proof (induction n arbitrary: b)
  case (Suc n)
  show ?case
    using Suc [of "Set_ESC_LED_state 1 0 (Set_ESC_LED_state 1 1 b)"]
    by (simp add: Let_def Set_ESC_LED_state_def)
qed simp

lemma led1_in_table: "mk_pin PD PD 2 IRQ_DIS 0 ALT1 DSE_HI OD_DIS PFE_DIS PUPD_DIS GP_OUT 0 \<in> set LNDC01_pins_conf"
  by (simp add: LNDC01_pins_conf_def)

text \<open>
  The main loop alternates LED 1 (PTD2) on and off for ever, with the pin a GPIO output
  (direction bit set, mux field 1) at every wait, unless its control register is locked.
\<close>

theorem main_blinks:
  assumes "\<not> bit (PCR b PD 2) 15"
  shows "map (\<lambda>b. bit (PDOR b PD) 2) (main_trace n b) = concat (replicate n [True, False]) \<and>
   list_all (\<lambda>b. bit (PDDR b PD) 2 \<and> take_bit 16 (PCR b PD 2) = 0x140) (main_trace n b)"
proof -
  let ?c = "mk_pin PD PD 2 IRQ_DIS 0 ALT1 DSE_HI OD_DIS PFE_DIS PUPD_DIS GP_OUT 0"
  have w: "take_bit 16 (pcr_word ?c) = 0x140"
    by code_simp
  have "pin_configured b (Init_pins b) ?c"
    using table_configured led1_in_table unfolding list_all_iff by (rule bspec)
  then have "bit (PDDR (Init_pins b) PD) 2 \<and> take_bit 16 (PCR (Init_pins b) PD 2) = 0x140"
    using w assms by (simp add: pin_configured_def mk_pin_def Let_def)
  then show ?thesis
    using main_loop_led main_loop_config [of "Init_pins b" n]
    unfolding main_trace_def list_all_iff by auto
qed

end
