(* ===== verification/HalTicker.thy ===== *)
theory HalTicker
  imports Links
begin

text \<open>
  The HAL ticker layer (hal/mbed_ticker_api.c, hal/ticker_api.h): a 64-bit microsecond clock and a
  queue of timed events on top of a hardware counter of 4 to 32 bits. The hardware is reached
  through the function pointers of ticker_interface_t, here a record of functions on a hardware
  state \<open>'h\<close>; the event handler is a function pointer too, and \<open>call\<close> is what calling one does.
  The events are linked by pointers, so their fields are functions of addresses. A failing MBED_ASSERT
  does not return (\<open>None\<close>); the fallback values after the assertions of initialize are kept as the code
  has them. Every operation runs in a critical section, so that none is interrupted half way.
\<close>

unbundle bit_operations_syntax

section \<open>Data\<close>

record 'h ticker_interface =
  ti_init :: "'h \<Rightarrow> 'h"
  ti_read :: "'h \<Rightarrow> u32 \<times> 'h"
  ti_disable_interrupt :: "'h \<Rightarrow> 'h"
  ti_clear_interrupt :: "'h \<Rightarrow> 'h"
  ti_set_interrupt :: "u32 \<Rightarrow> 'h \<Rightarrow> 'h"
  ti_fire_interrupt :: "'h \<Rightarrow> 'h"
  ti_frequency :: u32
  ti_bits :: u32

record 'h ticker =
  ev_timestamp :: "ptr \<Rightarrow> u64"
  ev_id :: "ptr \<Rightarrow> u32"
  ev_next :: "ptr \<Rightarrow> ptr"
  event_handler :: ptr
  head :: ptr
  frequency :: u32
  bitmask :: u32
  max_delta :: u32
  max_delta_us :: u64
  tick_last_read :: u32
  tick_remainder :: u64
  present_time :: u64
  initialized :: bool
  frequency_shifts :: u8
  hw :: 'h

section \<open>Operations\<close>

definition ticker_interface_read :: "'h ticker_interface \<Rightarrow> 'h ticker \<Rightarrow> u32 \<times> 'h ticker" where
  "ticker_interface_read iface q = (let (v, h) = ti_read iface (hw q) in (v, q\<lparr>hw := h\<rparr>))"

definition convert_timestamp :: "u64 \<Rightarrow> u32 \<Rightarrow> u64" where
  "convert_timestamp ref timestamp =
     (let overflow = timestamp < ucast ref;
          result = (ref AND NOT 0xFFFFFFFF) OR ucast timestamp
      in if overflow then result + push_bit 32 1 else result)"

definition update_present_time :: "'h ticker_interface \<Rightarrow> 'h ticker \<Rightarrow> 'h ticker" where
  "update_present_time iface q =
     (let (ticker_time, q) = ticker_interface_read iface q
      in if ticker_time = tick_last_read q then q
         else
           let elapsed_ticks = ucast ((ticker_time - tick_last_read q) AND bitmask q) :: u64;
               q = q\<lparr>tick_last_read := ticker_time\<rparr>;
               (elapsed_us, q) =
                 (if frequency q = 1000000 then (elapsed_ticks, q)
                  else
                    let us_x_ticks = elapsed_ticks * 1000000;
                        elapsed_us = (if frequency_shifts q \<noteq> 0 then drop_bit (unat (frequency_shifts q)) us_x_ticks
                                      else us_x_ticks div ucast (frequency q));
                        q = q\<lparr>tick_remainder := tick_remainder q +
                              (us_x_ticks - (if frequency_shifts q \<noteq> 0
                                             then push_bit (unat (frequency_shifts q)) elapsed_us
                                             else elapsed_us * ucast (frequency q)))\<rparr>
                    in if tick_remainder q \<ge> ucast (frequency q)
                       then (elapsed_us + 1, q\<lparr>tick_remainder := tick_remainder q - ucast (frequency q)\<rparr>)
                       else (elapsed_us, q))
           in q\<lparr>present_time := present_time q + elapsed_us\<rparr>)"

definition compute_tick :: "u64 \<Rightarrow> 'h ticker \<Rightarrow> u32" where
  "compute_tick timestamp q =
     (let delta_us = timestamp - present_time q;
          delta =
            (if delta_us \<le> max_delta_us q then
               let delta = (if frequency q = 1000000 then ucast delta_us
                            else if frequency_shifts q \<noteq> 0
                            then ucast (push_bit (unat (frequency_shifts q)) delta_us div 1000000)
                            else ucast (delta_us * ucast (frequency q) div 1000000))
               in if delta > max_delta q then max_delta q else delta
             else max_delta q)
      in (tick_last_read q + delta) AND bitmask q)"

definition ticker_match_interval_passed :: "u32 \<Rightarrow> u32 \<Rightarrow> u32 \<Rightarrow> bool" where
  "ticker_match_interval_passed prev_tick cur_tick match_tick =
     (if match_tick > prev_tick then cur_tick \<ge> match_tick \<or> cur_tick < prev_tick
      else cur_tick < prev_tick \<and> cur_tick \<ge> match_tick)"

definition schedule_interrupt :: "'h ticker_interface \<Rightarrow> 'h ticker \<Rightarrow> 'h ticker" where
  "schedule_interrupt iface q =
     (let q = update_present_time iface q
      in if head q \<noteq> NULL then
           let present = present_time q;
               match_time = ev_timestamp q (head q)
           in if match_time \<le> present then q\<lparr>hw := ti_fire_interrupt iface (hw q)\<rparr>
              else
                let match_tick = compute_tick match_time q
                in if match_tick = tick_last_read q then q\<lparr>hw := ti_fire_interrupt iface (hw q)\<rparr>
                   else
                     let q = q\<lparr>hw := ti_set_interrupt iface match_tick (hw q)\<rparr>;
                         (cur_tick, q) = ticker_interface_read iface q
                     in if ticker_match_interval_passed (tick_last_read q) cur_tick match_tick
                        then q\<lparr>hw := ti_fire_interrupt iface (hw q)\<rparr> else q
         else
           let match_tick = (tick_last_read q + max_delta q) AND bitmask q
           in q\<lparr>hw := ti_set_interrupt iface match_tick (hw q)\<rparr>)"

text \<open>The search for the power of two in initialize, from bit \<open>i\<close> down to bit 1.\<close>

fun find_shifts :: "nat \<Rightarrow> u32 \<Rightarrow> u8" where
  "find_shifts 0 f = 0"
| "find_shifts (Suc i) f = (if push_bit (Suc i) 1 = f then of_nat (Suc i) else find_shifts i f)"

definition ticker_initialize :: "'h ticker_interface \<Rightarrow> 'h ticker \<Rightarrow> 'h ticker option" where
  "ticker_initialize iface q =
     (if initialized q then Some q
      else do {
        let q = q\<lparr>hw := ti_init iface (hw q)\<rparr>;
        guard (ti_frequency iface \<noteq> 0);
        let freq = (if ti_frequency iface = 0 then 1000000 else ti_frequency iface);
        let shifts = find_shifts 31 freq;
        guard (\<not> (ti_bits iface > 32 \<or> ti_bits iface < 4));
        let bits = (if ti_bits iface > 32 \<or> ti_bits iface < 4 then 32 else ti_bits iface);
        let md = push_bit (unat (bits - 4)) 7;
        let md_us = (ucast md * 1000000 + ucast freq - 1) div ucast freq;
        let q = q\<lparr>event_handler := NULL, head := NULL\<rparr>;
        let (v, q) = ticker_interface_read iface q;
        let q = q\<lparr>tick_last_read := v, tick_remainder := 0, frequency := freq, frequency_shifts := shifts,
                  bitmask := ucast (push_bit (unat bits) (1 :: u64) - 1), max_delta := md,
                  max_delta_us := md_us, present_time := 0, initialized := True\<rparr>;
        let q = update_present_time iface q;
        Some (schedule_interrupt iface q)
      })"

definition ticker_set_handler :: "'h ticker_interface \<Rightarrow> ptr \<Rightarrow> 'h ticker \<Rightarrow> 'h ticker option" where
  "ticker_set_handler iface handler q = do {
     q \<leftarrow> ticker_initialize iface q;
     Some (q\<lparr>event_handler := handler\<rparr>)
   }"

text \<open>The loop of ticker_irq_handler; a handler may insert or remove events.\<close>

partial_function (option) ticker_run_events ::
    "'h ticker_interface \<Rightarrow> (ptr \<Rightarrow> u32 \<Rightarrow> 'h ticker \<Rightarrow> 'h ticker option) \<Rightarrow> 'h ticker \<Rightarrow> 'h ticker option" where
  "ticker_run_events iface call q =
     (if head q = NULL then Some q
      else
        let q = update_present_time iface q
        in if ev_timestamp q (head q) \<le> present_time q then
             let p = head q;
                 q = q\<lparr>head := ev_next q p\<rparr>
             in do {
                  q \<leftarrow> (if event_handler q \<noteq> NULL then call (event_handler q) (ev_id q p) q else Some q);
                  ticker_run_events iface call q
                }
           else Some q)"

definition ticker_irq_handler ::
    "'h ticker_interface \<Rightarrow> (ptr \<Rightarrow> u32 \<Rightarrow> 'h ticker \<Rightarrow> 'h ticker option) \<Rightarrow> 'h ticker \<Rightarrow> 'h ticker option" where
  "ticker_irq_handler iface call q = do {
     let q = q\<lparr>hw := ti_clear_interrupt iface (hw q)\<rparr>;
     q \<leftarrow> ticker_run_events iface call q;
     Some (schedule_interrupt iface q)
   }"

text \<open>The search of ticker_insert_event_us: past every event that is due at the same time or before.\<close>

partial_function (option) event_pos ::
    "(ptr \<Rightarrow> u64) \<Rightarrow> (ptr \<Rightarrow> ptr) \<Rightarrow> u64 \<Rightarrow> ptr \<Rightarrow> ptr \<Rightarrow> (ptr \<times> ptr) option" where
  "event_pos ts nxt timestamp prev p =
     (if p \<noteq> NULL \<and> \<not> timestamp < ts p then event_pos ts nxt timestamp p (nxt p)
      else Some (prev, p))"

definition ticker_insert_event_us :: "'h ticker_interface \<Rightarrow> ptr \<Rightarrow> u64 \<Rightarrow> u32 \<Rightarrow> 'h ticker \<Rightarrow> 'h ticker option" where
  "ticker_insert_event_us iface obj timestamp id' q = do {
     let q = update_present_time iface q;
     let q = q\<lparr>ev_timestamp := (ev_timestamp q)(obj := timestamp), ev_id := (ev_id q)(obj := id')\<rparr>;
     (prev, p) \<leftarrow> event_pos (ev_timestamp q) (ev_next q) timestamp NULL (head q);
     let q = q\<lparr>ev_next := (ev_next q)(obj := p)\<rparr>;
     Some (if prev = NULL then schedule_interrupt iface (q\<lparr>head := obj\<rparr>)
           else q\<lparr>ev_next := (ev_next q)(prev := obj)\<rparr>)
   }"

definition ticker_insert_event :: "'h ticker_interface \<Rightarrow> ptr \<Rightarrow> u32 \<Rightarrow> u32 \<Rightarrow> 'h ticker \<Rightarrow> 'h ticker option" where
  "ticker_insert_event iface obj timestamp id' q =
     (let q = update_present_time iface q;
          absolute_timestamp = convert_timestamp (present_time q) timestamp
      in ticker_insert_event_us iface obj absolute_timestamp id' q)"

text \<open>The search of ticker_remove_event for the event before \<open>obj\<close>, NULL when there is none.\<close>

partial_function (option) event_before :: "(ptr \<Rightarrow> ptr) \<Rightarrow> ptr \<Rightarrow> ptr \<Rightarrow> ptr option" where
  "event_before nxt obj p =
     (if p \<noteq> NULL then if nxt p = obj then Some p else event_before nxt obj (nxt p)
      else Some NULL)"

definition ticker_remove_event :: "'h ticker_interface \<Rightarrow> ptr \<Rightarrow> 'h ticker \<Rightarrow> 'h ticker option" where
  "ticker_remove_event iface obj q =
     (if head q = obj then Some (schedule_interrupt iface (q\<lparr>head := ev_next q obj\<rparr>))
      else do {
        p \<leftarrow> event_before (ev_next q) obj (head q);
        Some (if p \<noteq> NULL then q\<lparr>ev_next := (ev_next q)(p := ev_next q obj)\<rparr> else q)
      })"

definition ticker_read_us :: "'h ticker_interface \<Rightarrow> 'h ticker \<Rightarrow> (u64 \<times> 'h ticker) option" where
  "ticker_read_us iface q = do {
     q \<leftarrow> ticker_initialize iface q;
     let q = update_present_time iface q;
     Some (present_time q, q)
   }"

definition ticker_read :: "'h ticker_interface \<Rightarrow> 'h ticker \<Rightarrow> (u32 \<times> 'h ticker) option" where
  "ticker_read iface q = do { (t, q) \<leftarrow> ticker_read_us iface q; Some (ucast t, q) }"

definition ticker_get_next_timestamp :: "'h ticker \<Rightarrow> u32 option" where
  "ticker_get_next_timestamp q = (if head q \<noteq> NULL then Some (ucast (ev_timestamp q (head q))) else None)"

end
