(* ===== verification/TickerInv.thy ===== *)
theory TickerInv
  imports HalTicker PrioQueue
begin

text \<open>
  What makes the HAL ticker layer correct: a clock without drift on each branch of the conversion, exact programming
  of the interrupt, and the event queue as a priority queue whose handler runs the due events in order.
\<close>

unbundle bit_operations_syntax

section \<open>The clock\<close>

text \<open>
  The hardware as the layer relies on it: reading returns the low \<open>b\<close> bits of a count \<open>ticks\<close> that
  reading, programming or clearing the interrupt does not change (that time passes between two
  operations is a change of the hardware state from outside).
\<close>

locale ticker_hw =
  fixes iface :: "'h ticker_interface" and ticks :: "'h \<Rightarrow> nat" and b :: nat
  assumes read: "fst (ti_read iface h) = word_of_nat (ticks h) AND mask b"
    and quiet: "ticks (snd (ti_read iface h)) = ticks h" "ticks (ti_clear_interrupt iface h) = ticks h"
      "ticks (ti_set_interrupt iface t h) = ticks h" "ticks (ti_fire_interrupt iface h) = ticks h"
    and bits: "4 \<le> b" "b \<le> 32" "ti_bits iface = word_of_nat b"
    and freq: "ti_frequency iface \<noteq> 0"

text \<open>
  \<open>clock_ok\<close>: at hardware count \<open>n\<close> the clock, started at count \<open>n0\<close>, shows the exact time in
  microseconds rounded down, and the remainder is what rounding has cut off.
\<close>

definition clock_ok :: "nat \<Rightarrow> nat \<Rightarrow> nat \<Rightarrow> 'h ticker \<Rightarrow> bool" where
  "clock_ok b n0 n q \<longleftrightarrow> frequency q \<noteq> 0 \<and>
     (frequency_shifts q \<noteq> 0 \<longrightarrow> unat (frequency q) = 2 ^ unat (frequency_shifts q)) \<and>
     bitmask q = mask b \<and> n0 \<le> n \<and> tick_last_read q = word_of_nat n AND mask b \<and>
     present_time q = word_of_nat ((n - n0) * 1000000 div unat (frequency q)) \<and>
     unat (tick_remainder q) = (n - n0) * 1000000 mod unat (frequency q)"

definition tick_conf :: "nat \<Rightarrow> 'h ticker \<Rightarrow> bool" where
  "tick_conf b q \<longleftrightarrow> 4 \<le> b \<and> b \<le> 32 \<and> frequency q \<noteq> 0 \<and>
     (frequency_shifts q \<noteq> 0 \<longrightarrow> unat (frequency q) = 2 ^ unat (frequency_shifts q)) \<and>
     bitmask q = mask b \<and> max_delta q = push_bit (b - 4) 7 \<and>
     max_delta_us q = (ucast (max_delta q) * 1000000 + ucast (frequency q) - 1) div ucast (frequency q)"

fun near :: "nat \<Rightarrow> nat \<Rightarrow> nat list \<Rightarrow> bool" where
  "near b n [] \<longleftrightarrow> True"
| "near b n (m # ms) \<longleftrightarrow> n \<le> m \<and> m - n < 2 ^ b \<and> near b m ms"

definition tick_run :: "'h ticker_interface \<Rightarrow> 'h list \<Rightarrow> 'h ticker \<Rightarrow> 'h ticker" where
  "tick_run iface hs q = fold (\<lambda>h q. update_present_time iface (q\<lparr>hw := h\<rparr>)) hs q"

text \<open>
  \<open>ev_rep\<close>: the events linked from the head are \<open>xs\<close>, in the order of their time stamps \<open>ts\<close> and
  with the identifiers \<open>ids\<close>. \<open>ticker_take\<close> is how the interrupt handler takes the first event out,
  \<open>ticker_store\<close> inserts an event.
\<close>

definition ev_rep :: "(ptr \<Rightarrow> u64) \<Rightarrow> (ptr \<Rightarrow> u32) \<Rightarrow> 'h ticker \<Rightarrow> ptr list \<Rightarrow> bool" where
  "ev_rep ts ids q xs \<longleftrightarrow> forward ((ev_next q)(NULL := head q)) NULL xs \<and> distinct xs \<and>
     by_priority (\<lambda>x. - uint (ts x)) xs \<and> (\<forall>x\<in>set xs. ev_timestamp q x = ts x \<and> ev_id q x = ids x)"

definition ticker_store ::
    "'h ticker_interface \<Rightarrow> (ptr \<Rightarrow> u64) \<Rightarrow> (ptr \<Rightarrow> u32) \<Rightarrow> ptr \<Rightarrow> 'h ticker \<Rightarrow> 'h ticker option" where
  "ticker_store iface ts ids obj q = ticker_insert_event_us iface obj (ts obj) (ids obj) q"

definition ticker_take :: "'h ticker \<Rightarrow> (ptr \<times> 'h ticker) option" where
  "ticker_take q = (if head q = NULL then None else Some (head q, q\<lparr>head := ev_next q (head q)\<rparr>))"

lemma unat64: "unat (x :: u64) < 2 ^ 64" using unsigned_less [of x] by simp
lemma unat_add64: "unat (a :: u64) + unat c < 2 ^ 64 \<Longrightarrow> unat (a + c) = unat a + unat c"
  by (simp add: unat_word_ariths)
lemma unat_mult64: "unat (a :: u64) * unat c < 2 ^ 64 \<Longrightarrow> unat (a * c) = unat a * unat c"
  by (simp add: unat_word_ariths)
lemma unat_u32: "unat (x :: u32) < 2 ^ 32" using unsigned_less [of x] by simp
lemma unat_ucast64: "unat (ucast (x :: u32) :: u64) = unat x"
proof -
  have "unat x < 2 ^ 64" using unat_u32 [of x] by simp
  then show ?thesis by (simp only: unsigned_ucast_eq take_bit_nat_eq_self) (simp add: take_bit_nat_eq_self)
qed

lemma take_bit_diff_word:
  "take_bit n (take_bit n (x :: u32) - take_bit n y) = take_bit n (x - y)"
proof -
  have u: "uint (take_bit n (z - w)) = take_bit (min n 32) (uint z - uint w)" for z w :: u32
    
    by (simp only: unsigned_take_bit_eq uint_word_ariths take_bit_eq_mod [symmetric] take_bit_take_bit len_of_numeral_defs)
      (simp flip: take_bit_eq_mod)
  have "uint (take_bit n (take_bit n x - take_bit n y)) = uint (take_bit n (x - y))"
  proof (cases "n \<le> 32")
    case True then show ?thesis unfolding u by (simp add: unsigned_take_bit_eq min_def take_bit_diff)
  next
    case False
    then have "take_bit n z = z" for z :: u32 by (simp add: take_bit_word_eq_self)
    then show ?thesis by simp
  qed
  then show ?thesis by (simp only: word_uint_eq_iff)
qed

lemma elapsed:
  assumes "n \<le> n'" "n' - n < 2 ^ b" "b \<le> 32"
  shows "unat (((word_of_nat n' AND mask b) - (word_of_nat n AND mask b) :: u32) AND mask b) = n' - n"
proof -
  have "((word_of_nat n' AND mask b) - (word_of_nat n AND mask b) :: u32) AND mask b = take_bit b (word_of_nat (n' - n))"
    using assms(1) by (simp add: take_bit_eq_mask [symmetric] take_bit_diff_word of_nat_diff)
  moreover have "n' - n < 2 ^ 32" using assms(2,3) power_increasing [of b 32 "2 :: nat"] by simp
  ultimately show ?thesis using assms(2)
    by (simp add: unsigned_take_bit_eq unat_of_nat take_bit_nat_eq_self)
qed

lemma carry:
  fixes A d f :: nat
  assumes "0 < f"
  shows "(A + d) div f = A div f + d div f + (if A mod f + d mod f \<ge> f then 1 else 0)"
    "(A + d) mod f = (if A mod f + d mod f \<ge> f then A mod f + d mod f - f else A mod f + d mod f)"
proof -
  have r: "A mod f < f" "d mod f < f" using assms by simp_all
  show "(A + d) div f = A div f + d div f + (if A mod f + d mod f \<ge> f then 1 else 0)"
    using r div_add1_eq [of A d f] add_strict_mono [OF r] by (auto simp: not_le intro!: div_nat_eqI)
  show "(A + d) mod f = (if A mod f + d mod f \<ge> f then A mod f + d mod f - f else A mod f + d mod f)"
    using r mod_add_eq [of A f d] add_strict_mono [OF r] by (auto simp: le_mod_geq)
qed


lemma update_clock_ok:
  assumes q: "clock_ok b n0 n q" and rd: "fst (ti_read iface (hw q)) = word_of_nat n' AND mask b"
    and n: "n \<le> n'" "n' - n < 2 ^ b" "b \<le> 32"
  shows "clock_ok b n0 n' (update_present_time iface q)"
proof -
  let ?f = "unat (frequency q)"
  let ?d = "n' - n"
  obtain h where rd': "ti_read iface (hw q) = (word_of_nat n' AND mask b, h)" using rd by (cases "ti_read iface (hw q)") auto
  have f0: "0 < ?f" "?f < 2 ^ 32" and bm: "bitmask q = mask b" and n0: "n0 \<le> n"
    and sh: "frequency_shifts q \<noteq> 0 \<Longrightarrow> ?f = 2 ^ unat (frequency_shifts q)"
    and tl: "tick_last_read q = word_of_nat n AND mask b"
    and pt: "present_time q = word_of_nat ((n - n0) * 1000000 div ?f)"
    and rem: "unat (tick_remainder q) = (n - n0) * 1000000 mod ?f"
    using q unat_u32 [of "frequency q"] by (auto simp: clock_ok_def unat_gt_0)
  have d: "unat (((word_of_nat n' AND mask b) - tick_last_read q) AND mask b) = ?d" unfolding tl by (rule elapsed [OF n])
  have d32: "?d < 2 ^ 32" using n(2,3) power_increasing [of b 32 "2 :: nat"] by simp
  have tot: "(n' - n0) * 1000000 = (n - n0) * 1000000 + ?d * 1000000" using n0 n by (simp flip: add_mult_distrib)
  show ?thesis
  proof (cases "word_of_nat n' AND mask b = tick_last_read q")
    case True
    then have "?d = 0" using d by simp
    then have "n' = n" using n by simp
    then show ?thesis using q True rd' by (simp add: clock_ok_def update_present_time_def ticker_interface_read_def)
  next
    case False
    define e where "e = (ucast (((word_of_nat n' AND mask b) - tick_last_read q) AND mask b) :: u64)"
    have e: "unat e = ?d" unfolding e_def unat_ucast64 by (rule d)
    show ?thesis
    proof (cases "frequency q = 1000000")
      case True
      have "present_time q + e = word_of_nat ((n' - n0) * 1000000 div 1000000)"
      proof -
        have "e = word_of_nat (unat e)" by simp
        then have "e = word_of_nat ?d" unfolding e .
        then show ?thesis using pt True n n0 by (simp flip: of_nat_add)
      qed
      then show ?thesis using q False rd' True bm n n0 rem
        by (simp add: clock_ok_def update_present_time_def ticker_interface_read_def Let_def e_def)
    next
      case F: False
      let ?us = "?d * 1000000"
      have us: "unat (e * 1000000) = ?us" using e d32 by (subst unat_mult64) simp_all
      define E where "E = (if frequency_shifts q \<noteq> 0 then drop_bit (unat (frequency_shifts q)) (e * 1000000)
                           else e * 1000000 div ucast (frequency q))"
      define R where "R = e * 1000000 - (if frequency_shifts q \<noteq> 0 then push_bit (unat (frequency_shifts q)) E else E * ucast (frequency q))"
      have E: "unat E = ?us div ?f"
      proof (cases "frequency_shifts q = 0")
        case True then show ?thesis using us by (simp add: E_def unat_div unat_ucast64)
      next
        case False
        then have "unat E = drop_bit (unat (frequency_shifts q)) (unat (e * 1000000))" by (simp add: E_def unsigned_drop_bit_eq take_bit_nat_eq_self [OF unat64])
        then show ?thesis unfolding us sh [OF False] by (simp add: drop_bit_eq_div)
      qed
      have Ef: "unat E * ?f \<le> ?us" unfolding E by simp
      have "unat (E * ucast (frequency q)) = unat E * ?f" using Ef d32 by (subst unat_mult64) (simp_all add: unat_ucast64)
      moreover have "push_bit (unat (frequency_shifts q)) E = E * ucast (frequency q)" if "frequency_shifts q \<noteq> 0"
      proof -
        have "(ucast (frequency q) :: u64) = word_of_nat (unat (ucast (frequency q) :: u64))" by simp
        then have "(ucast (frequency q) :: u64) = word_of_nat ?f" unfolding unat_ucast64 .
        then show ?thesis using sh that by (simp add: push_bit_eq_mult)
      qed
      ultimately have R: "unat R = ?us mod ?f"
        using Ef us unfolding R_def by (simp add: unat_sub word_le_nat_alt E minus_div_mult_eq_mod)
      have rr: "tick_remainder q + R \<ge> ucast (frequency q) \<longleftrightarrow> (n - n0) * 1000000 mod ?f + ?us mod ?f \<ge> ?f"
        "unat (tick_remainder q + R) = (n - n0) * 1000000 mod ?f + ?us mod ?f"
      proof -
        have "?f < 4294967296" using f0(2) by simp
        then have "(n - n0) * 1000000 mod ?f + ?us mod ?f < 18446744073709551616"
          using mod_less_divisor [OF f0(1), of "(n - n0) * 1000000"] mod_less_divisor [OF f0(1), of ?us] by linarith
        then show u: "unat (tick_remainder q + R) = (n - n0) * 1000000 mod ?f + ?us mod ?f" using rem R by (subst unat_add64) simp_all
        show "tick_remainder q + R \<ge> ucast (frequency q) \<longleftrightarrow> (n - n0) * 1000000 mod ?f + ?us mod ?f \<ge> ?f"
          unfolding word_le_nat_alt unat_ucast64 u ..
      qed
      note c = carry [OF f0(1), of "(n - n0) * 1000000" ?us, folded tot]
      define c1 where "c1 \<longleftrightarrow> tick_remainder q + R \<ge> ucast (frequency q)"
      have "update_present_time iface q = q\<lparr>hw := h, tick_last_read := word_of_nat n' AND mask b,
          tick_remainder := (if c1 then tick_remainder q + R - ucast (frequency q) else tick_remainder q + R),
          present_time := present_time q + (if c1 then E + 1 else E)\<rparr>"
        using False F rd' bm
        by (cases "frequency_shifts q = 0") (simp_all add: update_present_time_def ticker_interface_read_def Let_def e_def E_def R_def c1_def)
      moreover have "unat (if c1 then tick_remainder q + R - ucast (frequency q) else tick_remainder q + R) = (n' - n0) * 1000000 mod ?f"
        using rr c by (simp add: c1_def unat_sub unat_ucast64)
      moreover have "present_time q + (if c1 then E + 1 else E) = word_of_nat ((n' - n0) * 1000000 div ?f)"
      proof -
        have "E = word_of_nat (unat E)" by simp
        then show ?thesis using rr c pt unfolding c1_def E by (simp add: add.assoc)
      qed
      ultimately show ?thesis using q n n0 by (simp add: clock_ok_def)
    qed
  qed
qed


lemma clock_ok_frame [simp]:
  "clock_ok b n0 n (q\<lparr>hw := h\<rparr>) = clock_ok b n0 n q" "clock_ok b n0 n (q\<lparr>head := p\<rparr>) = clock_ok b n0 n q"
  "clock_ok b n0 n (q\<lparr>event_handler := p\<rparr>) = clock_ok b n0 n q" "clock_ok b n0 n (q\<lparr>ev_next := f\<rparr>) = clock_ok b n0 n q"
  "clock_ok b n0 n (q\<lparr>ev_timestamp := g\<rparr>) = clock_ok b n0 n q" "clock_ok b n0 n (q\<lparr>ev_id := i\<rparr>) = clock_ok b n0 n q"
  by (simp_all add: clock_ok_def)

lemma tick_conf_frame [simp]: "tick_conf b (q\<lparr>hw := h\<rparr>) = tick_conf b q"
  by (simp add: tick_conf_def)

lemma schedule_only_hw: "\<exists>h. schedule_interrupt iface q = (update_present_time iface q)\<lparr>hw := h\<rparr>"
  by (auto simp: schedule_interrupt_def ticker_interface_read_def Let_def split: prod.split intro: exI [of _ "hw (update_present_time iface q)"])

lemma find_shifts_pow: "i \<le> 31 \<Longrightarrow> find_shifts i f \<noteq> 0 \<Longrightarrow> unat f = 2 ^ unat (find_shifts i f)"
proof (induction i)
  case (Suc i)
  have "unat (push_bit (Suc i) 1 :: u32) = 2 ^ Suc i" if "Suc i \<le> 31"
  proof -
    have "(2 :: nat) ^ Suc i < 2 ^ 32" using that by (intro power_strict_increasing) simp_all
    moreover have "unat (push_bit (Suc i) 1 :: u32) = take_bit 32 (push_bit (Suc i) 1)" unfolding unsigned_push_bit_eq by simp
    ultimately show ?thesis by (simp only: push_bit_eq_mult mult_1 take_bit_nat_eq_self)
  qed
  moreover have "unat (word_of_nat (Suc i) :: u8) = Suc i" if "Suc i \<le> 31"
    using that by (simp only: unat_of_nat) (simp add: take_bit_nat_eq_self)
  ultimately show ?case using Suc by (auto split: if_splits)
qed simp

context ticker_hw
begin

lemma initialize_clock_ok:
  assumes "\<not> initialized q"
  defines "n \<equiv> ticks (ti_init iface (hw q))"
  shows "\<exists>q'. ticker_initialize iface q = Some q' \<and> clock_ok b n n q' \<and> frequency q' = ti_frequency iface \<and>
    head q' = NULL \<and> tick_conf b q'"
proof -
  let ?f = "ti_frequency iface"
  have b32: "unat (word_of_nat b :: u32) = b" using bits by (simp only: unat_of_nat) (simp add: take_bit_nat_eq_self)
  have bw: "\<not> (word_of_nat b > (32 :: u32) \<or> word_of_nat b < (4 :: u32))" using bits by (simp add: word_less_nat_alt b32 not_less)
  obtain h where rd: "ti_read iface (ti_init iface (hw q)) = (word_of_nat n AND mask b, h)" and h: "ticks h = n"
    using read [of "ti_init iface (hw q)"] quiet(1) [of "ti_init iface (hw q)"] by (cases "ti_read iface (ti_init iface (hw q))") (auto simp: n_def)
  let ?md = "push_bit (b - 4) 7 :: u32"
  let ?mu = "(ucast ?md * 1000000 + ucast ?f - 1) div ucast ?f :: u64"
  have b4: "unat (word_of_nat b - 4 :: u32) = b - 4" using bits b32 by (simp add: unat_sub word_le_nat_alt)
  have q1: "ticker_initialize iface q = Some (schedule_interrupt iface (update_present_time iface
      (q\<lparr>event_handler := NULL, head := NULL, hw := h, tick_last_read := word_of_nat n AND mask b, tick_remainder := 0,
        frequency := ?f, frequency_shifts := find_shifts 31 ?f, bitmask := mask b, max_delta := ?md, max_delta_us := ?mu,
        present_time := 0, initialized := True\<rparr>)))" (is "_ = Some (schedule_interrupt iface (update_present_time iface ?q))")
  proof -
    have "ucast (push_bit b (1 :: u64) - 1) = (mask b :: u32)"
    proof -
      have "push_bit b (1 :: u64) - 1 = mask b" by (simp add: mask_eq_exp_minus_1)
      then show ?thesis by (simp add: bit_eq_iff bit_simps)
    qed
    with assms(1) freq bits bw b32 b4 rd show ?thesis
      by (simp add: ticker_initialize_def Let_def ticker_interface_read_def)
  qed
  have "clock_ok b n n ?q" using freq find_shifts_pow [of 31 ?f] by (simp add: clock_ok_def)
  then have 1: "clock_ok b n n (update_present_time iface ?q)"
    by (rule update_clock_ok) (use read [of h] h bits in simp_all)
  have c: "tick_conf b ?q" using freq bits find_shifts_pow [of 31 ?f] by (simp add: tick_conf_def)
  have 2: "head (update_present_time iface p) = head p \<and> frequency (update_present_time iface p) = frequency p \<and>
      ticks (hw (update_present_time iface p)) = ticks (hw p) \<and> tick_conf b (update_present_time iface p) = tick_conf b p" for p
    using quiet(1) [of "hw p"] by (cases "ti_read iface (hw p)") (simp add: update_present_time_def ticker_interface_read_def Let_def tick_conf_def)
  obtain g where 3: "ticker_initialize iface q = Some ((update_present_time iface (update_present_time iface ?q))\<lparr>hw := g\<rparr>)"
    using schedule_only_hw q1 by metis
  have "clock_ok b n n (update_present_time iface (update_present_time iface ?q))"
    by (rule update_clock_ok [OF 1]) (use read [of "hw (update_present_time iface ?q)"] 2 [of ?q] h bits in simp_all)
  then show ?thesis unfolding 3 using 2 c by simp
qed

lemma run_clock_ok:
  "clock_ok b n0 n q \<Longrightarrow> near b n (map ticks hs) \<Longrightarrow> clock_ok b n0 (last (n # map ticks hs)) (tick_run iface hs q)"
proof (induction hs arbitrary: n q)
  case (Cons h hs)
  have "clock_ok b n0 (ticks h) (update_present_time iface (q\<lparr>hw := h\<rparr>))"
    by (rule update_clock_ok [of b n0 n]) (use Cons.prems read bits in simp_all)
  from Cons.IH [OF this] show ?case using Cons.prems(2) by (simp add: tick_run_def)
qed (simp add: tick_run_def)

end


section \<open>Programming the interrupt\<close>

lemma conf_bounds:
  assumes c: "tick_conf b q"
  shows "0 < unat (frequency q)" "unat (frequency q) < 4294967296" "unat (max_delta q) \<le> 1879048192"
    "unat (max_delta_us q) = (unat (max_delta q) * 1000000 + unat (frequency q) - 1) div unat (frequency q)"
proof -
  let ?f = "unat (frequency q)" and ?md = "unat (max_delta q)"
  show f: "0 < ?f" "?f < 4294967296" using c unat_u32 [of "frequency q"] by (auto simp: tick_conf_def unat_gt_0)
  show md: "?md \<le> 1879048192"
  proof -
    have "?md = take_bit 32 (push_bit (b - 4) 7)" using c by (simp add: tick_conf_def unsigned_push_bit_eq)
    also have "\<dots> \<le> push_bit (b - 4) 7" by (rule take_bit_nat_less_eq_self)
    also have "\<dots> \<le> 2 ^ 28 * 7" using c by (simp only: push_bit_eq_mult mult.commute [of 7]) (intro mult_le_mono power_increasing, auto simp: tick_conf_def)
    finally show ?thesis by simp
  qed
  have mf: "unat (ucast (max_delta q) * 1000000 + ucast (frequency q) :: u64) = ?md * 1000000 + ?f"
  proof -
    have m: "unat (ucast (max_delta q) * 1000000 :: u64) = ?md * 1000000"
      using md by (subst unat_mult64) (simp_all add: unat_ucast64)
    show ?thesis using m f md by (subst unat_add64) (simp_all add: unat_ucast64)
  qed
  moreover have "(ucast (max_delta q) * 1000000 + ucast (frequency q) :: u64) \<noteq> 0" using mf f by (metis add_gr_0 not_gr_zero unat_0)
  ultimately show mu: "unat (max_delta_us q) = (?md * 1000000 + ?f - 1) div ?f"
    using c by (simp add: tick_conf_def unat_div unat_ucast64 unat_minus_one)
qed

section \<open>Passing a tick\<close>

text \<open>The interval test is the cyclic one: has the counter moved past \<open>match_tick\<close> on its way from \<open>prev_tick\<close> to \<open>cur_tick\<close>?\<close>

lemma interval_passed_iff:
  "ticker_match_interval_passed prev_tick cur_tick match_tick \<longleftrightarrow>
   (match_tick - prev_tick) - 1 < cur_tick - prev_tick"
proof -
  have u: "uint (x - y) = (if uint y \<le> uint x then uint x - uint y else uint x - uint y + 2 ^ 32)" for x y :: u32
    by (simp add: uint_sub_if')
  have b: "0 \<le> uint z \<and> uint z < 4294967296" for z :: u32 using uint_lt2p [of z] by simp
  obtain m p c where v: "uint match_tick = m" "uint prev_tick = p" "uint cur_tick = c" by blast
  have "0 \<le> m \<and> m < 4294967296" "0 \<le> p \<and> p < 4294967296" "0 \<le> c \<and> c < 4294967296"
    using b [of match_tick] b [of prev_tick] b [of cur_tick] v by simp_all
  then show ?thesis unfolding ticker_match_interval_passed_def word_less_def word_le_def u v by (auto split: if_splits)
qed

section \<open>The event queue\<close>

lemma update_frame [simp]:
  "head (update_present_time iface q) = head q" "ev_next (update_present_time iface q) = ev_next q"
  "ev_timestamp (update_present_time iface q) = ev_timestamp q" "ev_id (update_present_time iface q) = ev_id q"
  "event_handler (update_present_time iface q) = event_handler q" "frequency (update_present_time iface q) = frequency q"
  by (cases "ti_read iface (hw q)"; simp add: update_present_time_def ticker_interface_read_def Let_def)+

lemma schedule_frame [simp]:
  "head (schedule_interrupt iface q) = head q" "ev_next (schedule_interrupt iface q) = ev_next q"
  "ev_timestamp (schedule_interrupt iface q) = ev_timestamp q" "ev_id (schedule_interrupt iface q) = ev_id q"
  "event_handler (schedule_interrupt iface q) = event_handler q" "frequency (schedule_interrupt iface q) = frequency q"
  using schedule_only_hw [of iface q] by auto

lemma ev_rep_frame [simp]:
  "ev_rep ts ids (update_present_time iface q) xs = ev_rep ts ids q xs"
  "ev_rep ts ids (schedule_interrupt iface q) xs = ev_rep ts ids q xs"
  "ev_rep ts ids (q\<lparr>hw := h\<rparr>) xs = ev_rep ts ids q xs"
  by (simp_all add: ev_rep_def)

lemma event_pos_spec:
  assumes "forward n p xs" "\<And>x. x \<noteq> NULL \<Longrightarrow> n x = nxt x"
  shows "event_pos ts nxt t p (n p) =
    Some (before p (takeWhile (\<lambda>x. ts x \<le> t) xs), after (dropWhile (\<lambda>x. ts x \<le> t) xs))"
  using assms(1)
proof (induction xs arbitrary: p)
  case Nil then show ?case by (subst event_pos.simps) auto
next
  case (Cons x xs)
  have x: "n p = x" "x \<noteq> NULL" "nxt x = n x" using Cons.prems assms(2) by auto
  have "event_pos ts nxt t x (n x) =
      Some (before x (takeWhile (\<lambda>x. ts x \<le> t) xs), after (dropWhile (\<lambda>x. ts x \<le> t) xs))"
    by (rule Cons.IH) (use Cons.prems in simp)
  then show ?case unfolding x(1) using x(2,3) by (subst event_pos.simps) (simp add: not_less)
qed

lemma store_spec:
  assumes r: "ev_rep ts ids q xs" and o: "obj \<noteq> NULL" "obj \<notin> set xs"
  shows "\<exists>q'. ticker_store iface ts ids obj q = Some q' \<and> ev_rep ts ids q' (pinsert (\<lambda>x. - uint (ts x)) obj xs)"
proof -
  obtain q1 where q1: "q1 = update_present_time iface q" by blast
  have r1: "ev_rep ts ids q1 xs" using r by (simp add: q1)
  let ?n = "(ev_next q1)(NULL := head q1)"
  have fw: "forward ?n NULL xs" and dx: "distinct xs" and so: "by_priority (\<lambda>x. - uint (ts x)) xs"
    and el: "\<And>x. x \<in> set xs \<Longrightarrow> ev_timestamp q1 x = ts x \<and> ev_id q1 x = ids x" using r1 by (auto simp: ev_rep_def)
  have nn: "NULL \<notin> set xs" using forward_nonnull [OF fw] .
  let ?T = "(ev_timestamp q1)(obj := ts obj)"
  obtain us vs where us: "takeWhile (\<lambda>x. ?T x \<le> ts obj) xs = us" and vs: "dropWhile (\<lambda>x. ?T x \<le> ts obj) xs = vs" by blast
  have xs: "xs = us @ vs" unfolding us [symmetric] vs [symmetric] by simp
  have tk: "takeWhile (\<lambda>x. - uint (ts x) \<ge> - uint (ts obj)) xs = us" "dropWhile (\<lambda>x. - uint (ts x) \<ge> - uint (ts obj)) xs = vs"
    unfolding us [symmetric] vs [symmetric] using o(2) el
    by (auto intro!: takeWhile_cong dropWhile_cong simp: word_le_def)
  have pin: "pinsert (\<lambda>x. - uint (ts x)) obj xs = us @ obj # vs" unfolding pinsert_split tk ..
  have so': "by_priority (\<lambda>x. - uint (ts x)) (us @ obj # vs)" using sorted_pinsert [OF so, of obj] unfolding pin .
  have pos: "event_pos ?T (ev_next q1) (ts obj) NULL (head q1) = Some (before NULL us, after vs)"
    using event_pos_spec [OF fw, of "ev_next q1" ?T "ts obj"] us vs by simp
  have bu: "before NULL us = NULL \<longleftrightarrow> us = []" using nn xs by (intro null_before) auto
  have ins: "forward n' NULL (us @ obj # vs)" if "n' obj = after vs" "n' (before NULL us) = obj"
    "\<And>x. x \<noteq> obj \<Longrightarrow> x \<noteq> before NULL us \<Longrightarrow> n' x = ?n x" for n'
    by (rule forward_insert [of ?n NULL us vs obj n']) (use fw dx nn o xs that in auto)
  have bo: "before NULL us \<noteq> obj" using before_in [of NULL us] o xs by auto
  have rep: "ev_rep ts ids p (us @ obj # vs)" if "forward ((ev_next p)(NULL := head p)) NULL (us @ obj # vs)"
    "ev_timestamp p = ?T" "ev_id p = (ev_id q1)(obj := ids obj)" for p :: "'a ticker"
    using that dx o el so' unfolding ev_rep_def xs by auto
  show ?thesis
  proof (cases "us = []")
    case True
    let ?p = "q1\<lparr>ev_timestamp := ?T, ev_id := (ev_id q1)(obj := ids obj), ev_next := (ev_next q1)(obj := after vs), head := obj\<rparr>"
    have "ticker_store iface ts ids obj q = Some (schedule_interrupt iface ?p)"
      using pos True by (simp add: ticker_store_def ticker_insert_event_us_def Let_def q1 [symmetric])
    moreover have "ev_rep ts ids ?p (us @ obj # vs)"
    proof (rule rep)
      show "forward ((ev_next ?p)(NULL := head ?p)) NULL (us @ obj # vs)" by (rule ins) (use True o in auto)
    qed simp_all
    ultimately show ?thesis unfolding pin by simp
  next
    case False
    let ?p = "q1\<lparr>ev_timestamp := ?T, ev_id := (ev_id q1)(obj := ids obj), ev_next := (ev_next q1)(obj := after vs, before NULL us := obj)\<rparr>"
    have "ticker_store iface ts ids obj q = Some ?p"
      using pos False bu by (simp add: ticker_store_def ticker_insert_event_us_def Let_def q1 [symmetric])
    moreover have "ev_rep ts ids ?p (us @ obj # vs)"
    proof (rule rep)
      show "forward ((ev_next ?p)(NULL := head ?p)) NULL (us @ obj # vs)" by (rule ins) (use False bu o bo in auto)
    qed simp_all
    ultimately show ?thesis unfolding pin by simp
  qed
qed

lemma take_spec: "ev_rep ts ids q (x # xs) \<Longrightarrow> \<exists>q'. ticker_take q = Some (x, q') \<and> ev_rep ts ids q' xs"
proof -
  assume r: "ev_rep ts ids q (x # xs)"
  then have h: "head q = x" "x \<noteq> NULL" "forward ((ev_next q)(NULL := head q)) x xs" "x \<notin> set xs"
    by (simp_all add: ev_rep_def del: fun_upd_apply) simp
  have nn: "NULL \<notin> set xs" using forward_nonnull [OF h(3)] .
  let ?n = "(ev_next q)(NULL := ev_next q x)"
  have "forward ?n NULL xs"
  proof (cases xs)
    case Nil then show ?thesis using h by simp
  next
    case (Cons y ys)
    have "forward ?n y ys = forward ((ev_next q)(NULL := head q)) y ys"
      by (rule forward_cong) (use nn Cons in auto)
    then show ?thesis using h Cons by (simp del: fun_upd_apply) simp
  qed
  then have "ev_rep ts ids (q\<lparr>head := ev_next q x\<rparr>) xs" using r by (simp add: ev_rep_def)
  then show ?thesis using h by (simp add: ticker_take_def)
qed

interpretation ticker_events: prio_queue where rep = "ev_rep ts ids" and put = "ticker_store iface ts ids"
    and get = ticker_take and pri = "\<lambda>x. - uint (ts x)" and fresh = "\<lambda>x. x \<noteq> NULL" for iface ts ids
  by unfold_locales (simp_all add: store_spec take_spec)

section \<open>The interrupt handler\<close>

text \<open>A handler \<open>eh\<close> that leaves the queue alone: its effect \<open>g\<close> is outside, where \<open>log\<close> records its calls.\<close>

locale ticker_handler = ticker_hw +
  fixes call :: "ptr \<Rightarrow> u32 \<Rightarrow> 'a ticker \<Rightarrow> 'a ticker option" and eh :: ptr and g :: "u32 \<Rightarrow> 'a \<Rightarrow> 'a" and log :: "'a \<Rightarrow> u32 list"
  assumes call: "call eh i q = Some (q\<lparr>hw := g i (hw q)\<rparr>)" and eh: "eh \<noteq> NULL" and g: "ticks (g i h) = ticks h"
    and log: "log (g i h) = log h @ [i]" "log (snd (ti_read iface h)) = log h" "log (ti_clear_interrupt iface h) = log h"
      "log (ti_set_interrupt iface t h) = log h" "log (ti_fire_interrupt iface h) = log h"
begin

lemma update_hw: "hw (update_present_time iface q) = snd (ti_read iface (hw q))"
  by (cases "ti_read iface (hw q)") (simp add: update_present_time_def ticker_interface_read_def Let_def)

lemma update_frozen:
  assumes c: "clock_ok b n0 (ticks (hw q)) q"
  shows "clock_ok b n0 (ticks (hw q)) (update_present_time iface q)"
  by (rule update_clock_ok [OF c]) (use read bits in simp_all)

lemma update_later:
  assumes c: "clock_ok b n0 n q" and n: "n \<le> ticks (hw q)" "ticks (hw q) - n < 2 ^ b"
  shows "clock_ok b n0 (ticks (hw q)) (update_present_time iface q)"
    "present_time (update_present_time iface q) = word_of_nat ((ticks (hw q) - n0) * 1000000 div unat (frequency q))"
    "hw (update_present_time iface q) = snd (ti_read iface (hw q))" "frequency (update_present_time iface q) = frequency q"
proof -
  show 1: "clock_ok b n0 (ticks (hw q)) (update_present_time iface q)"
    by (rule update_clock_ok [OF c]) (use read bits n in simp_all)
  show f: "frequency (update_present_time iface q) = frequency q" "hw (update_present_time iface q) = snd (ti_read iface (hw q))"
    by (cases "ti_read iface (hw q)"; simp add: update_present_time_def ticker_interface_read_def Let_def)+
  show "present_time (update_present_time iface q) = word_of_nat ((ticks (hw q) - n0) * 1000000 div unat (frequency q))"
    using 1 f by (simp add: clock_ok_def)
qed

lemma run_events_spec:
  assumes "ev_rep ts ids q xs" "clock_ok b n0 n q" "n \<le> ticks (hw q)" "ticks (hw q) - n < 2 ^ b" "event_handler q = eh"
    "now = word_of_nat ((ticks (hw q) - n0) * 1000000 div unat (frequency q))"
  shows "\<exists>q' n'. ticker_run_events iface call q = Some q' \<and> ev_rep ts ids q' (dropWhile (\<lambda>x. ts x \<le> now) xs) \<and>
    log (hw q') = log (hw q) @ map ids (takeWhile (\<lambda>x. ts x \<le> now) xs) \<and>
    clock_ok b n0 n' q' \<and> ticks (hw q') = ticks (hw q) \<and> n' \<le> ticks (hw q) \<and> ticks (hw q) - n' < 2 ^ b"
  using assms
proof (induction xs arbitrary: q n)
  case Nil
  then have "head q = NULL" by (simp add: ev_rep_def)
  then show ?case using Nil by (subst ticker_run_events.simps) auto
next
  case (Cons x xs)
  let ?q = "update_present_time iface q"
  note u = update_later [OF Cons.prems(2-4), folded Cons.prems(6)]
  have h: "head q = x" "x \<noteq> NULL" "ev_timestamp q x = ts x" "ev_id q x = ids x" using Cons.prems(1) by (simp_all add: ev_rep_def)
  show ?case
  proof (cases "ts x \<le> now")
    case False
    then have "ticker_run_events iface call q = Some ?q"
      using h u(2) by (subst ticker_run_events.simps) (simp add: Let_def)
    then show ?thesis using False u Cons.prems(1) quiet(1) log(2) bits by (intro exI [of _ ?q] exI [of _ "ticks (hw q)"]) simp
  next
    case True
    let ?q1 = "?q\<lparr>head := ev_next q x\<rparr>"
    let ?q2 = "?q1\<lparr>hw := g (ids x) (hw ?q1)\<rparr>"
    have t: "ticks (hw ?q2) = ticks (hw q)" "log (hw ?q2) = log (hw q) @ [ids x]"
      using u(3) g quiet(1) log by simp_all
    have "ev_rep ts ids ?q (x # xs)" using Cons.prems(1) by simp
    then have "ev_rep ts ids ?q1 xs" using take_spec [of ts ids ?q x xs] h by (auto simp: ticker_take_def)
    then have "\<exists>q' n'. ticker_run_events iface call ?q2 = Some q' \<and> ev_rep ts ids q' (dropWhile (\<lambda>x. ts x \<le> now) xs) \<and>
        log (hw q') = log (hw ?q2) @ map ids (takeWhile (\<lambda>x. ts x \<le> now) xs) \<and>
        clock_ok b n0 n' q' \<and> ticks (hw q') = ticks (hw ?q2) \<and> n' \<le> ticks (hw ?q2) \<and> ticks (hw ?q2) - n' < 2 ^ b"
      by (intro Cons.IH [where n = "ticks (hw q)"]) (use u Cons.prems(5,6) t in simp_all)
    moreover have "ticker_run_events iface call q = ticker_run_events iface call ?q2"
      using h u(2) True Cons.prems(5) call eh by (subst ticker_run_events.simps) (simp add: Let_def)
    ultimately show ?thesis using True t by simp
  qed
qed

lemma schedule_frozen:
  shows "clock_ok b n0 (ticks (hw q)) q \<Longrightarrow> clock_ok b n0 (ticks (hw q)) (schedule_interrupt iface q)"
    "ticks (hw (schedule_interrupt iface q)) = ticks (hw q)" "log (hw (schedule_interrupt iface q)) = log (hw q)"
proof -
  obtain h where h: "schedule_interrupt iface q = (update_present_time iface q)\<lparr>hw := h\<rparr>" using schedule_only_hw [of iface q] by blast
  show "clock_ok b n0 (ticks (hw q)) (schedule_interrupt iface q)" if "clock_ok b n0 (ticks (hw q)) q"
    unfolding h using update_frozen [OF that] by simp
  have rd: "ticks k' = ticks k \<and> log k' = log k" if "ti_read iface k = (v, k')" for k v k'
    using quiet(1) [of k] log(2) [of k] that by simp
  let ?H = "\<lambda>h. ticks h = ticks (hw q) \<and> log h = log (hw q)"
  have "?H (hw (update_present_time iface q))" using update_hw [of q] quiet log by simp
  then have "?H (hw (schedule_interrupt iface q))"
    unfolding schedule_interrupt_def Let_def ticker_interface_read_def
    using quiet log by (auto split: prod.split dest!: rd)
  then show "ticks (hw (schedule_interrupt iface q)) = ticks (hw q)" "log (hw (schedule_interrupt iface q)) = log (hw q)" by simp_all
qed

lemma irq_handler_spec:
  assumes r: "ev_rep ts ids q xs" and c: "clock_ok b n0 n q" "n \<le> ticks (hw q)" "ticks (hw q) - n < 2 ^ b" and e: "event_handler q = eh"
    and now: "now = word_of_nat ((ticks (hw q) - n0) * 1000000 div unat (frequency q))"
  shows "\<exists>q'. ticker_irq_handler iface call q = Some q' \<and> ev_rep ts ids q' (dropWhile (\<lambda>x. ts x \<le> now) xs) \<and>
    log (hw q') = log (hw q) @ map ids (takeWhile (\<lambda>x. ts x \<le> now) xs)"
proof -
  let ?q = "q\<lparr>hw := ti_clear_interrupt iface (hw q)\<rparr>"
  have t: "ticks (hw ?q) = ticks (hw q)" "log (hw ?q) = log (hw q)" using quiet log by simp_all
  obtain q' where 1: "ticker_run_events iface call ?q = Some q'" "ev_rep ts ids q' (dropWhile (\<lambda>x. ts x \<le> now) xs)"
    "log (hw q') = log (hw q) @ map ids (takeWhile (\<lambda>x. ts x \<le> now) xs)"
    using run_events_spec [of ts ids ?q xs n0 n now] r c e t now by auto
  show ?thesis using 1 schedule_frozen(3) [of q'] by (simp add: ticker_irq_handler_def)
qed

lemma store_frozen:
  assumes c: "clock_ok b n0 (ticks (hw q)) q" and s: "ticker_store iface ts ids obj q = Some q'"
  shows "clock_ok b n0 (ticks (hw q)) q' \<and> ticks (hw q') = ticks (hw q) \<and> event_handler q' = event_handler q \<and> frequency q' = frequency q"
proof -
  have sf: "clock_ok b n0 (ticks (hw q)) (schedule_interrupt iface p)"
    if "clock_ok b n0 (ticks (hw q)) p" "ticks (hw p) = ticks (hw q)" for p
    using schedule_frozen(1) [of n0 p] that by simp
  have st: "ticks (hw (schedule_interrupt iface p)) = ticks (hw q)"
    if "clock_ok b n0 (ticks (hw q)) p" "ticks (hw p) = ticks (hw q)" for p
    using schedule_frozen(2) [of p] that by simp
  show ?thesis
    using s update_frozen [OF c] update_hw [of q] quiet(1)
    by (auto simp: ticker_store_def ticker_insert_event_us_def Let_def bind_eq_Some_conv split: if_splits intro!: sf st)
qed

lemma store_all_frozen:
  "clock_ok b n0 (ticks (hw q)) q \<Longrightarrow> put_all (ticker_store iface ts ids) xs q = Some q' \<Longrightarrow>
   clock_ok b n0 (ticks (hw q)) q' \<and> ticks (hw q') = ticks (hw q) \<and> event_handler q' = event_handler q \<and> frequency q' = frequency q"
proof (induction xs arbitrary: q)
  case (Cons x xs)
  obtain q1 where 1: "ticker_store iface ts ids x q = Some q1" "put_all (ticker_store iface ts ids) xs q1 = Some q'"
    using Cons.prems(2) by (auto simp: bind_eq_Some_conv)
  note s = store_frozen [OF Cons.prems(1) 1(1)]
  show ?case using Cons.IH [OF _ 1(2)] s by simp
qed simp

end

section \<open>Properties\<close>

text \<open>
  C19: The ticker clock does not drift. Started at hardware count n0 and then read at any later counts, each less
  than a full counter period after the one before, it shows exactly the elapsed time in microseconds,
  rounded down once (and not once for every reading), for every counter width from 4 to 32 bits and
  every frequency, on each of the three branches of update_present_time.
\<close>

theorem ticker_no_drift:
  assumes hw: "ticker_hw iface ticks b" and q: "\<not> initialized q" and n0: "n0 = ticks (ti_init iface (hw q))"
    and hs: "near b n0 (map ticks hs)"
  shows "\<exists>q'. ticker_initialize iface q = Some q' \<and> present_time (tick_run iface hs q') =
    word_of_nat ((last (n0 # map ticks hs) - n0) * 1000000 div unat (ti_frequency iface))"
proof -
  obtain q' where i: "ticker_initialize iface q = Some q'" "clock_ok b n0 n0 q'" "frequency q' = ti_frequency iface"
    using ticker_hw.initialize_clock_ok [OF hw q] n0 by auto
  have "frequency (update_present_time iface p) = frequency p" for p
    by (cases "ti_read iface (hw p)") (simp add: update_present_time_def ticker_interface_read_def Let_def)
  then have "frequency (tick_run iface hs p) = frequency p" for p
    by (induction hs arbitrary: p) (simp_all add: tick_run_def)
  then show ?thesis using ticker_hw.run_clock_ok [OF hw i(2) hs] i by (simp add: clock_ok_def)
qed

text \<open>A 16-bit counter at 32768 Hz, like that of the low power ticker, read three times over two seconds.\<close>

theorem ticker_no_drift_witness:
  "\<exists>iface q q'. ticker_hw iface id 16 \<and> ticker_initialize iface q = Some q' \<and>
     present_time (tick_run iface [30000, 60000, 90000] q') = 2441406"
proof -
  let ?i = "\<lparr>ti_init = id, ti_read = (\<lambda>h. (word_of_nat h AND mask 16, h)), ti_disable_interrupt = id, ti_clear_interrupt = id,
      ti_set_interrupt = (\<lambda>t. id), ti_fire_interrupt = id, ti_frequency = 32768, ti_bits = 16\<rparr>"
  let ?q = "\<lparr>ev_timestamp = (\<lambda>_. 0), ev_id = (\<lambda>_. 0), ev_next = (\<lambda>_. 0), event_handler = 0, head = 0, frequency = 0,
      bitmask = 0, max_delta = 0, max_delta_us = 0, tick_last_read = 0, tick_remainder = 0, present_time = 0, initialized = False,
      frequency_shifts = 0, hw = 10000\<rparr>"
  have hw: "ticker_hw ?i id 16" by unfold_locales simp_all
  have "near 16 10000 (map id [30000, 60000, 90000])" by simp
  from ticker_no_drift [OF hw _ _ this, of ?q] obtain q' where "ticker_initialize ?i ?q = Some q'"
    "present_time (tick_run ?i [30000, 60000, 90000] q') = 2441406"
    by auto
  with hw show ?thesis by blast
qed

text \<open>
  C20: Events inserted into an empty ticker queue whose clock has been updated at the present count, in any order and with any
  64-bit time stamps, are handled in the order of their time stamps, those of equal time stamps in the order of insertion: when the
  interrupt handler runs less than a counter period later, with an event handler that sets and removes no events
  (\<open>ticker_handler\<close>), it calls the event handler with the identifiers
  of exactly the events that are due by then and leaves the others queued in order.
\<close>

theorem ticker_events_in_order:
  assumes h: "ticker_handler iface ticks b call eh g log" and c: "clock_ok b n0 (ticks (hw q)) q"
    and q: "head q = NULL" "event_handler q = eh" and evs: "distinct evs" "NULL \<notin> set evs"
    and later: "ticks (hw q) \<le> ticks k" "ticks k - ticks (hw q) < 2 ^ b"
    and now: "now = word_of_nat ((ticks k - n0) * 1000000 div unat (frequency q))"
  shows "\<exists>q1 q2. put_all (ticker_store iface ts ids) evs q = Some q1 \<and>
    ticker_irq_handler iface call (q1\<lparr>hw := k\<rparr>) = Some q2 \<and>
    log (hw q2) = log k @ map ids (takeWhile (\<lambda>x. ts x \<le> now) (sort_key (\<lambda>x. uint (ts x)) evs)) \<and>
    ev_rep ts ids q2 (dropWhile (\<lambda>x. ts x \<le> now) (sort_key (\<lambda>x. uint (ts x)) evs))"
proof -
  note fill = ticker_events.fill [of ts ids q "[]" evs iface]
  obtain q1 where 1: "put_all (ticker_store iface ts ids) evs q = Some q1" "ev_rep ts ids q1 (sort_key (\<lambda>x. uint (ts x)) evs)"
    using fill evs q(1) fold_pinsert_sort [of "\<lambda>x. - uint (ts x)" evs] by (auto simp: ev_rep_def)
  have f: "clock_ok b n0 (ticks (hw q)) q1" "event_handler q1 = eh" "frequency q1 = frequency q"
    using ticker_handler.store_all_frozen [OF h c 1(1)] q(2) by simp_all
  have "ev_rep ts ids (q1\<lparr>hw := k\<rparr>) (sort_key (\<lambda>x. uint (ts x)) evs)" "clock_ok b n0 (ticks (hw q)) (q1\<lparr>hw := k\<rparr>)"
    "ticks (hw q) \<le> ticks (hw (q1\<lparr>hw := k\<rparr>))" "ticks (hw (q1\<lparr>hw := k\<rparr>)) - ticks (hw q) < 2 ^ b" "event_handler (q1\<lparr>hw := k\<rparr>) = eh"
    "now = word_of_nat ((ticks (hw (q1\<lparr>hw := k\<rparr>)) - n0) * 1000000 div unat (frequency (q1\<lparr>hw := k\<rparr>)))"
    using 1(2) f later now by simp_all
  from ticker_handler.irq_handler_spec [OF h this] 1(1) show ?thesis by auto
qed

theorem ticker_events_in_order_witness:
  "\<exists>(iface :: (nat \<times> u32 list) ticker_interface) call q q1 q2.
     put_all (ticker_store iface ((\<lambda>_. 50)(0x110 := 20, 0x130 := 70)) (\<lambda>x. x)) [0x100, 0x130, 0x110, 0x120] q = Some q1 \<and>
     ticker_irq_handler iface call (q1\<lparr>hw := (60, [])\<rparr>) = Some q2 \<and> snd (hw q2) = [0x110, 0x100, 0x120] \<and>
     ev_rep ((\<lambda>_. 50)(0x110 := 20, 0x130 := 70)) (\<lambda>x. x) q2 [0x130]"
proof -
  let ?i = "\<lparr>ti_init = id, ti_read = (\<lambda>h. (word_of_nat (fst h) AND mask 32, h)), ti_disable_interrupt = id, ti_clear_interrupt = id,
      ti_set_interrupt = (\<lambda>t. id), ti_fire_interrupt = id, ti_frequency = 1000000, ti_bits = 32\<rparr> :: (nat \<times> u32 list) ticker_interface"
  let ?c = "\<lambda>(e :: ptr) i q. Some (q\<lparr>hw := (fst (hw q), snd (hw q) @ [i])\<rparr>)"
  let ?q = "\<lparr>ev_timestamp = (\<lambda>_. 0), ev_id = (\<lambda>_. 0), ev_next = (\<lambda>_. 0), event_handler = 1, head = 0, frequency = 1000000,
      bitmask = mask 32, max_delta = 0x70000000, max_delta_us = 0x70000000, tick_last_read = 0, tick_remainder = 0, present_time = 0,
      initialized = True, frequency_shifts = 0, hw = (0, [])\<rparr> :: (nat \<times> u32 list) ticker"
  let ?ts = "(\<lambda>_. 50)(0x110 := 20, 0x130 := 70) :: ptr \<Rightarrow> u64"
  have h: "ticker_handler ?i fst 32 ?c 1 (\<lambda>i h. (fst h, snd h @ [i])) snd" by unfold_locales simp_all
  have c: "clock_ok 32 0 (fst (hw ?q)) ?q" by (simp add: clock_ok_def)
  have v: "head ?q = NULL" "event_handler ?q = 1" "distinct [0x100, 0x130, 0x110, 0x120 :: ptr]" "NULL \<notin> set [0x100, 0x130, 0x110, 0x120 :: ptr]"
    "fst (hw ?q) \<le> fst (60 :: nat, [] :: u32 list)" "fst (60 :: nat, [] :: u32 list) - fst (hw ?q) < 2 ^ 32"
    "(60 :: u64) = word_of_nat ((fst (60 :: nat, [] :: u32 list) - 0) * 1000000 div unat (frequency ?q))" by simp_all
  have s: "sort_key (\<lambda>x. uint (?ts x)) [0x100, 0x130, 0x110, 0x120] = [0x110, 0x100, 0x120, 0x130]" by simp
  show ?thesis using ticker_events_in_order [OF h c v, of ?ts "\<lambda>x. x"] unfolding s
    by - (rule exI [of _ ?i], rule exI [of _ ?c], rule exI [of _ ?q], simp)
qed

text \<open>
  C29: The interrupt is programmed in time on each of the three branches of compute_tick and without overflow: the
  tick returned is the last one read plus the whole ticks that fit into the time left to the event
  (rounded down, so never after the event), but at most max_delta ticks, modulo the counter width.
\<close>

theorem compute_tick_spec:
  assumes c: "tick_conf b q"
  shows "compute_tick t q = (tick_last_read q + word_of_nat (min (unat (max_delta q))
    (unat (t - present_time q) * unat (frequency q) div 1000000))) AND bitmask q"
proof -
  let ?f = "unat (frequency q)" and ?md = "unat (max_delta q)" and ?d = "t - present_time q"
  note f = conf_bounds(1,2) [OF c] and md = conf_bounds(3) [OF c] and mu = conf_bounds(4) [OF c]
  have ub: "(?md * 1000000 + ?f - 1) div ?f * ?f \<le> ?md * 1000000 + ?f" by (meson diff_le_self div_times_less_eq_dividend le_trans)
  show ?thesis
  proof (cases "?d \<le> max_delta_us q")
    case False
    then have "(?md * 1000000 + ?f - 1) div ?f < unat ?d" by (simp add: not_le word_less_nat_alt mu)
    then have "?md * 1000000 + ?f - 1 < unat ?d * ?f" using f(1) by (simp add: div_less_iff_less_mult)
    then have "?md * 1000000 \<le> unat ?d * ?f" using f(1) by linarith
    then have "?md \<le> unat ?d * ?f div 1000000" by (simp add: less_eq_div_iff_mult_less_eq)
    then show ?thesis using False by (simp add: compute_tick_def Let_def min_def)
  next
    case True
    then have d: "unat ?d \<le> (?md * 1000000 + ?f - 1) div ?f" by (simp add: word_le_nat_alt mu)
    then have "unat ?d * ?f \<le> ?md * 1000000 + ?f" using ub by (meson le_trans mult_le_mono1)
    then have df: "unat ?d * ?f < 18446744073709551616" "unat ?d * ?f div 1000000 < 4294967296"
      using f md by linarith+
    have uf: "unat (?d * ucast (frequency q)) = unat ?d * ?f" using df(1) by (subst unat_mult64) (simp_all add: unat_ucast64)
    have pb: "push_bit (unat (frequency_shifts q)) ?d = ?d * ucast (frequency q)" if "frequency_shifts q \<noteq> 0"
    proof -
      have "(ucast (frequency q) :: u64) = word_of_nat (unat (ucast (frequency q) :: u64))" by simp
      then have "(ucast (frequency q) :: u64) = word_of_nat ?f" unfolding unat_ucast64 .
      moreover have "?f = 2 ^ unat (frequency_shifts q)" using c that by (simp add: tick_conf_def)
      ultimately have "(ucast (frequency q) :: u64) = word_of_nat (2 ^ unat (frequency_shifts q))" by (simp only:)
      then show ?thesis by (simp add: push_bit_eq_mult)
    qed
    have e: "(if frequency q = 1000000 then ucast ?d
        else if frequency_shifts q \<noteq> 0 then ucast (push_bit (unat (frequency_shifts q)) ?d div 1000000)
        else ucast (?d * ucast (frequency q) div 1000000)) = (word_of_nat (unat ?d * ?f div 1000000) :: u32)"
    proof -
      have u: "ucast (x :: u64) = (word_of_nat (unat x) :: u32)" for x by simp
      show ?thesis using uf pb unfolding u by (simp add: unat_div)
    qed
    have "unat (word_of_nat (unat ?d * ?f div 1000000) :: u32) = unat ?d * ?f div 1000000"
      using df(2) by (simp only: unat_of_nat) (simp add: take_bit_nat_eq_self)
    then show ?thesis using True unfolding compute_tick_def Let_def e by (auto simp: min_def word_less_nat_alt)
  qed
qed

theorem compute_tick_spec_witness:
  "\<exists>q :: unit ticker. tick_conf 16 q \<and> compute_tick 1000500 q = 3136 \<and> compute_tick 600 q = 40003"
proof -
  let ?q = "\<lparr>ev_timestamp = (\<lambda>_. 0), ev_id = (\<lambda>_. 0), ev_next = (\<lambda>_. 0), event_handler = 0, head = 0, frequency = 32768,
      bitmask = mask 16, max_delta = 28672, max_delta_us = 875000, tick_last_read = 40000, tick_remainder = 0, present_time = 500,
      initialized = True, frequency_shifts = 15, hw = ()\<rparr>"
  have c: "tick_conf 16 ?q" by (simp add: tick_conf_def)
  have "compute_tick 1000500 ?q = 3136" "compute_tick 600 ?q = 40003"
    using compute_tick_spec [OF c, of 1000500] compute_tick_spec [OF c, of 600] by (simp_all add: mask_eq_exp_minus_1)
  with c show ?thesis by blast
qed

end
