(* ===== verification/UsTicker.thy ===== *)
theory UsTicker
  imports TickerInv
begin

text \<open>
  The microsecond ticker of the target (targets/TARGET_MKE18F/api/us_ticker.c over the LPIT functions of
  fsl_lpit.h and fsl_lpit.c, hal/mbed_us_ticker_api.c). Channel 1 of the LPIT counts down once per
  microsecond, chained to channel 0; channel 3, chained to channel 2, measures the time to the next
  interrupt. \<open>us_count\<close> is the number of periods channel 1 has counted since it was started, so that
  its counter register reads the complement of it; only the hardware changes it. \<open>lpit_ten\<close> holds the
  timer enable bits that SETTEN sets and CLRTEN (which reads as zero) clears. A software reset
  resets every register but the module control register. The fields are those of the ticker; the rest of the
  machine, which an event handler may change, is the extension \<open>'z\<close> of the record.
\<close>

unbundle bit_operations_syntax

section \<open>State and registers\<close>

record lpit_hw =
  lpit_mcr :: u32
  lpit_msr :: u32
  lpit_mier :: u32
  lpit_ten :: u32
  lpit_tval :: "nat \<Rightarrow> u32"
  lpit_tctrl :: "nat \<Rightarrow> u32"
  us_count :: nat
  us_ticker_inited :: bool
  lpit_irq_enabled :: bool
  lpit_irq_pending :: bool

record lpit_chnl_params =
  chainChannel :: bool
  timerMode :: u32
  triggerSelect :: u32
  triggerSource :: u32
  enableReloadOnTrigger :: bool
  enableStopOnTimeout :: bool
  enableStartOnTrigger :: bool

definition LPIT_EnableInterrupts :: "u32 \<Rightarrow> 'z lpit_hw_scheme \<Rightarrow> 'z lpit_hw_scheme" where
  "LPIT_EnableInterrupts mask' h = h\<lparr>lpit_mier := lpit_mier h OR mask'\<rparr>"

definition LPIT_DisableInterrupts :: "u32 \<Rightarrow> 'z lpit_hw_scheme \<Rightarrow> 'z lpit_hw_scheme" where
  "LPIT_DisableInterrupts mask' h = h\<lparr>lpit_mier := lpit_mier h AND NOT mask'\<rparr>"

definition LPIT_ClearStatusFlags :: "u32 \<Rightarrow> 'z lpit_hw_scheme \<Rightarrow> 'z lpit_hw_scheme" where
  "LPIT_ClearStatusFlags mask' h = h\<lparr>lpit_msr := lpit_msr h AND NOT mask'\<rparr>"

definition LPIT_SetTimerPeriod :: "nat \<Rightarrow> u32 \<Rightarrow> 'z lpit_hw_scheme \<Rightarrow> 'z lpit_hw_scheme" where
  "LPIT_SetTimerPeriod channel ticks h = h\<lparr>lpit_tval := (lpit_tval h)(channel := ticks)\<rparr>"

text \<open>A channel that is started begins a new period; the counter of channel 1 then starts again.\<close>

definition LPIT_StartTimer :: "nat \<Rightarrow> 'z lpit_hw_scheme \<Rightarrow> 'z lpit_hw_scheme" where
  "LPIT_StartTimer channel h =
     h\<lparr>us_count := (if channel = 1 \<and> \<not> bit (lpit_ten h) 1 then 0 else us_count h),
       lpit_ten := lpit_ten h OR push_bit channel 1\<rparr>"

definition LPIT_StopTimer :: "nat \<Rightarrow> 'z lpit_hw_scheme \<Rightarrow> 'z lpit_hw_scheme" where
  "LPIT_StopTimer channel h = h\<lparr>lpit_ten := lpit_ten h AND NOT (push_bit channel 1)\<rparr>"

definition LPIT_Reset :: "'z lpit_hw_scheme \<Rightarrow> 'z lpit_hw_scheme" where
  "LPIT_Reset h = h\<lparr>lpit_msr := 0, lpit_mier := 0, lpit_ten := 0, lpit_tval := (\<lambda>_. 0), lpit_tctrl := (\<lambda>_. 0)\<rparr>"

definition LPIT_Init :: "bool \<Rightarrow> bool \<Rightarrow> 'z lpit_hw_scheme \<Rightarrow> 'z lpit_hw_scheme" where
  "LPIT_Init enableRunInDebug enableRunInDoze h =
     (let h = LPIT_Reset h
      in h\<lparr>lpit_mcr := (if enableRunInDebug then 8 else 0) OR (if enableRunInDoze then 4 else 0) OR 1\<rparr>)"

text \<open>The result is whether the setup succeeded: channel 0 cannot be chained.\<close>

definition LPIT_SetupChannel :: "nat \<Rightarrow> lpit_chnl_params \<Rightarrow> 'z lpit_hw_scheme \<Rightarrow> bool \<times> 'z lpit_hw_scheme" where
  "LPIT_SetupChannel channel p h =
     (if channel = 0 \<and> chainChannel p then (False, h)
      else
        let reg = (push_bit 2 (timerMode p) AND 0xC) OR (push_bit 23 (triggerSource p) AND 0x800000) OR
                  (push_bit 24 (triggerSelect p) AND 0xF000000) OR (if enableReloadOnTrigger p then 0x40000 else 0) OR
                  (if enableStopOnTimeout p then 0x20000 else 0) OR (if enableStartOnTrigger p then 0x10000 else 0) OR
                  (if chainChannel p then 2 else 0)
        in (True, h\<lparr>lpit_tctrl := (lpit_tctrl h)(channel := reg)\<rparr>))"

section \<open>us_ticker.c\<close>

text \<open>The setup of the two chained channels: internal trigger of channel 0, periodic counter.\<close>

definition chained :: lpit_chnl_params where
  "chained = \<lparr>chainChannel = True, timerMode = 0, triggerSelect = 0, triggerSource = 1,
     enableReloadOnTrigger = False, enableStopOnTimeout = False, enableStartOnTrigger = False\<rparr>"

text \<open>\<open>bus_clock\<close> is what CLOCK_GetFreq(kCLOCK_BusClk) returns.\<close>

definition us_ticker_init :: "u32 \<Rightarrow> 'z lpit_hw_scheme \<Rightarrow> 'z lpit_hw_scheme" where
  "us_ticker_init bus_clock h =
     (let h = LPIT_Init False True h;
          h = (if \<not> us_ticker_inited h then
                 let h = LPIT_SetTimerPeriod 0 (bus_clock div 1000000 - 1) h;
                     h = LPIT_SetTimerPeriod 1 0xFFFFFFFF h;
                     h = snd (LPIT_SetupChannel 1 chained h);
                     h = LPIT_StartTimer 0 h
                 in LPIT_StartTimer 1 h
               else h);
          h = LPIT_StopTimer 3 h;
          h = LPIT_StopTimer 2 h;
          h = LPIT_SetTimerPeriod 2 (bus_clock div 1000000 - 1) h;
          h = snd (LPIT_SetupChannel 3 chained h);
          h = h\<lparr>lpit_irq_enabled := True\<rparr>;
          h = LPIT_DisableInterrupts 8 h
      in h\<lparr>us_ticker_inited := True\<rparr>)"

definition us_ticker_read :: "'z lpit_hw_scheme \<Rightarrow> u32" where
  "us_ticker_read h = (let current = NOT (of_nat (us_count h)) in NOT current)"

definition us_ticker_disable_interrupt :: "'z lpit_hw_scheme \<Rightarrow> 'z lpit_hw_scheme" where
  "us_ticker_disable_interrupt h = LPIT_DisableInterrupts 8 h"

definition us_ticker_clear_interrupt :: "'z lpit_hw_scheme \<Rightarrow> 'z lpit_hw_scheme" where
  "us_ticker_clear_interrupt h = LPIT_ClearStatusFlags 8 h"

definition us_ticker_set_interrupt :: "u32 \<Rightarrow> 'z lpit_hw_scheme \<Rightarrow> 'z lpit_hw_scheme" where
  "us_ticker_set_interrupt timestamp h =
     (let now_ticks = us_ticker_read h;
          delta_ticks = (if timestamp \<ge> now_ticks then timestamp - now_ticks
                         else ucast (ucast timestamp + 0xFFFFFFFF - ucast now_ticks :: u64));
          delta_ticks = (if delta_ticks = 0 then 1 else delta_ticks);
          h = LPIT_StopTimer 3 h;
          h = LPIT_StopTimer 2 h;
          h = LPIT_SetTimerPeriod 3 delta_ticks h;
          h = LPIT_EnableInterrupts 8 h;
          h = LPIT_StartTimer 3 h
      in LPIT_StartTimer 2 h)"

definition us_ticker_fire_interrupt :: "'z lpit_hw_scheme \<Rightarrow> 'z lpit_hw_scheme" where
  "us_ticker_fire_interrupt h = h\<lparr>lpit_irq_pending := True\<rparr>"

definition us_interface :: "u32 \<Rightarrow> 'z lpit_hw_scheme ticker_interface" where
  "us_interface bus_clock =
     \<lparr>ti_init = us_ticker_init bus_clock, ti_read = (\<lambda>h. (us_ticker_read h, h)),
      ti_disable_interrupt = us_ticker_disable_interrupt, ti_clear_interrupt = us_ticker_clear_interrupt,
      ti_set_interrupt = us_ticker_set_interrupt, ti_fire_interrupt = us_ticker_fire_interrupt,
      ti_frequency = 1000000, ti_bits = 32\<rparr>"

text \<open>The interrupt service routine, with the default handler ticker_irq_handler installed.\<close>

definition pit_isr ::
    "u32 \<Rightarrow> (ptr \<Rightarrow> u32 \<Rightarrow> 'z lpit_hw_scheme ticker \<Rightarrow> 'z lpit_hw_scheme ticker option) \<Rightarrow> 'z lpit_hw_scheme ticker \<Rightarrow> 'z lpit_hw_scheme ticker option" where
  "pit_isr bus_clock call q =
     (let h = LPIT_ClearStatusFlags 8 (hw q);
          h = LPIT_ClearStatusFlags 4 h;
          h = LPIT_StopTimer 2 h;
          h = LPIT_StopTimer 3 h
      in ticker_irq_handler (us_interface bus_clock) call (q\<lparr>hw := h\<rparr>))"

section \<open>The microsecond ticker as ticker hardware\<close>

lemma us_read: "us_ticker_read h = of_nat (us_count h)"
  by (simp add: us_ticker_read_def)

lemma us_quiet:
  "us_count (us_ticker_set_interrupt t h) = us_count h" "lpit_hw.more (us_ticker_set_interrupt t h) = lpit_hw.more h"
  "lpit_hw.more (us_ticker_clear_interrupt h) = lpit_hw.more h" "lpit_hw.more (us_ticker_fire_interrupt h) = lpit_hw.more h"
  by (simp_all add: us_ticker_set_interrupt_def us_ticker_clear_interrupt_def us_ticker_fire_interrupt_def LPIT_ClearStatusFlags_def
      LPIT_StopTimer_def LPIT_SetTimerPeriod_def LPIT_EnableInterrupts_def LPIT_StartTimer_def Let_def)

lemma us_mask: "(w :: u32) AND mask 32 = w"
  by (rule bit_word_eqI) (simp add: bit_simps)

interpretation us_hw: ticker_hw "us_interface bus_clock" us_count 32 for bus_clock
  by unfold_locales
    (simp_all only: us_mask us_interface_def ticker_interface.simps us_read fst_conv snd_conv us_quiet,
     simp_all add: us_ticker_clear_interrupt_def us_ticker_fire_interrupt_def LPIT_ClearStatusFlags_def)

text \<open>
  An event handler that changes only the rest of the machine, by \<open>f i\<close> for the identifier \<open>i\<close>; \<open>log\<close> reads the record of
  its calls there. \<open>recorded\<close> is such a handler for any effect \<open>f\<close>, the record kept beside the rest.
\<close>

definition outside_only :: "(u32 \<Rightarrow> 'z \<Rightarrow> 'z) \<Rightarrow> u32 \<Rightarrow> 'z lpit_hw_scheme ticker \<Rightarrow> 'z lpit_hw_scheme ticker" where
  "outside_only f i q = q\<lparr>hw := lpit_hw.more_update (f i) (hw q)\<rparr>"

definition recorded :: "(u32 \<Rightarrow> 'y \<Rightarrow> 'y) \<Rightarrow> u32 \<Rightarrow> u32 list \<times> 'y \<Rightarrow> u32 list \<times> 'y" where
  "recorded f i = (\<lambda>(l, y). (l @ [i], f i y))"

lemma us_handler:
  assumes call: "\<And>i q. call eh i q = Some (outside_only f i q)" and eh: "eh \<noteq> NULL" and log: "\<And>i z. log (f i z) = log z @ [i]"
  shows "ticker_handler (us_interface bus_clock) us_count 32 call eh (\<lambda>i. lpit_hw.more_update (f i)) (\<lambda>h. log (lpit_hw.more h))"
  by unfold_locales (simp_all add: call eh log outside_only_def us_interface_def us_quiet)

interpretation us_events: ticker_handler "us_interface bus_clock" us_count 32 "\<lambda>_ i q. Some (outside_only (recorded f) i q)" 1
    "\<lambda>i. lpit_hw.more_update (recorded f i)" "\<lambda>h. fst (lpit_hw.more h)" for bus_clock f
  by (rule us_handler, rule refl) (auto simp: recorded_def)

section \<open>Properties\<close>

text \<open>
  C30: The interrupt of the microsecond ticker runs the events that are due. Let the clock have been updated last at count n,
  less than a full period before, and let the event handler \<open>eh\<close> change nothing of the ticker and its queue (so it sets and
  removes no events), whatever else it does. Then pit_isr returns, has called the handler with the identifiers of exactly the
  due events, in the order of their time stamps, and the others stay queued; at 1 MHz the time is the number of
  counts since the start.
\<close>

theorem pit_isr_runs_due:
  assumes r: "ev_rep ts ids q xs" and c: "clock_ok 32 n0 n q" "frequency q = 1000000" and e: "event_handler q = eh" "eh \<noteq> NULL"
    and call: "\<And>i q. call eh i q = Some (outside_only f i q)" and log: "\<And>i z. log (f i z) = log z @ [i]"
    and n: "n \<le> us_count (hw q)" "us_count (hw q) - n < 2 ^ 32"
  shows "\<exists>q'. pit_isr bus_clock call q = Some q' \<and>
    log (lpit_hw.more (hw q')) = log (lpit_hw.more (hw q)) @
      map ids (takeWhile (\<lambda>x. ts x \<le> word_of_nat (us_count (hw q) - n0)) xs) \<and>
    ev_rep ts ids q' (dropWhile (\<lambda>x. ts x \<le> word_of_nat (us_count (hw q) - n0)) xs)"
proof -
  let ?q = "q\<lparr>hw := LPIT_StopTimer 3 (LPIT_StopTimer 2 (LPIT_ClearStatusFlags 4 (LPIT_ClearStatusFlags 8 (hw q))))\<rparr>"
  have h: "us_count (hw ?q) = us_count (hw q)" "lpit_hw.more (hw ?q) = lpit_hw.more (hw q)"
    by (simp_all add: LPIT_StopTimer_def LPIT_ClearStatusFlags_def)
  have hd: "ticker_handler (us_interface bus_clock) us_count 32 call eh (\<lambda>i. lpit_hw.more_update (f i)) (\<lambda>h. log (lpit_hw.more h))"
    by (rule us_handler) (use call e(2) log in auto)
  have "\<exists>q'. ticker_irq_handler (us_interface bus_clock) call ?q = Some q' \<and>
      ev_rep ts ids q' (dropWhile (\<lambda>x. ts x \<le> word_of_nat (us_count (hw q) - n0)) xs) \<and>
      log (lpit_hw.more (hw q')) = log (lpit_hw.more (hw ?q)) @ map ids (takeWhile (\<lambda>x. ts x \<le> word_of_nat (us_count (hw q) - n0)) xs)"
    by (rule ticker_handler.irq_handler_spec [OF hd, of _ _ _ _ n0 n]) (use r c e(1) n h in simp_all)
  then show ?thesis using h(2) by (auto simp: pit_isr_def Let_def)
qed

theorem pit_isr_runs_due_witness:
  "\<exists>q q'. pit_isr 60000000 (\<lambda>_ i q. Some (outside_only (recorded (\<lambda>_. Suc)) i q)) q = Some q' \<and> fst (lpit_hw.more (hw q)) = [] \<and>
     fst (lpit_hw.more (hw q')) = [7] \<and> ev_rep ((\<lambda>_. 100)(0x110 := 20)) ((\<lambda>_. 9)(0x110 := 7)) q' [0x100]"
proof -
  let ?ts = "(\<lambda>_. 100)(0x110 := 20) :: ptr \<Rightarrow> u64" and ?ids = "(\<lambda>_. 9)(0x110 := 7) :: ptr \<Rightarrow> u32"
  let ?q = "\<lparr>ev_timestamp = ?ts, ev_id = ?ids, ev_next = (\<lambda>_. 0)(0x110 := 0x100), event_handler = 5, head = 0x110,
      frequency = 1000000, bitmask = mask 32, max_delta = 0x70000000, max_delta_us = 0x70000000, tick_last_read = 0,
      tick_remainder = 0, present_time = 0, initialized = True, frequency_shifts = 0,
      hw = \<lparr>lpit_mcr = 5, lpit_msr = 12, lpit_mier = 8, lpit_ten = 15, lpit_tval = (\<lambda>_. 59), lpit_tctrl = (\<lambda>_. 0), us_count = 60,
        us_ticker_inited = True, lpit_irq_enabled = True, lpit_irq_pending = False, \<dots> = ([] :: u32 list, 0 :: nat)\<rparr>\<rparr>"
  let ?call = "\<lambda>_ i q. Some (outside_only (recorded (\<lambda>_. Suc)) i q)"
  have r: "ev_rep ?ts ?ids ?q [0x110, 0x100]" by (simp add: ev_rep_def)
  have c: "clock_ok 32 0 0 ?q" "frequency ?q = 1000000" "event_handler ?q = 5" "(5 :: ptr) \<noteq> NULL" by (simp_all add: clock_ok_def)
  have call: "\<And>i q. ?call 5 i q = Some (outside_only (recorded (\<lambda>_. Suc)) i q)" by (rule refl)
  have log: "\<And>i z. fst (recorded (\<lambda>_. Suc) i z) = fst z @ [i]" by (simp add: recorded_def split: prod.split)
  have n: "0 \<le> us_count (hw ?q)" "us_count (hw ?q) - 0 < 2 ^ 32" by simp_all
  from pit_isr_runs_due [where bus_clock = 60000000, OF r c call log n] obtain q' where
    "pit_isr 60000000 ?call ?q = Some q'" "fst (lpit_hw.more (hw q')) = [7]" "ev_rep ?ts ?ids q' [0x100]" by auto
  then show ?thesis by - (rule exI [of _ ?q], rule exI [of _ q'], simp)
qed

text \<open>
  What us_ticker_set_interrupt programs: the distance from now to the time stamp modulo 2^32, at least one, but one less
  when the time stamp lies behind the wrap of the counter, so that the two branches of the code disagree by one tick. The interrupt is
  enabled and both channels run; the clock is not disturbed.
\<close>

theorem us_ticker_set_interrupt_period:
  "lpit_tval (us_ticker_set_interrupt t h) 3 =
     max 1 (if t \<ge> us_ticker_read h then t - us_ticker_read h else t - us_ticker_read h - 1) \<and>
   bit (lpit_ten (us_ticker_set_interrupt t h)) 2 \<and> bit (lpit_ten (us_ticker_set_interrupt t h)) 3 \<and>
   bit (lpit_mier (us_ticker_set_interrupt t h)) 3 \<and> us_count (us_ticker_set_interrupt t h) = us_count h"
proof -
  obtain n where n: "us_ticker_read h = n" by blast
  have w: "ucast (ucast t + 0xFFFFFFFF - ucast n :: u64) = t - n - 1" if "\<not> t \<ge> n"
  proof -
    have l: "unat t < unat n" "unat n < 4294967296" using that unat_u32 [of n] by (simp_all add: word_le_nat_alt)
    have "unat (ucast t + 0xFFFFFFFF :: u64) = unat t + 4294967295"
      using l by (subst unat_add64) (simp_all add: unat_ucast64)
    then have "unat (ucast t + 0xFFFFFFFF - ucast n :: u64) = unat t + 4294967295 - unat n"
      using l by (subst unat_sub) (simp_all add: unat_ucast64 word_le_nat_alt)
    moreover have "(ucast (x :: u64) :: u32) = word_of_nat (unat x)" for x by simp
    ultimately have "ucast (ucast t + 0xFFFFFFFF - ucast n :: u64) = (word_of_nat (unat t + 4294967295 - unat n) :: u32)" by metis
    also have "\<dots> = t - n - 1" using l by (simp add: of_nat_diff)
    finally show ?thesis .
  qed
  have m: "(if d = 0 then 1 else d) = max 1 d" for d :: u32
    by (simp add: max_def word_le_nat_alt unat_eq_0 [symmetric] del: unat_eq_0)
  show ?thesis unfolding us_ticker_set_interrupt_def Let_def n
    using w by (simp add: m LPIT_StopTimer_def LPIT_SetTimerPeriod_def LPIT_EnableInterrupts_def LPIT_StartTimer_def bit_simps)
qed

text \<open>
  The ticker specification says that init is safe to call repeatedly and lets the ticker keep counting. The first
  us_ticker_init starts the clock's two channels; every further call resets all channels (in LPIT_Init) and
  does not start them again, so the microsecond clock stands still from then on.
\<close>

theorem us_ticker_init_again_stops:
  "(bit (lpit_ten (us_ticker_init bus_clock h)) 1 \<longleftrightarrow> \<not> us_ticker_inited h) \<and>
   lpit_ten (us_ticker_init bus_clock (us_ticker_init bus_clock h)) = 0 \<and>
   lpit_tval (us_ticker_init bus_clock (us_ticker_init bus_clock h)) 1 = 0"
  by (simp add: us_ticker_init_def Let_def LPIT_Init_def LPIT_Reset_def LPIT_SetTimerPeriod_def LPIT_SetupChannel_def
      LPIT_StartTimer_def LPIT_StopTimer_def LPIT_DisableInterrupts_def chained_def bit_simps)

end
