(* ===== verification/GpioHal.thy ===== *)
theory GpioHal
  imports PortReg
begin

text \<open>
  The GPIO part of the target's HAL (targets/TARGET_MKE18F/api: gpio_api.c, port_api.c, pinmap.c,
  gpio_irq_api.c; hal: mbed_gpio.c, mbed_pinmap_common.c). The state holds the PORT and GPIO
  registers by port and pin, the interrupt table of gpio_irq_api.c and the environment \<open>env\<close> that
  interrupt handlers change. A store to a pin control register (\<open>pcr_store\<close>) respects its lock and clears the interrupt flag
  where a one is written (\<open>pcr_value\<close>); the port's flag register ISFR shows the same flags. An
  MBED_ERROR or a failing MBED_ASSERT never returns (\<open>None\<close>).
\<close>

unbundle bit_operations_syntax

section \<open>State\<close>

datatype gpio_irq_event = IRQ_NONE | IRQ_RISE | IRQ_FALL

record 'e gpio_hw =
  pcr :: "u32 \<Rightarrow> u32 \<Rightarrow> u32"
  pdor :: "u32 \<Rightarrow> u32"
  pdir :: "u32 \<Rightarrow> u32"
  pddr :: "u32 \<Rightarrow> u32"
  port_clock :: "u32 \<Rightarrow> bool"
  nvic_enabled :: "u32 \<Rightarrow> bool"
  nvic_vector :: "u32 \<Rightarrow> u32 option" \<comment> \<open>the port whose gpio_irqX handles the port's interrupt\<close>
  channel_ids :: "u32 \<Rightarrow> u32"
  env :: 'e

record gpio_irq_obj =
  irq_port :: u32
  irq_pin :: u32
  irq_ch :: u32

record port_obj =
  p_port :: u32
  p_mask :: u32

record pin_map =
  pm_pin :: u32
  pm_peripheral :: u32
  pm_function :: u32

abbreviation (input) "NC \<equiv> 0xFFFFFFFF :: u32"
abbreviation (input) "GPIO_PORT_SHIFT \<equiv> 12 :: nat"
abbreviation (input) "PORT_PCR_PS_MASK \<equiv> 0x1 :: u32"
abbreviation (input) "PORT_PCR_PE_MASK \<equiv> 0x2 :: u32"
abbreviation (input) "PORT_PCR_MUX_MASK \<equiv> 0x700 :: u32"
abbreviation (input) "PORT_PCR_IRQC_MASK \<equiv> 0xF0000 :: u32"
abbreviation (input) "PORT_PCR_ISF_MASK \<equiv> 0x1000000 :: u32"
abbreviation (input) "kPORT_MuxAsGpio \<equiv> 1 :: u32"

datatype PinMode = PullNone | PullDown | PullUp
datatype PinDirection = PIN_INPUT | PIN_OUTPUT

section \<open>Registers (fsl_port.h, fsl_gpio.h)\<close>

definition pcr_store :: "u32 \<Rightarrow> u32 \<Rightarrow> u32 \<Rightarrow> 'e gpio_hw \<Rightarrow> 'e gpio_hw" where
  "pcr_store port pin v s =
     s\<lparr>pcr := (pcr s)(port := (pcr s port)(pin := pcr_value (pcr s port pin) v))\<rparr>"

definition PORT_SetPinMux :: "u32 \<Rightarrow> u32 \<Rightarrow> u32 \<Rightarrow> 'e gpio_hw \<Rightarrow> 'e gpio_hw" where
  "PORT_SetPinMux port pin mux s =
     pcr_store port pin ((pcr s port pin AND NOT PORT_PCR_MUX_MASK) OR (push_bit 8 mux AND PORT_PCR_MUX_MASK)) s"

definition PORT_SetPinInterruptConfig :: "u32 \<Rightarrow> u32 \<Rightarrow> u32 \<Rightarrow> 'e gpio_hw \<Rightarrow> 'e gpio_hw" where
  "PORT_SetPinInterruptConfig port pin config s =
     pcr_store port pin ((pcr s port pin AND NOT PORT_PCR_IRQC_MASK) OR (push_bit 16 config AND PORT_PCR_IRQC_MASK)) s"

definition GPIO_PinWrite :: "u32 \<Rightarrow> u32 \<Rightarrow> u8 \<Rightarrow> 'e gpio_hw \<Rightarrow> 'e gpio_hw" where
  "GPIO_PinWrite port pin output s =
     (if output = 0 then s\<lparr>pdor := (pdor s)(port := pdor s port AND NOT (push_bit (unat pin) 1))\<rparr>
      else s\<lparr>pdor := (pdor s)(port := pdor s port OR push_bit (unat pin) 1)\<rparr>)"

definition GPIO_PinRead :: "u32 \<Rightarrow> u32 \<Rightarrow> 'e gpio_hw \<Rightarrow> u32" where
  "GPIO_PinRead port pin s = drop_bit (unat pin) (pdir s port) AND 1"

section \<open>Pins (pinmap.c, mbed_pinmap_common.c)\<close>

definition pin_function :: "u32 \<Rightarrow> u32 \<Rightarrow> 'e gpio_hw \<Rightarrow> 'e gpio_hw option" where
  "pin_function pin func s = do {
     guard (pin \<noteq> NC);
     let s = s\<lparr>port_clock := (port_clock s)(drop_bit GPIO_PORT_SHIFT pin := True)\<rparr>;
     Some (PORT_SetPinMux (drop_bit GPIO_PORT_SHIFT pin) (pin AND 0xFF) func s)
   }"

definition pin_mode :: "u32 \<Rightarrow> PinMode \<Rightarrow> 'e gpio_hw \<Rightarrow> 'e gpio_hw option" where
  "pin_mode pin mode s = do {
     guard (pin \<noteq> NC);
     let inst = drop_bit GPIO_PORT_SHIFT pin;
     let pinName = pin AND 0xFF;
     let reg = pcr s inst pinName;
     let reg = (case mode of
                  PullNone \<Rightarrow> reg AND NOT (PORT_PCR_PE_MASK OR PORT_PCR_PS_MASK OR PORT_PCR_ISF_MASK)
                | PullDown \<Rightarrow> (reg AND NOT (PORT_PCR_PS_MASK OR PORT_PCR_ISF_MASK)) OR PORT_PCR_PE_MASK
                | PullUp \<Rightarrow> (reg AND NOT PORT_PCR_ISF_MASK) OR (PORT_PCR_PE_MASK OR PORT_PCR_PS_MASK));
     Some (pcr_store inst pinName reg s)
   }"

text \<open>The loops over a map, which ends at the first entry with pin NC.\<close>

fun pinmap_search :: "u32 \<Rightarrow> pin_map list \<Rightarrow> pin_map option" where
  "pinmap_search pin [] = None"
| "pinmap_search pin (e # es) =
     (if pm_pin e = NC then None else if pm_pin e = pin then Some e else pinmap_search pin es)"

definition pinmap_pinout :: "u32 \<Rightarrow> pin_map list \<Rightarrow> 'e gpio_hw \<Rightarrow> 'e gpio_hw option" where
  "pinmap_pinout pin map' s =
     (if pin = NC then Some s
      else case pinmap_search pin map' of
        Some e \<Rightarrow> do { s \<leftarrow> pin_function pin (pm_function e) s; pin_mode pin PullNone s }
      | None \<Rightarrow> None)"

definition pinmap_merge :: "u32 \<Rightarrow> u32 \<Rightarrow> u32 option" where
  "pinmap_merge a b = (if a = b then Some a else if a = NC then Some b else if b = NC then Some a else None)"

definition pinmap_find_peripheral :: "u32 \<Rightarrow> pin_map list \<Rightarrow> u32" where
  "pinmap_find_peripheral pin map' = (case pinmap_search pin map' of Some e \<Rightarrow> pm_peripheral e | None \<Rightarrow> NC)"

definition pinmap_peripheral :: "u32 \<Rightarrow> pin_map list \<Rightarrow> u32 option" where
  "pinmap_peripheral pin map' =
     (if pin = NC then Some NC
      else let peripheral = pinmap_find_peripheral pin map'
           in if NC = peripheral then None else Some peripheral)"

definition pinmap_find_function :: "u32 \<Rightarrow> pin_map list \<Rightarrow> u32" where
  "pinmap_find_function pin map' = (case pinmap_search pin map' of Some e \<Rightarrow> pm_function e | None \<Rightarrow> NC)"

definition pinmap_function :: "u32 \<Rightarrow> pin_map list \<Rightarrow> u32 option" where
  "pinmap_function pin map' =
     (if pin = NC then Some NC
      else let func = pinmap_find_function pin map'
           in if NC = func then None else Some func)"

section \<open>Single pins (gpio_api.c, mbed_gpio.c)\<close>

definition gpio_set :: "u32 \<Rightarrow> 'e gpio_hw \<Rightarrow> (u32 \<times> 'e gpio_hw) option" where
  "gpio_set pin s = do {
     guard (pin \<noteq> NC);
     let pin_num = pin AND 0xFF;
     s \<leftarrow> pin_function pin kPORT_MuxAsGpio s;
     Some (push_bit (unat pin_num) 1, s)
   }"

definition gpio_init :: "u32 \<Rightarrow> 'e gpio_hw \<Rightarrow> 'e gpio_hw option" where
  "gpio_init pin s = (if pin = NC then Some s else pin_function pin kPORT_MuxAsGpio s)"

definition gpio_mode :: "u32 \<Rightarrow> PinMode \<Rightarrow> 'e gpio_hw \<Rightarrow> 'e gpio_hw option" where
  "gpio_mode pin mode s = pin_mode pin mode s"

definition gpio_dir :: "u32 \<Rightarrow> PinDirection \<Rightarrow> 'e gpio_hw \<Rightarrow> 'e gpio_hw option" where
  "gpio_dir pin direction s = do {
     guard (pin \<noteq> NC);
     let port = drop_bit GPIO_PORT_SHIFT pin;
     let pin_num = pin AND 0xFF;
     Some (case direction of
             PIN_INPUT \<Rightarrow> s\<lparr>pddr := (pddr s)(port := pddr s port AND NOT (push_bit (unat pin_num) 1))\<rparr>
           | PIN_OUTPUT \<Rightarrow> s\<lparr>pddr := (pddr s)(port := pddr s port OR push_bit (unat pin_num) 1)\<rparr>)
   }"

definition gpio_write :: "u32 \<Rightarrow> u32 \<Rightarrow> 'e gpio_hw \<Rightarrow> 'e gpio_hw option" where
  "gpio_write pin value s = do {
     guard (pin \<noteq> NC);
     Some (GPIO_PinWrite (drop_bit GPIO_PORT_SHIFT pin) (pin AND 0xFF) (ucast value) s)
   }"

definition gpio_read :: "u32 \<Rightarrow> 'e gpio_hw \<Rightarrow> u32 option" where
  "gpio_read pin s = do {
     guard (pin \<noteq> NC);
     Some (GPIO_PinRead (drop_bit GPIO_PORT_SHIFT pin) (pin AND 0xFF) s)
   }"

definition gpio_init_in_pin :: "u32 \<Rightarrow> PinMode \<Rightarrow> 'e gpio_hw \<Rightarrow> 'e gpio_hw option" where
  "gpio_init_in_pin pin mode s = do {
     s \<leftarrow> gpio_init pin s;
     (if pin \<noteq> NC then do { s \<leftarrow> gpio_dir pin PIN_INPUT s; gpio_mode pin mode s } else Some s)
   }"

definition gpio_init_out_pin :: "u32 \<Rightarrow> PinMode \<Rightarrow> u32 \<Rightarrow> 'e gpio_hw \<Rightarrow> 'e gpio_hw option" where
  "gpio_init_out_pin pin mode value s = do {
     s \<leftarrow> gpio_init pin s;
     (if pin \<noteq> NC then do {
        s \<leftarrow> gpio_write pin value s;
        s \<leftarrow> gpio_dir pin PIN_OUTPUT s;
        gpio_mode pin mode s
      } else Some s)
   }"

definition gpio_init_in_ex :: "u32 \<Rightarrow> PinMode \<Rightarrow> 'e gpio_hw \<Rightarrow> 'e gpio_hw option" where
  "gpio_init_in_ex pin mode s = gpio_init_in_pin pin mode s"

definition gpio_init_in :: "u32 \<Rightarrow> 'e gpio_hw \<Rightarrow> 'e gpio_hw option" where
  "gpio_init_in pin s = gpio_init_in_ex pin PullUp s"

definition gpio_init_out_ex :: "u32 \<Rightarrow> u32 \<Rightarrow> 'e gpio_hw \<Rightarrow> 'e gpio_hw option" where
  "gpio_init_out_ex pin value s = gpio_init_out_pin pin PullNone value s"

definition gpio_init_out :: "u32 \<Rightarrow> 'e gpio_hw \<Rightarrow> 'e gpio_hw option" where
  "gpio_init_out pin s = gpio_init_out_ex pin 0 s"

definition gpio_init_inout :: "u32 \<Rightarrow> PinDirection \<Rightarrow> PinMode \<Rightarrow> u32 \<Rightarrow> 'e gpio_hw \<Rightarrow> 'e gpio_hw option" where
  "gpio_init_inout pin direction mode value s =
     (if direction = PIN_INPUT then do {
        s \<leftarrow> gpio_init_in_pin pin mode s;
        (if pin \<noteq> NC then gpio_write pin value s else Some s)
      }
      else gpio_init_out_pin pin mode value s)"

section \<open>Whole ports (port_api.c)\<close>

definition port_pin :: "u32 \<Rightarrow> nat \<Rightarrow> u32" where
  "port_pin port pin_n = push_bit GPIO_PORT_SHIFT port OR of_nat pin_n"

definition port_dir :: "port_obj \<Rightarrow> PinDirection \<Rightarrow> 'e gpio_hw \<Rightarrow> 'e gpio_hw" where
  "port_dir obj dir s =
     (let direction = pddr s (p_port obj);
          direction = (case dir of PIN_INPUT \<Rightarrow> direction AND NOT (p_mask obj)
                       | PIN_OUTPUT \<Rightarrow> direction OR p_mask obj)
      in s\<lparr>pddr := (pddr s)(p_port obj := direction)\<rparr>)"

text \<open>The loops over the pins of a port: \<open>f\<close> is applied to the pins \<open>is\<close> that are in the mask, in this order.\<close>

fun masked_pins :: "(nat \<Rightarrow> 's \<Rightarrow> 's option) \<Rightarrow> u32 \<Rightarrow> nat list \<Rightarrow> 's \<Rightarrow> 's option" where
  "masked_pins f mask' [] s = Some s"
| "masked_pins f mask' (i # is) s = do {
     s \<leftarrow> (if bit mask' i then f i s else Some s);
     masked_pins f mask' is s
   }"

definition port_init :: "u32 \<Rightarrow> u32 \<Rightarrow> PinDirection \<Rightarrow> 'e gpio_hw \<Rightarrow> (port_obj \<times> 'e gpio_hw) option" where
  "port_init port mask' dir s = do {
     let obj = \<lparr>p_port = port, p_mask = mask'\<rparr>;
     s \<leftarrow> masked_pins (\<lambda>i s. map_option snd (gpio_set (port_pin port i) s)) mask' [0..<32] s;
     Some (obj, port_dir obj dir s)
   }"

definition port_mode :: "port_obj \<Rightarrow> PinMode \<Rightarrow> 'e gpio_hw \<Rightarrow> 'e gpio_hw option" where
  "port_mode obj mode s = masked_pins (\<lambda>i s. pin_mode (port_pin (p_port obj) i) mode s) (p_mask obj) [0..<32] s"

definition port_write :: "port_obj \<Rightarrow> u32 \<Rightarrow> 'e gpio_hw \<Rightarrow> 'e gpio_hw" where
  "port_write obj value s =
     (let input = pdir s (p_port obj) AND NOT (p_mask obj)
      in s\<lparr>pdor := (pdor s)(p_port obj := input OR (value AND p_mask obj))\<rparr>)"

definition port_read :: "port_obj \<Rightarrow> 'e gpio_hw \<Rightarrow> u32" where
  "port_read obj s = pdir s (p_port obj) AND p_mask obj"

section \<open>Pin interrupts (gpio_irq_api.c)\<close>

definition PORT_GetPinsInterruptFlags :: "u32 \<Rightarrow> 'e gpio_hw \<Rightarrow> u32" where
  "PORT_GetPinsInterruptFlags port s =
     fold (\<lambda>i w. if pcr s port (of_nat i) AND PORT_PCR_ISF_MASK \<noteq> 0 then w OR push_bit i 1 else w) [0..<32] 0"

definition PORT_ClearPinsInterruptFlags :: "u32 \<Rightarrow> u32 \<Rightarrow> 'e gpio_hw \<Rightarrow> 'e gpio_hw" where
  "PORT_ClearPinsInterruptFlags port mask' s =
     s\<lparr>pcr := (pcr s)(port := (\<lambda>pin. if unat pin < 32 \<and> bit mask' (unat pin)
                                     then pcr s port pin AND NOT PORT_PCR_ISF_MASK else pcr s port pin))\<rparr>"

definition irq_mode :: "u32 \<Rightarrow> u32 \<Rightarrow> 'e gpio_hw \<Rightarrow> u32" where
  "irq_mode port pin s = drop_bit 16 (pcr s port pin AND PORT_PCR_IRQC_MASK)"

abbreviation (input) "IRQ_DISABLED \<equiv> 0 :: u32"
abbreviation (input) "IRQ_RAISING_EDGE \<equiv> 9 :: u32"
abbreviation (input) "IRQ_FALLING_EDGE \<equiv> 10 :: u32"
abbreviation (input) "IRQ_EITHER_EDGE \<equiv> 11 :: u32"

definition pin_event :: "u32 \<Rightarrow> u32 \<Rightarrow> 'e gpio_hw \<Rightarrow> gpio_irq_event" where
  "pin_event port i s =
     (if irq_mode port i s = IRQ_RAISING_EDGE then IRQ_RISE
      else if irq_mode port i s = IRQ_FALLING_EDGE then IRQ_FALL
      else if irq_mode port i s = IRQ_EITHER_EDGE then if GPIO_PinRead port i s \<noteq> 0 then IRQ_RISE else IRQ_FALL
      else IRQ_NONE)"

text \<open>The loop of handle_interrupt_in over the pins \<open>is\<close>; \<open>handler\<close> is the registered irq_handler.\<close>

fun irq_pins :: "(u32 \<Rightarrow> gpio_irq_event \<Rightarrow> 'e gpio_hw \<Rightarrow> 'e gpio_hw option) \<Rightarrow> u32 \<Rightarrow> u32 \<Rightarrow> u32 \<Rightarrow> nat list \<Rightarrow>
    'e gpio_hw \<Rightarrow> 'e gpio_hw option" where
  "irq_pins handler port ch_base flags [] s = Some s"
| "irq_pins handler port ch_base flags (i # is) s = do {
     s \<leftarrow> (if bit flags i then
             let id' = channel_ids s (ch_base + of_nat i)
             in if id' = 0 then Some s
                else let event = pin_event port (of_nat i) s
                     in if event \<noteq> IRQ_NONE then handler id' event s else Some s
           else Some s);
     irq_pins handler port ch_base flags is s
   }"

definition handle_interrupt_in ::
    "(u32 \<Rightarrow> gpio_irq_event \<Rightarrow> 'e gpio_hw \<Rightarrow> 'e gpio_hw option) \<Rightarrow> u32 \<Rightarrow> u32 \<Rightarrow> 'e gpio_hw \<Rightarrow> 'e gpio_hw option" where
  "handle_interrupt_in handler port ch_base s = do {
     let interrupt_flags = PORT_GetPinsInterruptFlags port s;
     s \<leftarrow> irq_pins handler port ch_base interrupt_flags [0..<32] s;
     Some (PORT_ClearPinsInterruptFlags port interrupt_flags s)
   }"

text \<open>gpio_irqA to gpio_irqE, by port.\<close>

definition gpio_irq ::
    "(u32 \<Rightarrow> gpio_irq_event \<Rightarrow> 'e gpio_hw \<Rightarrow> 'e gpio_hw option) \<Rightarrow> u32 \<Rightarrow> 'e gpio_hw \<Rightarrow> 'e gpio_hw option" where
  "gpio_irq handler port s = handle_interrupt_in handler port (32 * port) s"

definition gpio_irq_init :: "u32 \<Rightarrow> u32 \<Rightarrow> 'e gpio_hw \<Rightarrow> (int \<times> gpio_irq_obj option \<times> 'e gpio_hw) option" where
  "gpio_irq_init pin id' s =
     (if pin = NC then Some (- 1, None, s)
      else
        let port = drop_bit GPIO_PORT_SHIFT pin;
            p = pin AND 0x7F
        in if port > 4 then None
           else
             let ch_base = 32 * port;
                 s = s\<lparr>nvic_vector := (nvic_vector s)(port := Some port), nvic_enabled := (nvic_enabled s)(port := True)\<rparr>;
                 ch = ch_base + p
             in Some (0, Some \<lparr>irq_port = port, irq_pin = p, irq_ch = ch\<rparr>, s\<lparr>channel_ids := (channel_ids s)(ch := id')\<rparr>))"

definition gpio_irq_free :: "gpio_irq_obj \<Rightarrow> 'e gpio_hw \<Rightarrow> 'e gpio_hw" where
  "gpio_irq_free obj s = s\<lparr>channel_ids := (channel_ids s)(irq_ch obj := 0)\<rparr>"

definition irq_settings :: "u32 \<Rightarrow> gpio_irq_event \<Rightarrow> bool \<Rightarrow> u32" where
  "irq_settings mode event enable =
     (if mode = IRQ_DISABLED then
        if enable then if event = IRQ_RISE then IRQ_RAISING_EDGE else IRQ_FALLING_EDGE else IRQ_DISABLED
      else if mode = IRQ_RAISING_EDGE then
        if enable then if event = IRQ_RISE then IRQ_RAISING_EDGE else IRQ_EITHER_EDGE
        else if event = IRQ_FALL then IRQ_RAISING_EDGE else IRQ_DISABLED
      else if mode = IRQ_FALLING_EDGE then
        if enable then if event = IRQ_FALL then IRQ_FALLING_EDGE else IRQ_EITHER_EDGE
        else if event = IRQ_RISE then IRQ_FALLING_EDGE else IRQ_DISABLED
      else if mode = IRQ_EITHER_EDGE then
        if enable then IRQ_EITHER_EDGE else if event = IRQ_RISE then IRQ_FALLING_EDGE else IRQ_RAISING_EDGE
      else IRQ_DISABLED)"

definition gpio_irq_set :: "gpio_irq_obj \<Rightarrow> gpio_irq_event \<Rightarrow> bool \<Rightarrow> 'e gpio_hw \<Rightarrow> 'e gpio_hw" where
  "gpio_irq_set obj event enable s =
     (let mode = irq_settings (irq_mode (irq_port obj) (irq_pin obj) s) event enable;
          s = PORT_SetPinInterruptConfig (irq_port obj) (irq_pin obj) mode s
      in pcr_store (irq_port obj) (irq_pin obj) (pcr s (irq_port obj) (irq_pin obj) OR PORT_PCR_ISF_MASK) s)"

definition gpio_irq_enable :: "gpio_irq_obj \<Rightarrow> 'e gpio_hw \<Rightarrow> 'e gpio_hw" where
  "gpio_irq_enable obj s = s\<lparr>nvic_enabled := (nvic_enabled s)(irq_port obj := True)\<rparr>"

definition gpio_irq_disable :: "gpio_irq_obj \<Rightarrow> 'e gpio_hw \<Rightarrow> 'e gpio_hw" where
  "gpio_irq_disable obj s = s\<lparr>nvic_enabled := (nvic_enabled s)(irq_port obj := False)\<rparr>"

section \<open>Specification vocabulary\<close>

text \<open>The events a pin's interrupt mode stands for, and the flagged pins that have a handler to call.\<close>

definition irq_events :: "u32 \<Rightarrow> gpio_irq_event set" where
  "irq_events m = (if m = 9 then {IRQ_RISE} else if m = 10 then {IRQ_FALL} else if m = 11 then {IRQ_RISE, IRQ_FALL} else {})"

definition raised :: "u32 \<Rightarrow> u32 \<Rightarrow> 'e gpio_hw \<Rightarrow> nat list" where
  "raised port ch_base s = filter (\<lambda>i. pcr s port (of_nat i) AND PORT_PCR_ISF_MASK \<noteq> 0 \<and>
     channel_ids s (ch_base + of_nat i) \<noteq> 0 \<and> pin_event port (of_nat i) s \<noteq> IRQ_NONE) [0..<32]"

section \<open>Pin interrupts\<close>

lemma isf_bit: "w AND PORT_PCR_ISF_MASK \<noteq> 0 \<longleftrightarrow> bit (w :: u32) 24"
proof -
  have "(0x1000000 :: u32) = push_bit 24 1" by simp
  then have "w AND PORT_PCR_ISF_MASK = push_bit 24 1 AND w" by (simp only: and.commute)
  then show ?thesis by (simp only: bit_iff_and_push_bit_not_eq_0 and.commute)
qed

lemma fold_bits:
  "k < 32 \<Longrightarrow> bit (fold (\<lambda>i w. if P i then w OR push_bit i 1 else w) xs (w :: u32)) k \<longleftrightarrow> bit w k \<or> k \<in> set xs \<and> P k"
  by (induction xs arbitrary: w) (auto simp: bit_simps)

lemma flags_bit: "i < 32 \<Longrightarrow> bit (PORT_GetPinsInterruptFlags port s) i \<longleftrightarrow> bit (pcr s port (of_nat i)) 24"
  by (simp add: PORT_GetPinsInterruptFlags_def fold_bits isf_bit del: upt_conv_Cons)

text \<open>The two writes of gpio_irq_set to a control register with the mask \<open>I\<close> of the mode and the flag \<open>F\<close>.\<close>

lemma irq_set_word:
  fixes w x I F :: u32
  assumes d: "I AND F = 0" and v: "v = ((w AND NOT I) OR (x AND I)) AND NOT F"
  defines "u \<equiv> (w AND NOT I) OR (x AND I)"
  shows "(u AND NOT F) OR (w AND F AND NOT u) = v" "((v OR F) AND NOT F) OR (v AND F AND NOT (v OR F)) = v"
    "v AND I = x AND I" "v AND NOT (I OR F) = w AND NOT (I OR F)" "v AND F = 0"
proof -
  have d': "\<not> (bit I k \<and> bit F k)" for k
    using arg_cong [OF d, of "\<lambda>w. bit w k"] by (simp add: bit_and_iff)
  show "(u AND NOT F) OR (w AND F AND NOT u) = v" "((v OR F) AND NOT F) OR (v AND F AND NOT (v OR F)) = v"
    unfolding v u_def by (rule bit_word_eqI; use d' in \<open>auto simp: bit_simps\<close>)+
  show "v AND I = x AND I" "v AND NOT (I OR F) = w AND NOT (I OR F)" "v AND F = 0"
    unfolding v by (rule bit_word_eqI; use d' in \<open>auto simp: bit_simps\<close>)+
qed

lemma irq_set_low:
  fixes w x v :: u32
  defines "u \<equiv> (w AND NOT 0xF0000) OR (x AND 0xF0000)"
  shows "u AND 0xFFFF = w AND 0xFFFF" "(v OR 0x1000000) AND 0xFFFF = v AND 0xFFFF"
proof -
  have d: "0xF0000 AND (0xFFFF :: u32) = 0" "0x1000000 AND (0xFFFF :: u32) = 0" by simp_all
  have "((w AND NOT I) OR (x AND I)) AND L = w AND L" "(v OR I) AND L = v AND L" if "I AND L = 0" for I L :: u32
  proof -
    have "\<not> (bit I k \<and> bit L k)" for k using arg_cong [OF that, of "\<lambda>w. bit w k"] by (simp add: bit_and_iff)
    then show "((w AND NOT I) OR (x AND I)) AND L = w AND L" "(v OR I) AND L = v AND L"
      by (intro bit_word_eqI; auto simp: bit_or_iff bit_and_iff bit_not_iff)+
  qed
  with d show "u AND 0xFFFF = w AND 0xFFFF" "(v OR 0x1000000) AND 0xFFFF = v AND 0xFFFF" unfolding u_def by blast+
qed

lemma irq_pins_spec:
  assumes h: "\<And>id' ev s. handler id' ev s = Some (s\<lparr>env := g id' ev (env s)\<rparr>)"
  shows "irq_pins handler port ch_base flags is s = Some (s\<lparr>env := fold (\<lambda>i. g (channel_ids s (ch_base + of_nat i)) (pin_event port (of_nat i) s))
    (filter (\<lambda>i. bit flags i \<and> channel_ids s (ch_base + of_nat i) \<noteq> 0 \<and> pin_event port (of_nat i) s \<noteq> IRQ_NONE) is) (env s)\<rparr>)"
proof (induction "is" arbitrary: s)
  case (Cons i "is")
  have f: "pin_event port j (s\<lparr>env := e\<rparr>) = pin_event port j s" for j e
    by (simp add: pin_event_def irq_mode_def GPIO_PinRead_def)
  show ?case using Cons by (simp add: h f Let_def)
qed simp

section \<open>Properties\<close>

text \<open>
  C27: The interrupt mode of a pin is exactly the set of its enabled events: whatever edges are enabled,
  gpio_irq_set adds the event to the set or removes it, leaves every other bit of the pin's control
  register and every other register alone, and clears a pending interrupt flag of the pin.
\<close>

theorem gpio_irq_set_refines:
  assumes m: "irq_mode (irq_port obj) (irq_pin obj) s \<in> {0, 9, 10, 11}" and ev: "event \<noteq> IRQ_NONE"
  shows "\<exists>v. gpio_irq_set obj event enable s = s\<lparr>pcr := (pcr s)(irq_port obj := (pcr s (irq_port obj))(irq_pin obj := v))\<rparr> \<and>
    irq_mode (irq_port obj) (irq_pin obj) (gpio_irq_set obj event enable s) \<in> {0, 9, 10, 11} \<and>
    irq_events (irq_mode (irq_port obj) (irq_pin obj) (gpio_irq_set obj event enable s)) =
      (if enable then insert event (irq_events (irq_mode (irq_port obj) (irq_pin obj) s))
       else irq_events (irq_mode (irq_port obj) (irq_pin obj) s) - {event}) \<and>
    \<not> bit v 24 \<and> v AND NOT 0x10F0000 = pcr s (irq_port obj) (irq_pin obj) AND NOT 0x10F0000"
proof -
  let ?p = "irq_port obj" and ?i = "irq_pin obj"
  obtain w where w: "pcr s ?p ?i = w" by blast
  obtain n where n: "irq_settings (irq_mode ?p ?i s) event enable = n" by blast
  have n4: "n \<in> {0, 9, 10, 11}" using m unfolding n [symmetric] by (auto simp: irq_settings_def)
  define v where "v = ((w AND NOT 0xF0000) OR (push_bit 16 n AND 0xF0000)) AND NOT 0x1000000"
  note W = irq_set_word [of "0xF0000" "0x1000000", OF _ v_def, simplified]
  have s: "gpio_irq_set obj event enable s = s\<lparr>pcr := (pcr s)(?p := (pcr s ?p)(?i := v))\<rparr>"
    unfolding gpio_irq_set_def n PORT_SetPinInterruptConfig_def pcr_store_def Let_def w using W(1,2) irq_set_low
    by (simp add: pcr_value_low and.assoc)
  have "drop_bit 16 (v AND 0xF0000) = n" using n4 unfolding W(3) by auto
  then have n': "irq_mode ?p ?i (gpio_irq_set obj event enable s) = n" unfolding s irq_mode_def by simp
  have "irq_events n = (if enable then insert event (irq_events (irq_mode ?p ?i s)) else irq_events (irq_mode ?p ?i s) - {event})"
    unfolding n [symmetric] using m ev by (cases event) (auto simp: irq_settings_def irq_events_def)
  moreover have "\<not> bit v 24" using isf_bit [of v] W(5) by simp
  ultimately show ?thesis using n4 n' s W(4) w by auto
qed

theorem gpio_irq_set_refines_witness:
  "\<exists>(obj :: gpio_irq_obj) (s :: (u32 \<times> gpio_irq_event) list gpio_hw) v. irq_events (irq_mode 2 3 s) = {IRQ_RISE} \<and>
     gpio_irq_set obj IRQ_FALL True s = s\<lparr>pcr := (pcr s)(2 := (pcr s 2)(3 := v))\<rparr> \<and> \<not> bit v 24 \<and>
     irq_events (irq_mode 2 3 (gpio_irq_set obj IRQ_FALL True s)) = {IRQ_FALL, IRQ_RISE}"
proof -
  let ?o = "\<lparr>irq_port = 2, irq_pin = 3, irq_ch = 67\<rparr>"
  let ?s = "\<lparr>pcr = (\<lambda>p i. if i = 3 then 0x1090100 else if i = 5 then 0x10B0100 else if i = 7 then 0x1090100 else 0x100), pdor = (\<lambda>_. 0),
     pdir = (\<lambda>_. 0xFF), pddr = (\<lambda>_. 0), port_clock = (\<lambda>_. True), nvic_enabled = (\<lambda>_. True), nvic_vector = (\<lambda>_. None),
     channel_ids = (\<lambda>_. 0)(67 := 11, 69 := 12), env = []\<rparr> :: (u32 \<times> gpio_irq_event) list gpio_hw"
  have m: "irq_mode 2 3 ?s = 9" by (simp add: irq_mode_def)
  then have r: "irq_events (irq_mode 2 3 ?s) = {IRQ_RISE}" by (simp add: irq_events_def)
  from m gpio_irq_set_refines [of ?o ?s IRQ_FALL True] r show ?thesis
    by - (rule exI [of _ ?o], rule exI [of _ ?s], auto)
qed

text \<open>
  C28: The port interrupt handler calls the registered handler once for every pin whose interrupt flag is set and
  that has a channel id, in the order of the pins, with the pin's id and the edge that its mode (for both
  edges: its level) tells, and clears exactly the flags it has seen, when the handler leaves the registers alone.
\<close>

theorem handle_interrupt_in_spec:
  assumes h: "\<And>id' ev s. handler id' ev s = Some (s\<lparr>env := g id' ev (env s)\<rparr>)"
  shows "\<exists>s'. handle_interrupt_in handler port ch_base s = Some s' \<and>
    env s' = fold (\<lambda>i. g (channel_ids s (ch_base + of_nat i)) (pin_event port (of_nat i) s)) (raised port ch_base s) (env s) \<and>
    (\<forall>i<32. \<not> bit (pcr s' port (of_nat i)) 24 \<and>
       pcr s' port (of_nat i) AND NOT 0x1000000 = pcr s port (of_nat i) AND NOT 0x1000000) \<and>
    (\<forall>p. p \<noteq> port \<longrightarrow> pcr s' p = pcr s p) \<and> channel_ids s' = channel_ids s"
proof -
  let ?f = "PORT_GetPinsInterruptFlags port s"
  let ?P = "\<lambda>i. channel_ids s (ch_base + of_nat i) \<noteq> 0 \<and> pin_event port (of_nat i) s \<noteq> IRQ_NONE"
  have fl: "filter (\<lambda>i. bit ?f i \<and> ?P i) [0..<32] = raised port ch_base s"
    unfolding raised_def by (rule filter_cong) (auto simp: flags_bit isf_bit)
  let ?s = "s\<lparr>env := fold (\<lambda>i. g (channel_ids s (ch_base + of_nat i)) (pin_event port (of_nat i) s)) (raised port ch_base s) (env s)\<rparr>"
  let ?s' = "PORT_ClearPinsInterruptFlags port ?f ?s"
  have "handle_interrupt_in handler port ch_base s = Some ?s'"
    using irq_pins_spec [of handler g port ch_base ?f "[0..<32]" s, OF h] unfolding handle_interrupt_in_def fl by simp
  moreover have "\<not> bit (pcr ?s' port (of_nat i)) 24 \<and>
       pcr ?s' port (of_nat i) AND NOT 0x1000000 = pcr s port (of_nat i) AND NOT 0x1000000" if i: "i < 32" for i
  proof -
    have u: "unat (of_nat i :: u32) = i" using i by (simp only: unat_of_nat) (simp add: take_bit_nat_eq_self)
    obtain w where w: "pcr s port (of_nat i) = w" by blast
    have "pcr ?s' port (of_nat i) = (if bit w 24 then w AND NOT 0x1000000 else w)"
      using i flags_bit [OF i, of port s] w u by (simp add: PORT_ClearPinsInterruptFlags_def)
    moreover have "\<not> bit (w AND NOT 0x1000000) 24" using isf_bit [of "w AND NOT 0x1000000"] by (simp add: and.assoc)
    moreover have "(w AND NOT 0x1000000) AND NOT 0x1000000 = w AND NOT (0x1000000 :: u32)" by (simp add: and.assoc)
    ultimately show ?thesis using w by simp
  qed
  ultimately show ?thesis
    by (intro exI [of _ ?s'] conjI) (simp_all add: PORT_ClearPinsInterruptFlags_def)
qed

text \<open>Pins 3 (rising edge) and 5 (both edges) of port C have a handler, pin 7 has none.\<close>

theorem handle_interrupt_in_spec_witness:
  "\<exists>handler (s :: (u32 \<times> gpio_irq_event) list gpio_hw) s'. handle_interrupt_in handler 2 64 s = Some s' \<and>
     env s' = [(11, IRQ_RISE), (12, IRQ_RISE)] \<and> \<not> bit (pcr s' 2 7) 24"
proof -
  let ?s = "\<lparr>pcr = (\<lambda>p i. if i = 3 then 0x1090100 else if i = 5 then 0x10B0100 else if i = 7 then 0x1090100 else 0x100), pdor = (\<lambda>_. 0),
     pdir = (\<lambda>_. 0xFF), pddr = (\<lambda>_. 0), port_clock = (\<lambda>_. True), nvic_enabled = (\<lambda>_. True), nvic_vector = (\<lambda>_. None),
     channel_ids = (\<lambda>_. 0)(67 := 11, 69 := 12), env = []\<rparr> :: (u32 \<times> gpio_irq_event) list gpio_hw"
  let ?h = "\<lambda>i ev s. Some (s\<lparr>env := env s @ [(i, ev)]\<rparr>)"
  have r: "raised 2 64 ?s = [3, 5]" by (simp add: raised_def upt_rec pin_event_def irq_mode_def GPIO_PinRead_def)
  have e: "pin_event 2 3 ?s = IRQ_RISE" "pin_event 2 5 ?s = IRQ_RISE" by (simp_all add: pin_event_def irq_mode_def GPIO_PinRead_def)
  from handle_interrupt_in_spec [of ?h "\<lambda>i ev es. es @ [(i, ev)]" 2 64 ?s, OF refl]
  obtain s' where "handle_interrupt_in ?h 2 64 ?s = Some s'" "env s' = [(11, IRQ_RISE), (12, IRQ_RISE)]"
    "\<forall>i<32. \<not> bit (pcr s' 2 (of_nat i)) 24"
    unfolding r using e by auto
  then show ?thesis by - (rule exI [of _ ?h], rule exI [of _ ?s], rule exI [of _ s'], force dest: spec [of _ 7])
qed

text \<open>
  gpio_write drives the pin high exactly when the low byte of the value is not zero: the value is narrowed to
  a byte on its way to the driver, so a non-zero value like 256 drives the pin low, against the
  documentation of DigitalOut::write. No other pin changes.
\<close>

theorem gpio_write_level:
  assumes "pin \<noteq> 0xFFFFFFFF" "pin AND 0xFF < 32"
  shows "\<exists>s'. gpio_write pin value s = Some s' \<and>
    (\<forall>p i. bit (pdor s' p) i \<longleftrightarrow> (if p = drop_bit 12 pin \<and> i = unat (pin AND 0xFF) then value AND 0xFF \<noteq> 0 else bit (pdor s p) i))"
proof -
  have "(ucast value :: u8) = 0 \<longleftrightarrow> value AND 0xFF = 0"
  proof -
    have "value AND 0xFF = take_bit 8 value" by (simp add: take_bit_eq_mask mask_eq_exp_minus_1)
    then show ?thesis by (simp add: bit_eq_iff bit_simps)  (auto)
  qed
  moreover have "unat (pin AND 0xFF) < 32" using assms(2) by (simp add: word_less_nat_alt)
  ultimately show ?thesis using assms(1)
    by (auto simp: gpio_write_def GPIO_PinWrite_def bit_simps dest: bit_imp_le_length)
qed

theorem gpio_write_level_witness:
  "\<exists>s' :: (u32 \<times> gpio_irq_event) list gpio_hw. \<exists>s. gpio_write 0x4003 256 s = Some s' \<and> bit (pdor s 4) 3 \<and> \<not> bit (pdor s' 4) 3"
proof -
  let ?s = "\<lparr>pcr = (\<lambda>p i. if i = 3 then 0x1090100 else if i = 5 then 0x10B0100 else if i = 7 then 0x1090100 else 0x100), pdor = (\<lambda>_. 8),
     pdir = (\<lambda>_. 0xFF), pddr = (\<lambda>_. 0), port_clock = (\<lambda>_. True), nvic_enabled = (\<lambda>_. True), nvic_vector = (\<lambda>_. None),
     channel_ids = (\<lambda>_. 0)(67 := 11, 69 := 12), env = []\<rparr> :: (u32 \<times> gpio_irq_event) list gpio_hw"
  from gpio_write_level [of "0x4003" 256 ?s] obtain s' where "gpio_write 0x4003 256 ?s = Some s'" "\<not> bit (pdor s' 4) 3"
    by auto
  then show ?thesis by - (rule exI [of _ s'], rule exI [of _ ?s], simp)
qed

text \<open>
  port_write sets the output latches of the port's masked pins to the value, but it does not keep the latches
  of the other pins: it overwrites them with the levels read at their inputs.
\<close>

theorem port_write_spec:
  "bit (pdor (port_write obj value s) p) i \<longleftrightarrow>
     (if p \<noteq> p_port obj then bit (pdor s p) i
      else if bit (p_mask obj) i then bit value i else i < 32 \<and> bit (pdir s p) i)"
  by (auto simp: port_write_def bit_simps dest: bit_imp_le_length)

end
