(* ===== verification/EQueue.thy ===== *)
theory EQueue
  imports Prelude
begin

text \<open>
  The event queue library (events/equeue/equeue.c): a slab allocator for events and a queue of
  events ordered by their time. Events and queues are addresses into field heaps. The
  platform layer, callbacks, destructors and the background timer are the parameter \<open>eq_env\<close>; the
  mutexes exclude interrupt handlers and other threads and have no state of their own.
\<close>

unbundle bit_operations_syntax

section \<open>State\<close>

text \<open>
  Pointers to event pointers (the fields \<open>ref\<close> and the cursors \<open>p\<close>) are places; \<open>PLocal\<close> is the local
  variable \<open>head\<close> of equeue_dequeue. Function pointers are NULL (\<open>NoFn\<close>), one of the library's own
  functions or one of the client's.
\<close>

datatype place = PQueue ptr | PChunks ptr | PNext ptr | PSibling ptr | PLocal

datatype eq_fn = NoFn | ecallback_dispatch_fn | equeue_chain_dispatch_fn | equeue_chain_update_fn | Client u32

record 'w eq =
  ev_size :: "ptr \<Rightarrow> u32"
  ev_id :: "ptr \<Rightarrow> u8"
  ev_generation :: "ptr \<Rightarrow> u8"
  ev_next :: "ptr \<Rightarrow> ptr"
  ev_sibling :: "ptr \<Rightarrow> ptr"
  ev_ref :: "ptr \<Rightarrow> place"
  ev_target :: "ptr \<Rightarrow> u32"
  ev_period :: "ptr \<Rightarrow> u32"
  ev_dtor :: "ptr \<Rightarrow> eq_fn"
  ev_cb :: "ptr \<Rightarrow> eq_fn"
  eq_queue :: "ptr \<Rightarrow> ptr"
  eq_tick :: "ptr \<Rightarrow> u32"
  eq_break :: "ptr \<Rightarrow> bool"
  eq_generation :: "ptr \<Rightarrow> u8"
  eq_buffer :: "ptr \<Rightarrow> ptr"
  eq_npw2 :: "ptr \<Rightarrow> nat"
  eq_allocated :: "ptr \<Rightarrow> ptr"
  eq_chunks :: "ptr \<Rightarrow> ptr"
  slab_size :: "ptr \<Rightarrow> u32"
  slab_data :: "ptr \<Rightarrow> ptr"
  bg_active :: "ptr \<Rightarrow> bool"
  bg_update :: "ptr \<Rightarrow> eq_fn"
  bg_timer :: "ptr \<Rightarrow> ptr"
  eq_sema :: "ptr \<Rightarrow> bool"
  ec_cb :: "ptr \<Rightarrow> eq_fn"
  ec_data :: "ptr \<Rightarrow> ptr"
  cc_q :: "ptr \<Rightarrow> ptr"
  cc_target :: "ptr \<Rightarrow> ptr"
  cc_id :: "ptr \<Rightarrow> u32"
  world :: 'w

text \<open>
  What the library calls: the clock, malloc, the creation of the semaphore and of the two mutexes (an error code), a
  callback or destructor with its argument, the update function of the background timer with its argument and a time, and what
  other threads and interrupts do until equeue_sema_wait returns. \<open>world\<close> is their state.
\<close>

datatype eq_lock = Queuelock | Memlock

record 'w eq_env =
  env_tick :: "'w \<Rightarrow> u32 \<times> 'w"
  env_malloc :: "u32 \<Rightarrow> 'w \<Rightarrow> ptr \<times> 'w"
  env_sema_create :: "ptr \<Rightarrow> 'w \<Rightarrow> u32 \<times> 'w"
  env_mutex_create :: "ptr \<Rightarrow> eq_lock \<Rightarrow> 'w \<Rightarrow> u32 \<times> 'w"
  env_call :: "eq_fn \<Rightarrow> ptr \<Rightarrow> 'w eq \<Rightarrow> 'w eq option"
  env_update :: "eq_fn \<Rightarrow> ptr \<Rightarrow> u32 \<Rightarrow> 'w eq \<Rightarrow> 'w eq option"
  env_wait :: "ptr \<Rightarrow> u32 \<Rightarrow> 'w eq \<Rightarrow> 'w eq"

abbreviation (input) "sizeof_event \<equiv> 36 :: u32"
abbreviation (input) "sizeof_ptr \<equiv> 4 :: u32"
abbreviation (input) "sizeof_ecallback \<equiv> 8 :: u32"
abbreviation (input) "sizeof_chain_context \<equiv> 12 :: u32"

definition equeue_now :: "'w eq_env \<Rightarrow> 'w eq \<Rightarrow> u32 \<times> 'w eq" where
  "equeue_now env s = (let (t, w) = env_tick env (world s) in (t, s\<lparr>world := w\<rparr>))"

definition deref :: "ptr \<Rightarrow> 'w eq \<Rightarrow> place \<Rightarrow> ptr" where
  "deref head s p = (case p of PQueue q \<Rightarrow> eq_queue s q | PChunks q \<Rightarrow> eq_chunks s q
     | PNext e \<Rightarrow> ev_next s e | PSibling e \<Rightarrow> ev_sibling s e | PLocal \<Rightarrow> head)"

definition assign :: "place \<Rightarrow> ptr \<Rightarrow> 'w eq \<Rightarrow> 'w eq" where
  "assign p v s = (case p of PQueue q \<Rightarrow> s\<lparr>eq_queue := (eq_queue s)(q := v)\<rparr>
     | PChunks q \<Rightarrow> s\<lparr>eq_chunks := (eq_chunks s)(q := v)\<rparr>
     | PNext e \<Rightarrow> s\<lparr>ev_next := (ev_next s)(e := v)\<rparr>
     | PSibling e \<Rightarrow> s\<lparr>ev_sibling := (ev_sibling s)(e := v)\<rparr> | PLocal \<Rightarrow> s)"

text \<open>
  The loops over places all have this shape: \<open>while (*p && go(*p)) p = &(*p)->next;\<close>. They differ in the
  condition.
\<close>

partial_function (option) find_place :: "(ptr \<Rightarrow> bool) \<Rightarrow> ptr \<Rightarrow> 'w eq \<Rightarrow> place \<Rightarrow> place option" where
  "find_place go head s p =
     (let e = deref head s p
      in if e \<noteq> NULL \<and> go e then find_place go head s (PNext e) else Some p)"

section \<open>Time and identifiers\<close>

definition equeue_tickdiff :: "u32 \<Rightarrow> u32 \<Rightarrow> int" where
  "equeue_tickdiff a b = sint (a - b)"

definition equeue_clampdiff :: "u32 \<Rightarrow> u32 \<Rightarrow> u32" where
  "equeue_clampdiff a b = (let diff = a - b in NOT (signed_drop_bit 31 diff) AND diff)"

definition equeue_incid :: "ptr \<Rightarrow> ptr \<Rightarrow> 'w eq \<Rightarrow> 'w eq" where
  "equeue_incid q e s =
     (let s = s\<lparr>ev_id := (ev_id s)(e := ev_id s e + 1)\<rparr>
      in if push_bit (eq_npw2 s q) (ucast (ev_id s e) :: u32) = 0
         then s\<lparr>ev_id := (ev_id s)(e := 1)\<rparr> else s)"

text \<open>The event an identifier stands for.\<close>

definition event_of :: "ptr \<Rightarrow> u32 \<Rightarrow> 'w eq \<Rightarrow> ptr" where
  "event_of q ident s = eq_buffer s q + (ident AND (push_bit (eq_npw2 s q) 1 - 1))"

definition id_matches :: "ptr \<Rightarrow> ptr \<Rightarrow> u32 \<Rightarrow> 'w eq \<Rightarrow> bool" where
  "id_matches q e ident s \<longleftrightarrow> (ucast (ev_id s e) :: u32) = signed_drop_bit (eq_npw2 s q) ident"

section \<open>Lifetime\<close>

function bit_count :: "u32 \<Rightarrow> nat" where
  "bit_count s = (if s = 0 then 0 else Suc (bit_count (drop_bit 1 s)))"
  by auto
termination
proof (relation "measure unat")
  fix s :: u32 assume "s \<noteq> 0"
  then have "unat s div 2 < unat s" using unat_gt_0 [of s] by simp
  then show "(drop_bit 1 s, s) \<in> measure unat" by (simp add: drop_bit_eq_div unat_div)
qed simp

declare bit_count.simps [simp del]

definition equeue_create_inplace :: "'w eq_env \<Rightarrow> ptr \<Rightarrow> u32 \<Rightarrow> ptr \<Rightarrow> 'w eq \<Rightarrow> u32 \<times> 'w eq" where
  "equeue_create_inplace env q size' buffer s =
     (let s = s\<lparr>eq_buffer := (eq_buffer s)(q := buffer)\<rparr>;
          s = s\<lparr>eq_allocated := (eq_allocated s)(q := NULL)\<rparr>;
          s = s\<lparr>eq_npw2 := (eq_npw2 s)(q := bit_count size')\<rparr>;
          s = s\<lparr>eq_chunks := (eq_chunks s)(q := NULL)\<rparr>;
          s = s\<lparr>slab_size := (slab_size s)(q := size')\<rparr>;
          s = s\<lparr>slab_data := (slab_data s)(q := buffer)\<rparr>;
          s = s\<lparr>eq_queue := (eq_queue s)(q := NULL)\<rparr>;
          (t, s) = equeue_now env s;
          s = s\<lparr>eq_tick := (eq_tick s)(q := t)\<rparr>;
          s = s\<lparr>eq_generation := (eq_generation s)(q := 0)\<rparr>;
          s = s\<lparr>eq_break := (eq_break s)(q := False)\<rparr>;
          s = s\<lparr>bg_active := (bg_active s)(q := False)\<rparr>;
          s = s\<lparr>bg_update := (bg_update s)(q := NoFn)\<rparr>;
          s = s\<lparr>bg_timer := (bg_timer s)(q := NULL)\<rparr>;
          (err, w) = env_sema_create env q (world s);
          s = s\<lparr>world := w\<rparr>
      in if sint err < 0 then (err, s)
         else let s = s\<lparr>eq_sema := (eq_sema s)(q := False)\<rparr>;
                  (err, w) = env_mutex_create env q Queuelock (world s);
                  s = s\<lparr>world := w\<rparr>
              in if sint err < 0 then (err, s)
                 else let (err, w) = env_mutex_create env q Memlock (world s);
                          s = s\<lparr>world := w\<rparr>
                      in if sint err < 0 then (err, s) else (0, s))"

definition equeue_create :: "'w eq_env \<Rightarrow> ptr \<Rightarrow> u32 \<Rightarrow> 'w eq \<Rightarrow> u32 \<times> 'w eq" where
  "equeue_create env q size' s =
     (let (buffer, w) = env_malloc env size' (world s);
          s = s\<lparr>world := w\<rparr>
      in if buffer = NULL then (- 1, s)
         else let (err, s) = equeue_create_inplace env q size' buffer s
              in (err, s\<lparr>eq_allocated := (eq_allocated s)(q := buffer)\<rparr>))"

text \<open>The two nested loops of equeue_destroy; the inner one starts at the head of the queue.\<close>

partial_function (option) destroy_slot :: "'w eq_env \<Rightarrow> ptr \<Rightarrow> 'w eq \<Rightarrow> 'w eq option" where
  "destroy_slot env e s =
     (if e = NULL then Some s
      else do {
        s \<leftarrow> (if ev_dtor s e \<noteq> NoFn then env_call env (ev_dtor s e) (e + sizeof_event) s else Some s);
        destroy_slot env (ev_sibling s e) s
      })"

partial_function (option) destroy_slots :: "'w eq_env \<Rightarrow> ptr \<Rightarrow> ptr \<Rightarrow> 'w eq \<Rightarrow> 'w eq option" where
  "destroy_slots env q es s =
     (if es = NULL then Some s
      else do {
        s \<leftarrow> destroy_slot env (eq_queue s q) s;
        destroy_slots env q (ev_next s es) s
      })"

text \<open>The release of the semaphore and of the buffer's memory is not part of the state.\<close>

definition equeue_destroy :: "'w eq_env \<Rightarrow> ptr \<Rightarrow> 'w eq \<Rightarrow> 'w eq option" where
  "equeue_destroy env q s = do {
     s \<leftarrow> destroy_slots env q (eq_queue s q) s;
     (if bg_update s q \<noteq> NoFn then env_update env (bg_update s q) (bg_timer s q) (- 1) s else Some s)
   }"

section \<open>Memory\<close>

text \<open>The first chunk of at least the given size; the loop of equeue_mem_dealloc stops at the same place.\<close>

definition chunk_pos :: "'w eq \<Rightarrow> u32 \<Rightarrow> place \<Rightarrow> place option" where
  "chunk_pos s size' = find_place (\<lambda>e. ev_size s e < size') NULL s"

definition equeue_mem_alloc :: "ptr \<Rightarrow> u32 \<Rightarrow> 'w eq \<Rightarrow> (ptr \<times> 'w eq) option" where
  "equeue_mem_alloc q size' s = do {
     let size' = size' + sizeof_event;
     let size' = (size' + sizeof_ptr - 1) AND NOT (sizeof_ptr - 1);
     p \<leftarrow> chunk_pos s size' (PChunks q);
     let e = deref NULL s p;
     Some (if e \<noteq> NULL then
             (if ev_sibling s e \<noteq> NULL then
                let s = assign p (ev_sibling s e) s
                in (e, s\<lparr>ev_next := (ev_next s)(deref NULL s p := ev_next s e)\<rparr>)
              else (e, assign p (ev_next s e) s))
           else if slab_size s q \<ge> size' then
             let e = slab_data s q;
                 s = s\<lparr>slab_data := (slab_data s)(q := slab_data s q + size')\<rparr>;
                 s = s\<lparr>slab_size := (slab_size s)(q := slab_size s q - size')\<rparr>;
                 s = s\<lparr>ev_size := (ev_size s)(e := size')\<rparr>;
                 s = s\<lparr>ev_id := (ev_id s)(e := 1)\<rparr>
             in (e, s)
           else (NULL, s))
   }"

definition equeue_mem_dealloc :: "ptr \<Rightarrow> ptr \<Rightarrow> 'w eq \<Rightarrow> 'w eq option" where
  "equeue_mem_dealloc q e s = do {
     p \<leftarrow> chunk_pos s (ev_size s e) (PChunks q);
     let c = deref NULL s p;
     let s = (if c \<noteq> NULL \<and> ev_size s c = ev_size s e
              then s\<lparr>ev_sibling := (ev_sibling s)(e := c), ev_next := (ev_next s)(e := ev_next s c)\<rparr>
              else s\<lparr>ev_sibling := (ev_sibling s)(e := NULL), ev_next := (ev_next s)(e := c)\<rparr>);
     Some (assign p e s)
   }"

definition equeue_alloc :: "ptr \<Rightarrow> u32 \<Rightarrow> 'w eq \<Rightarrow> (ptr \<times> 'w eq) option" where
  "equeue_alloc q size' s = do {
     (e, s) \<leftarrow> equeue_mem_alloc q size' s;
     Some (if e = NULL then (NULL, s)
           else
             let s = s\<lparr>ev_target := (ev_target s)(e := 0)\<rparr>;
                 s = s\<lparr>ev_period := (ev_period s)(e := - 1)\<rparr>;
                 s = s\<lparr>ev_dtor := (ev_dtor s)(e := NoFn)\<rparr>
             in (e + sizeof_event, s))
   }"

definition equeue_dealloc :: "'w eq_env \<Rightarrow> ptr \<Rightarrow> ptr \<Rightarrow> 'w eq \<Rightarrow> 'w eq option" where
  "equeue_dealloc env q p s = do {
     let e = p - sizeof_event;
     s \<leftarrow> (if ev_dtor s e \<noteq> NoFn then env_call env (ev_dtor s e) (e + sizeof_event) s else Some s);
     equeue_mem_dealloc q e s
   }"

section \<open>Scheduling\<close>

definition slot_pos :: "'w eq \<Rightarrow> u32 \<Rightarrow> place \<Rightarrow> place option" where
  "slot_pos s target = find_place (\<lambda>e. equeue_tickdiff (ev_target s e) target < 0) NULL s"

definition equeue_enqueue :: "'w eq_env \<Rightarrow> ptr \<Rightarrow> ptr \<Rightarrow> u32 \<Rightarrow> 'w eq \<Rightarrow> (u32 \<times> 'w eq) option" where
  "equeue_enqueue env q e tick s = do {
     let id = push_bit (eq_npw2 s q) (ucast (ev_id s e)) OR (e - eq_buffer s q);
     let s = s\<lparr>ev_target := (ev_target s)(e := tick + equeue_clampdiff (ev_target s e) tick)\<rparr>;
     let s = s\<lparr>ev_generation := (ev_generation s)(e := eq_generation s q)\<rparr>;
     p \<leftarrow> slot_pos s (ev_target s e) (PQueue q);
     let x = deref NULL s p;
     let s = (if x \<noteq> NULL \<and> ev_target s x = ev_target s e then
                let s = s\<lparr>ev_next := (ev_next s)(e := ev_next s x)\<rparr>;
                    s = (if ev_next s e \<noteq> NULL
                         then s\<lparr>ev_ref := (ev_ref s)(ev_next s e := PNext e)\<rparr> else s)
                in s\<lparr>ev_sibling := (ev_sibling s)(e := x), ev_ref := (ev_ref s)(x := PSibling e)\<rparr>
              else
                let s = s\<lparr>ev_next := (ev_next s)(e := x)\<rparr>;
                    s = (if ev_next s e \<noteq> NULL
                         then s\<lparr>ev_ref := (ev_ref s)(ev_next s e := PNext e)\<rparr> else s)
                in s\<lparr>ev_sibling := (ev_sibling s)(e := NULL)\<rparr>);
     let s = assign p e s;
     let s = s\<lparr>ev_ref := (ev_ref s)(e := p)\<rparr>;
     s \<leftarrow> (if bg_update s q \<noteq> NoFn \<and> bg_active s q \<and> eq_queue s q = e \<and> ev_sibling s e = NULL
           then env_update env (bg_update s q) (bg_timer s q) (equeue_clampdiff (ev_target s e) tick) s
           else Some s);
     Some (id, s)
   }"

definition equeue_unqueue :: "ptr \<Rightarrow> u32 \<Rightarrow> 'w eq \<Rightarrow> ptr \<times> 'w eq" where
  "equeue_unqueue q ident s =
     (let e = event_of q ident s
      in if \<not> id_matches q e ident s then (NULL, s)
         else
           let s = s\<lparr>ev_cb := (ev_cb s)(e := NoFn)\<rparr>;
               s = s\<lparr>ev_period := (ev_period s)(e := - 1)\<rparr>;
               diff = equeue_tickdiff (ev_target s e) (eq_tick s q)
           in if diff < 0 \<or> diff = 0 \<and> ev_generation s e \<noteq> eq_generation s q then (NULL, s)
              else
                let s = (if ev_sibling s e \<noteq> NULL then
                           let s = s\<lparr>ev_next := (ev_next s)(ev_sibling s e := ev_next s e)\<rparr>;
                               s = (if ev_next s (ev_sibling s e) \<noteq> NULL
                                    then s\<lparr>ev_ref := (ev_ref s)(ev_next s (ev_sibling s e) := PNext (ev_sibling s e))\<rparr>
                                    else s);
                               s = assign (ev_ref s e) (ev_sibling s e) s
                           in s\<lparr>ev_ref := (ev_ref s)(ev_sibling s e := ev_ref s e)\<rparr>
                         else
                           let s = assign (ev_ref s e) (ev_next s e) s
                           in if ev_next s e \<noteq> NULL
                              then s\<lparr>ev_ref := (ev_ref s)(ev_next s e := ev_ref s e)\<rparr> else s)
                in (e, equeue_incid q e s))"

text \<open>The loops of equeue_dequeue: the end of the expired slots, the reversal of one slot, and all slots.\<close>

definition due_pos :: "ptr \<Rightarrow> 'w eq \<Rightarrow> u32 \<Rightarrow> place \<Rightarrow> place option" where
  "due_pos head s target = find_place (\<lambda>e. equeue_tickdiff (ev_target s e) target \<le> 0) head s"

partial_function (option) reverse_slot :: "ptr \<Rightarrow> ptr \<Rightarrow> 'w eq \<Rightarrow> (ptr \<times> 'w eq) option" where
  "reverse_slot prev e s =
     (if e = NULL then Some (prev, s)
      else reverse_slot e (ev_sibling s e) (s\<lparr>ev_next := (ev_next s)(e := prev)\<rparr>))"

partial_function (option) flatten_slots :: "ptr \<Rightarrow> place \<Rightarrow> ptr \<Rightarrow> 'w eq \<Rightarrow> (ptr \<times> 'w eq) option" where
  "flatten_slots head tail ess s =
     (if ess = NULL then Some (head, s)
      else do {
        let es = ess;
        let ess = ev_next s es;
        (prev, s) \<leftarrow> reverse_slot NULL es s;
        let head = (if tail = PLocal then prev else head);
        let s = assign tail prev s;
        flatten_slots head (PNext es) ess s
      })"

definition equeue_dequeue :: "ptr \<Rightarrow> u32 \<Rightarrow> 'w eq \<Rightarrow> (ptr \<times> 'w eq) option" where
  "equeue_dequeue q target s = do {
     let s = s\<lparr>eq_generation := (eq_generation s)(q := eq_generation s q + 1)\<rparr>;
     let s = (if equeue_tickdiff (eq_tick s q) target \<le> 0 then s\<lparr>eq_tick := (eq_tick s)(q := target)\<rparr> else s);
     let head = eq_queue s q;
     p \<leftarrow> due_pos head s target PLocal;
     let s = s\<lparr>eq_queue := (eq_queue s)(q := deref head s p)\<rparr>;
     let s = (if eq_queue s q \<noteq> NULL
              then s\<lparr>ev_ref := (ev_ref s)(eq_queue s q := PQueue q)\<rparr> else s);
     let head = (if p = PLocal then NULL else head);
     let s = assign p NULL s;
     flatten_slots head PLocal head s
   }"

definition equeue_post :: "'w eq_env \<Rightarrow> ptr \<Rightarrow> eq_fn \<Rightarrow> ptr \<Rightarrow> 'w eq \<Rightarrow> (u32 \<times> 'w eq) option" where
  "equeue_post env q cb p s = do {
     let e = p - sizeof_event;
     let (tick, s) = equeue_now env s;
     let s = s\<lparr>ev_cb := (ev_cb s)(e := cb)\<rparr>;
     let s = s\<lparr>ev_target := (ev_target s)(e := tick + ev_target s e)\<rparr>;
     (id, s) \<leftarrow> equeue_enqueue env q e tick s;
     Some (id, s\<lparr>eq_sema := (eq_sema s)(q := True)\<rparr>)
   }"

definition equeue_cancel :: "'w eq_env \<Rightarrow> ptr \<Rightarrow> u32 \<Rightarrow> 'w eq \<Rightarrow> 'w eq option" where
  "equeue_cancel env q ident s =
     (if ident = 0 then Some s
      else
        let (e, s) = equeue_unqueue q ident s
        in if e \<noteq> NULL then equeue_dealloc env q (e + sizeof_event) s else Some s)"

definition equeue_timeleft :: "'w eq_env \<Rightarrow> ptr \<Rightarrow> u32 \<Rightarrow> 'w eq \<Rightarrow> u32 \<times> 'w eq" where
  "equeue_timeleft env q ident s =
     (if ident = 0 then (- 1, s)
      else
        let e = event_of q ident s
        in if id_matches q e ident s
           then let (tick, s) = equeue_now env s in (equeue_clampdiff (ev_target s e) tick, s)
           else (- 1, s))"

definition equeue_break :: "ptr \<Rightarrow> 'w eq \<Rightarrow> 'w eq" where
  "equeue_break q s = s\<lparr>eq_break := (eq_break s)(q := True), eq_sema := (eq_sema s)(q := True)\<rparr>"

section \<open>Dispatch\<close>

partial_function (option) run_events :: "'w eq_env \<Rightarrow> ptr \<Rightarrow> ptr \<Rightarrow> 'w eq \<Rightarrow> 'w eq option" where
  "run_events env q es s =
     (if es = NULL then Some s
      else do {
        let e = es;
        let es = ev_next s e;
        s \<leftarrow> (if ev_cb s e \<noteq> NoFn then env_call env (ev_cb s e) (e + sizeof_event) s else Some s);
        s \<leftarrow> (if sint (ev_period s e) \<ge> 0 then do {
                let s = s\<lparr>ev_target := (ev_target s)(e := ev_target s e + ev_period s e)\<rparr>;
                let (tick, s) = equeue_now env s;
                (_, s) \<leftarrow> equeue_enqueue env q e tick s;
                Some s
              }
              else equeue_dealloc env q (e + sizeof_event) (equeue_incid q e s));
        run_events env q es s
      })"

partial_function (option) dispatch_loop :: "'w eq_env \<Rightarrow> ptr \<Rightarrow> u32 \<Rightarrow> u32 \<Rightarrow> u32 \<Rightarrow> 'w eq \<Rightarrow> 'w eq option" where
  "dispatch_loop env q ms timeout tick s = do {
     (es, s) \<leftarrow> equeue_dequeue q tick s;
     s \<leftarrow> run_events env q es s;
     let (tick, s) = equeue_now env s;
     let deadline = (if sint ms \<ge> 0 then timeout - tick else - 1);
     (if sint ms \<ge> 0 \<and> equeue_tickdiff timeout tick \<le> 0 then do {
        s \<leftarrow> (if bg_update s q \<noteq> NoFn then do {
                s \<leftarrow> (if eq_queue s q \<noteq> NULL
                      then env_update env (bg_update s q) (bg_timer s q)
                             (equeue_clampdiff (ev_target s (eq_queue s q)) tick) s
                      else Some s);
                Some (s\<lparr>bg_active := (bg_active s)(q := True)\<rparr>)
              } else Some s);
        Some (s\<lparr>eq_break := (eq_break s)(q := False)\<rparr>)
      } else do {
        let diff = equeue_clampdiff (ev_target s (eq_queue s q)) tick;
        let deadline = (if eq_queue s q \<noteq> NULL \<and> diff < deadline then diff else deadline);
        let s = env_wait env q deadline s;
        (if eq_break s q then Some (s\<lparr>eq_break := (eq_break s)(q := False)\<rparr>)
         else do {
           let (tick, s) = equeue_now env s;
           dispatch_loop env q ms timeout tick s
         })
      })
   }"

definition equeue_dispatch :: "'w eq_env \<Rightarrow> ptr \<Rightarrow> u32 \<Rightarrow> 'w eq \<Rightarrow> 'w eq option" where
  "equeue_dispatch env q ms s =
     (let (tick, s) = equeue_now env s;
          timeout = tick + ms;
          s = s\<lparr>bg_active := (bg_active s)(q := False)\<rparr>
      in dispatch_loop env q ms timeout tick s)"

declare find_place.simps [code] destroy_slot.simps [code] destroy_slots.simps [code] reverse_slot.simps [code]
  flatten_slots.simps [code] run_events.simps [code] dispatch_loop.simps [code]

section \<open>Event settings and simple callbacks\<close>

definition equeue_event_delay :: "ptr \<Rightarrow> u32 \<Rightarrow> 'w eq \<Rightarrow> 'w eq" where
  "equeue_event_delay p ms s = s\<lparr>ev_target := (ev_target s)(p - sizeof_event := ms)\<rparr>"

definition equeue_event_period :: "ptr \<Rightarrow> u32 \<Rightarrow> 'w eq \<Rightarrow> 'w eq" where
  "equeue_event_period p ms s = s\<lparr>ev_period := (ev_period s)(p - sizeof_event := ms)\<rparr>"

definition equeue_event_dtor :: "ptr \<Rightarrow> eq_fn \<Rightarrow> 'w eq \<Rightarrow> 'w eq" where
  "equeue_event_dtor p dtor s = s\<lparr>ev_dtor := (ev_dtor s)(p - sizeof_event := dtor)\<rparr>"

definition ecallback_dispatch :: "'w eq_env \<Rightarrow> ptr \<Rightarrow> 'w eq \<Rightarrow> 'w eq option" where
  "ecallback_dispatch env p s = env_call env (ec_cb s p) (ec_data s p) s"

definition equeue_call :: "'w eq_env \<Rightarrow> ptr \<Rightarrow> eq_fn \<Rightarrow> ptr \<Rightarrow> 'w eq \<Rightarrow> (u32 \<times> 'w eq) option" where
  "equeue_call env q cb data s = do {
     (e, s) \<leftarrow> equeue_alloc q sizeof_ecallback s;
     (if e = NULL then Some (0, s)
      else equeue_post env q ecallback_dispatch_fn e
             (s\<lparr>ec_cb := (ec_cb s)(e := cb), ec_data := (ec_data s)(e := data)\<rparr>))
   }"

definition equeue_call_in :: "'w eq_env \<Rightarrow> ptr \<Rightarrow> u32 \<Rightarrow> eq_fn \<Rightarrow> ptr \<Rightarrow> 'w eq \<Rightarrow> (u32 \<times> 'w eq) option" where
  "equeue_call_in env q ms cb data s = do {
     (e, s) \<leftarrow> equeue_alloc q sizeof_ecallback s;
     (if e = NULL then Some (0, s)
      else do {
        let s = equeue_event_delay e ms s;
        equeue_post env q ecallback_dispatch_fn e
          (s\<lparr>ec_cb := (ec_cb s)(e := cb), ec_data := (ec_data s)(e := data)\<rparr>)
      })
   }"

definition equeue_call_every :: "'w eq_env \<Rightarrow> ptr \<Rightarrow> u32 \<Rightarrow> eq_fn \<Rightarrow> ptr \<Rightarrow> 'w eq \<Rightarrow> (u32 \<times> 'w eq) option" where
  "equeue_call_every env q ms cb data s = do {
     (e, s) \<leftarrow> equeue_alloc q sizeof_ecallback s;
     (if e = NULL then Some (0, s)
      else do {
        let s = equeue_event_delay e ms s;
        let s = equeue_event_period e ms s;
        equeue_post env q ecallback_dispatch_fn e
          (s\<lparr>ec_cb := (ec_cb s)(e := cb), ec_data := (ec_data s)(e := data)\<rparr>)
      })
   }"

section \<open>Background timer and chaining\<close>

definition equeue_background :: "'w eq_env \<Rightarrow> ptr \<Rightarrow> eq_fn \<Rightarrow> ptr \<Rightarrow> 'w eq \<Rightarrow> 'w eq option" where
  "equeue_background env q update timer s = do {
     s \<leftarrow> (if bg_update s q \<noteq> NoFn then env_update env (bg_update s q) (bg_timer s q) (- 1) s else Some s);
     let s = s\<lparr>bg_update := (bg_update s)(q := update)\<rparr>;
     let s = s\<lparr>bg_timer := (bg_timer s)(q := timer)\<rparr>;
     s \<leftarrow> (if bg_update s q \<noteq> NoFn \<and> eq_queue s q \<noteq> NULL then do {
             let (tick, s) = equeue_now env s;
             env_update env (bg_update s q) (bg_timer s q) (equeue_clampdiff (ev_target s (eq_queue s q)) tick) s
           } else Some s);
     Some (s\<lparr>bg_active := (bg_active s)(q := True)\<rparr>)
   }"

definition equeue_chain_dispatch :: "'w eq_env \<Rightarrow> ptr \<Rightarrow> 'w eq \<Rightarrow> 'w eq option" where
  "equeue_chain_dispatch env p s = equeue_dispatch env p 0 s"

definition equeue_chain_update :: "'w eq_env \<Rightarrow> ptr \<Rightarrow> u32 \<Rightarrow> 'w eq \<Rightarrow> 'w eq option" where
  "equeue_chain_update env c ms s = do {
     s \<leftarrow> equeue_cancel env (cc_target s c) (cc_id s c) s;
     (if sint ms \<ge> 0 then do {
        (id, s) \<leftarrow> equeue_call_in env (cc_target s c) ms equeue_chain_dispatch_fn (cc_q s c) s;
        Some (s\<lparr>cc_id := (cc_id s)(c := id)\<rparr>)
      }
      else equeue_dealloc env (cc_target s c) c s)
   }"

definition equeue_chain :: "'w eq_env \<Rightarrow> ptr \<Rightarrow> ptr \<Rightarrow> 'w eq \<Rightarrow> 'w eq option" where
  "equeue_chain env q target s =
     (if target = NULL then equeue_background env q NoFn NULL s
      else do {
        (c, s) \<leftarrow> equeue_alloc q sizeof_chain_context s;
        guard (c \<noteq> NULL);
        let s = s\<lparr>cc_q := (cc_q s)(c := q), cc_target := (cc_target s)(c := target), cc_id := (cc_id s)(c := 0)\<rparr>;
        equeue_background env q equeue_chain_update_fn c s
      })"

end
