(* ===== verification/EQueueInv.thy ===== *)
theory EQueueInv
  imports EQueue Links PrioQueue
begin

text \<open>
  Correctness of the event queue library (EQueue). The queue is a list of slots, one for each time, linked
  through \<open>next\<close>; a slot holds the events of its time, newest first, linked through \<open>sibling\<close>. \<open>eq_rep b q s ss\<close>
  says that the queue \<open>q\<close> holds the slots \<open>ss\<close>, with times in a window around \<open>b\<close>; \<open>flat ss\<close> is the order in
  which the events fire. The free chunks of the allocator are linked in the same way, one slot for each size.
\<close>

unbundle bit_operations_syntax

section \<open>Specification vocabulary\<close>

fun linked :: "(ptr \<Rightarrow> ptr) \<Rightarrow> (ptr \<Rightarrow> ptr) \<Rightarrow> ptr \<Rightarrow> ptr list list \<Rightarrow> ptr \<Rightarrow> bool" where
  "linked n b h [] k \<longleftrightarrow> h = k"
| "linked n b h (es # ss) k \<longleftrightarrow> es \<noteq> [] \<and> h = hd es \<and> hd es \<noteq> NULL \<and> forward b (hd es) (tl es) \<and> linked n b (n (hd es)) ss k"

fun sib_refs :: "(ptr \<Rightarrow> place) \<Rightarrow> ptr \<Rightarrow> ptr list \<Rightarrow> bool" where
  "sib_refs r e [] \<longleftrightarrow> True"
| "sib_refs r e (x # xs) \<longleftrightarrow> r x = PSibling e \<and> sib_refs r x xs"

fun refs :: "(ptr \<Rightarrow> place) \<Rightarrow> place \<Rightarrow> ptr list list \<Rightarrow> bool" where
  "refs r p [] \<longleftrightarrow> True"
| "refs r p (es # ss) \<longleftrightarrow> r (hd es) = p \<and> sib_refs r (hd es) (tl es) \<and> refs r (PNext (hd es)) ss"

definition place_end :: "place \<Rightarrow> ptr list list \<Rightarrow> place" where
  "place_end p ss = (if ss = [] then p else PNext (hd (last ss)))"

fun chain :: "(ptr \<Rightarrow> ptr) \<Rightarrow> ptr \<Rightarrow> ptr list \<Rightarrow> ptr \<Rightarrow> bool" where
  "chain n h [] k \<longleftrightarrow> h = k"
| "chain n h (x # xs) k \<longleftrightarrow> h = x \<and> x \<noteq> NULL \<and> chain n (n x) xs k"

definition flat :: "ptr list list \<Rightarrow> ptr list" where
  "flat ss = concat (map rev ss)"

definition due :: "u32 \<Rightarrow> 'w eq \<Rightarrow> ptr \<Rightarrow> int" where
  "due b s e = sint (ev_target s e - b)"

definition in_window :: "u32 \<Rightarrow> u32 \<Rightarrow> bool" where
  "in_window b t \<longleftrightarrow> - (2 ^ 30) \<le> sint (t - b) \<and> sint (t - b) < 2 ^ 30"

definition slots_ok :: "u32 \<Rightarrow> 'w eq \<Rightarrow> ptr list list \<Rightarrow> bool" where
  "slots_ok b s ss \<longleftrightarrow> (\<forall>x\<in>set (concat ss). in_window b (ev_target s x)) \<and>
     (\<forall>es\<in>set ss. \<forall>x\<in>set es. ev_target s x = ev_target s (hd es)) \<and>
     sorted_wrt (\<lambda>xs ys. due b s (hd xs) < due b s (hd ys)) ss"

definition eq_rep :: "u32 \<Rightarrow> ptr \<Rightarrow> 'w eq \<Rightarrow> ptr list list \<Rightarrow> bool" where
  "eq_rep b q s ss \<longleftrightarrow> linked (ev_next s) (ev_sibling s) (eq_queue s q) ss NULL \<and> refs (ev_ref s) (PQueue q) ss \<and>
     distinct (concat ss) \<and> slots_ok b s ss"

text \<open>The link that leads to the place at the end of the prefix \<open>us\<close> is set to \<open>e\<close>.\<close>

definition relink :: "ptr list list \<Rightarrow> ptr \<Rightarrow> (ptr \<Rightarrow> ptr) \<Rightarrow> ptr \<Rightarrow> ptr" where
  "relink us e n = (if us = [] then n else n(hd (last us) := e))"

text \<open>Posting the event \<open>e\<close> at the time \<open>tick e\<close>: the time it fires at, the operation and its state.\<close>

definition fire_time :: "(ptr \<Rightarrow> u32) \<Rightarrow> 'w eq \<Rightarrow> ptr \<Rightarrow> u32" where
  "fire_time tick s e = tick e + equeue_clampdiff (ev_target s e) (tick e)"

definition post_at :: "'w eq_env \<Rightarrow> ptr \<Rightarrow> (ptr \<Rightarrow> u32) \<Rightarrow> ptr \<Rightarrow> 'w eq \<Rightarrow> 'w eq option" where
  "post_at env q tick e s = map_option snd (equeue_enqueue env q e (tick e) s)"

definition no_update :: "ptr \<Rightarrow> 'w eq \<Rightarrow> bool" where
  "no_update q s \<longleftrightarrow> bg_update s q = NoFn \<or> \<not> bg_active s q"

definition posted_rep :: "u32 \<Rightarrow> ptr \<Rightarrow> (ptr \<Rightarrow> u32) \<Rightarrow> (ptr \<Rightarrow> u32) \<Rightarrow> 'w eq \<Rightarrow> ptr list \<Rightarrow> bool" where
  "posted_rep b q tick T s xs \<longleftrightarrow> (\<exists>ss. eq_rep b q s ss \<and> flat ss = xs) \<and> (\<forall>e\<in>set xs. ev_target s e = T e) \<and>
     fire_time tick s = T \<and> no_update q s"

text \<open>An event that has not expired yet, with a valid identifier.\<close>

definition cancellable :: "ptr \<Rightarrow> ptr \<Rightarrow> u32 \<Rightarrow> 'w eq \<Rightarrow> bool" where
  "cancellable q e ident s \<longleftrightarrow> e = event_of q ident s \<and> id_matches q e ident s \<and>
     (let diff = equeue_tickdiff (ev_target s e) (eq_tick s q)
      in diff > 0 \<or> diff = 0 \<and> ev_generation s e = eq_generation s q)"

definition next_id :: "nat \<Rightarrow> u8 \<Rightarrow> u8" where
  "next_id n i = (if push_bit n (ucast (i + 1)) = (0 :: u32) then 1 else i + 1)"

text \<open>
  The free chunks, and the invariant of the allocator: the blocks handed out (\<open>L\<close>) and the free ones do not overlap and fill
  the buffer from \<open>lo\<close> up to the slab.
\<close>

definition sized :: "'w eq \<Rightarrow> ptr list list \<Rightarrow> bool" where
  "sized s cs \<longleftrightarrow> (\<forall>es\<in>set cs. \<forall>x\<in>set es. ev_size s x = ev_size s (hd es)) \<and>
     sorted_wrt (\<lambda>xs ys. ev_size s (hd xs) < ev_size s (hd ys)) cs"

definition chunk_rep :: "ptr \<Rightarrow> 'w eq \<Rightarrow> ptr list list \<Rightarrow> bool" where
  "chunk_rep q s cs \<longleftrightarrow> linked (ev_next s) (ev_sibling s) (eq_chunks s q) cs NULL \<and> distinct (concat cs) \<and> sized s cs"

definition blocks_ok :: "'w eq \<Rightarrow> ptr set \<Rightarrow> int \<Rightarrow> int \<Rightarrow> bool" where
  "blocks_ok s B lo hi \<longleftrightarrow> (\<forall>x\<in>B. lo \<le> uint x \<and> 0 < ev_size s x \<and> uint x + uint (ev_size s x) \<le> hi) \<and>
     (\<forall>x\<in>B. \<forall>y\<in>B. x \<noteq> y \<longrightarrow> uint x + uint (ev_size s x) \<le> uint y \<or> uint y + uint (ev_size s y) \<le> uint x)"

definition eq_heap_ok :: "ptr \<Rightarrow> int \<Rightarrow> int \<Rightarrow> 'w eq \<Rightarrow> ptr set \<Rightarrow> bool" where
  "eq_heap_ok q lo hi s L \<longleftrightarrow> 0 < lo \<and> uint (slab_data s q) + uint (slab_size s q) = hi \<and> hi < 2 ^ 32 \<and> lo \<le> uint (slab_data s q) \<and>
     (\<exists>cs. chunk_rep q s cs \<and> L \<inter> set (concat cs) = {} \<and> blocks_ok s (L \<union> set (concat cs)) lo (uint (slab_data s q)))"

definition eq_block_size :: "u32 \<Rightarrow> u32" where
  "eq_block_size size' = (size' + sizeof_event + sizeof_ptr - 1) AND NOT (sizeof_ptr - 1)"

text \<open>
  What serving the events \<open>es\<close> means to the client: \<open>act\<close> is what the callbacks do to the world. The
  result is the world and, for each periodic event, the time it fires at next.
\<close>

fun serve_events :: "'w eq_env \<Rightarrow> (eq_fn \<Rightarrow> ptr \<Rightarrow> 'w \<Rightarrow> 'w) \<Rightarrow> 'w eq \<Rightarrow> ptr list \<Rightarrow> 'w \<Rightarrow> 'w \<times> (ptr \<times> u32) list" where
  "serve_events env act s [] w = (w, [])"
| "serve_events env act s (e # es) w =
     (let w = (if ev_cb s e \<noteq> NoFn then act (ev_cb s e) (e + sizeof_event) w else w)
      in if sint (ev_period s e) \<ge> 0 then
           let (t, w) = env_tick env w; (w, posts) = serve_events env act s es w
           in (w, (e, t + equeue_clampdiff (ev_target s e + ev_period s e) t) # posts)
         else serve_events env act s es w)"

definition world_only :: "'w eq_env \<Rightarrow> (eq_fn \<Rightarrow> ptr \<Rightarrow> 'w \<Rightarrow> 'w) \<Rightarrow> 'w eq \<Rightarrow> eq_fn \<Rightarrow> bool" where
  "world_only env act s f \<longleftrightarrow> (\<forall>s' p. ec_cb s' = ec_cb s \<longrightarrow> ec_data s' = ec_data s \<longrightarrow>
     env_call env f p s' = Some (s'\<lparr>world := act f p (world s')\<rparr>))"

text \<open>The fields that serving events leaves alone.\<close>

definition same_setup :: "'w eq \<Rightarrow> 'w eq \<Rightarrow> bool" where
  "same_setup s s' \<longleftrightarrow> ev_size s' = ev_size s \<and> ev_period s' = ev_period s \<and> ev_dtor s' = ev_dtor s \<and> ev_cb s' = ev_cb s \<and>
     eq_buffer s' = eq_buffer s \<and> eq_npw2 s' = eq_npw2 s \<and> slab_size s' = slab_size s \<and> slab_data s' = slab_data s \<and>
     bg_update s' = bg_update s \<and> bg_active s' = bg_active s \<and> ec_cb s' = ec_cb s \<and> ec_data s' = ec_data s"
text \<open>The state between two events of the loop.\<close>

definition serving :: "u32 \<Rightarrow> ptr \<Rightarrow> 'w eq \<Rightarrow> ptr \<Rightarrow> ptr list \<Rightarrow> ptr list list \<Rightarrow> ptr list list \<Rightarrow> bool" where
  "serving b q s h es ss cs \<longleftrightarrow> chain (ev_next s) h es NULL \<and> eq_rep b q s ss \<and> chunk_rep q s cs \<and> distinct es \<and>
     set es \<inter> (set (concat ss) \<union> set (concat cs)) = {} \<and> set (concat ss) \<inter> set (concat cs) = {} \<and> no_update q s"

definition served :: "u32 \<Rightarrow> ptr \<Rightarrow> 'w eq \<Rightarrow> 'w eq \<Rightarrow> ptr list \<Rightarrow> (ptr \<times> u32) list \<Rightarrow> ptr list list \<Rightarrow> ptr list list \<Rightarrow> bool" where
  "served b q s s' es posts ss cs \<longleftrightarrow> (\<exists>ss' cs'. serving b q s' NULL [] ss' cs' \<and>
     flat ss' = fold (pinsert (\<lambda>x. - due b s' x)) (map fst posts) (flat ss) \<and>
     set (concat cs') = set (concat cs) \<union> {e \<in> set es. sint (ev_period s e) < 0}) \<and>
     (\<forall>(e, t)\<in>set posts. ev_target s' e = t) \<and> (\<forall>x. x \<notin> set es \<longrightarrow> ev_target s' x = ev_target s x) \<and> same_setup s s'"

text \<open>One turn of the loop of equeue_dispatch.\<close>

definition served_one :: "u32 \<Rightarrow> ptr \<Rightarrow> 'w eq \<Rightarrow> 'w eq \<Rightarrow> ptr \<Rightarrow> (ptr \<times> u32) list \<Rightarrow> ptr list list \<Rightarrow> ptr list list \<Rightarrow>
    ptr list list \<Rightarrow> ptr list list \<Rightarrow> bool" where
  "served_one b q s s' e post ss cs ss' cs' \<longleftrightarrow> same_setup s s' \<and> (\<forall>x. x \<noteq> e \<longrightarrow> ev_target s' x = ev_target s x) \<and>
     (post = [] \<and> flat ss' = flat ss \<and> set (concat cs') = insert e (set (concat cs)) \<and> sint (ev_period s e) < 0 \<or>
      post = [(e, ev_target s' e)] \<and> flat ss' = pinsert (\<lambda>x. - due b s' x) e (flat ss) \<and> cs' = cs \<and> \<not> sint (ev_period s e) < 0)"

text \<open>The identifier of an event fits into 32 bits.\<close>

definition id_fits :: "ptr \<Rightarrow> ptr \<Rightarrow> 'w eq \<Rightarrow> bool" where
  "id_fits q e s \<longleftrightarrow> uint (e - eq_buffer s q) < 2 ^ eq_npw2 s q \<and> ev_id s e \<noteq> 0 \<and> uint (ev_id s e) * 2 ^ eq_npw2 s q < 2 ^ 31"

text \<open>
  A queue for the witnesses: the clock and the log of the callbacks are the world; a callback
  writes its number and its argument to the log. Three events lie at 0x1000, 0x1040 and 0x1080.
\<close>

definition demo_act :: "eq_fn \<Rightarrow> ptr \<Rightarrow> u32 \<times> (eq_fn \<times> ptr) list \<Rightarrow> u32 \<times> (eq_fn \<times> ptr) list" where
  "demo_act f p w = (fst w, (f, p) # snd w)"

definition demo_env :: "(u32 \<times> (eq_fn \<times> ptr) list) eq_env" where
  "demo_env = \<lparr>env_tick = (\<lambda>w. (fst w, w)), env_malloc = (\<lambda>_ w. (0x1000, w)), env_sema_create = (\<lambda>_ w. (0, w)), env_mutex_create = (\<lambda>_ _ w. (0, w)),
     env_call = (\<lambda>f p s. Some (s\<lparr>world := demo_act f p (world s)\<rparr>)), env_update = (\<lambda>_ _ _ s. Some s), env_wait = (\<lambda>_ _ s. s)\<rparr>"

definition demo_eq :: "(u32 \<times> (eq_fn \<times> ptr) list) eq" where
  "demo_eq = \<lparr>ev_size = (\<lambda>_. 48), ev_id = (\<lambda>_. 1), ev_generation = (\<lambda>_. 0), ev_next = (\<lambda>_. 0), ev_sibling = (\<lambda>_. 0),
     ev_ref = (\<lambda>_. PQueue 0x100), ev_target = (\<lambda>_. 10)(0x1000 := 20), ev_period = (\<lambda>_. - 1), ev_dtor = (\<lambda>_. NoFn), ev_cb = (\<lambda>_. Client 1),
     eq_queue = (\<lambda>_. 0), eq_tick = (\<lambda>_. 0), eq_break = (\<lambda>_. False), eq_generation = (\<lambda>_. 0), eq_buffer = (\<lambda>_. 0x1000),
     eq_npw2 = (\<lambda>_. 12), eq_allocated = (\<lambda>_. 0), eq_chunks = (\<lambda>_. 0), slab_size = (\<lambda>_. 0x400), slab_data = (\<lambda>_. 0x1030),
     bg_active = (\<lambda>_. False), bg_update = (\<lambda>_. NoFn), bg_timer = (\<lambda>_. 0), eq_sema = (\<lambda>_. False), ec_cb = (\<lambda>_. NoFn),
     ec_data = (\<lambda>_. 0), cc_q = (\<lambda>_. 0), cc_target = (\<lambda>_. 0), cc_id = (\<lambda>_. 0), world = (10, [])\<rparr>"
text \<open>A periodic event at 0x1000 that has expired at the time 10.\<close>

abbreviation demo_due :: "(u32 \<times> (eq_fn \<times> ptr) list) eq" where
  "demo_due \<equiv> demo_eq\<lparr>eq_queue := \<lambda>_. 0x1000, ev_target := \<lambda>_. 10, ev_period := \<lambda>_. 5\<rparr>"

section \<open>Linked slots\<close>

lemma deref_simps [simp]:
  "deref head s (PQueue q) = eq_queue s q" "deref head s (PChunks q) = eq_chunks s q" "deref head s (PNext e) = ev_next s e"
  "deref head s (PSibling e) = ev_sibling s e" "deref head s PLocal = head"
  by (simp_all add: deref_def)

lemma linked_append: "linked n b h (us @ vs) k \<longleftrightarrow> (\<exists>m. linked n b h us m \<and> linked n b m vs k)"
  by (induction us arbitrary: h) auto

lemma linked_cong:
  assumes "\<And>x. x \<in> hd ` set ss \<Longrightarrow> n' x = n x" "\<And>x. x \<in> set (concat ss) \<Longrightarrow> b' x = b x"
  shows "linked n' b' h ss k = linked n b h ss k"
  using assms
proof (induction ss arbitrary: h)
  case (Cons es ss)
  have "forward b' (hd es) (tl es) = forward b (hd es) (tl es)" if "es \<noteq> []"
    by (rule forward_cong) (use Cons.prems(2) that in \<open>cases es; auto\<close>)
  then show ?case using Cons by (cases "es = []") auto
qed simp

lemma linked_heads: "linked n b h ss k \<Longrightarrow> [] \<notin> set ss"
  by (induction ss arbitrary: h) auto

lemma linked_nonnull: "linked n b h ss k \<Longrightarrow> NULL \<notin> set (concat ss)"
proof (induction ss arbitrary: h)
  case (Cons es ss)
  then show ?case using forward_nonnull [of b "hd es" "tl es"] by (cases es) auto
qed simp

lemma heads_in: "[] \<notin> set ss \<Longrightarrow> hd ` set ss \<subseteq> set (concat ss)"
proof
  fix x assume "[] \<notin> set ss" "x \<in> hd ` set ss"
  then obtain es where "es \<in> set ss" "x = hd es" "es \<noteq> []" by (metis imageE)
  then show "x \<in> set (concat ss)" using hd_in_set [of es] by (auto intro!: bexI [of _ es])
qed

lemma last_head_in: "us \<noteq> [] \<Longrightarrow> [] \<notin> set us \<Longrightarrow> hd (last us) \<in> set (concat us)"
  using heads_in [of us] last_in_set [of us] by blast

lemma linked_upd [simp]:
  "x \<notin> set (concat ss) \<Longrightarrow> [] \<notin> set ss \<Longrightarrow> linked (n(x := v)) b h ss k = linked n b h ss k"
  "x \<notin> set (concat ss) \<Longrightarrow> linked n (b(x := v)) h ss k = linked n b h ss k"
proof -
  assume x: "x \<notin> set (concat ss)"
  show "linked n (b(x := v)) h ss k = linked n b h ss k" by (rule linked_cong) (use x in auto)
  assume "[] \<notin> set ss"
  from heads_in [OF this] x show "linked (n(x := v)) b h ss k = linked n b h ss k" by (intro linked_cong) auto
qed

lemma linked_det: "linked n b h us m \<Longrightarrow> linked n b h us m' \<Longrightarrow> m = m'"
  by (induction us arbitrary: h) auto

lemma refs_append: "refs r p (us @ vs) \<longleftrightarrow> refs r p us \<and> refs r (place_end p us) vs"
  by (induction us arbitrary: p) (auto simp: place_end_def)

lemma sib_refs_cong: "(\<And>x. x \<in> set xs \<Longrightarrow> r' x = r x) \<Longrightarrow> sib_refs r' e xs = sib_refs r e xs"
  by (induction xs arbitrary: e) auto

lemma refs_cong: "(\<And>x. x \<in> set (concat ss) \<Longrightarrow> r' x = r x) \<Longrightarrow> [] \<notin> set ss \<Longrightarrow> refs r' p ss = refs r p ss"
proof (induction ss arbitrary: p)
  case (Cons es ss)
  then have "sib_refs r' (hd es) (tl es) = sib_refs r (hd es) (tl es)"
    by (intro sib_refs_cong) (cases es; auto)
  then show ?case using Cons by (cases es) auto
qed simp

lemma refs_upd [simp]: "x \<notin> set (concat ss) \<Longrightarrow> [] \<notin> set ss \<Longrightarrow> refs (r(x := v)) p ss = refs r p ss"
  by (rule refs_cong) auto

text \<open>Redirecting the link at the end of a prefix.\<close>

lemma linked_redirect:
  assumes "linked n b h us m" "us \<noteq> []" "distinct (concat us)"
  shows "linked (n(hd (last us) := k)) b h us k"
  using assms
proof (induction us arbitrary: h)
  case (Cons es us)
  show ?case
  proof (cases "us = []")
    case True then show ?thesis using Cons.prems by (cases es) auto
  next
    case False
    have l: "linked n b h (es # us) m" by (rule Cons.prems(1))
    have "hd (last us) \<in> set (concat us)" using last_head_in [OF False] linked_heads [of n b "n (hd es)" us m] l by simp
    then have "hd (last us) \<noteq> hd es" using Cons.prems(3) l by (cases es) auto
    then show ?thesis using Cons.IH [of "n (hd es)"] Cons.prems False by auto
  qed
qed simp

lemma find_place_spec:
  assumes "linked (ev_next s) b (deref head s p) ss NULL"
  shows "find_place go head s p = Some (place_end p (takeWhile (\<lambda>es. go (hd es)) ss))"
  using assms
proof (induction ss arbitrary: p)
  case Nil then show ?case by (subst find_place.simps) (simp add: place_end_def)
next
  case (Cons es ss)
  have h: "deref head s p = hd es" "hd es \<noteq> NULL" "linked (ev_next s) b (deref head s (PNext (hd es))) ss NULL"
    using Cons.prems by simp_all
  show ?case
  proof (cases "go (hd es)")
    case True
    then have "find_place go head s p = find_place go head s (PNext (hd es))" using h by (subst find_place.simps) simp
    then show ?thesis using Cons.IH [OF h(3)] True by (simp add: place_end_def)
  next
    case False then show ?thesis using h by (subst find_place.simps) (simp add: place_end_def)
  qed
qed

text \<open>The value at the end of a prefix.\<close>

lemma deref_place_end:
  assumes "linked (ev_next s) b (deref head s p) us m" shows "deref head s (place_end p us) = m"
  using assms
proof (induction us arbitrary: p)
  case (Cons es us)
  have "linked (ev_next s) b (deref head s (PNext (hd es))) us m" using Cons.prems by simp
  from Cons.IH [OF this] show ?case by (auto simp: place_end_def)
qed (simp add: place_end_def)

section \<open>Time\<close>

lemma tickdiff_due:
  assumes "in_window b x" "in_window b y"
  shows "equeue_tickdiff x y = sint (x - b) - sint (y - b)"
proof -
  have "x - y = (x - b) - (y - b)" by simp
  then have "sint (x - y) = signed_take_bit 31 (sint (x - b) - sint (y - b))"
    using sint_word_ariths(2) [of "x - b" "y - b"] by simp
  then show ?thesis using assms by (simp add: equeue_tickdiff_def in_window_def signed_take_bit_int_eq_self_iff)
qed

lemma sint_diff_eq: "sint (x - b) = sint (y - b) \<longleftrightarrow> x = (y :: u32)"
proof
  assume "sint (x - b) = sint (y - b)"
  then have "(of_int (sint (x - b)) :: u32) = of_int (sint (y - b))" by simp
  then show "x = y" by simp
qed simp

lemma clampdiff_spec: "equeue_clampdiff a b = (if sint (a - b) < 0 then 0 else a - b)"
proof -
  have "signed_drop_bit 31 d = (if sint d < 0 then - 1 else 0)" for d :: u32
  proof -
    have "signed_drop_bit 31 d = (if bit d 31 then - 1 else 0)"
    proof (rule bit_word_eqI)
      fix n assume "n < LENGTH(32)"
      then have "(if LENGTH(32) - 31 \<le> n \<and> n < LENGTH(32) then LENGTH(32) - 1 else 31 + n) = 31" by auto
      then show "bit (signed_drop_bit 31 d) n = bit (if bit d 31 then - 1 else 0 :: u32) n"
        using \<open>n < LENGTH(32)\<close> by (simp only: bit_signed_drop_bit_iff) simp
    qed
    then show ?thesis using bit_last_iff [of d] by simp
  qed
  then show ?thesis by (simp add: equeue_clampdiff_def Let_def)
qed

section \<open>Inserting an event\<close>

lemma flat_simps [simp]: "flat [] = []" "flat (es # ss) = rev es @ flat ss" "flat (us @ vs) = flat us @ flat vs"
  by (simp_all add: flat_def)

lemma set_flat [simp]: "set (flat ss) = set (concat ss)"
  by (induction ss) auto

lemma assign_end:
  "assign (place_end (PQueue q) us) e s =
    s\<lparr>ev_next := relink us e (ev_next s), eq_queue := (eq_queue s)(q := if us = [] then e else eq_queue s q)\<rparr>"
  "assign (place_end (PChunks q) us) e s =
    s\<lparr>ev_next := relink us e (ev_next s), eq_chunks := (eq_chunks s)(q := if us = [] then e else eq_chunks s q)\<rparr>"
  by (simp_all add: assign_def place_end_def relink_def)

lemma linked_relink:
  "linked n b h us m \<Longrightarrow> distinct (concat us) \<Longrightarrow> linked (relink us e n) b (if us = [] then e else h) us e"
  using linked_redirect [of n b h us m e] by (simp add: relink_def)

lemma relink_other: "x \<notin> set (concat us) \<Longrightarrow> [] \<notin> set us \<Longrightarrow> relink us e n x = n x"
  using last_head_in [of us] by (auto simp: relink_def)

lemma linked_relink_other:
  assumes "[] \<notin> set us" "[] \<notin> set vs" "distinct (concat (us @ vs))"
  shows "linked (relink us e n) b h vs k = linked n b h vs k"
proof (rule linked_cong)
  fix x assume "x \<in> hd ` set vs"
  then show "relink us e n x = n x" using assms heads_in [of vs] by (intro relink_other) auto
qed simp

lemma linked_new:
  assumes L: "linked n b h (us @ vs) NULL" and d: "distinct (concat (us @ vs))"
    and e: "e \<notin> set (concat (us @ vs))" "e \<noteq> NULL" and U: "linked n b h us m"
  shows "linked (relink us e (n(e := m))) (b(e := NULL)) (if us = [] then e else h) (us @ [e] # vs) NULL"
proof -
  note ne = linked_heads [OF L]
  obtain m' where "linked n b h us m'" "linked n b m' vs NULL" using L unfolding linked_append by blast
  moreover have "m' = m" by (rule linked_det [OF calculation(1) U])
  ultimately have V: "linked n b m vs NULL" by simp
  have "linked (n(e := m)) (b(e := NULL)) h us m" using U e ne by simp
  then have "linked (relink us e (n(e := m))) (b(e := NULL)) (if us = [] then e else h) us e" by (rule linked_relink) (use d in simp)
  moreover have "linked (relink us e (n(e := m))) (b(e := NULL)) e ([e] # vs) NULL"
  proof -
    have "linked (relink us e (n(e := m))) (b(e := NULL)) m vs NULL"
      using V ne d e by (subst linked_relink_other) auto
    moreover have "relink us e (n(e := m)) e = m" using relink_other [of e us e "n(e := m)"] ne e by simp
    ultimately show ?thesis using e(2) by simp
  qed
  ultimately show ?thesis
    unfolding linked_append by blast
qed

lemma refs_new:
  assumes L: "linked n b h (us @ vs) NULL" and R: "refs r p (us @ vs)" and d: "distinct (concat (us @ vs))"
    and e: "e \<notin> set (concat (us @ vs))" "e \<noteq> NULL" and U: "linked n b h us m"
  shows "refs ((if m \<noteq> NULL then r(m := PNext e) else r)(e := place_end p us)) p (us @ [e] # vs)"
proof -
  note ne = linked_heads [OF L]
  obtain m' where "linked n b h us m'" "linked n b m' vs NULL" using L unfolding linked_append by blast
  moreover have "m' = m" by (rule linked_det [OF calculation(1) U])
  ultimately have V: "linked n b m vs NULL" by simp
  let ?r = "(if m \<noteq> NULL then r(m := PNext e) else r)(e := place_end p us)"
  have rf: "refs r p us" "refs r (place_end p us) vs" using R by (simp_all add: refs_append)
  have mv: "m = NULL \<and> vs = [] \<or> m \<noteq> NULL \<and> (\<exists>xs ws. vs = (m # xs) # ws)"
    using V by (cases vs; cases "hd vs") auto
  have "refs ?r p us" using rf(1) ne e d mv by (subst refs_cong [where r = r]) auto
  moreover have "refs ?r (PNext e) vs"
  proof (cases vs)
    case (Cons es ws)
    then obtain xs where es: "es = m # xs" "m \<noteq> NULL" using mv by auto
    have "sib_refs ?r m xs = sib_refs r m xs" by (rule sib_refs_cong) (use Cons es d e in auto)
    moreover have "refs ?r (PNext m) ws = refs r (PNext m) ws" by (rule refs_cong) (use Cons es d e ne in auto)
    ultimately show ?thesis using rf(2) Cons es e by auto
  qed simp
  ultimately show ?thesis by (simp add: refs_append)
qed

lemma linked_join:
  assumes L: "linked n b h (us @ (x # xs) # ws) NULL" and d: "distinct (concat (us @ (x # xs) # ws))"
    and e: "e \<notin> set (concat (us @ (x # xs) # ws))" "e \<noteq> NULL"
  shows "linked (relink us e (n(e := n x))) (b(e := x)) (if us = [] then e else h) (us @ (e # x # xs) # ws) NULL"
proof -
  note ne = linked_heads [OF L]
  have U: "linked n b h us x" and V: "linked n b x ((x # xs) # ws) NULL" using L unfolding linked_append by auto
  have W: "linked n b (n x) ws NULL" and X: "forward b x xs" "x \<noteq> NULL" using V by simp_all
  have "linked (n(e := n x)) (b(e := x)) h us x" using U e ne by simp
  then have "linked (relink us e (n(e := n x))) (b(e := x)) (if us = [] then e else h) us e" by (rule linked_relink) (use d in simp)
  moreover have "linked (relink us e (n(e := n x))) (b(e := x)) e ((e # x # xs) # ws) NULL"
  proof -
    have "linked (relink us e (n(e := n x))) (b(e := x)) (n x) ws NULL"
      using W ne d e by (subst linked_relink_other) auto
    moreover have "relink us e (n(e := n x)) e = n x" using relink_other [of e us e "n(e := n x)"] ne e by simp
    moreover have "forward (b(e := x)) e (x # xs)" using X e by auto
    ultimately show ?thesis using e(2) by simp
  qed
  ultimately show ?thesis
    unfolding linked_append by blast
qed

lemma refs_join:
  assumes L: "linked n b h (us @ (x # xs) # ws) NULL" and R: "refs r p (us @ (x # xs) # ws)" and d: "distinct (concat (us @ (x # xs) # ws))"
    and e: "e \<notin> set (concat (us @ (x # xs) # ws))" "e \<noteq> NULL"
  shows "refs ((if n x \<noteq> NULL then r(n x := PNext e) else r)(x := PSibling e, e := place_end p us)) p (us @ (e # x # xs) # ws)"
proof -
  note ne = linked_heads [OF L]
  have U: "linked n b h us x" and V: "linked n b x ((x # xs) # ws) NULL" using L unfolding linked_append by auto
  have W: "linked n b (n x) ws NULL" and X: "forward b x xs" "x \<noteq> NULL" using V by simp_all
  let ?r = "(if n x \<noteq> NULL then r(n x := PNext e) else r)(x := PSibling e, e := place_end p us)"
  have rf: "refs r p us" "sib_refs r x xs" "refs r (PNext x) ws" using R by (simp_all add: refs_append)
  have mv: "n x = NULL \<and> ws = [] \<or> n x \<noteq> NULL \<and> (\<exists>ys zs. ws = (n x # ys) # zs)"
    using W by (cases ws; cases "hd ws") auto
  have "refs ?r p us" using rf(1) ne e d mv by (subst refs_cong [where r = r]) auto
  moreover have "sib_refs ?r e (x # xs)"
  proof -
    have "sib_refs ?r x xs = sib_refs r x xs" by (rule sib_refs_cong) (use d e mv in auto)
    then show ?thesis using rf(2) e by auto
  qed
  moreover have "refs ?r (PNext e) ws"
  proof (cases ws)
    case (Cons es zs)
    then obtain ys where es: "es = n x # ys" "n x \<noteq> NULL" using mv by auto
    have "sib_refs ?r (n x) ys = sib_refs r (n x) ys" by (rule sib_refs_cong) (use Cons es d e in auto)
    moreover have "refs ?r (PNext (n x)) zs = refs r (PNext (n x)) zs" by (rule refs_cong) (use Cons es d e ne in auto)
    ultimately show ?thesis using rf(3) Cons es e d by auto
  qed simp
  ultimately show ?thesis by (simp add: refs_append)
qed

text \<open>Taking the first event of a slot out.\<close>

lemma linked_drop:
  assumes L: "linked n b h (us @ [e] # vs) NULL" and d: "distinct (concat (us @ [e] # vs))"
  shows "linked (relink us (n e) n) b (if us = [] then n e else h) (us @ vs) NULL"
proof -
  note ne = linked_heads [OF L]
  have U: "linked n b h us e" and V: "linked n b (n e) vs NULL" using L unfolding linked_append by auto
  have "linked (relink us (n e) n) b (if us = [] then n e else h) us (n e)" by (rule linked_relink [OF U]) (use d in simp)
  moreover have "linked (relink us (n e) n) b (n e) vs NULL" using V ne d by (subst linked_relink_other) auto
  ultimately show ?thesis unfolding linked_append by blast
qed

lemma linked_pop:
  assumes L: "linked n b h (us @ (e # x # xs) # vs) NULL" and d: "distinct (concat (us @ (e # x # xs) # vs))"
  shows "linked ((relink us x n)(x := n e)) b (if us = [] then x else h) (us @ (x # xs) # vs) NULL"
proof -
  note ne = linked_heads [OF L]
  have U: "linked n b h us e" and V: "linked n b (n e) vs NULL" and X: "x \<noteq> NULL" "forward b x xs" using L unfolding linked_append by auto
  have "linked (relink us x n) b (if us = [] then x else h) us x" by (rule linked_relink [OF U]) (use d in simp)
  moreover have "linked (relink us x n) b (n e) vs NULL" using V ne d by (subst linked_relink_other) auto
  ultimately show ?thesis using X d ne unfolding linked_append by (intro exI [of _ x]) auto
qed

lemma slot_due: "slots_ok b s ss \<Longrightarrow> es \<in> set ss \<Longrightarrow> x \<in> set es \<Longrightarrow> due b s x = due b s (hd es)"
  by (simp add: slots_ok_def due_def)

lemma slots_ok_append:
  "slots_ok b s (us @ vs) \<longleftrightarrow> slots_ok b s us \<and> slots_ok b s vs \<and> (\<forall>xs\<in>set us. \<forall>ys\<in>set vs. due b s (hd xs) < due b s (hd ys))"
  by (auto simp: slots_ok_def sorted_wrt_append)

lemma slots_ok_Cons:
  "slots_ok b s (es # ss) \<longleftrightarrow> (\<forall>x\<in>set es. in_window b (ev_target s x) \<and> ev_target s x = ev_target s (hd es)) \<and>
     slots_ok b s ss \<and> (\<forall>ys\<in>set ss. due b s (hd es) < due b s (hd ys))"
  by (auto simp: slots_ok_def)

lemma slots_ok_cong:
  assumes T: "\<And>x. x \<in> set (concat ss) \<Longrightarrow> ev_target s' x = ev_target s x" and ne: "[] \<notin> set ss"
  shows "slots_ok b s' ss = slots_ok b s ss"
proof -
  have m: "ev_target s' x = ev_target s x" if "es \<in> set ss" "x \<in> set es" for es x using that by (intro T) auto
  have h: "ev_target s' (hd es) = ev_target s (hd es)" if "es \<in> set ss" for es
    using that heads_in [OF ne] by (intro T) auto
  have "sorted_wrt (\<lambda>xs ys. due b s' (hd xs) < due b s' (hd ys)) ss = sorted_wrt (\<lambda>xs ys. due b s (hd xs) < due b s (hd ys)) ss"
    by (rule iffI; rule sorted_wrt_mono_rel) (auto simp: due_def h)
  moreover have "(\<forall>x\<in>set (concat ss). in_window b (ev_target s' x)) = (\<forall>x\<in>set (concat ss). in_window b (ev_target s x))"
    by (rule ball_cong [OF refl]) (simp only: T)
  moreover have "(\<forall>es\<in>set ss. \<forall>x\<in>set es. ev_target s' x = ev_target s' (hd es)) = (\<forall>es\<in>set ss. \<forall>x\<in>set es. ev_target s x = ev_target s (hd es))"
    by (intro ball_cong refl) (simp only: m h)
  ultimately show ?thesis unfolding slots_ok_def by (simp only:)
qed

text \<open>The slots that the search passes over, and the others.\<close>

lemma slots_dues:
  assumes ok: "slots_ok b s ss" and ne: "[] \<notin> set ss" and t: "in_window b t"
    and us: "us = takeWhile (\<lambda>es. equeue_tickdiff (ev_target s (hd es)) t < 0) ss"
    and vs: "vs = dropWhile (\<lambda>es. equeue_tickdiff (ev_target s (hd es)) t < 0) ss"
  shows "\<And>es. es \<in> set us \<Longrightarrow> due b s (hd es) < sint (t - b)" "\<And>es. es \<in> set vs \<Longrightarrow> sint (t - b) \<le> due b s (hd es)"
proof -
  have w: "equeue_tickdiff (ev_target s (hd es)) t = due b s (hd es) - sint (t - b)" if "es \<in> set ss" for es
    using tickdiff_due [OF _ t, of "ev_target s (hd es)"] that ok ne heads_in [OF ne] unfolding slots_ok_def due_def by blast
  show "due b s (hd es) < sint (t - b)" if "es \<in> set us" for es
    using set_takeWhileD [of es _ ss] that w [of es] us by fastforce
  show "sint (t - b) \<le> due b s (hd es)" if es: "es \<in> set vs" for es
  proof -
    obtain v ws where v: "vs = v # ws" using es by (cases vs) auto
    then have "\<not> equeue_tickdiff (ev_target s (hd v)) t < 0" using vs by (simp add: dropWhile_eq_Cons_conv)
    moreover have "v \<in> set ss" using v vs set_dropWhileD [of v _ ss] by (metis list.set_intros(1))
    ultimately have 1: "sint (t - b) \<le> due b s (hd v)" using w [of v] by simp
    have "slots_ok b s vs" using ok us vs slots_ok_append [of b s us vs] by simp
    then show ?thesis using es v 1 by (auto simp: slots_ok_Cons)
  qed
qed

lemma enqueue_slots:
  assumes ok: "slots_ok b s (us @ vs)" and ne: "[] \<notin> set (us @ vs)" and e: "e \<notin> set (concat (us @ vs))" and t: "in_window b t"
    and T: "ev_target s' = (ev_target s)(e := t)"
    and us: "\<And>es. es \<in> set us \<Longrightarrow> due b s (hd es) < sint (t - b)" and vs: "\<And>es. es \<in> set vs \<Longrightarrow> sint (t - b) \<le> due b s (hd es)"
  shows "vs = (x # xs) # ws \<Longrightarrow> ev_target s x = t \<Longrightarrow> slots_ok b s' (us @ (e # x # xs) # ws) \<and>
      flat (us @ (e # x # xs) # ws) = pinsert (\<lambda>y. - due b s' y) e (flat (us @ vs))"
    "vs = [] \<or> ev_target s (hd (hd vs)) \<noteq> t \<Longrightarrow> slots_ok b s' (us @ [e] # vs) \<and>
      flat (us @ [e] # vs) = pinsert (\<lambda>y. - due b s' y) e (flat (us @ vs))"
proof -
  have de: "due b s' e = sint (t - b)" by (simp add: due_def T)
  have dx: "due b s' y = due b s y" if "y \<in> set (concat (us @ vs))" for y using that e by (auto simp: due_def T)
  have hin: "hd es \<in> set (concat (us @ vs))" if "es \<in> set (us @ vs)" for es using that heads_in [OF ne] by blast
  have cong: "slots_ok b s' us = slots_ok b s us" "slots_ok b s' vs = slots_ok b s vs"
    by (rule slots_ok_cong; use ne e T in auto)+
  have Us: "slots_ok b s us" "slots_ok b s vs" using ok by (simp_all add: slots_ok_append)
  have lo: "due b s' y < due b s' e" if "y \<in> set (flat us)" for y
  proof -
    have "\<exists>es\<in>set us. y \<in> set es" using that by simp
    then obtain es where es: "es \<in> set us" "y \<in> set es" by blast
    then have "due b s' y = due b s (hd es)" using slot_due [OF Us(1) es] dx [of y] by auto
    then show ?thesis using us [OF es(1)] de by simp
  qed
  have below: "due b s' (hd es) < sint (t - b)" if "es \<in> set us" for es using us [OF that] dx [OF hin, of es] that by simp
  have after: "due b s' e < due b s' y" if W: "slots_ok b s ws" "set ws \<subseteq> set vs" "\<forall>ys\<in>set ws. sint (t - b) < due b s (hd ys)" "y \<in> set (flat ws)" for ws y
  proof -
    have "\<exists>es\<in>set ws. y \<in> set es" using W(4) by simp
    then obtain es where es: "es \<in> set ws" "y \<in> set es" by blast
    then have "due b s' y = due b s (hd es)" using slot_due [OF W(1) es] dx [of y] W(2) by auto
    then show ?thesis using W(3) es(1) de by auto
  qed
  have above: "sint (t - b) < due b s' (hd ys)" if "set ws \<subseteq> set vs" "\<forall>ys\<in>set ws. sint (t - b) < due b s (hd ys)" "ys \<in> set ws" for ws ys
    using that dx [OF hin, of ys] by auto
  { assume v: "vs = (x # xs) # ws" and x: "ev_target s x = t"
    have dxt: "due b s x = sint (t - b)" using x by (simp add: due_def)
    have S: "slots_ok b s ((x # xs) # ws)" using Us(2) v by simp
    have same: "\<forall>y\<in>set (x # xs). ev_target s' y = t" using S x e v T by (auto simp: slots_ok_Cons)
    have hi: "\<forall>ys\<in>set ws. sint (t - b) < due b s (hd ys)" using S dxt by (simp add: slots_ok_Cons)
    have ws: "set ws \<subseteq> set vs" "slots_ok b s ws" using v S by (auto simp: slots_ok_Cons)
    have W: "slots_ok b s' ws" using cong(2) Us(2) v by (simp add: slots_ok_Cons)
    have m: "\<forall>y\<in>set (e # x # xs). ev_target s' y = t" using same T by simp
    have "\<forall>ys\<in>set ws. due b s' e < due b s' (hd ys)" using above [OF ws(1) hi] de by simp
    then have S': "slots_ok b s' ((e # x # xs) # ws)" using W m t by (simp add: slots_ok_Cons)
    have "\<forall>zs\<in>set ((e # x # xs) # ws). sint (t - b) \<le> due b s' (hd zs)" using above [OF ws(1) hi] de by (auto intro: less_imp_le)
    then have "\<forall>ys\<in>set us. \<forall>zs\<in>set ((e # x # xs) # ws). due b s' (hd ys) < due b s' (hd zs)"
      using below less_le_trans by blast
    then have "slots_ok b s' (us @ (e # x # xs) # ws)" using S' cong(1) Us(1) by (simp only: slots_ok_append simp_thms)
    moreover have "\<forall>y\<in>set (rev (x # xs)). due b s' y = due b s' e" using m by (simp add: due_def)
    then have "\<forall>y\<in>set (flat us @ rev (x # xs)). - due b s' e \<le> - due b s' y" using lo by fastforce
    from pinsert_last [OF this] after [OF ws(2,1) hi]
    have "pinsert (\<lambda>y. - due b s' y) e ((flat us @ rev (x # xs)) @ flat ws) = (flat us @ rev (x # xs)) @ e # flat ws" by auto
    ultimately show "slots_ok b s' (us @ (e # x # xs) # ws) \<and>
        flat (us @ (e # x # xs) # ws) = pinsert (\<lambda>y. - due b s' y) e (flat (us @ vs))"
      using v by simp }
  { assume x: "vs = [] \<or> ev_target s (hd (hd vs)) \<noteq> t"
    have hi: "\<forall>es\<in>set vs. sint (t - b) < due b s (hd es)"
    proof
      fix es assume es: "es \<in> set vs"
      obtain v ws where v: "vs = v # ws" using es by (cases vs) auto
      have "due b s (hd v) \<noteq> sint (t - b)" using x v sint_diff_eq [of "ev_target s (hd v)" b t] by (simp add: due_def)
      then have "sint (t - b) < due b s (hd v)" using vs [of v] v by simp
      then show "sint (t - b) < due b s (hd es)" using es v Us(2) by (auto simp: slots_ok_Cons)
    qed
    have W: "slots_ok b s' vs" using cong(2) Us(2) by simp
    have "\<forall>ys\<in>set vs. due b s' e < due b s' (hd ys)" using above [OF _ hi] de by simp
    then have S': "slots_ok b s' ([e] # vs)" using W t T by (simp add: slots_ok_Cons)
    have "\<forall>zs\<in>set ([e] # vs). sint (t - b) \<le> due b s' (hd zs)" using above [OF _ hi] de by (auto intro: less_imp_le)
    then have "\<forall>ys\<in>set us. \<forall>zs\<in>set ([e] # vs). due b s' (hd ys) < due b s' (hd zs)"
      using below less_le_trans by blast
    then have "slots_ok b s' (us @ [e] # vs)" using S' cong(1) Us(1) by (simp only: slots_ok_append simp_thms)
    moreover have "\<forall>y\<in>set (flat us). - due b s' e \<le> - due b s' y" using lo by fastforce
    from pinsert_last [OF this] after [OF Us(2) _ hi]
    have "pinsert (\<lambda>y. - due b s' y) e (flat us @ flat vs) = flat us @ e # flat vs" by auto
    ultimately show "slots_ok b s' (us @ [e] # vs) \<and>
        flat (us @ [e] # vs) = pinsert (\<lambda>y. - due b s' y) e (flat (us @ vs))"
      by simp }
qed

lemma enqueue_spec:
  assumes R: "eq_rep b q s ss" and e: "e \<notin> set (concat ss)" "e \<noteq> NULL"
    and t: "t = tick + equeue_clampdiff (ev_target s e) tick" "in_window b t" and bg: "bg_update s q = NoFn \<or> \<not> bg_active s q"
  obtains n sb r h ss' s' where
    "s' = s\<lparr>ev_target := (ev_target s)(e := t), ev_generation := (ev_generation s)(e := eq_generation s q),
      ev_next := n, ev_sibling := sb, ev_ref := r, eq_queue := (eq_queue s)(q := h)\<rparr>"
    "equeue_enqueue env q e tick s = Some (push_bit (eq_npw2 s q) (ucast (ev_id s e)) OR (e - eq_buffer s q), s')"
    "eq_rep b q s' ss'" "flat ss' = pinsert (\<lambda>x. - due b s' x) e (flat ss)" "e \<in> hd ` set ss'"
    "\<And>x. x \<notin> insert e (set (concat ss)) \<Longrightarrow> n x = ev_next s x \<and> sb x = ev_sibling s x \<and> r x = ev_ref s x"
proof -
  let ?s1 = "s\<lparr>ev_target := (ev_target s)(e := t), ev_generation := (ev_generation s)(e := eq_generation s q)\<rparr>"
  let ?go = "\<lambda>es. equeue_tickdiff (ev_target ?s1 (hd es)) t < 0"
  define us vs where uv: "us = takeWhile ?go ss" "vs = dropWhile ?go ss"
  have ss: "ss = us @ vs" by (simp add: uv)
  have L: "linked (ev_next s) (ev_sibling s) (eq_queue s q) (us @ vs) NULL" and rf: "refs (ev_ref s) (PQueue q) (us @ vs)"
    and d: "distinct (concat (us @ vs))" and ok: "slots_ok b s (us @ vs)" using R unfolding eq_rep_def ss by blast+
  note ne = linked_heads [OF L]
  obtain m where U: "linked (ev_next s) (ev_sibling s) (eq_queue s q) us m" and V: "linked (ev_next s) (ev_sibling s) m vs NULL"
    using L unfolding linked_append by blast
  let ?p = "place_end (PQueue q) us"
  have pos: "slot_pos ?s1 t (PQueue q) = Some ?p"
    unfolding slot_pos_def uv(1) by (rule find_place_spec [of _ "ev_sibling s"]) (use L ss in simp)
  have dp: "deref NULL ?s1 ?p = m" by (rule deref_place_end [of _ "ev_sibling s"]) (use U in simp)
  have go: "takeWhile ?go ss = takeWhile (\<lambda>es. equeue_tickdiff (ev_target s (hd es)) t < 0) ss"
    "dropWhile ?go ss = dropWhile (\<lambda>es. equeue_tickdiff (ev_target s (hd es)) t < 0) ss"
  proof -
    have "hd es \<noteq> e" if "es \<in> set ss" for es using that heads_in [OF ne] e(1) ss by auto
    then show "takeWhile ?go ss = takeWhile (\<lambda>es. equeue_tickdiff (ev_target s (hd es)) t < 0) ss"
      "dropWhile ?go ss = dropWhile (\<lambda>es. equeue_tickdiff (ev_target s (hd es)) t < 0) ss"
      by (auto cong: takeWhile_cong dropWhile_cong)
  qed
  note du = slots_dues [OF ok [folded ss] ne [folded ss] t(2) uv(1) [unfolded go] uv(2) [unfolded go]]
  have e': "e \<notin> set (concat (us @ vs))" using e(1) ss by simp
  have em: "e \<noteq> m" using V e' ne by (cases vs; cases "hd vs") (auto simp: e(2))
  show thesis
  proof (cases "m \<noteq> NULL \<and> ev_target s m = t")
    case True
    then obtain xs ws where v: "vs = (m # xs) # ws" using V by (cases vs; cases "hd vs") auto
    let ?n = "relink us e ((ev_next s)(e := ev_next s m))" and ?sb = "(ev_sibling s)(e := m)"
    let ?r = "(if ev_next s m \<noteq> NULL then (ev_ref s)(ev_next s m := PNext e) else ev_ref s)(m := PSibling e, e := ?p)"
    let ?h = "if us = [] then e else eq_queue s q" and ?ss = "us @ (e # m # xs) # ws"
    let ?s = "s\<lparr>ev_target := (ev_target s)(e := t), ev_generation := (ev_generation s)(e := eq_generation s q),
      ev_next := ?n, ev_sibling := ?sb, ev_ref := ?r, eq_queue := (eq_queue s)(q := ?h)\<rparr>"
    have run: "equeue_enqueue env q e tick s = Some (push_bit (eq_npw2 s q) (ucast (ev_id s e)) OR (e - eq_buffer s q), ?s)"
      using True em bg unfolding equeue_enqueue_def
      by (cases "bg_update s q = NoFn"; simp add: Let_def t(1) [symmetric] pos dp assign_end)
    note lj = linked_join [OF L [unfolded v] d [unfolded v] e' [unfolded v] e(2)]
      refs_join [OF L [unfolded v] rf [unfolded v] d [unfolded v] e' [unfolded v] e(2)]
    have es: "slots_ok b ?s ?ss \<and> flat ?ss = pinsert (\<lambda>y. - due b ?s y) e (flat (us @ vs))"
      by (rule enqueue_slots(1) [OF ok ne e' t(2) _ du v]) (use True in simp_all)
    have "eq_rep b q ?s ?ss" unfolding eq_rep_def using lj es d e' v by auto
    moreover have "?n x = ev_next s x \<and> ?sb x = ev_sibling s x \<and> ?r x = ev_ref s x" if "x \<notin> insert e (set (concat ss))" for x
    proof -
      have "linked (ev_next s) (ev_sibling s) (ev_next s m) ws NULL" using V v by simp
      then have "ev_next s m \<noteq> NULL \<Longrightarrow> ev_next s m \<in> set (concat ws)" by (cases ws) auto
      then show ?thesis using that v ss ne relink_other [of x us e "(ev_next s)(e := ev_next s m)"] by auto
    qed
    ultimately show thesis using es ss by (intro that [where n = ?n and sb = ?sb and r = ?r and h = ?h and ss' = ?ss, OF refl run]) simp_all
  next
    case False
    let ?n = "relink us e ((ev_next s)(e := m))" and ?sb = "(ev_sibling s)(e := NULL)"
    let ?r = "(if m \<noteq> NULL then (ev_ref s)(m := PNext e) else ev_ref s)(e := ?p)"
    let ?h = "if us = [] then e else eq_queue s q" and ?ss = "us @ [e] # vs"
    let ?s = "s\<lparr>ev_target := (ev_target s)(e := t), ev_generation := (ev_generation s)(e := eq_generation s q),
      ev_next := ?n, ev_sibling := ?sb, ev_ref := ?r, eq_queue := (eq_queue s)(q := ?h)\<rparr>"
    have run: "equeue_enqueue env q e tick s = Some (push_bit (eq_npw2 s q) (ucast (ev_id s e)) OR (e - eq_buffer s q), ?s)"
      using False em bg unfolding equeue_enqueue_def
      by (cases "m = NULL"; cases "bg_update s q = NoFn"; simp add: Let_def t(1) [symmetric] pos dp assign_end)
    have hv: "vs = [] \<or> ev_target s (hd (hd vs)) \<noteq> t" using False V by (cases vs) auto
    note ln = linked_new [OF L d e' e(2) U] refs_new [OF L rf d e' e(2) U]
    have es: "slots_ok b ?s ?ss \<and> flat ?ss = pinsert (\<lambda>y. - due b ?s y) e (flat (us @ vs))"
      by (rule enqueue_slots(2) [OF ok ne e' t(2) _ du hv]) simp
    have "eq_rep b q ?s ?ss" unfolding eq_rep_def using ln es d e' by auto
    moreover have "?n x = ev_next s x \<and> ?sb x = ev_sibling s x \<and> ?r x = ev_ref s x" if "x \<notin> insert e (set (concat ss))" for x
    proof -
      have "m \<noteq> NULL \<Longrightarrow> m \<in> set (concat vs)" using V by (cases vs) auto
      then show ?thesis using that ss ne relink_other [of x us e "(ev_next s)(e := m)"] by auto
    qed
    ultimately show thesis using es ss by (intro that [where n = ?n and sb = ?sb and r = ?r and h = ?h and ss' = ?ss, OF refl run]) simp_all
  qed
qed

section \<open>Taking the expired events\<close>

lemma chain_next_cong: "(\<And>x. x \<in> set xs \<Longrightarrow> n' x = n x) \<Longrightarrow> chain n' h xs k = chain n h xs k"
  by (induction xs arbitrary: h) auto

lemma chain_upd [simp]: "x \<notin> set xs \<Longrightarrow> chain (n(x := v)) h xs k = chain n h xs k"
  by (rule chain_next_cong) auto

lemma chain_append: "chain n h (xs @ ys) k \<longleftrightarrow> (\<exists>m. chain n h xs m \<and> chain n m ys k)"
  by (induction xs arbitrary: h) auto

lemma chain_redirect:
  "chain n h xs k \<Longrightarrow> xs \<noteq> [] \<Longrightarrow> distinct xs \<Longrightarrow> chain (n(last xs := v)) h xs v"
  by (induction xs arbitrary: h) (auto split: if_splits)

lemma reverse_slot_spec:
  assumes "forward (ev_sibling s) e xs" "e \<noteq> NULL" "chain (ev_next s) prev ys k" "distinct (e # xs @ ys)"
  shows "\<exists>n. reverse_slot prev e s = Some (last (e # xs), s\<lparr>ev_next := n\<rparr>) \<and>
    chain n (last (e # xs)) (rev (e # xs) @ ys) k \<and> (\<forall>x. x \<notin> set (e # xs) \<longrightarrow> n x = ev_next s x)"
  using assms
proof (induction xs arbitrary: e prev ys s)
  case Nil
  let ?s = "s\<lparr>ev_next := (ev_next s)(e := prev)\<rparr>"
  have "reverse_slot prev e s = reverse_slot e NULL ?s" using Nil by (subst reverse_slot.simps) simp
  also have "\<dots> = Some (e, ?s)" by (subst reverse_slot.simps) simp
  finally have r: "reverse_slot prev e s = Some (e, ?s)" .
  have "chain ((ev_next s)(e := prev)) e (e # ys) k" using Nil by (simp del: fun_upd_apply) simp
  then show ?case using r by (intro exI [of _ "(ev_next s)(e := prev)"]) (simp del: chain.simps fun_upd_apply, simp)
next
  case (Cons x xs)
  let ?s = "s\<lparr>ev_next := (ev_next s)(e := prev)\<rparr>"
  have h: "ev_sibling s e = x" "x \<noteq> NULL" "forward (ev_sibling ?s) x xs" using Cons.prems(1) by simp_all
  have "chain (ev_next ?s) e (e # ys) k" using Cons.prems by simp
  moreover have "distinct (x # xs @ e # ys)" using Cons.prems(4) by auto
  ultimately obtain n where n: "reverse_slot e x ?s = Some (last (x # xs), ?s\<lparr>ev_next := n\<rparr>)"
    "chain n (last (x # xs)) (rev (x # xs) @ e # ys) k" "\<forall>y. y \<notin> set (x # xs) \<longrightarrow> n y = ev_next ?s y"
    using Cons.IH [OF h(3,2)] by blast
  have "reverse_slot prev e s = reverse_slot e x ?s" using Cons.prems(2) h(1) by (subst reverse_slot.simps) simp
  then show ?case using n by (intro exI [of _ n]) auto
qed

lemma flatten_spec:
  assumes "linked (ev_next s) (ev_sibling s) ess us NULL" "distinct (acc @ concat us)"
    and "acc = [] \<and> tail = PLocal \<and> (us = [] \<longrightarrow> head = NULL) \<or> acc \<noteq> [] \<and> tail = PNext (last acc) \<and> chain (ev_next s) head acc NULL"
  shows "\<exists>h n. flatten_slots head tail ess s = Some (h, s\<lparr>ev_next := n\<rparr>) \<and> chain n h (acc @ flat us) NULL \<and>
    (\<forall>x. x \<notin> set acc \<union> set (concat us) \<longrightarrow> n x = ev_next s x)"
  using assms
proof (induction us arbitrary: head tail ess s acc)
  case Nil
  have "flatten_slots head tail ess s = Some (head, s)" using Nil.prems(1) by (subst flatten_slots.simps) simp
  moreover have "s\<lparr>ev_next := ev_next s\<rparr> = s" by simp
  moreover have "chain (ev_next s) head acc NULL" using Nil.prems(3) by auto
  ultimately show ?case by (intro exI [of _ head] exI [of _ "ev_next s"]) simp
next
  case (Cons es us)
  obtain e xs where es: "es = e # xs" using Cons.prems(1) by (cases es) auto
  have l: "ess = e" "e \<noteq> NULL" "forward (ev_sibling s) e xs" "linked (ev_next s) (ev_sibling s) (ev_next s e) us NULL"
    using Cons.prems(1) es by simp_all
  note ne = linked_heads [OF l(4)]
  have "chain (ev_next s) NULL [] NULL" "distinct (e # xs @ [])" using Cons.prems(2) es by simp_all
  from reverse_slot_spec [OF l(3,2) this] obtain n where n: "reverse_slot NULL e s = Some (last (e # xs), s\<lparr>ev_next := n\<rparr>)"
    "chain n (last (e # xs)) (rev (e # xs) @ []) NULL" "\<forall>x. x \<notin> set (e # xs) \<longrightarrow> n x = ev_next s x" by blast
  let ?head = "if tail = PLocal then last (e # xs) else head"
  let ?n = "if acc = [] then n else n(last acc := last (e # xs))"
  let ?acc = "acc @ rev (e # xs)"
  have asn: "assign tail (last (e # xs)) (s\<lparr>ev_next := n\<rparr>) = s\<lparr>ev_next := ?n\<rparr>"
    using Cons.prems(3) by (auto simp: assign_def)
  have la: "acc \<noteq> [] \<Longrightarrow> last acc \<in> set acc" by simp
  have "linked ?n (ev_sibling s) (ev_next s e) us NULL = linked (ev_next s) (ev_sibling s) (ev_next s e) us NULL"
  proof (rule linked_cong)
    fix x assume "x \<in> hd ` set us"
    then have "x \<in> set (concat us)" using heads_in [OF ne] by blast
    then have "x \<notin> set acc" "x \<notin> set (e # xs)" using Cons.prems(2) es by auto
    then show "?n x = ev_next s x" using n(3) la by auto
  qed simp
  then have L: "linked (ev_next (s\<lparr>ev_next := ?n\<rparr>)) (ev_sibling (s\<lparr>ev_next := ?n\<rparr>)) (ev_next s e) us NULL" using l(4) by simp
  have c2: "chain ?n (last (e # xs)) (rev (e # xs)) NULL"
  proof (cases "acc = []")
    case False
    have "set acc \<inter> set (rev (e # xs)) = {}" using Cons.prems(2) es by auto
    then have "last acc \<notin> set (rev (e # xs))" using last_in_set [OF False] by blast
    then have "chain (n(last acc := last (e # xs))) (last (e # xs)) (rev (e # xs)) NULL" 
      using n(2) by (subst chain_upd) (simp_all only: append_Nil2 not_False_eq_True)
    then show ?thesis using False by simp
  qed (use n(2) in simp)
  have "chain ?n ?head ?acc NULL"
  proof (cases "acc = []")
    case True then show ?thesis using c2 Cons.prems(3) by simp
  next
    case False
    then have a: "tail = PNext (last acc)" "chain (ev_next s) head acc NULL" using Cons.prems(3) by auto
    have "chain n head acc NULL = chain (ev_next s) head acc NULL" by (rule chain_next_cong) (use n(3) Cons.prems(2) es in auto)
    then have "chain ?n head acc (last (e # xs))" using chain_redirect [of n head acc NULL] a(2) False Cons.prems(2) by simp
    moreover have "?head = head" using a(1) by simp
    ultimately show ?thesis using c2 unfolding chain_append by (intro exI [of _ "last (e # xs)"]) simp
  qed
  moreover have "distinct (?acc @ concat us)" using Cons.prems(2) es by auto
  moreover have "last ?acc = e" by simp
  ultimately obtain h n' where 1: "flatten_slots ?head (PNext e) (ev_next s e) (s\<lparr>ev_next := ?n\<rparr>) = Some (h, (s\<lparr>ev_next := ?n\<rparr>)\<lparr>ev_next := n'\<rparr>)"
    "chain n' h (?acc @ flat us) NULL" "\<forall>x. x \<notin> set ?acc \<union> set (concat us) \<longrightarrow> n' x = ?n x"
    using Cons.IH [OF L, of ?acc "PNext e" ?head] by auto
  have "flatten_slots head tail ess s = flatten_slots ?head (PNext e) (ev_next s e) (s\<lparr>ev_next := ?n\<rparr>)"
    using l(1,2) n(1) asn by (subst flatten_slots.simps) simp
  moreover have "\<forall>x. x \<notin> set acc \<union> set (concat (es # us)) \<longrightarrow> n' x = ev_next s x"
    using 1(3) n(3) es la by auto
  ultimately show ?case using 1(1,2) es by (intro exI [of _ h] exI [of _ n']) simp
qed

lemma takeWhile_flat:
  assumes "slots_ok b s ss" "[] \<notin> set ss"
  shows "flat (takeWhile (\<lambda>es. due b s (hd es) \<le> d) ss) = takeWhile (\<lambda>x. due b s x \<le> d) (flat ss)"
    "flat (dropWhile (\<lambda>es. due b s (hd es) \<le> d) ss) = dropWhile (\<lambda>x. due b s x \<le> d) (flat ss)"
proof -
  have "flat (takeWhile (\<lambda>es. due b s (hd es) \<le> d) ss) = takeWhile (\<lambda>x. due b s x \<le> d) (flat ss) \<and>
      flat (dropWhile (\<lambda>es. due b s (hd es) \<le> d) ss) = dropWhile (\<lambda>x. due b s x \<le> d) (flat ss)"
    using assms
  proof (induction ss)
    case (Cons es ss)
    have dx: "due b s x = due b s (hd es)" if "x \<in> set es" for x using slot_due [OF Cons.prems(1)] that by simp
    show ?case
    proof (cases "due b s (hd es) \<le> d")
      case True
      then have all: "\<And>x. x \<in> set (rev es) \<Longrightarrow> due b s x \<le> d" using dx by simp
      have "flat (takeWhile (\<lambda>es. due b s (hd es) \<le> d) ss) = takeWhile (\<lambda>x. due b s x \<le> d) (flat ss) \<and>
          flat (dropWhile (\<lambda>es. due b s (hd es) \<le> d) ss) = dropWhile (\<lambda>x. due b s x \<le> d) (flat ss)"
        using Cons by (simp add: slots_ok_Cons)
      then show ?thesis using True takeWhile_append2 [of "rev es" "\<lambda>x. due b s x \<le> d" "flat ss", OF all]
        dropWhile_append2 [of "rev es" "\<lambda>x. due b s x \<le> d" "flat ss", OF all] by simp
    next
      case False
      obtain y ys where "rev es = y # ys" using Cons.prems(2) by (cases "rev es") auto
      moreover from this have "y \<in> set es" by (metis list.set_intros(1) set_rev)
      ultimately show ?thesis using dx False by simp
    qed
  qed simp
  then show "flat (takeWhile (\<lambda>es. due b s (hd es) \<le> d) ss) = takeWhile (\<lambda>x. due b s x \<le> d) (flat ss)"
    "flat (dropWhile (\<lambda>es. due b s (hd es) \<le> d) ss) = dropWhile (\<lambda>x. due b s x \<le> d) (flat ss)" by simp_all
qed

lemma dequeue_spec:
  assumes R: "eq_rep b q s ss" and t: "in_window b target"
  obtains n r h g tk head vs s' where
    "s' = s\<lparr>eq_generation := g, eq_tick := tk, ev_next := n, ev_ref := r, eq_queue := (eq_queue s)(q := h)\<rparr>"
    "equeue_dequeue q target s = Some (head, s')" "eq_rep b q s' vs"
    "flat vs = dropWhile (\<lambda>x. due b s x \<le> sint (target - b)) (flat ss)"
    "chain n head (takeWhile (\<lambda>x. due b s x \<le> sint (target - b)) (flat ss)) NULL"
    "\<And>x. x \<notin> set (concat ss) \<Longrightarrow> n x = ev_next s x \<and> r x = ev_ref s x"
proof -
  let ?g = "(eq_generation s)(q := eq_generation s q + 1)"
  let ?tk = "if equeue_tickdiff (eq_tick s q) target \<le> 0 then (eq_tick s)(q := target) else eq_tick s"
  let ?s1 = "s\<lparr>eq_generation := ?g, eq_tick := ?tk\<rparr>"
  let ?go = "\<lambda>es. equeue_tickdiff (ev_target s (hd es)) target \<le> 0"
  define us vs where uv: "us = takeWhile ?go ss" "vs = dropWhile ?go ss"
  have ss: "ss = us @ vs" by (simp add: uv)
  have L: "linked (ev_next s) (ev_sibling s) (eq_queue s q) (us @ vs) NULL" and rf: "refs (ev_ref s) (PQueue q) (us @ vs)"
    and d: "distinct (concat (us @ vs))" and ok: "slots_ok b s (us @ vs)" using R unfolding eq_rep_def ss by blast+
  note ne = linked_heads [OF L]
  obtain m where U: "linked (ev_next s) (ev_sibling s) (eq_queue s q) us m" and V: "linked (ev_next s) (ev_sibling s) m vs NULL"
    using L unfolding linked_append by blast
  let ?p = "place_end PLocal us"
  have L1: "linked (ev_next ?s1) (ev_sibling s) (deref (eq_queue s q) ?s1 PLocal) ss NULL" using L ss by simp
  have pos: "due_pos (eq_queue s q) ?s1 target PLocal = Some ?p"
    unfolding due_pos_def uv(1) using find_place_spec [OF L1, of "\<lambda>e. equeue_tickdiff (ev_target s e) target \<le> 0"] by simp
  have dp: "deref (eq_queue s q) ?s1 ?p = m" by (rule deref_place_end [of _ "ev_sibling s"]) (use U in simp)
  let ?r = "if m \<noteq> NULL then (ev_ref s)(m := PQueue q) else ev_ref s"
  let ?s2 = "?s1\<lparr>eq_queue := (eq_queue s)(q := m), ev_ref := ?r, ev_next := relink us NULL (ev_next s)\<rparr>"
  let ?head = "if us = [] then NULL else eq_queue s q"
  have cut: "linked (relink us NULL (ev_next s)) (ev_sibling s) ?head us NULL" by (rule linked_relink [OF U]) (use d in simp)
  obtain h n where fl: "flatten_slots ?head PLocal ?head ?s2 = Some (h, ?s2\<lparr>ev_next := n\<rparr>)" "chain n h ([] @ flat us) NULL"
    "\<forall>x. x \<notin> set [] \<union> set (concat us) \<longrightarrow> n x = ev_next ?s2 x"
    using flatten_spec [of ?s2 ?head us "[]" PLocal ?head] cut d by auto
  have nx: "n x = ev_next s x" if "x \<notin> set (concat us)" for x using fl(3) that relink_other [of x us NULL "ev_next s"] ne by simp
  have asn: "assign ?p NULL u = u\<lparr>ev_next := relink us NULL (ev_next u)\<rparr>" for u :: "'a eq"
    by (simp add: assign_def place_end_def relink_def)
  let ?s' = "s\<lparr>eq_generation := ?g, eq_tick := ?tk, ev_next := n, ev_ref := ?r, eq_queue := (eq_queue s)(q := m)\<rparr>"
  have run: "equeue_dequeue q target s = Some (h, ?s')"
  proof -
    have e1: "(if c then u\<lparr>eq_tick := (eq_tick u)(q := target)\<rparr> else u) = u\<lparr>eq_tick := if c then (eq_tick u)(q := target) else eq_tick u\<rparr>"
      and e2: "(if c then u\<lparr>ev_ref := (ev_ref u)(x := y)\<rparr> else u) = u\<lparr>ev_ref := if c then (ev_ref u)(x := y) else ev_ref u\<rparr>"
      for c x y and u :: "'a eq" by simp_all
    have "?p = PLocal \<longleftrightarrow> us = []" by (simp add: place_end_def)
    then show ?thesis using fl(1)
      unfolding equeue_dequeue_def Let_def e1 e2 by (simp add: pos dp asn split del: if_split cong del: if_weak_cong)
  qed
  have "x \<notin> set (concat us)" if "x \<in> hd ` set vs" for x using that d heads_in [of vs] ne by auto
  then have "linked n (ev_sibling s) m vs NULL = linked (ev_next s) (ev_sibling s) m vs NULL" by (intro linked_cong nx refl)
  moreover have "refs ?r (PQueue q) vs"
  proof (cases vs)
    case (Cons es ws)
    then obtain xs where es: "es = m # xs" "m \<noteq> NULL" using V by (cases es) auto
    have "sib_refs ?r m xs = sib_refs (ev_ref s) m xs" by (rule sib_refs_cong) (use Cons es d in auto)
    moreover have "refs ?r (PNext m) ws = refs (ev_ref s) (PNext m) ws" by (rule refs_cong) (use Cons es d ne in auto)
    ultimately show ?thesis using rf Cons es by (simp add: refs_append)
  qed simp
  moreover have "slots_ok b ?s' vs" using ok slots_ok_cong [of vs ?s' s b] ne by (simp add: slots_ok_append)
  ultimately have rep: "eq_rep b q ?s' vs" using V d by (simp add: eq_rep_def)
  have go: "?go es = (due b s (hd es) \<le> sint (target - b))" if "es \<in> set ss" for es
  proof -
    have "in_window b (ev_target s (hd es))" using that heads_in [OF ne] ok unfolding slots_ok_def ss by blast
    from tickdiff_due [OF this t] show ?thesis by (simp add: due_def)
  qed
  have u: "us = takeWhile (\<lambda>es. due b s (hd es) \<le> sint (target - b)) ss" "vs = dropWhile (\<lambda>es. due b s (hd es) \<le> sint (target - b)) ss"
    unfolding uv by (rule takeWhile_cong [OF refl go] dropWhile_cong [OF refl go], assumption)+
  have f: "flat us = takeWhile (\<lambda>x. due b s x \<le> sint (target - b)) (flat ss)" "flat vs = dropWhile (\<lambda>x. due b s x \<le> sint (target - b)) (flat ss)"
    unfolding u using takeWhile_flat [OF ok [folded ss] ne [folded ss], of "sint (target - b)"] by - assumption+
  have fr: "n x = ev_next s x \<and> ?r x = ev_ref s x" if "x \<notin> set (concat ss)" for x
  proof -
    have "m \<noteq> NULL \<Longrightarrow> m \<in> set (concat vs)" using V by (cases vs; cases "hd vs") auto
    then show ?thesis using that nx [of x] ss by auto
  qed
  have "chain n h (takeWhile (\<lambda>x. due b s x \<le> sint (target - b)) (flat ss)) NULL" using fl(2) f(1) by simp
  from that [OF refl run rep f(2) this fr] show thesis .
qed

section \<open>Taking an event out\<close>

lemma relink_commute: "x \<notin> set (concat us) \<Longrightarrow> [] \<notin> set us \<Longrightarrow> relink us v (n(x := y)) = (relink us v n)(x := y)"
  using last_head_in [of us] fun_upd_twist [of x "hd (last us)" n y v] by (auto simp: relink_def)

lemma refs_drop:
  assumes L: "linked n b h (us @ [e] # vs) NULL" and R: "refs r p (us @ [e] # vs)" and d: "distinct (concat (us @ [e] # vs))"
  shows "refs (if n e \<noteq> NULL then r(n e := place_end p us) else r) p (us @ vs)"
proof -
  note ne = linked_heads [OF L]
  have V: "linked n b (n e) vs NULL" using L unfolding linked_append by auto
  let ?r = "if n e \<noteq> NULL then r(n e := place_end p us) else r"
  have rf: "refs r p us" "refs r (PNext e) vs" using R by (simp_all add: refs_append)
  show ?thesis
  proof (cases vs)
    case Nil then show ?thesis using rf V by simp
  next
    case (Cons es ws)
    then obtain xs where es: "es = n e # xs" "n e \<noteq> NULL" using V by (cases es) auto
    have "refs ?r p us" using rf(1) ne d Cons es by (subst refs_cong [where r = r]) auto
    moreover have "sib_refs ?r (n e) xs = sib_refs r (n e) xs" by (rule sib_refs_cong) (use Cons es d in auto)
    moreover have "refs ?r (PNext (n e)) ws = refs r (PNext (n e)) ws" by (rule refs_cong) (use Cons es d ne in auto)
    ultimately show ?thesis using rf(2) Cons es by (auto simp: refs_append)
  qed
qed

lemma refs_pop:
  assumes L: "linked n b h (us @ (e # x # xs) # vs) NULL" and R: "refs r p (us @ (e # x # xs) # vs)"
    and d: "distinct (concat (us @ (e # x # xs) # vs))"
  shows "refs ((if n e \<noteq> NULL then r(n e := PNext x) else r)(x := place_end p us)) p (us @ (x # xs) # vs)"
proof -
  note ne = linked_heads [OF L]
  have V: "linked n b (n e) vs NULL" using L unfolding linked_append by auto
  let ?r = "(if n e \<noteq> NULL then r(n e := PNext x) else r)(x := place_end p us)"
  have rf: "refs r p us" "sib_refs r x xs" "refs r (PNext e) vs" using R by (simp_all add: refs_append)
  have mv: "n e = NULL \<and> vs = [] \<or> n e \<noteq> NULL \<and> (\<exists>ys zs. vs = (n e # ys) # zs)"
    using V by (cases vs; cases "hd vs") auto
  have "refs ?r p us" using rf(1) ne d mv by (subst refs_cong [where r = r]) auto
  moreover have "sib_refs ?r x xs = sib_refs r x xs" by (rule sib_refs_cong) (use d mv in auto)
  moreover have "refs ?r (PNext x) vs"
  proof (cases vs)
    case (Cons es zs)
    then obtain ys where es: "es = n e # ys" "n e \<noteq> NULL" using mv by auto
    have "sib_refs ?r (n e) ys = sib_refs r (n e) ys" by (rule sib_refs_cong) (use Cons es d in auto)
    moreover have "refs ?r (PNext (n e)) zs = refs r (PNext (n e)) zs" by (rule refs_cong) (use Cons es d ne in auto)
    ultimately show ?thesis using rf(3) Cons es d by auto
  qed simp
  ultimately show ?thesis using rf(2) by (simp add: refs_append)
qed

lemma slots_ok_drop: "slots_ok b s (us @ [e] # vs) \<Longrightarrow> slots_ok b s (us @ vs)"
  by (simp add: slots_ok_append slots_ok_Cons)

lemma slots_ok_pop: "slots_ok b s (us @ (e # x # xs) # vs) \<Longrightarrow> slots_ok b s (us @ (x # xs) # vs)"
  by (auto simp: slots_ok_append slots_ok_Cons due_def)

lemma refs_head: "refs r p (us @ (e # es) # vs) \<Longrightarrow> r e = place_end p us"
  by (simp add: refs_append)

lemma incid_eq: "equeue_incid q e s = s\<lparr>ev_id := (ev_id s)(e := next_id (eq_npw2 s q) (ev_id s e))\<rparr>"
  by (simp add: equeue_incid_def next_id_def Let_def)

lemma unqueue_spec:
  assumes R: "eq_rep b q s ss" and c: "cancellable q e ident s" and h: "e \<in> hd ` set ss"
  obtains n r k ss' s' where
    "s' = s\<lparr>ev_cb := (ev_cb s)(e := NoFn), ev_period := (ev_period s)(e := - 1), ev_next := n, ev_ref := r,
      eq_queue := (eq_queue s)(q := k), ev_id := (ev_id s)(e := next_id (eq_npw2 s q) (ev_id s e))\<rparr>"
    "equeue_unqueue q ident s = (e, s')" "eq_rep b q s' ss'" "flat ss' = remove1 e (flat ss)"
    "\<And>x. x \<notin> set (concat ss) \<Longrightarrow> n x = ev_next s x \<and> r x = ev_ref s x"
proof -
  have ev: "event_of q ident s = e" "id_matches q e ident s"
    and diff: "\<not> equeue_tickdiff (ev_target s e) (eq_tick s q) < 0"
      "\<not> (equeue_tickdiff (ev_target s e) (eq_tick s q) = 0 \<and> ev_generation s e \<noteq> eq_generation s q)"
    using c by (auto simp: cancellable_def Let_def)
  have ne: "[] \<notin> set ss" using R linked_heads unfolding eq_rep_def by blast
  obtain es where "es \<in> set ss" "e = hd es" using h by blast
  then have "\<exists>es. e # es \<in> set ss" using ne by (intro exI [of _ "tl es"]) (cases es; auto)
  then obtain es where "e # es \<in> set ss" ..
  then obtain us vs where ss: "ss = us @ (e # es) # vs" by (meson split_list)
  have L: "linked (ev_next s) (ev_sibling s) (eq_queue s q) (us @ (e # es) # vs) NULL" and rf: "refs (ev_ref s) (PQueue q) (us @ (e # es) # vs)"
    and d: "distinct (concat (us @ (e # es) # vs))" and ok: "slots_ok b s (us @ (e # es) # vs)" using R unfolding eq_rep_def ss by blast+
  note re = refs_head [OF rf]
  let ?i = "next_id (eq_npw2 s q) (ev_id s e)"
  have V: "linked (ev_next s) (ev_sibling s) (ev_next s e) vs NULL" and X: "forward (ev_sibling s) e es" using L unfolding linked_append by auto
  show thesis
  proof (cases es)
    case Nil
    let ?n = "relink us (ev_next s e) (ev_next s)" and ?k = "if us = [] then ev_next s e else eq_queue s q"
    let ?r = "if ev_next s e \<noteq> NULL then (ev_ref s)(ev_next s e := place_end (PQueue q) us) else ev_ref s"
    let ?s = "s\<lparr>ev_cb := (ev_cb s)(e := NoFn), ev_period := (ev_period s)(e := - 1), ev_next := ?n, ev_ref := ?r, eq_queue := (eq_queue s)(q := ?k)\<rparr>"
    have "?n e = ev_next s e" using d ne ss by (intro relink_other) auto
    then have run: "equeue_unqueue q ident s = (e, ?s\<lparr>ev_id := (ev_id s)(e := ?i)\<rparr>)"
      using X Nil by (cases "us = []"; cases "ev_next s e = NULL"; simp add: equeue_unqueue_def Let_def ev diff re assign_end incid_eq)
    have "slots_ok b (?s\<lparr>ev_id := (ev_id s)(e := ?i)\<rparr>) (us @ vs)"
      using slots_ok_drop [OF ok [unfolded Nil]] slots_ok_cong [of "us @ vs" "?s\<lparr>ev_id := (ev_id s)(e := ?i)\<rparr>" s b] ne ss Nil by simp
    then have "eq_rep b q (?s\<lparr>ev_id := (ev_id s)(e := ?i)\<rparr>) (us @ vs)"
      unfolding eq_rep_def
      using linked_drop [OF L [unfolded Nil] d [unfolded Nil]] refs_drop [OF L [unfolded Nil] rf [unfolded Nil] d [unfolded Nil]] d Nil by simp
    moreover have "flat (us @ vs) = remove1 e (flat ss)" using d ss Nil by (simp add: remove1_append)
    moreover have "?n x = ev_next s x \<and> ?r x = ev_ref s x" if "x \<notin> set (concat ss)" for x
    proof -
      have "ev_next s e \<noteq> NULL \<Longrightarrow> ev_next s e \<in> set (concat vs)" using V by (cases vs; cases "hd vs") auto
      then show ?thesis using that ss ne relink_other [of x us "ev_next s e" "ev_next s"] by auto
    qed
    ultimately show thesis using run by (intro that [where n = ?n and r = ?r and k = ?k and ss' = "us @ vs", OF refl]) simp_all
  next
    case (Cons x xs)
    let ?n = "(relink us x (ev_next s))(x := ev_next s e)" and ?k = "if us = [] then x else eq_queue s q"
    let ?r = "(if ev_next s e \<noteq> NULL then (ev_ref s)(ev_next s e := PNext x) else ev_ref s)(x := place_end (PQueue q) us)"
    let ?s = "s\<lparr>ev_cb := (ev_cb s)(e := NoFn), ev_period := (ev_period s)(e := - 1), ev_next := ?n, ev_ref := ?r, eq_queue := (eq_queue s)(q := ?k)\<rparr>"
    have x: "ev_sibling s e = x" "x \<noteq> NULL" "x \<noteq> e" "x \<notin> set (concat us)" "[] \<notin> set us" using X Cons d ne ss by auto
    have "ev_next s e \<noteq> NULL \<Longrightarrow> ev_next s e \<in> set (concat vs)" using V by (cases vs; cases "hd vs") auto
    then have nx: "ev_next s e \<noteq> NULL \<Longrightarrow> ev_next s e \<noteq> e" using d by auto
    have run: "equeue_unqueue q ident s = (e, ?s\<lparr>ev_id := (ev_id s)(e := ?i)\<rparr>)"
      using x nx by (cases "us = []"; cases "ev_next s e = NULL"; simp add: equeue_unqueue_def Let_def ev diff re assign_end relink_commute incid_eq)
    have "slots_ok b (?s\<lparr>ev_id := (ev_id s)(e := ?i)\<rparr>) (us @ (x # xs) # vs)"
      using slots_ok_pop [OF ok [unfolded Cons]] slots_ok_cong [of "us @ (x # xs) # vs" "?s\<lparr>ev_id := (ev_id s)(e := ?i)\<rparr>" s b] ne ss Cons by simp
    then have "eq_rep b q (?s\<lparr>ev_id := (ev_id s)(e := ?i)\<rparr>) (us @ (x # xs) # vs)"
      unfolding eq_rep_def
      using linked_pop [OF L [unfolded Cons] d [unfolded Cons]] refs_pop [OF L [unfolded Cons] rf [unfolded Cons] d [unfolded Cons]] d Cons by simp
    moreover have "flat (us @ (x # xs) # vs) = remove1 e (flat ss)" using d ss Cons by (simp add: remove1_append)
    moreover have "?n y = ev_next s y \<and> ?r y = ev_ref s y" if "y \<notin> set (concat ss)" for y
    proof -
      have "ev_next s e \<noteq> NULL \<Longrightarrow> ev_next s e \<in> set (concat vs)" using V by (cases vs; cases "hd vs") auto
      then show ?thesis using that ss Cons ne relink_other [of y us x "ev_next s"] by auto
    qed
    ultimately show thesis using run by (intro that [where n = ?n and r = ?r and k = ?k and ss' = "us @ (x # xs) # vs", OF refl]) simp_all
  qed
qed
section \<open>Memory\<close>

lemma chunk_pos_spec:
  assumes "linked (ev_next s) b (eq_chunks s q) cs NULL"
  shows "chunk_pos s z (PChunks q) = Some (place_end (PChunks q) (takeWhile (\<lambda>es. ev_size s (hd es) < z) cs))"
  unfolding chunk_pos_def by (rule find_place_spec [of _ b]) (use assms in simp)

lemma sized_append:
  "sized s (us @ vs) \<longleftrightarrow> sized s us \<and> sized s vs \<and> (\<forall>xs\<in>set us. \<forall>ys\<in>set vs. ev_size s (hd xs) < ev_size s (hd ys))"
  by (auto simp: sized_def sorted_wrt_append)

lemma sized_Cons:
  "sized s (es # cs) \<longleftrightarrow> (\<forall>x\<in>set es. ev_size s x = ev_size s (hd es)) \<and> sized s cs \<and>
     (\<forall>ys\<in>set cs. ev_size s (hd es) < ev_size s (hd ys))"
  by (auto simp: sized_def)

lemma sized_cong:
  assumes T: "\<And>x. x \<in> set (concat cs) \<Longrightarrow> ev_size s' x = ev_size s x" and ne: "[] \<notin> set cs"
  shows "sized s' cs = sized s cs"
  using assms
proof (induction cs)
  case (Cons es cs)
  have "ev_size s' x = ev_size s x" if "x \<in> set es" for x using that by (intro Cons.prems(1)) auto
  moreover have "ev_size s' (hd ys) = ev_size s (hd ys)" if "ys \<in> set (es # cs)" for ys
    using that heads_in [OF Cons.prems(2)] by (intro Cons.prems(1)) auto
  moreover have "sized s' cs = sized s cs" using Cons by simp
  ultimately show ?case by (simp add: sized_Cons)
qed (simp add: sized_def)

lemma sized_rec [simp]: "sized (s\<lparr>ev_next := n\<rparr>) cs = sized s cs" "sized (s\<lparr>ev_sibling := n\<rparr>) cs = sized s cs"
  "sized (s\<lparr>eq_chunks := k\<rparr>) cs = sized s cs"
  by (simp_all add: sized_def)

lemma sized_join: "sized s (us @ (x # xs) # vs) \<Longrightarrow> ev_size s e = ev_size s x \<Longrightarrow> sized s (us @ (e # x # xs) # vs)"
  by (simp add: sized_append sized_Cons)

lemma sized_drop: "sized s (us @ [e] # vs) \<Longrightarrow> sized s (us @ vs)"
  by (simp add: sized_append sized_Cons)

lemma sized_pop: "sized s (us @ (e # x # xs) # vs) \<Longrightarrow> sized s (us @ (x # xs) # vs)"
  by (simp add: sized_append sized_Cons)

text \<open>The smaller chunks, and the others.\<close>

lemma chunks_split:
  assumes "sized s cs"
  shows "\<exists>us vs. cs = us @ vs \<and> us = takeWhile (\<lambda>es. ev_size s (hd es) < z) cs \<and>
    (\<forall>es\<in>set us. ev_size s (hd es) < z) \<and> (\<forall>es\<in>set vs. z \<le> ev_size s (hd es))"
proof (intro exI conjI)
  let ?P = "\<lambda>es. ev_size s (hd es) < z"
  show "cs = takeWhile ?P cs @ dropWhile ?P cs" by simp
  show "\<forall>es\<in>set (takeWhile ?P cs). ev_size s (hd es) < z" by (auto dest: set_takeWhileD)
  show "\<forall>es\<in>set (dropWhile ?P cs). z \<le> ev_size s (hd es)" using assms
    by (induction cs) (auto simp: sized_Cons intro: order.trans less_imp_le)
qed simp

lemma mem_dealloc_spec:
  assumes R: "chunk_rep q s cs" and e: "e \<notin> set (concat cs)" "e \<noteq> NULL"
  obtains n sb k cs' s' where
    "s' = s\<lparr>ev_next := n, ev_sibling := sb, eq_chunks := (eq_chunks s)(q := k)\<rparr>"
    "equeue_mem_dealloc q e s = Some s'" "chunk_rep q s' cs'" "set (concat cs') = insert e (set (concat cs))" "e \<in> hd ` set cs'"
    "\<And>x. x \<notin> insert e (set (concat cs)) \<Longrightarrow> n x = ev_next s x \<and> sb x = ev_sibling s x"
proof -
  let ?z = "ev_size s e"
  have L0: "linked (ev_next s) (ev_sibling s) (eq_chunks s q) cs NULL" and d0: "distinct (concat cs)" and o0: "sized s cs" using R unfolding chunk_rep_def by blast+
  obtain us vs where cs: "cs = us @ vs" "us = takeWhile (\<lambda>es. ev_size s (hd es) < ?z) cs"
    and lo: "\<forall>es\<in>set us. ev_size s (hd es) < ?z" and hi: "\<forall>es\<in>set vs. ?z \<le> ev_size s (hd es)" using chunks_split [OF o0] by blast
  note L = L0 [unfolded cs(1)] and d = d0 [unfolded cs(1)] and ne = linked_heads [OF L0 [unfolded cs(1)]]
  obtain m where U: "linked (ev_next s) (ev_sibling s) (eq_chunks s q) us m" and V: "linked (ev_next s) (ev_sibling s) m vs NULL"
    using L unfolding linked_append by blast
  let ?p = "place_end (PChunks q) us"
  have pos: "chunk_pos s ?z (PChunks q) = Some ?p" using chunk_pos_spec [OF L0, of ?z] cs(2) by simp
  have dp: "deref NULL s ?p = m" by (rule deref_place_end [of _ "ev_sibling s"]) (use U in simp)
  have e': "e \<notin> set (concat (us @ vs))" using e(1) cs(1) by simp
  have em: "e \<noteq> m" using V e' by (cases vs; cases "hd vs") (auto simp: e(2))
  show thesis
  proof (cases "m \<noteq> NULL \<and> ev_size s m = ?z")
    case True
    then obtain xs ws where v: "vs = (m # xs) # ws" using V by (cases vs; cases "hd vs") auto
    let ?n = "relink us e ((ev_next s)(e := ev_next s m))" and ?sb = "(ev_sibling s)(e := m)"
    let ?k = "if us = [] then e else eq_chunks s q" and ?cs = "us @ (e # m # xs) # ws"
    let ?s = "s\<lparr>ev_next := ?n, ev_sibling := ?sb, eq_chunks := (eq_chunks s)(q := ?k)\<rparr>"
    have run: "equeue_mem_dealloc q e s = Some ?s"
      using True em by (simp add: equeue_mem_dealloc_def Let_def pos dp assign_end)
    have "chunk_rep q ?s ?cs"
      unfolding chunk_rep_def using linked_join [OF L [unfolded v] d [unfolded v] e' [unfolded v] e(2)] d e' sized_join [OF o0 [unfolded cs(1) v]] True v
      by simp
    moreover have "?n x = ev_next s x \<and> ?sb x = ev_sibling s x" if "x \<notin> insert e (set (concat cs))" for x
      using that v cs(1) ne relink_other [of x us e "(ev_next s)(e := ev_next s m)"] by auto
    ultimately show thesis using cs(1) v
      by (intro that [where n = ?n and sb = ?sb and k = ?k and cs' = ?cs, OF refl run]) (auto intro!: image_eqI [of _ _ "e # m # xs"])
  next
    case False
    let ?n = "relink us e ((ev_next s)(e := m))" and ?sb = "(ev_sibling s)(e := NULL)"
    let ?k = "if us = [] then e else eq_chunks s q" and ?cs = "us @ [e] # vs"
    let ?s = "s\<lparr>ev_next := ?n, ev_sibling := ?sb, eq_chunks := (eq_chunks s)(q := ?k)\<rparr>"
    have run: "equeue_mem_dealloc q e s = Some ?s"
      using False em by (cases "m = NULL"; simp add: equeue_mem_dealloc_def Let_def pos dp assign_end)
    have "\<forall>es\<in>set vs. ?z < ev_size s (hd es)"
    proof (cases vs)
      case (Cons v ws)
      then have v: "m = hd v" "m \<noteq> NULL" using V by auto
      then have "?z < ev_size s (hd v)" using hi Cons False by (auto simp: order.strict_iff_order)
      then show ?thesis using o0 cs(1) Cons by (auto simp: sized_append sized_Cons intro: less_trans)
    qed simp
    then have "chunk_rep q ?s ?cs"
      unfolding chunk_rep_def using linked_new [OF L d e' e(2) U] d e' o0 [unfolded cs(1)] lo by (simp add: sized_append sized_Cons)
    moreover have "?n x = ev_next s x \<and> ?sb x = ev_sibling s x" if "x \<notin> insert e (set (concat cs))" for x
      using that cs(1) ne relink_other [of x us e "(ev_next s)(e := m)"] by auto
    ultimately show thesis using cs(1)
      by (intro that [where n = ?n and sb = ?sb and k = ?k and cs' = ?cs, OF refl run]) (auto intro!: image_eqI [of _ _ "[e]"])
  qed
qed

text \<open>A free chunk of at least the size is taken out; otherwise a new one is cut off the slab.\<close>

lemma mem_alloc_spec:
  assumes R: "chunk_rep q s cs" and z: "z = eq_block_size size'"
  obtains (chunk) e es vs us n k cs' where "cs = us @ (e # es) # vs" "\<forall>xs\<in>set us. ev_size s (hd xs) < z" "z \<le> ev_size s e"
      "equeue_mem_alloc q size' s = Some (e, s\<lparr>ev_next := n, eq_chunks := (eq_chunks s)(q := k)\<rparr>)"
      "chunk_rep q (s\<lparr>ev_next := n, eq_chunks := (eq_chunks s)(q := k)\<rparr>) cs'" "set (concat cs') = set (concat cs) - {e}"
  | (slab) "\<forall>xs\<in>set cs. ev_size s (hd xs) < z" "z \<le> slab_size s q"
      "equeue_mem_alloc q size' s = Some (slab_data s q, s\<lparr>slab_data := (slab_data s)(q := slab_data s q + z),
        slab_size := (slab_size s)(q := slab_size s q - z), ev_size := (ev_size s)(slab_data s q := z),
        ev_id := (ev_id s)(slab_data s q := 1)\<rparr>)"
  | (full) "\<forall>xs\<in>set cs. ev_size s (hd xs) < z" "slab_size s q < z" "equeue_mem_alloc q size' s = Some (NULL, s)"
proof -
  have L0: "linked (ev_next s) (ev_sibling s) (eq_chunks s q) cs NULL" and d0: "distinct (concat cs)" and o0: "sized s cs" using R unfolding chunk_rep_def by blast+
  obtain us vs where cs: "cs = us @ vs" "us = takeWhile (\<lambda>es. ev_size s (hd es) < z) cs"
    and lo: "\<forall>es\<in>set us. ev_size s (hd es) < z" and hi: "\<forall>es\<in>set vs. z \<le> ev_size s (hd es)" using chunks_split [OF o0] by blast
  note L = L0 [unfolded cs(1)] and d = d0 [unfolded cs(1)] and ne = linked_heads [OF L0 [unfolded cs(1)]]
  obtain m where U: "linked (ev_next s) (ev_sibling s) (eq_chunks s q) us m" and V: "linked (ev_next s) (ev_sibling s) m vs NULL"
    using L unfolding linked_append by blast
  let ?p = "place_end (PChunks q) us"
  have pos: "chunk_pos s z (PChunks q) = Some ?p" using chunk_pos_spec [OF L0, of z] cs(2) by simp
  have dp: "deref NULL s ?p = m" by (rule deref_place_end [of _ "ev_sibling s"]) (use U in simp)
  have zz: "(size' + sizeof_event + sizeof_ptr - 1) AND NOT (sizeof_ptr - 1) = z" by (simp add: z eq_block_size_def)
  show thesis
  proof (cases vs)
    case Nil
    then have "m = NULL" using V by simp
    then have run: "equeue_mem_alloc q size' s = Some (if slab_size s q \<ge> z then (slab_data s q, s\<lparr>slab_data := (slab_data s)(q := slab_data s q + z),
        slab_size := (slab_size s)(q := slab_size s q - z), ev_size := (ev_size s)(slab_data s q := z),
        ev_id := (ev_id s)(slab_data s q := 1)\<rparr>) else (NULL, s))"
      unfolding equeue_mem_alloc_def Let_def zz pos by (simp add: dp)
    show thesis
    proof (cases "z \<le> slab_size s q")
      case True then show ?thesis using run slab lo cs(1) Nil by simp
    next
      case False then show ?thesis using run full lo cs(1) Nil by simp
    qed
  next
    case (Cons v ws)
    then obtain es where v: "v = m # es" "m \<noteq> NULL" using V by (cases v) auto
    have X: "forward (ev_sibling s) m es" using V Cons v by simp
    show thesis
    proof (cases es)
      case Nil
      let ?n = "relink us (ev_next s m) (ev_next s)" and ?k = "if us = [] then ev_next s m else eq_chunks s q"
      have "ev_sibling s m = NULL" using X Nil by simp
      then have run: "equeue_mem_alloc q size' s = Some (m, s\<lparr>ev_next := ?n, eq_chunks := (eq_chunks s)(q := ?k)\<rparr>)"
        unfolding equeue_mem_alloc_def Let_def zz pos using v(2) by (simp add: dp assign_end)
      have Lm: "linked (ev_next s) (ev_sibling s) (eq_chunks s q) (us @ [m] # ws) NULL" "distinct (concat (us @ [m] # ws))"
        using L d Cons v(1) Nil by simp_all
      have "chunk_rep q (s\<lparr>ev_next := ?n, eq_chunks := (eq_chunks s)(q := ?k)\<rparr>) (us @ ws)"
        unfolding chunk_rep_def using linked_drop [OF Lm] Lm(2) sized_drop [OF o0 [unfolded cs(1) Cons v(1) Nil]] by simp
      moreover have "set (concat (us @ ws)) = set (concat cs) - {m}" using d unfolding cs(1) Cons v(1) Nil by auto
      ultimately show thesis using run lo hi cs(1) Cons v(1) by (intro chunk [where us = us and e = m and es = es and vs = ws and n = ?n and k = ?k and cs' = "us @ ws"]) simp_all
    next
      case (Cons x xs)
      let ?n = "(relink us x (ev_next s))(x := ev_next s m)" and ?k = "if us = [] then x else eq_chunks s q"
      have c: "cs = us @ (m # x # xs) # ws" using cs(1) \<open>vs = v # ws\<close> v(1) Cons by simp
      have x: "ev_sibling s m = x" "x \<noteq> NULL" "m \<notin> set (concat us)" using X Cons d0 c by simp_all
      have xm: "relink us x (ev_next s) m = ev_next s m" using x(3) ne by (intro relink_other) auto
      have d2: "deref NULL (s\<lparr>ev_next := relink us x (ev_next s), eq_chunks := (eq_chunks s)(q := ?k)\<rparr>) ?p = x"
        by (simp add: place_end_def relink_def)
      have run: "equeue_mem_alloc q size' s = Some (m, s\<lparr>ev_next := ?n, eq_chunks := (eq_chunks s)(q := ?k)\<rparr>)"
        unfolding equeue_mem_alloc_def Let_def zz pos using v(2) d2 xm by (simp add: dp assign_end x(1,2))
      have "chunk_rep q (s\<lparr>ev_next := ?n, eq_chunks := (eq_chunks s)(q := ?k)\<rparr>) (us @ (x # xs) # ws)"
        unfolding chunk_rep_def using linked_pop [OF L0 [unfolded c] d0 [unfolded c]] d0 [unfolded c] sized_pop [OF o0 [unfolded c]] by simp
      moreover have "set (concat (us @ (x # xs) # ws)) = set (concat cs) - {m}" using d0 unfolding c by auto
      ultimately show thesis using run lo hi c cs(1) \<open>vs = v # ws\<close> v(1) by (intro chunk [where us = us and e = m and es = es and vs = ws and n = ?n and k = ?k and cs' = "us @ (x # xs) # ws"]) (simp_all add: Cons)
    qed
  qed
qed
lemma uint_align4: fixes x :: u32 shows "uint (x AND NOT 3) = uint x - uint x mod 4"
proof -
  have "(x AND 3) + (x AND NOT 3) = (x AND 3) OR (x AND NOT 3)" by (rule disjunctive_add) (simp add: bit_simps)
  also have "\<dots> = x" by (rule bit_word_eqI) (auto simp: bit_simps)
  finally have x: "x AND NOT 3 = x - (x AND 3)" by (simp add: algebra_simps)
  have m: "x AND 3 = x mod 4" using take_bit_eq_mask [of 2 x] by (simp add: mask_eq_exp_minus_1 take_bit_eq_mod)
  have "uint (x mod 4) = uint x mod 4" by (simp add: uint_mod)
  moreover have "x mod 4 \<le> x" by (simp add: word_le_def uint_mod zmod_le_nonneg_dividend)
  ultimately show ?thesis unfolding x m by (simp add: uint_minus_simple_alt)
qed

lemma eq_block_size_bounds:
  assumes "uint size' + 39 < 2 ^ 32"
  shows "uint size' + 36 \<le> uint (eq_block_size size')" "0 < eq_block_size size'"
proof -
  have "uint (size' + 39) = uint size' + 39" using assms uint_add_lem [of size' 39] by simp
  moreover have "eq_block_size size' = (size' + 39) AND NOT 3" by (simp add: eq_block_size_def add.commute)
  ultimately have "uint (eq_block_size size') = uint size' + 39 - (uint size' + 39) mod 4" using uint_align4 [of "size' + 39"] by (simp only:)
  then show 1: "uint size' + 36 \<le> uint (eq_block_size size')" by (smt (verit) pos_mod_bound)
  have "0 < uint (eq_block_size size')" using 1 by (smt (verit) uint_ge_0)
  then show "0 < eq_block_size size'" by (simp add: word_less_def)
qed

lemma blocks_ok_cong: "(\<And>x. x \<in> B \<Longrightarrow> ev_size s' x = ev_size s x) \<Longrightarrow> blocks_ok s' B lo hi = blocks_ok s B lo hi"
  by (simp add: blocks_ok_def)

lemma blocks_ok_fresh:
  assumes "blocks_ok s B lo (uint e)" shows "e \<notin> B"
proof
  assume "e \<in> B"
  then have "0 < ev_size s e" "uint e + uint (ev_size s e) \<le> uint e" using assms by (auto simp: blocks_ok_def)
  then show False by (simp add: word_less_def)
qed

lemma blocks_ok_new:
  assumes B: "blocks_ok s B lo (uint e)" and z: "uint e + uint z \<le> hi" "0 < z" "lo \<le> uint e"
    and s': "\<And>x. x \<in> B \<Longrightarrow> ev_size s' x = ev_size s x" "ev_size s' e = z"
  shows "blocks_ok s' (insert e B) lo hi"
  unfolding blocks_ok_def
proof (intro conjI ballI impI)
  have below: "lo \<le> uint x" "uint x + uint (ev_size s' x) \<le> uint e" "0 < ev_size s' x" if "x \<in> B" for x
    using B that s'(1) by (auto simp: blocks_ok_def)
  have zu: "0 < uint z" using z(2) by (simp add: word_less_def)
  fix x assume x: "x \<in> insert e B"
  show "lo \<le> uint x" "0 < ev_size s' x" using x below z s'(2) by auto
  show "uint x + uint (ev_size s' x) \<le> hi" using x below [of x] s'(2) z zu by auto
  fix y assume y: "y \<in> insert e B" "x \<noteq> y"
  show "uint x + uint (ev_size s' x) \<le> uint y \<or> uint y + uint (ev_size s' y) \<le> uint x"
  proof (cases "x \<in> B \<and> y \<in> B")
    case True
    then have "uint x + uint (ev_size s x) \<le> uint y \<or> uint y + uint (ev_size s y) \<le> uint x" using y(2) B unfolding blocks_ok_def by blast
    then show ?thesis using s'(1) True by simp
  qed (use x y below [of x] below [of y] in auto)
qed

lemma eq_heap_okI:
  assumes "0 < lo" "hi < 2 ^ 32" "uint (slab_data s q) + uint (slab_size s q) = hi" "lo \<le> uint (slab_data s q)"
    and "chunk_rep q s cs" "L \<inter> set (concat cs) = {}" "B = L \<union> set (concat cs)" "blocks_ok s B lo (uint (slab_data s q))"
  shows "eq_heap_ok q lo hi s L"
  using assms unfolding eq_heap_ok_def by blast

lemma dealloc_event: "p - sizeof_event = e \<Longrightarrow> ev_dtor s e = NoFn \<Longrightarrow> equeue_dealloc env q p s = equeue_mem_dealloc q e s"
  by (simp add: equeue_dealloc_def Let_def)

section \<open>The interface of timed queues\<close>

lemma clampdiff_idem: "equeue_clampdiff (k + equeue_clampdiff a k) k = equeue_clampdiff a k"
  by (simp add: clampdiff_spec)

lemma fire_time_idem:
  "fire_time tick s = T \<Longrightarrow> fire_time tick (s\<lparr>ev_target := (ev_target s)(e := T e)\<rparr>) = T"
proof (rule ext)
  fix x assume T: "fire_time tick s = T"
  have "T e = tick e + equeue_clampdiff (T e) (tick e)"
    using fun_cong [OF T, of e] clampdiff_idem [of "tick e" "ev_target s e"] by (simp add: fire_time_def)
  then show "fire_time tick (s\<lparr>ev_target := (ev_target s)(e := T e)\<rparr>) x = T x"
    using fun_cong [OF T, of x] by (simp add: fire_time_def)
qed

lemma pinsert_cong: "(\<And>y. y \<in> set (x # xs) \<Longrightarrow> f y = g y) \<Longrightarrow> pinsert f x xs = pinsert g x xs"
  by (induction xs) auto

lemma post_at_spec:
  assumes "posted_rep b q tick T s xs" "e \<noteq> NULL \<and> in_window b (T e)" "e \<notin> set xs"
  shows "\<exists>s'. post_at env q tick e s = Some s' \<and> posted_rep b q tick T s' (pinsert (\<lambda>x. - sint (T x - b)) e xs)"
proof -
  obtain ss where ss: "eq_rep b q s ss" "flat ss = xs" and T: "\<And>x. x \<in> set xs \<Longrightarrow> ev_target s x = T x"
    "fire_time tick s = T" "no_update q s" using assms(1) unfolding posted_rep_def by blast
  have Te: "T e = tick e + equeue_clampdiff (ev_target s e) (tick e)" using fun_cong [OF T(2), of e] by (simp add: fire_time_def)
  have e: "e \<notin> set (concat ss)" using assms(3) ss(2) set_flat [of ss] by blast
  have nn: "e \<noteq> NULL" "in_window b (T e)" "bg_update s q = NoFn \<or> \<not> bg_active s q"
    using assms(2) T(3) by (simp_all add: no_update_def)
  obtain n sb r h ss' s' where
    s': "s' = s\<lparr>ev_target := (ev_target s)(e := T e), ev_generation := (ev_generation s)(e := eq_generation s q),
      ev_next := n, ev_sibling := sb, ev_ref := r, eq_queue := (eq_queue s)(q := h)\<rparr>"
    and run: "equeue_enqueue env q e (tick e) s = Some (push_bit (eq_npw2 s q) (ucast (ev_id s e)) OR (e - eq_buffer s q), s')"
    and rep: "eq_rep b q s' ss'" "flat ss' = pinsert (\<lambda>x. - due b s' x) e (flat ss)"
    by (rule enqueue_spec [OF ss(1) e nn(1) Te nn(2,3), of env]) (rule that, assumption+)
  have tg: "ev_target s' x = T x" if "x \<in> set (e # xs)" for x using that T(1) s' by auto
  have "flat ss' = pinsert (\<lambda>x. - sint (T x - b)) e xs"
    unfolding rep(2) ss(2) due_def using tg by (intro pinsert_cong) simp
  moreover have "fire_time tick s' = T" using fire_time_idem [OF T(2), of e] by (simp add: s' fire_time_def fun_eq_iff)
  moreover have "no_update q s'" using T(3) by (simp add: no_update_def s')
  ultimately have "posted_rep b q tick T s' (pinsert (\<lambda>x. - sint (T x - b)) e xs)"
    using rep(1) tg unfolding posted_rep_def by auto
  then show ?thesis using run by (simp add: post_at_def)
qed

lemma dequeue_posted:
  assumes "posted_rep b q tick T s xs" "in_window b now"
  shows "\<exists>h s'. equeue_dequeue q now s = Some (h, s') \<and>
    chain (ev_next s') h (takeWhile (\<lambda>x. sint (T x - b) \<le> sint (now - b)) xs) NULL \<and>
    posted_rep b q tick T s' (dropWhile (\<lambda>x. sint (T x - b) \<le> sint (now - b)) xs)"
proof -
  obtain ss where ss: "eq_rep b q s ss" "flat ss = xs" and T: "\<And>x. x \<in> set xs \<Longrightarrow> ev_target s x = T x"
    "fire_time tick s = T" "no_update q s" using assms(1) unfolding posted_rep_def by blast
  obtain n r h g tk head vs s' where
    s': "s' = s\<lparr>eq_generation := g, eq_tick := tk, ev_next := n, ev_ref := r, eq_queue := (eq_queue s)(q := h)\<rparr>"
    and run: "equeue_dequeue q now s = Some (head, s')" "eq_rep b q s' vs"
    "flat vs = dropWhile (\<lambda>x. due b s x \<le> sint (now - b)) (flat ss)"
    "chain n head (takeWhile (\<lambda>x. due b s x \<le> sint (now - b)) (flat ss)) NULL"
    by (rule dequeue_spec [OF ss(1) assms(2)]) (rule that, assumption+)
  have d: "due b s x \<le> sint (now - b) \<longleftrightarrow> sint (T x - b) \<le> sint (now - b)" if "x \<in> set xs" for x using T(1) [OF that] by (simp add: due_def)
  have "takeWhile (\<lambda>x. due b s x \<le> sint (now - b)) xs = takeWhile (\<lambda>x. sint (T x - b) \<le> sint (now - b)) xs"
    "dropWhile (\<lambda>x. due b s x \<le> sint (now - b)) xs = dropWhile (\<lambda>x. sint (T x - b) \<le> sint (now - b)) xs"
    by (rule takeWhile_cong [OF refl d] dropWhile_cong [OF refl d], assumption)+
  moreover have "posted_rep b q tick T s' (dropWhile (\<lambda>x. sint (T x - b) \<le> sint (now - b)) xs)"
    unfolding posted_rep_def
  proof (intro conjI ballI)
    show "\<exists>vs. eq_rep b q s' vs \<and> flat vs = dropWhile (\<lambda>x. sint (T x - b) \<le> sint (now - b)) xs"
      using run(2,3) ss(2) calculation(2) by auto
    show "ev_target s' x = T x" if "x \<in> set (dropWhile (\<lambda>x. sint (T x - b) \<le> sint (now - b)) xs)" for x
      using T(1) [of x] set_dropWhileD [OF that] s' by simp
    show "fire_time tick s' = T" using T(2) by (simp add: s' fire_time_def fun_eq_iff)
    show "no_update q s'" using T(3) by (simp add: no_update_def s')
  qed
  ultimately show ?thesis using run(1,4) ss(2) s' by auto
qed

interpretation event_queue: deadline_queue where rep = "posted_rep b q tick T" and put = "post_at env q tick"
    and pri = "\<lambda>x. - sint (T x - b)" and fresh = "\<lambda>e. e \<noteq> NULL \<and> in_window b (T e)"
    and expire = "equeue_dequeue q" and time = "\<lambda>now. sint (now - b)" and valid = "in_window b"
    and out = "\<lambda>h s xs. chain (ev_next s) h xs NULL" for b q tick T env
  by unfold_locales (simp_all add: post_at_spec dequeue_posted)

lemma empty_rep: "eq_queue s q = NULL \<Longrightarrow> no_update q s \<Longrightarrow> posted_rep b q tick (fire_time tick s) s []"
  by (auto simp: posted_rep_def eq_rep_def slots_ok_def intro!: exI [of _ "[]"])

section \<open>Dispatch\<close>

lemma serve_events_cong:
  "(\<And>e. e \<in> set es \<Longrightarrow> ev_target s' e = ev_target s e) \<Longrightarrow> ev_cb s' = ev_cb s \<Longrightarrow> ev_period s' = ev_period s \<Longrightarrow> serve_events env act s' es w = serve_events env act s es w"
  by (induction es arbitrary: w) simp_all

lemma world_only_cong: "world_only env act s f \<Longrightarrow> same_setup s s' \<Longrightarrow> world_only env act s' f"
  by (simp add: world_only_def same_setup_def)

lemma eq_rep_cong:
  assumes "eq_rep b q s ss" "eq_queue s' q = eq_queue s q"
    and "\<And>x. x \<in> set (concat ss) \<Longrightarrow> ev_next s' x = ev_next s x \<and> ev_sibling s' x = ev_sibling s x \<and> ev_ref s' x = ev_ref s x \<and>
      ev_target s' x = ev_target s x"
  shows "eq_rep b q s' ss"
proof -
  have L: "linked (ev_next s) (ev_sibling s) (eq_queue s q) ss NULL" using assms(1) unfolding eq_rep_def by blast
  note ne = linked_heads [OF L]
  have "linked (ev_next s') (ev_sibling s') (eq_queue s q) ss NULL = linked (ev_next s) (ev_sibling s) (eq_queue s q) ss NULL"
    by (rule linked_cong) (use assms(3) heads_in [OF ne] in blast)+
  moreover have "refs (ev_ref s') (PQueue q) ss = refs (ev_ref s) (PQueue q) ss" by (rule refs_cong) (use assms(3) ne in blast)+
  moreover have "slots_ok b s' ss = slots_ok b s ss" by (rule slots_ok_cong) (use assms(3) ne in blast)+
  ultimately show ?thesis using assms(1,2) by (simp add: eq_rep_def)
qed

lemma chunk_rep_cong:
  assumes "chunk_rep q s cs" "eq_chunks s' q = eq_chunks s q"
    and "\<And>x. x \<in> set (concat cs) \<Longrightarrow> ev_next s' x = ev_next s x \<and> ev_sibling s' x = ev_sibling s x \<and> ev_size s' x = ev_size s x"
  shows "chunk_rep q s' cs"
proof -
  have L: "linked (ev_next s) (ev_sibling s) (eq_chunks s q) cs NULL" using assms(1) unfolding chunk_rep_def by blast
  note ne = linked_heads [OF L]
  have "linked (ev_next s') (ev_sibling s') (eq_chunks s q) cs NULL = linked (ev_next s) (ev_sibling s) (eq_chunks s q) cs NULL"
    by (rule linked_cong) (use assms(3) heads_in [OF ne] in blast)+
  moreover have "sized s' cs = sized s cs" by (rule sized_cong) (use assms(3) ne in blast)+
  ultimately show ?thesis using assms(1,2) by (simp add: chunk_rep_def)
qed

lemma serving_world: "serving b q (s\<lparr>world := w\<rparr>) h es ss cs = serving b q s h es ss cs"
proof -
  have "eq_rep b q (s\<lparr>world := w\<rparr>) ss = eq_rep b q s ss" "chunk_rep q (s\<lparr>world := w\<rparr>) cs = chunk_rep q s cs"
    by (auto intro: eq_rep_cong chunk_rep_cong)
  then show ?thesis by (simp add: serving_def no_update_def)
qed

lemma serving_free:
  assumes S: "serving b q s e (e # es) ss cs"
  shows "\<exists>s' cs'. equeue_mem_dealloc q e (equeue_incid q e s) = Some s' \<and> serving b q s' (ev_next s e) es ss cs' \<and>
    set (concat cs') = insert e (set (concat cs)) \<and> same_setup s s' \<and> world s' = world s \<and> ev_target s' = ev_target s"
proof -
  let ?u = "equeue_incid q e s"
  have C: "chunk_rep q ?u cs" and Q: "eq_rep b q s ss" using S unfolding serving_def by (auto simp: incid_eq elim: chunk_rep_cong)
  have e: "e \<notin> set (concat cs)" "e \<noteq> NULL" "e \<notin> set (concat ss)" "e \<notin> set es"
    and dj: "set es \<inter> (set (concat ss) \<union> set (concat cs)) = {}" "set (concat ss) \<inter> set (concat cs) = {}"
    and ch: "chain (ev_next s) (ev_next s e) es NULL" "distinct es" "no_update q s" using S unfolding serving_def by auto
  obtain n sb k cs' s' where s': "s' = ?u\<lparr>ev_next := n, ev_sibling := sb, eq_chunks := (eq_chunks ?u)(q := k)\<rparr>"
    and run: "equeue_mem_dealloc q e ?u = Some s'" and rep: "chunk_rep q s' cs'" "set (concat cs') = insert e (set (concat cs))"
    and fr: "\<And>x. x \<notin> insert e (set (concat cs)) \<Longrightarrow> n x = ev_next ?u x \<and> sb x = ev_sibling ?u x"
    by (rule mem_dealloc_spec [OF C e(1,2)]) (rule that, assumption+)
  have fr': "n x = ev_next s x \<and> sb x = ev_sibling s x" if "x \<notin> insert e (set (concat cs))" for x
    using fr [OF that] by (simp add: incid_eq)
  have sx: "s' = s\<lparr>ev_id := ev_id ?u, ev_next := n, ev_sibling := sb, eq_chunks := (eq_chunks s)(q := k)\<rparr>" by (simp add: s' incid_eq)
  have "n x = ev_next s x \<and> sb x = ev_sibling s x" if "x \<in> set (concat ss)" for x using fr' [of x] that dj(2) e(3) by blast
  then have "eq_rep b q s' ss" by (intro eq_rep_cong [OF Q]) (simp_all add: sx del: set_concat)
  moreover have "n x = ev_next s x" if "x \<in> set es" for x using fr' [of x] that dj(1) e(4) by blast
  then have "chain n (ev_next s e) es NULL = chain (ev_next s) (ev_next s e) es NULL" by (rule chain_next_cong)
  then have "chain (ev_next s') (ev_next s e) es NULL" using ch(1) by (simp add: sx)
  moreover have "no_update q s'" using ch(3) by (simp add: no_update_def sx)
  moreover have "set es \<inter> (set (concat ss) \<union> set (concat cs')) = {}" "set (concat ss) \<inter> set (concat cs') = {}"
    unfolding rep(2) using dj e(3,4) by blast+
  ultimately have "serving b q s' (ev_next s e) es ss cs'" unfolding serving_def using rep(1) ch(2) by blast
  then show ?thesis using run rep(2) by (intro exI [of _ s'] exI [of _ cs']) (simp add: sx same_setup_def)
qed

lemma serving_post:
  assumes S: "serving b q s e (e # es) ss cs" and t: "t = tick + equeue_clampdiff (ev_target s e) tick" "in_window b t"
  shows "\<exists>i s' ss'. equeue_enqueue env q e tick s = Some (i, s') \<and> serving b q s' (ev_next s e) es ss' cs \<and>
    flat ss' = pinsert (\<lambda>x. - due b s' x) e (flat ss) \<and> same_setup s s' \<and> world s' = world s \<and> ev_target s' = (ev_target s)(e := t)"
proof -
  have Q: "eq_rep b q s ss" and C: "chunk_rep q s cs" using S unfolding serving_def by blast+
  have e: "e \<notin> set (concat cs)" "e \<noteq> NULL" "e \<notin> set (concat ss)" "e \<notin> set es"
    and dj: "set es \<inter> (set (concat ss) \<union> set (concat cs)) = {}" "set (concat ss) \<inter> set (concat cs) = {}"
    and ch: "chain (ev_next s) (ev_next s e) es NULL" "distinct es" "no_update q s" using S unfolding serving_def by auto
  obtain n sb r h ss' s' where s': "s' = s\<lparr>ev_target := (ev_target s)(e := t), ev_generation := (ev_generation s)(e := eq_generation s q),
      ev_next := n, ev_sibling := sb, ev_ref := r, eq_queue := (eq_queue s)(q := h)\<rparr>"
    and run: "equeue_enqueue env q e tick s = Some (push_bit (eq_npw2 s q) (ucast (ev_id s e)) OR (e - eq_buffer s q), s')"
    and rep: "eq_rep b q s' ss'" "flat ss' = pinsert (\<lambda>x. - due b s' x) e (flat ss)"
    and fr: "\<And>x. x \<notin> insert e (set (concat ss)) \<Longrightarrow> n x = ev_next s x \<and> sb x = ev_sibling s x \<and> r x = ev_ref s x"
    by (rule enqueue_spec [OF Q e(3,2) t ch(3) [unfolded no_update_def], of env]) (rule that, assumption+)
  have set': "set (concat ss') = insert e (set (concat ss))" using rep(2) set_flat by (metis set_pinsert)
  have "n x = ev_next s x \<and> sb x = ev_sibling s x" if "x \<in> set (concat cs)" for x using fr [of x] that dj(2) e(1) by blast
  then have "chunk_rep q s' cs" by (intro chunk_rep_cong [OF C]) (simp_all add: s' del: set_concat)
  moreover have "n x = ev_next s x" if "x \<in> set es" for x using fr [of x] that dj(1) e(4) by blast
  then have "chain n (ev_next s e) es NULL = chain (ev_next s) (ev_next s e) es NULL" by (rule chain_next_cong)
  then have "chain (ev_next s') (ev_next s e) es NULL" using ch(1) by (simp add: s')
  moreover have "no_update q s'" using ch(3) by (simp add: no_update_def s')
  moreover have "set es \<inter> (set (concat ss') \<union> set (concat cs)) = {}" "set (concat ss') \<inter> set (concat cs) = {}"
    unfolding set' using dj e(1,4) by blast+
  ultimately have "serving b q s' (ev_next s e) es ss' cs" unfolding serving_def using rep(1) ch(2) by blast
  moreover have "same_setup s s'" "world s' = world s" "ev_target s' = (ev_target s)(e := t)" by (simp_all add: s' same_setup_def)
  ultimately show ?thesis using run rep(2) by blast
qed

lemma same_setup_trans: "same_setup s s' \<Longrightarrow> same_setup s' s'' \<Longrightarrow> same_setup s s''"
  by (simp add: same_setup_def)

lemma serving_target:
  assumes "serving b q s e (e # es) ss cs"
  shows "serving b q (s\<lparr>ev_target := (ev_target s)(e := t)\<rparr>) e (e # es) ss cs"
proof -
  have Q: "eq_rep b q s ss" and C: "chunk_rep q s cs" and e: "e \<notin> set (concat ss)" using assms unfolding serving_def by auto
  have "eq_rep b q (s\<lparr>ev_target := (ev_target s)(e := t)\<rparr>) ss" by (rule eq_rep_cong [OF Q]) (use e in auto)
  moreover have "chunk_rep q (s\<lparr>ev_target := (ev_target s)(e := t)\<rparr>) cs" by (rule chunk_rep_cong [OF C]) simp_all
  ultimately show ?thesis using assms by (simp add: serving_def no_update_def)
qed

text \<open>The callback of one event.\<close>

lemma call_spec:
  assumes "ev_cb s e \<noteq> NoFn \<Longrightarrow> world_only env act s (ev_cb s e)"
  shows "(if ev_cb s e \<noteq> NoFn then env_call env (ev_cb s e) p s else Some s) =
    Some (s\<lparr>world := if ev_cb s e \<noteq> NoFn then act (ev_cb s e) p (world s) else world s\<rparr>)"
  using assms by (simp add: world_only_def)

lemma run_one:
  assumes S: "serving b q s h (e # es) ss cs" and d: "ev_dtor s e = NoFn"
    and W: "ev_cb s e \<noteq> NoFn \<Longrightarrow> world_only env act s (ev_cb s e)"
    and win: "\<And>t. (e, t) \<in> set (snd (serve_events env act s (e # es) (world s))) \<Longrightarrow> in_window b t"
  shows "\<exists>s' ss' cs' post. run_events env q h s = run_events env q (ev_next s e) s' \<and> serving b q s' (ev_next s e) es ss' cs' \<and>
    served_one b q s s' e post ss cs ss' cs' \<and>
    serve_events env act s (e # es) (world s) = (let (w, posts) = serve_events env act s es (world s') in (w, post @ posts))"
proof -
  have h: "h = e" "e \<noteq> NULL" using S by (simp_all add: serving_def)
  note S = S [unfolded h(1)]
  let ?w = "if ev_cb s e \<noteq> NoFn then act (ev_cb s e) (e + sizeof_event) (world s) else world s"
  have call: "(if ev_cb s e \<noteq> NoFn then env_call env (ev_cb s e) (e + sizeof_event) s else Some s) = Some (s\<lparr>world := ?w\<rparr>)"
    by (rule call_spec) (rule W)
  show ?thesis
  proof (cases "sint (ev_period s e) \<ge> 0")
    case True
    obtain t w where tk: "env_tick env ?w = (t, w)" by fastforce
    let ?t = "t + equeue_clampdiff (ev_target s e + ev_period s e) t"
    let ?u = "s\<lparr>ev_target := (ev_target s)(e := ev_target s e + ev_period s e), world := w\<rparr>"
    have sv: "serve_events env act s (e # es) (world s) = (let (w, posts) = serve_events env act s es w in (w, [(e, ?t)] @ posts))"
      using True tk by (simp add: Let_def split: prod.splits)
    have U: "serving b q ?u e (e # es) ss cs" by (simp only: serving_world serving_target [OF S])
    have tt: "?t = t + equeue_clampdiff (ev_target ?u e) t" by simp
    have "in_window b ?t" by (rule win) (use sv in \<open>simp split: prod.splits\<close>)
    from serving_post [OF U tt this, of env] obtain i s' ss' where r: "equeue_enqueue env q e t ?u = Some (i, s')"
      "serving b q s' (ev_next ?u e) es ss' cs" "flat ss' = pinsert (\<lambda>x. - due b s' x) e (flat ss)" "same_setup ?u s'"
      "world s' = world ?u" "ev_target s' = (ev_target ?u)(e := ?t)" by blast
    have "run_events env q h s = run_events env q (ev_next s e) s'"
      using h(2) True tk r(1) unfolding h(1) by (subst run_events.simps) (simp add: call Let_def equeue_now_def)
    moreover have "served_one b q s s' e [(e, ?t)] ss cs ss' cs" using r(3,4,6) True by (simp add: served_one_def same_setup_def)
    moreover have "serving b q s' (ev_next s e) es ss' cs" "world s' = w" using r(2,5) by simp_all
    ultimately show ?thesis using sv by blast
  next
    case False
    let ?u = "s\<lparr>world := ?w\<rparr>"
    have sv: "serve_events env act s (e # es) (world s) = (let (w, posts) = serve_events env act s es ?w in (w, [] @ posts))"
      using False by (simp add: Let_def)
    have "serving b q ?u e (e # es) ss cs" by (simp only: serving_world S)
    then obtain s' cs' where r: "equeue_mem_dealloc q e (equeue_incid q e ?u) = Some s'" "serving b q s' (ev_next s e) es ss cs'"
      "set (concat cs') = insert e (set (concat cs))" "same_setup ?u s'" "world s' = ?w" "ev_target s' = ev_target s"
      using serving_free [of b q ?u e es ss cs] by fastforce
    have "equeue_dealloc env q (e + sizeof_event) (equeue_incid q e ?u) = Some s'"
      using r(1) d by (subst dealloc_event [of _ e]) (simp_all add: incid_eq)
    then have "run_events env q h s = run_events env q (ev_next s e) s'"
      using h(2) False unfolding h(1) by (subst run_events.simps) (simp add: call Let_def)
    moreover have "served_one b q s s' e [] ss cs ss cs'" using r(3,4,6) False by (simp add: served_one_def same_setup_def)
    ultimately show ?thesis using r(2) sv [folded r(5)] by blast
  qed
qed

lemma served_Cons:
  assumes one: "served_one b q s s1 e post ss cs ss1 cs1" and r: "served b q s1 s' es posts ss1 cs1"
    and e: "e \<notin> set es" "set (concat ss1) \<inter> set es = {}"
  shows "served b q s s' (e # es) (post @ posts) ss cs"
proof -
  have su: "same_setup s s1" "same_setup s1 s'" using one r by (simp_all add: served_one_def served_def)
  have tg: "ev_target s' x = ev_target s1 x" if "x \<notin> set es" for x using r that by (simp add: served_def)
  have "ev_target s' x = ev_target s x" if "x \<notin> set (e # es)" for x using that tg [of x] one by (simp add: served_one_def)
  moreover have "flat ss1 = fold (pinsert (\<lambda>x. - due b s' x)) (map fst post) (flat ss)"
  proof (cases "post = []")
    case False
    then have p: "flat ss1 = pinsert (\<lambda>x. - due b s1 x) e (flat ss)" "map fst post = [e]" using one by (auto simp: served_one_def)
    have "due b s1 x = due b s' x" if "x \<in> set (e # flat ss)" for x
    proof -
      have "x \<in> set (flat ss1)" using that unfolding p(1) by simp
      then have "x \<notin> set es" using e(2) unfolding set_flat by blast
      then show ?thesis using tg [of x] by (simp add: due_def)
    qed
    then show ?thesis unfolding p using pinsert_cong [of e "flat ss" "\<lambda>x. - due b s1 x" "\<lambda>x. - due b s' x"] by simp
  qed (use one in \<open>simp add: served_one_def\<close>)
  moreover have "set (concat cs1) \<union> {x \<in> set es. sint (ev_period s1 x) < 0} = set (concat cs) \<union> {x \<in> set (e # es). sint (ev_period s x) < 0}"
    using one su(1) unfolding served_one_def same_setup_def by auto
  moreover have "\<forall>(x, t)\<in>set post. ev_target s' x = t" using one tg [OF e(1)] by (auto simp: served_one_def)
  moreover have "same_setup s s'" by (rule same_setup_trans [OF su])
  ultimately show ?thesis using r unfolding served_def by (auto simp: fold_append)
qed

lemma run_loop_spec:
  assumes "serving b q s h es ss cs" "\<And>e. e \<in> set es \<Longrightarrow> ev_dtor s e = NoFn"
    and "\<And>e. e \<in> set es \<Longrightarrow> ev_cb s e \<noteq> NoFn \<Longrightarrow> world_only env act s (ev_cb s e)"
    and "\<And>e t. (e, t) \<in> set (snd (serve_events env act s es (world s))) \<Longrightarrow> in_window b t"
  shows "\<exists>s'. run_events env q h s = Some s' \<and> world s' = fst (serve_events env act s es (world s)) \<and>
    served b q s s' es (snd (serve_events env act s es (world s))) ss cs"
  using assms
proof (induction es arbitrary: s h ss cs)
  case Nil
  then have "h = NULL" by (simp add: serving_def)
  then have "run_events env q h s = Some s" by (subst run_events.simps) simp
  moreover have "served b q s s [] [] ss cs" using Nil.prems(1) \<open>h = NULL\<close>
    unfolding served_def same_setup_def by simp blast
  ultimately show ?case by simp
next
  case (Cons e es)
  obtain s1 ss1 cs1 post where 1: "run_events env q h s = run_events env q (ev_next s e) s1"
      "serving b q s1 (ev_next s e) es ss1 cs1" "served_one b q s s1 e post ss cs ss1 cs1"
    and sv: "serve_events env act s (e # es) (world s) = (let (w, posts) = serve_events env act s es (world s1) in (w, post @ posts))"
    using run_one [OF Cons.prems(1), of env act] Cons.prems(2-4) by (metis list.set_intros(1))
  have su: "same_setup s s1" using 1(3) by (simp add: served_one_def)
  have e: "e \<notin> set es" "set (concat ss1) \<inter> set es = {}" using Cons.prems(1) 1(2) by (auto simp: serving_def)
  have sv1: "serve_events env act s1 es (world s1) = serve_events env act s es (world s1)"
    by (rule serve_events_cong) (use 1(3) e(1) in \<open>auto simp: served_one_def same_setup_def\<close>)
  have "\<exists>s'. run_events env q (ev_next s e) s1 = Some s' \<and> world s' = fst (serve_events env act s1 es (world s1)) \<and>
    served b q s1 s' es (snd (serve_events env act s1 es (world s1))) ss1 cs1"
  proof (rule Cons.IH [OF 1(2)])
    fix x assume x: "x \<in> set es"
    show "ev_dtor s1 x = NoFn" using Cons.prems(2) [of x] x su by (simp add: same_setup_def)
    assume "ev_cb s1 x \<noteq> NoFn"
    then show "world_only env act s1 (ev_cb s1 x)" using Cons.prems(3) [of x] x world_only_cong [OF _ su] su
      by (simp add: same_setup_def)
  next
    fix x u assume "(x, u) \<in> set (snd (serve_events env act s1 es (world s1)))"
    then show "in_window b u" using Cons.prems(4) [of x u] sv sv1 by (simp split: prod.splits)
  qed
  then obtain s' where s': "run_events env q (ev_next s e) s1 = Some s'" "world s' = fst (serve_events env act s1 es (world s1))"
    "served b q s1 s' es (snd (serve_events env act s1 es (world s1))) ss1 cs1" by blast
  then show ?case using 1(1) sv sv1 served_Cons [OF 1(3) s'(3) e] by (simp split: prod.splits)
qed

lemma distinct_concat_rev: "distinct (concat ss) \<Longrightarrow> distinct (concat (map rev ss))"
  by (induction ss) auto

lemma dequeue_serving:
  assumes R: "eq_rep b q s ss" "chunk_rep q s cs" "set (concat ss) \<inter> set (concat cs) = {}" "no_update q s" and t: "in_window b now"
    and es: "es = takeWhile (\<lambda>x. due b s x \<le> sint (now - b)) (flat ss)"
  shows "\<exists>h s' vs. equeue_dequeue q now s = Some (h, s') \<and> serving b q s' h es vs cs \<and>
    flat vs = dropWhile (\<lambda>x. due b s x \<le> sint (now - b)) (flat ss) \<and> same_setup s s' \<and> world s' = world s \<and> ev_target s' = ev_target s"
proof -
  obtain n r k g tk h vs s' where s': "s' = s\<lparr>eq_generation := g, eq_tick := tk, ev_next := n, ev_ref := r, eq_queue := (eq_queue s)(q := k)\<rparr>"
    and run: "equeue_dequeue q now s = Some (h, s')" and rep: "eq_rep b q s' vs"
    "flat vs = dropWhile (\<lambda>x. due b s x \<le> sint (now - b)) (flat ss)"
    "chain n h (takeWhile (\<lambda>x. due b s x \<le> sint (now - b)) (flat ss)) NULL"
    and fr: "\<And>x. x \<notin> set (concat ss) \<Longrightarrow> n x = ev_next s x \<and> r x = ev_ref s x"
    by (rule dequeue_spec [OF R(1) t]) (rule that, assumption+)
  have "n x = ev_next s x" if "x \<in> set (concat cs)" for x using fr [of x] that R(3) by blast
  then have "chunk_rep q s' cs" by (intro chunk_rep_cong [OF R(2)]) (simp_all add: s' del: set_concat)
  moreover have fl: "flat ss = es @ flat vs" unfolding es rep(2) by simp
  have d: "distinct (flat ss)" using R(1) unfolding eq_rep_def flat_def by (metis distinct_concat_rev)
  then have "distinct es" "set es \<inter> set (concat vs) = {}" using fl set_flat [of vs] by simp_all
  moreover have "set (concat ss) = set es \<union> set (concat vs)" using fl set_flat by (metis set_append)
  then have "set es \<inter> set (concat cs) = {}" "set (concat vs) \<inter> set (concat cs) = {}" using R(3) by blast+
  moreover have "no_update q s'" using R(4) by (simp add: no_update_def s')
  moreover have "chain (ev_next s') h es NULL" using rep(3) es by (simp add: s')
  ultimately have "serving b q s' h es vs cs" using rep(1) unfolding serving_def by blast
  moreover have "same_setup s s'" "world s' = world s" "ev_target s' = ev_target s" by (simp_all add: s' same_setup_def)
  ultimately show ?thesis using run rep(2) by blast
qed

text \<open>Packing the generation and the offset of an event into an identifier and back.\<close>

lemma bits_below: "0 \<le> (x :: int) \<Longrightarrow> x < 2 ^ n \<Longrightarrow> n \<le> k \<Longrightarrow> \<not> bit x k"
  by (metis bit_take_bit_iff not_less take_bit_int_eq_self)

lemma ucast8_eq: "(ucast (a :: u8) :: u32) = ucast b \<longleftrightarrow> a = b"
proof
  assume h: "(ucast a :: u32) = ucast b"
  show "a = b"
  proof (rule bit_word_eqI)
    fix n assume "n < LENGTH(8)"
    then show "bit a n = bit b n" using arg_cong [OF h, of "\<lambda>x. bit x n"] by (simp add: bit_simps)
  qed
qed simp

lemma ident_unpack:
  fixes i :: u8 and off :: u32
  assumes off: "uint off < 2 ^ n" and i: "uint i * 2 ^ n < 2 ^ 31" "i \<noteq> 0"
  defines "w \<equiv> push_bit n (ucast i) OR off :: u32"
  shows "w AND (push_bit n 1 - 1) = off" "ucast i = signed_drop_bit n w" "w \<noteq> 0" "n < 31"
proof -
  have "uint i \<noteq> 0" using i(2) word_uint_eq_iff [of i 0] by simp
  then have "0 < uint i" using uint_ge_0 [of i] by linarith
  then have "1 * (2 :: int) ^ n \<le> uint i * 2 ^ n" by (intro mult_right_mono) simp_all
  then have "(2 :: int) ^ n < 2 ^ 31" using i(1) by linarith
  then show n: "n < 31" using power_less_imp_less_exp [of "2 :: int" n 31] by simp
  have ob: "\<not> bit off k" if "n \<le> k" for k
    using bits_below [OF uint_ge_0 off that] bit_imp_le_length [of off k] by (auto simp: bit_uint_iff)
  then have lb: "bit off k \<Longrightarrow> k < n" for k using not_le by blast
  have "(2 :: int) ^ 31 = 2 ^ (31 - n) * 2 ^ n" using n by (simp flip: power_add)
  then have "uint i < 2 ^ (31 - n)" using i(1) by (metis mult_less_cancel_right_pos zero_less_numeral zero_less_power)
  then have ib: "\<not> bit i k" if "31 \<le> n + k" for k
  proof -
    have "31 - n \<le> k" using that by simp
    with \<open>uint i < 2 ^ (31 - n)\<close> have "\<not> bit (uint i) k" by (rule bits_below [OF uint_ge_0])
    then show ?thesis using bit_imp_le_length [of i k] by (auto simp: bit_uint_iff)
  qed
  have m: "push_bit n (1 :: u32) - 1 = mask n" by (simp add: mask_eq_exp_minus_1 push_bit_eq_mult)
  show 1: "w AND (push_bit n 1 - 1) = off"
    unfolding m w_def by (rule bit_word_eqI) (auto simp: bit_simps intro: lb)
  show d: "ucast i = signed_drop_bit n w"
  proof (rule bit_word_eqI)
    fix k assume k: "k < LENGTH(32)"
    have wb: "bit w j = bit i (j - n)" if "n \<le> j" "j < 32" for j
      using that ob [OF that(1)] bit_imp_le_length [of i "j - n"] by (auto simp: w_def bit_simps)
    show "bit (ucast i :: u32) k = bit (signed_drop_bit n w) k"
    proof (cases "32 - n \<le> k")
      case True
      then have "bit (signed_drop_bit n w) k = bit w 31" using k by (simp add: bit_signed_drop_bit_iff)
      then show ?thesis using wb [of 31] n ib [of "31 - n"] ib [of k] k True by (auto simp: bit_simps)
    next
      case False
      then have "bit (signed_drop_bit n w) k = bit w (n + k)" using k by (simp add: bit_signed_drop_bit_iff)
      then show ?thesis using wb [of "n + k"] False k by (simp add: bit_simps)
    qed
  qed
  show "w \<noteq> 0"
  proof
    assume "w = 0"
    then have "(ucast i :: u32) = 0" using d by simp
    then show False using i(2) ucast8_eq [of i 0] by simp
  qed
qed

lemma remove1_pinsert: "x \<notin> set xs \<Longrightarrow> remove1 x (pinsert f x xs) = xs"
  by (induction xs) auto

lemma next_id_new:
  assumes "i \<noteq> 0" "n < 31" shows "next_id n i \<noteq> i"
proof (cases "push_bit n (ucast (i + 1)) = (0 :: u32)")
  case True
  have "i \<noteq> 1"
  proof
    assume "i = 1"
    then have "push_bit n (2 :: u32) = 0" using True by simp
    then have "bit (push_bit n (2 :: u32)) (n + 1) = False" by simp
    then show False using assms(2) by (simp add: bit_simps bit_2_iff)
  qed
  then show ?thesis using True by (simp add: next_id_def)
qed (simp add: next_id_def)

lemma cancel_posted:
  assumes Q: "eq_rep b q s ss" "chunk_rep q s cs" "set (concat ss) \<inter> set (concat cs) = {}" "e \<in> hd ` set ss"
    and c: "cancellable q e ident s" "ev_dtor s e = NoFn" "ident \<noteq> 0" "ev_id s e \<noteq> 0" "eq_npw2 s q < 31"
  shows "\<exists>s' ss' cs'. equeue_cancel env q ident s = Some s' \<and> eq_rep b q s' ss' \<and> flat ss' = remove1 e (flat ss) \<and>
    chunk_rep q s' cs' \<and> set (concat cs') = insert e (set (concat cs)) \<and> equeue_cancel env q ident s' = Some s'"
proof -
  obtain n r k ss' s1 where s1: "s1 = s\<lparr>ev_cb := (ev_cb s)(e := NoFn), ev_period := (ev_period s)(e := - 1), ev_next := n, ev_ref := r,
      eq_queue := (eq_queue s)(q := k), ev_id := (ev_id s)(e := next_id (eq_npw2 s q) (ev_id s e))\<rparr>"
    and run: "equeue_unqueue q ident s = (e, s1)" and rep: "eq_rep b q s1 ss'" "flat ss' = remove1 e (flat ss)"
    and fr: "\<And>x. x \<notin> set (concat ss) \<Longrightarrow> n x = ev_next s x \<and> r x = ev_ref s x"
    by (rule unqueue_spec [OF Q(1) c(1) Q(4)]) (rule that, assumption+)
  have ne: "[] \<notin> set ss" "NULL \<notin> set (concat ss)" and d: "distinct (flat ss)"
    using Q(1) linked_heads linked_nonnull distinct_concat_rev unfolding eq_rep_def flat_def by blast+
  have e: "e \<in> set (concat ss)" using Q(4) heads_in [OF ne(1)] by blast
  have e0: "e \<noteq> NULL" "e \<notin> set (concat cs)" "e \<notin> set (concat ss')" using e ne(2) Q(3) d set_flat [of ss'] unfolding rep(2) by auto
  have "n x = ev_next s x" if "x \<in> set (concat cs)" for x using fr [of x] that Q(3) by blast
  then have "chunk_rep q s1 cs" by (intro chunk_rep_cong [OF Q(2)]) (simp_all add: s1 del: set_concat)
  then obtain m sb j cs' s2 where s2: "s2 = s1\<lparr>ev_next := m, ev_sibling := sb, eq_chunks := (eq_chunks s1)(q := j)\<rparr>"
    and run2: "equeue_mem_dealloc q e s1 = Some s2" and rep2: "chunk_rep q s2 cs'" "set (concat cs') = insert e (set (concat cs))"
    and fr2: "\<And>x. x \<notin> insert e (set (concat cs)) \<Longrightarrow> m x = ev_next s1 x \<and> sb x = ev_sibling s1 x"
    by (rule mem_dealloc_spec [OF _ e0(2,1)]) (rule that, assumption+)
  have sub: "set (concat ss') \<subseteq> set (concat ss)" using set_remove1_subset [of e "flat ss"] rep(2) set_flat by metis
  have "m x = ev_next s1 x \<and> sb x = ev_sibling s1 x" if "x \<in> set (concat ss')" for x using fr2 [of x] that sub Q(3) e0(3) by blast
  then have "eq_rep b q s2 ss'" by (intro eq_rep_cong [OF rep(1)]) (simp_all add: s2 del: set_concat)
  moreover have "equeue_dealloc env q (e + sizeof_event) s1 = Some s2"
    using run2 c(2) by (subst dealloc_event [of _ e]) (simp_all add: s1)
  then have "equeue_cancel env q ident s = Some s2" using run c(3) e0(1) by (simp add: equeue_cancel_def)
  moreover have "equeue_cancel env q ident s2 = Some s2"
  proof -
    have ev: "event_of q ident s2 = e" "(ucast (ev_id s e) :: u32) = signed_drop_bit (eq_npw2 s q) ident"
      using c(1) by (auto simp: cancellable_def event_of_def id_matches_def s2 s1)
    have "(ucast (next_id (eq_npw2 s q) (ev_id s e)) :: u32) \<noteq> ucast (ev_id s e)"
      using next_id_new [OF c(4,5)] by (simp add: ucast8_eq)
    then have "\<not> id_matches q e ident s2" using ev(2) by (simp add: id_matches_def s2 s1)
    then show ?thesis using ev(1) c(3) by (simp add: equeue_cancel_def equeue_unqueue_def)
  qed
  ultimately show ?thesis using rep(2) rep2 by blast
qed

text \<open>Enqueueing into a queue of at most one slot, on every branch.\<close>

lemma find_place_if: "find_place go head s p = (if deref head s p \<noteq> NULL \<and> go (deref head s p)
    then find_place go head s (PNext (deref head s p)) else Some p)"
  by (subst find_place.simps) (simp add: Let_def)

lemma enqueue_empty:
  assumes "eq_queue s q = NULL" "no_update q s" "t = tick + equeue_clampdiff (ev_target s e) tick"
  shows "equeue_enqueue env q e tick s = Some (push_bit (eq_npw2 s q) (ucast (ev_id s e)) OR (e - eq_buffer s q),
    s\<lparr>ev_target := (ev_target s)(e := t), ev_generation := (ev_generation s)(e := eq_generation s q), ev_next := (ev_next s)(e := NULL),
      ev_sibling := (ev_sibling s)(e := NULL), eq_queue := (eq_queue s)(q := e), ev_ref := (ev_ref s)(e := PQueue q)\<rparr>)"
proof -
  have "slot_pos s' t (PQueue q) = Some (PQueue q)" if "eq_queue s' q = NULL" for s' :: "'a eq"
    using that by (simp add: slot_pos_def find_place_if)
  then show ?thesis using assms unfolding equeue_enqueue_def no_update_def by (auto simp: Let_def assign_def)
qed

lemma enqueue_behind:
  assumes "eq_queue s q = x" "x \<noteq> NULL" "e \<noteq> x" "ev_next s x = NULL" "no_update q s" "t = tick + equeue_clampdiff (ev_target s e) tick"
    and "equeue_tickdiff (ev_target s x) t < 0"
  shows "equeue_enqueue env q e tick s = Some (push_bit (eq_npw2 s q) (ucast (ev_id s e)) OR (e - eq_buffer s q),
    s\<lparr>ev_target := (ev_target s)(e := t), ev_generation := (ev_generation s)(e := eq_generation s q), ev_next := (ev_next s)(e := NULL, x := e),
      ev_sibling := (ev_sibling s)(e := NULL), ev_ref := (ev_ref s)(e := PNext x)\<rparr>)"
proof -
  have "slot_pos s' t (PQueue q) = Some (PNext x)" if "eq_queue s' q = x" "ev_next s' x = NULL" "ev_target s' x = ev_target s x" for s' :: "'a eq"
    using that assms(2,7) by (simp add: slot_pos_def find_place_if)
  then show ?thesis using assms(1-6) unfolding equeue_enqueue_def no_update_def by (auto simp: Let_def assign_def)
qed

lemma enqueue_joins:
  assumes "eq_queue s q = x" "x \<noteq> NULL" "e \<noteq> x" "ev_next s x = y" "y \<noteq> NULL" "y \<noteq> x" "y \<noteq> e" "no_update q s"
    and "t = tick + equeue_clampdiff (ev_target s e) tick" "ev_target s x = t"
  shows "equeue_enqueue env q e tick s = Some (push_bit (eq_npw2 s q) (ucast (ev_id s e)) OR (e - eq_buffer s q),
    s\<lparr>ev_target := (ev_target s)(e := t), ev_generation := (ev_generation s)(e := eq_generation s q), ev_next := (ev_next s)(e := y),
      ev_sibling := (ev_sibling s)(e := x), eq_queue := (eq_queue s)(q := e),
      ev_ref := (ev_ref s)(y := PNext e, x := PSibling e, e := PQueue q)\<rparr>)"
proof -
  have "slot_pos s' t (PQueue q) = Some (PQueue q)" if "eq_queue s' q = x" "ev_target s' x = t" for s' :: "'a eq"
    using that by (simp add: slot_pos_def find_place_if equeue_tickdiff_def)
  then show ?thesis using assms unfolding equeue_enqueue_def no_update_def by (auto simp: Let_def assign_def)
qed

text \<open>Cancelling the older event of a slot of two, and taking the slot.\<close>

lemma unqueue_oldest:
  assumes "cancellable q a ident s" "ev_sibling s a = NULL" "ev_next s a = y" "ev_ref s a = PSibling c" "y \<noteq> NULL"
  shows "equeue_unqueue q ident s = (a, s\<lparr>ev_cb := (ev_cb s)(a := NoFn), ev_period := (ev_period s)(a := - 1),
    ev_sibling := (ev_sibling s)(c := y), ev_ref := (ev_ref s)(y := PSibling c), ev_id := (ev_id s)(a := next_id (eq_npw2 s q) (ev_id s a))\<rparr>)"
proof -
  have ev: "event_of q ident s = a" "id_matches q a ident s"
    and diff: "\<not> equeue_tickdiff (ev_target s a) (eq_tick s q) < 0"
      "\<not> (equeue_tickdiff (ev_target s a) (eq_tick s q) = 0 \<and> ev_generation s a \<noteq> eq_generation s q)"
    using assms(1) by (auto simp: cancellable_def Let_def)
  show ?thesis using assms(2-5) by (simp add: equeue_unqueue_def Let_def ev diff assign_def incid_eq)
qed

lemma dequeue_two:
  assumes q: "eq_queue s q = c" "c \<noteq> NULL" "ev_next s c = y" "y \<noteq> NULL" "c \<noteq> y" "ev_sibling s c = y" "ev_sibling s y = NULL"
    and t: "equeue_tickdiff (ev_target s c) now \<le> 0" "0 < equeue_tickdiff (ev_target s y) now"
  shows "\<exists>s'. equeue_dequeue q now s = Some (y, s') \<and> chain (ev_next s') y [y, c] NULL \<and> eq_queue s' q = y"
proof -
  let ?s1 = "s\<lparr>eq_generation := (eq_generation s)(q := eq_generation s q + 1),
    eq_tick := if equeue_tickdiff (eq_tick s q) now \<le> 0 then (eq_tick s)(q := now) else eq_tick s\<rparr>"
  have pos: "due_pos c ?s1 now PLocal = Some (PNext c)" using q t by (simp add: due_pos_def find_place_if)
  let ?s2 = "?s1\<lparr>eq_queue := (eq_queue s)(q := y), ev_ref := (ev_ref s)(y := PQueue q), ev_next := (ev_next s)(c := NULL)\<rparr>"
  let ?s3 = "?s2\<lparr>ev_next := (ev_next s)(c := NULL, y := c)\<rparr>"
  have r1: "reverse_slot NULL c ?s2 = reverse_slot c y ?s2" using q by (subst reverse_slot.simps) simp
  have r2: "reverse_slot c y ?s2 = reverse_slot y NULL ?s3" using q by (subst reverse_slot.simps) simp
  have r3: "reverse_slot y NULL ?s3 = Some (y, ?s3)" by (subst reverse_slot.simps) simp
  have "flatten_slots c PLocal c ?s2 = flatten_slots y (PNext c) NULL ?s3"
    using q r1 r2 r3 by (subst flatten_slots.simps) (simp add: assign_def)
  also have "\<dots> = Some (y, ?s3)" by (subst flatten_slots.simps) simp
  finally have fl: "flatten_slots c PLocal c ?s2 = Some (y, ?s3)" .
  have e1: "(if P then u\<lparr>eq_tick := (eq_tick u)(q := now)\<rparr> else u) = u\<lparr>eq_tick := if P then (eq_tick u)(q := now) else eq_tick u\<rparr>"
    for P and u :: "'a eq" by simp
  have "equeue_dequeue q now s = Some (y, ?s3)"
    using q pos fl unfolding equeue_dequeue_def Let_def e1
    by (simp add: assign_def split del: if_split cong del: if_weak_cong)
  then show ?thesis using q by simp
qed

section \<open>Properties\<close>

text \<open>
  C21: Events posted to an empty queue in any order (\<open>es\<close>, the event \<open>e\<close> at the time \<open>tick e\<close>, its target time the delay
  and the time of the post) are taken out by equeue_dequeue in the order of the times they fire at, events of the same time in
  the order they were posted: exactly those that have expired at \<open>now\<close> are taken, the others stay queued in the same order.
  All times lie in a window of \<open>2 ^ 31\<close> ticks around \<open>b\<close>, which the 32-bit clock may wrap within.
\<close>

theorem equeue_fires_in_order:
  assumes "eq_queue s q = NULL" "no_update q s" "distinct es" "NULL \<notin> set es" "in_window b now"
    and "\<And>e. e \<in> set es \<Longrightarrow> in_window b (fire_time tick s e)"
  shows "\<exists>s1 h s2 ss. put_all (post_at env q tick) es s = Some s1 \<and> equeue_dequeue q now s1 = Some (h, s2) \<and>
    chain (ev_next s2) h (takeWhile (\<lambda>e. sint (fire_time tick s e - b) \<le> sint (now - b))
      (sort_key (\<lambda>e. sint (fire_time tick s e - b)) es)) NULL \<and>
    eq_rep b q s2 ss \<and> flat ss = dropWhile (\<lambda>e. sint (fire_time tick s e - b) \<le> sint (now - b))
      (sort_key (\<lambda>e. sint (fire_time tick s e - b)) es)"
proof -
  have "\<And>e. e \<in> set es \<Longrightarrow> e \<noteq> NULL \<and> in_window b (fire_time tick s e)" using assms(4,6) by blast
  from event_queue.in_order [OF empty_rep [OF assms(1,2)] assms(3) this assms(5), of env]
  show ?thesis unfolding posted_rep_def by (simp only: minus_minus) blast
qed

text \<open>
  C24: The allocator of the event queue. A request whose rounded size does not overflow returns either NULL with
  the queue unchanged or a block of at least the requested size behind its header, one that was not handed out and does not
  overlap any of the blocks that are; the event starts without a delay, without a period and without a destructor.
\<close>

theorem equeue_alloc_spec:
  assumes H: "eq_heap_ok q lo hi s L" and z: "uint size' + 39 < 2 ^ 32"
  shows "equeue_alloc q size' s = Some (NULL, s) \<or> (\<exists>e s'. equeue_alloc q size' s = Some (e + 36, s') \<and> e \<notin> L \<and>
    eq_heap_ok q lo hi s' (insert e L) \<and> uint size' + 36 \<le> uint (ev_size s' e) \<and> (\<forall>x\<in>L. ev_size s' x = ev_size s x) \<and>
    ev_target s' = (ev_target s)(e := 0) \<and> ev_period s' = (ev_period s)(e := - 1) \<and> ev_dtor s' = (ev_dtor s)(e := NoFn))"
proof -
  note B = eq_block_size_bounds [OF z]
  obtain cs where h: "0 < lo" "uint (slab_data s q) + uint (slab_size s q) = hi" "hi < 2 ^ 32" "lo \<le> uint (slab_data s q)"
    and cs: "chunk_rep q s cs" "L \<inter> set (concat cs) = {}" "blocks_ok s (L \<union> set (concat cs)) lo (uint (slab_data s q))"
    using H unfolding eq_heap_ok_def by blast
  show ?thesis
  proof (cases rule: mem_alloc_spec [OF cs(1) refl, of size', case_names chunk slab full])
    case (chunk e es vs us n k cs')
    let ?s = "s\<lparr>ev_next := n, eq_chunks := (eq_chunks s)(q := k)\<rparr>"
    let ?s' = "?s\<lparr>ev_target := (ev_target s)(e := 0), ev_period := (ev_period s)(e := - 1), ev_dtor := (ev_dtor s)(e := NoFn)\<rparr>"
    have "NULL \<notin> set (concat cs)" using linked_nonnull cs(1) unfolding chunk_rep_def by blast
    moreover have e: "e \<in> set (concat cs)" using chunk(1) by simp
    ultimately have en: "e \<noteq> NULL" by blast
    have run: "equeue_alloc q size' s = Some (e + 36, ?s')" using chunk(4) en by (simp add: equeue_alloc_def)
    have "insert e L \<union> set (concat cs') = L \<union> set (concat cs)" "insert e L \<inter> set (concat cs') = {}"
      unfolding chunk(6) using e cs(2) by auto
    moreover have "chunk_rep q ?s' cs'" using chunk(5) by (simp add: chunk_rep_def sized_def)
    moreover have "blocks_ok ?s' (L \<union> set (concat cs)) lo (uint (slab_data s q))" using cs(3) by (simp add: blocks_ok_def)
    ultimately have "eq_heap_ok q lo hi ?s' (insert e L)" unfolding eq_heap_ok_def using h by auto
    moreover have "uint size' + 36 \<le> uint (ev_size s e)" using B(1) chunk(3) by (simp add: word_le_def)
    moreover have "e \<notin> L" using e cs(2) by auto
    ultimately show ?thesis using run by auto
  next
    case slab
    let ?e = "slab_data s q" and ?z = "eq_block_size size'"
    let ?s = "s\<lparr>slab_data := (slab_data s)(q := ?e + ?z), slab_size := (slab_size s)(q := slab_size s q - ?z),
        ev_size := (ev_size s)(?e := ?z), ev_id := (ev_id s)(?e := 1)\<rparr>"
    let ?s' = "?s\<lparr>ev_target := (ev_target s)(?e := 0), ev_period := (ev_period s)(?e := - 1), ev_dtor := (ev_dtor s)(?e := NoFn)\<rparr>"
    have "?e \<noteq> NULL" using h(1,4) by auto
    then have run: "equeue_alloc q size' s = Some (?e + 36, ?s')" using slab(3) by (simp add: equeue_alloc_def)
    have zs: "uint (slab_size s q - ?z) = uint (slab_size s q) - uint ?z" using slab(2) by (simp add: uint_minus_simple_alt)
    have top: "uint ?e + uint ?z \<le> hi" using slab(2) h(2) by (simp add: word_le_def)
    then have es: "uint (?e + ?z) = uint ?e + uint ?z" using h(3) uint_add_lem [of ?e ?z] by simp
    have lz: "lo \<le> uint ?e + uint ?z" using h(4) uint_ge_0 [of ?z] by linarith
    have e: "?e \<notin> L \<union> set (concat cs)" by (rule blocks_ok_fresh [OF cs(3)])
    have "blocks_ok ?s' (insert ?e (L \<union> set (concat cs))) lo (uint (?e + ?z))"
      by (rule blocks_ok_new [OF cs(3) _ B(2) h(4)]) (use e in \<open>auto simp: es\<close>)
    moreover have C: "linked (ev_next s) (ev_sibling s) (eq_chunks s q) cs NULL" "distinct (concat cs)" "sized s cs"
      using cs(1) unfolding chunk_rep_def by blast+
    have "sized ?s' cs = sized s cs" by (rule sized_cong) (use e linked_heads [OF C(1)] in auto)
    then have "chunk_rep q ?s' cs" using C unfolding chunk_rep_def by simp
    moreover have "insert ?e L \<inter> set (concat cs) = {}" using e cs(2) by auto
    ultimately have "eq_heap_ok q lo hi ?s' (insert ?e L)"
      using h zs es lz by (intro eq_heap_okI [of lo hi ?s' q cs "insert ?e L" "insert ?e (L \<union> set (concat cs))"]) simp_all
    moreover have "\<forall>x\<in>L. ev_size ?s' x = ev_size s x" using e by auto
    ultimately show ?thesis using run B(1) e by (intro disjI2 exI [of _ ?e] exI [of _ ?s']) simp
  next
    case full
    then show ?thesis by (simp add: equeue_alloc_def)
  qed
qed

text \<open>
  C25: A block that is given back is not handed out any more, and the next request for its size gets
  it again, whatever else is free: the chunks are kept by ascending size and each size is a stack.
\<close>

theorem equeue_dealloc_reuse:
  assumes H: "eq_heap_ok q lo hi s L" and e: "e \<in> L" "ev_dtor s e = NoFn" and z: "eq_block_size size' = ev_size s e"
  shows "\<exists>s1 s2. equeue_dealloc env q (e + 36) s = Some s1 \<and> eq_heap_ok q lo hi s1 (L - {e}) \<and>
    equeue_alloc q size' s1 = Some (e + 36, s2) \<and> eq_heap_ok q lo hi s2 L"
proof -
  obtain cs where h: "0 < lo" "uint (slab_data s q) + uint (slab_size s q) = hi" "hi < 2 ^ 32" "lo \<le> uint (slab_data s q)"
    and cs: "chunk_rep q s cs" "L \<inter> set (concat cs) = {}" "blocks_ok s (L \<union> set (concat cs)) lo (uint (slab_data s q))"
    using H unfolding eq_heap_ok_def by blast
  have ec: "e \<notin> set (concat cs)" using e(1) cs(2) by blast
  have "lo \<le> uint e" using e(1) cs(3) by (auto simp: blocks_ok_def)
  then have en: "e \<noteq> NULL" using h(1) by auto
  obtain n sb k cs' s' where s': "s' = s\<lparr>ev_next := n, ev_sibling := sb, eq_chunks := (eq_chunks s)(q := k)\<rparr>"
    and run: "equeue_mem_dealloc q e s = Some s'" and rep: "chunk_rep q s' cs'" "set (concat cs') = insert e (set (concat cs))" "e \<in> hd ` set cs'"
    by (rule mem_dealloc_spec [OF cs(1) ec en]) (rule that, assumption+)
  have set': "L - {e} \<union> set (concat cs') = L \<union> set (concat cs)" "(L - {e}) \<inter> set (concat cs') = {}"
    unfolding rep(2) using e(1) cs(2) by blast+
  have B: "blocks_ok s' (L \<union> set (concat cs)) lo (uint (slab_data s q))" using cs(3) by (simp add: blocks_ok_def s')
  have H': "eq_heap_ok q lo hi s' (L - {e})" unfolding eq_heap_ok_def
    by (intro conjI exI [of _ cs'] set'(2) rep(1)) (use h B set'(1) in \<open>simp_all add: s'\<close>)
  have ze: "ev_size s' e = eq_block_size size'" using z by (simp add: s')
  have ev: "\<exists>es\<in>set cs'. \<not> ev_size s' (hd es) < eq_block_size size'"
    using rep(3) ze by (metis imageE order_less_irrefl)
  have run2: "\<exists>s2. equeue_alloc q size' s' = Some (e + 36, s2) \<and> eq_heap_ok q lo hi s2 L"
  proof (cases rule: mem_alloc_spec [OF rep(1) refl, of size', case_names chunk slab full])
    case (chunk e' es vs us n' k' cs'')
    have "e' = e"
    proof -
      obtain xs where xs: "xs \<in> set cs'" "hd xs = e" using rep(3) by blast
      have so: "sized s' (us @ (e' # es) # vs)" using rep(1) chunk(1) by (simp add: chunk_rep_def)
      have "xs \<notin> set us" using chunk(2) xs(2) ze by auto
      moreover have "ev_size s' e' < ev_size s' (hd ys)" if "ys \<in> set vs" for ys using so that by (simp add: sized_append sized_Cons)
      then have "xs \<notin> set vs" using chunk(3) xs(2) ze by (metis leD)
      ultimately have "xs = e' # es" using xs(1) unfolding chunk(1) by simp
      then show ?thesis using xs(2) by simp
    qed
    let ?s = "s'\<lparr>ev_next := n', eq_chunks := (eq_chunks s')(q := k')\<rparr>"
    let ?s' = "?s\<lparr>ev_target := (ev_target s')(e := 0), ev_period := (ev_period s')(e := - 1), ev_dtor := (ev_dtor s')(e := NoFn)\<rparr>"
    have run3: "equeue_alloc q size' s' = Some (e + 36, ?s')" using chunk(4) en \<open>e' = e\<close> by (simp add: equeue_alloc_def)
    have "set (concat cs'') = set (concat cs)" using chunk(6) rep(2) ec \<open>e' = e\<close> by auto
    moreover have "chunk_rep q ?s' cs''" using chunk(5) by (simp add: chunk_rep_def sized_def)
    moreover have "blocks_ok ?s' (L \<union> set (concat cs)) lo (uint (slab_data s q))" using cs(3) by (simp add: blocks_ok_def s')
    ultimately have "eq_heap_ok q lo hi ?s' L"
      using h cs(2) by (intro eq_heap_okI [of lo hi ?s' q cs'' L "L \<union> set (concat cs)"]) (simp_all add: s')
    then show ?thesis using run3 by blast
  qed (use ev in auto)
  have "equeue_dealloc env q (e + 36) s = Some s'" using run e(2) by (simp add: equeue_dealloc_def)
  then show ?thesis using H' run2 by blast
qed

text \<open>
  C22: equeue_dispatch with a time of zero, on a queue without a background timer (so on one that is not chained to another),
  serves exactly the events that have expired, in order: it calls their callbacks, queues the periodic ones again at the end of their
  period (at once, if that has passed), gives the others back to the allocator and returns; the events that have not expired stay
  queued. \<open>serve_events\<close> is the reference. The expired events have no destructor, and their callbacks change the client's state,
  \<open>world\<close>, only (they neither post nor cancel); all times lie in one window, and the clock does not go back.
\<close>

theorem equeue_dispatch_serves:
  assumes "eq_rep b q s ss" "chunk_rep q s cs" "set (concat ss) \<inter> set (concat cs) = {}" "bg_update s q = NoFn"
    and now: "env_tick env (world s) = (now, w0)" "in_window b now"
    and es: "es = takeWhile (\<lambda>x. due b s x \<le> sint (now - b)) (flat ss)"
    and cb: "\<And>e. e \<in> set es \<Longrightarrow> ev_dtor s e = NoFn \<and> (ev_cb s e \<noteq> NoFn \<longrightarrow> world_only env act s (ev_cb s e))"
    and sv: "serve_events env act s es w0 = (w1, posts)" "\<And>e t. (e, t) \<in> set posts \<Longrightarrow> in_window b t"
    and later: "env_tick env w1 = (then', w2)" "equeue_tickdiff now then' \<le> 0"
  shows "\<exists>s' ss' cs'. equeue_dispatch env q 0 s = Some s' \<and> world s' = w2 \<and> eq_rep b q s' ss' \<and> chunk_rep q s' cs' \<and>
    flat ss' = fold (pinsert (\<lambda>x. - due b s' x)) (map fst posts) (dropWhile (\<lambda>x. due b s x \<le> sint (now - b)) (flat ss)) \<and>
    (\<forall>(e, t)\<in>set posts. ev_target s' e = t) \<and> (\<forall>x. x \<notin> set es \<longrightarrow> ev_target s' x = ev_target s x) \<and>
    set (concat cs') = set (concat cs) \<union> {e \<in> set es. sint (ev_period s e) < 0}"
proof -
  let ?u = "s\<lparr>world := w0, bg_active := (bg_active s)(q := False)\<rparr>"
  have "eq_rep b q ?u ss" "chunk_rep q ?u cs" using assms(1,2) by (auto elim: eq_rep_cong chunk_rep_cong)
  moreover have "es = takeWhile (\<lambda>x. due b ?u x \<le> sint (now - b)) (flat ss)" "no_update q ?u" using es by (simp_all add: due_def no_update_def)
  ultimately obtain h s1 vs where 1: "equeue_dequeue q now ?u = Some (h, s1)" "serving b q s1 h es vs cs"
    "flat vs = dropWhile (\<lambda>x. due b ?u x \<le> sint (now - b)) (flat ss)" "same_setup ?u s1" "world s1 = world ?u" "ev_target s1 = ev_target ?u"
    using dequeue_serving [OF _ _ assms(3) _ now(2)] by blast
  have su: "ev_cb s1 = ev_cb s" "ev_period s1 = ev_period s" "ev_dtor s1 = ev_dtor s" "ec_cb s1 = ec_cb s" "ec_data s1 = ec_data s"
    "bg_update s1 = bg_update s" using 1(4) by (simp_all add: same_setup_def)
  have sv1: "serve_events env act s1 es (world s1) = (w1, posts)" using sv(1) serve_events_cong [of es s1 s env act] 1(5,6) su by simp
  have "ev_dtor s1 e = NoFn \<and> (ev_cb s1 e \<noteq> NoFn \<longrightarrow> world_only env act s1 (ev_cb s1 e))" if "e \<in> set es" for e
    using cb [OF that] by (simp add: su world_only_def)
  then have "\<exists>s'. run_events env q h s1 = Some s' \<and> world s' = fst (serve_events env act s1 es (world s1)) \<and>
      served b q s1 s' es (snd (serve_events env act s1 es (world s1))) vs cs"
    using sv1 sv(2) by (intro run_loop_spec [OF 1(2)]) auto
  then obtain s2 where 2: "run_events env q h s1 = Some s2" "world s2 = w1" "served b q s1 s2 es posts vs cs" using sv1 by auto
  obtain ss' cs' where 3: "serving b q s2 NULL [] ss' cs'" "flat ss' = fold (pinsert (\<lambda>x. - due b s2 x)) (map fst posts) (flat vs)"
    "set (concat cs') = set (concat cs) \<union> {e \<in> set es. sint (ev_period s1 e) < 0}"
    and tg: "\<forall>(e, t)\<in>set posts. ev_target s2 e = t" "\<forall>x. x \<notin> set es \<longrightarrow> ev_target s2 x = ev_target s1 x"
    and su2: "same_setup s1 s2" using 2(3) unfolding served_def by blast
  let ?s' = "s2\<lparr>world := w2, eq_break := (eq_break s2)(q := False)\<rparr>"
  have "bg_update s2 q = NoFn" using su2 su assms(4) by (simp add: same_setup_def)
  then have "dispatch_loop env q 0 now now ?u = Some ?s'" using 1(1) 2(1,2) later
    by (subst dispatch_loop.simps) (simp add: equeue_now_def)
  then have run: "equeue_dispatch env q 0 s = Some ?s'" using now(1) by (simp add: equeue_dispatch_def equeue_now_def)
  have "eq_rep b q ?s' ss'" "chunk_rep q ?s' cs'" using 3(1) unfolding serving_def by (auto elim: eq_rep_cong chunk_rep_cong)
  then show ?thesis using run 3(2,3) tg 1(3,6) su(2)
    by (intro exI [of _ ?s'] exI [of _ ss'] exI [of _ cs']) (simp add: due_def)
qed

text \<open>
  C23: equeue_cancel undoes equeue_post. The event posted is queued for the time of the post plus its delay, behind
  the events of the same time; cancelling it with the identifier that equeue_post returned takes it out of the queue again, with
  the other events in their order, and gives it back to the allocator; cancelling it a second time has no effect.
\<close>

theorem equeue_cancel_undoes_post:
  assumes "eq_rep b q s ss" "chunk_rep q s cs" "set (concat ss) \<inter> set (concat cs) = {}" "no_update q s"
    and e: "e \<notin> set (concat ss) \<union> set (concat cs)" "e \<noteq> NULL" "ev_dtor s e = NoFn" "id_fits q e s"
    and t: "env_tick env (world s) = (tick, w)" "t = tick + equeue_clampdiff (tick + ev_target s e) tick"
      "in_window b t" "in_window b tick" "in_window b (eq_tick s q)" "0 \<le> equeue_tickdiff tick (eq_tick s q)"
  shows "\<exists>ident s1 ss1 s2 ss2 cs2. equeue_post env q cb (e + 36) s = Some (ident, s1) \<and>
    eq_rep b q s1 ss1 \<and> flat ss1 = pinsert (\<lambda>x. - due b s1 x) e (flat ss) \<and> ev_target s1 e = t \<and> ev_cb s1 e = cb \<and> eq_sema s1 q \<and>
    equeue_cancel env q ident s1 = Some s2 \<and> eq_rep b q s2 ss2 \<and> flat ss2 = flat ss \<and>
    chunk_rep q s2 cs2 \<and> set (concat cs2) = insert e (set (concat cs)) \<and> equeue_cancel env q ident s2 = Some s2"
proof -
  let ?u = "s\<lparr>world := w, ev_cb := (ev_cb s)(e := cb), ev_target := (ev_target s)(e := tick + ev_target s e)\<rparr>"
  have e': "e \<notin> set (concat ss)" "e \<notin> set (concat cs)" using e(1) by blast+
  have Q: "eq_rep b q ?u ss" by (rule eq_rep_cong [OF assms(1)]) (use e' in auto)
  have tt: "t = tick + equeue_clampdiff (ev_target ?u e) tick" using t(2) by simp
  have bg: "bg_update ?u q = NoFn \<or> \<not> bg_active ?u q" using assms(4) by (simp add: no_update_def)
  let ?ident = "push_bit (eq_npw2 s q) (ucast (ev_id s e)) OR (e - eq_buffer s q) :: u32"
  obtain n sb r h ss1 s0 where s0: "s0 = ?u\<lparr>ev_target := (ev_target ?u)(e := t), ev_generation := (ev_generation ?u)(e := eq_generation ?u q),
      ev_next := n, ev_sibling := sb, ev_ref := r, eq_queue := (eq_queue ?u)(q := h)\<rparr>"
    and run: "equeue_enqueue env q e tick ?u = Some (push_bit (eq_npw2 ?u q) (ucast (ev_id ?u e)) OR (e - eq_buffer ?u q), s0)"
    and rep: "eq_rep b q s0 ss1" "flat ss1 = pinsert (\<lambda>x. - due b s0 x) e (flat ss)" "e \<in> hd ` set ss1"
    and fr: "\<And>x. x \<notin> insert e (set (concat ss)) \<Longrightarrow> n x = ev_next ?u x \<and> sb x = ev_sibling ?u x \<and> r x = ev_ref ?u x"
    by (rule enqueue_spec [OF Q e'(1) e(2) tt t(3) bg, of env]) (rule that, assumption+)
  let ?s = "s0\<lparr>eq_sema := (eq_sema s0)(q := True)\<rparr>"
  have post: "equeue_post env q cb (e + 36) s = Some (?ident, ?s)"
    using run t(1) by (simp add: equeue_post_def equeue_now_def)
  have R: "eq_rep b q ?s ss1" by (rule eq_rep_cong [OF rep(1)]) simp_all
  have "n x = ev_next s x \<and> sb x = ev_sibling s x" if "x \<in> set (concat cs)" for x using fr [of x] that assms(3) e'(2) by auto
  then have C: "chunk_rep q ?s cs" by (intro chunk_rep_cong [OF assms(2)]) (simp_all add: s0 del: set_concat)
  have "set (concat ss1) = insert e (set (concat ss))" using rep(2) set_flat by (metis set_pinsert)
  then have D: "set (concat ss1) \<inter> set (concat cs) = {}" using assms(3) e'(2) by auto
  note id = ident_unpack [of "e - eq_buffer s q" "eq_npw2 s q" "ev_id s e"]
  have fits: "uint (e - eq_buffer s q) < 2 ^ eq_npw2 s q" "ev_id s e \<noteq> 0" "uint (ev_id s e) * 2 ^ eq_npw2 s q < 2 ^ 31"
    using e(4) by (simp_all add: id_fits_def)
  have "cancellable q e ?ident ?s"
  proof -
    have "equeue_tickdiff t tick \<ge> 0" using t(2) by (auto simp: equeue_tickdiff_def clampdiff_spec)
    then have "equeue_tickdiff t (eq_tick s q) \<ge> 0" using t(6) tickdiff_due [OF t(3,4)] tickdiff_due [OF t(4,5)] tickdiff_due [OF t(3,5)] by simp
    then show ?thesis using id(1,2) fits by (auto simp: cancellable_def event_of_def id_matches_def s0 Let_def)
  qed
  moreover have "ev_dtor ?s e = NoFn" "ev_id ?s e \<noteq> 0" "eq_npw2 ?s q < 31" "?ident \<noteq> 0"
    using e(3) id(3,4) fits by (simp_all add: s0)
  ultimately obtain s2 ss2 cs2 where 2: "equeue_cancel env q ?ident ?s = Some s2" "eq_rep b q s2 ss2" "flat ss2 = remove1 e (flat ss1)"
    "chunk_rep q s2 cs2" "set (concat cs2) = insert e (set (concat cs))" "equeue_cancel env q ?ident s2 = Some s2"
    using cancel_posted [OF R C D rep(3)] by blast
  have "flat ss2 = flat ss" using 2(3) e'(1) set_flat [of ss] unfolding rep(2) by (metis remove1_pinsert)
  moreover have "flat ss1 = pinsert (\<lambda>x. - due b ?s x) e (flat ss)" using rep(2) by (simp add: due_def)
  moreover have "ev_target ?s e = t" "ev_cb ?s e = cb" "eq_sema ?s q" by (simp_all add: s0)
  ultimately show ?thesis using post R 2(1,2,4-6) by blast
qed

text \<open>
  C26: Cancelling an event that is not the newest of its time makes another event fire early. The events \<open>a\<close>, \<open>y\<close>, \<open>c\<close> are
  posted, \<open>a\<close> and \<open>c\<close> for the time \<open>t1\<close>, \<open>y\<close> for the later time \<open>t2\<close>; then \<open>a\<close> is cancelled with its
  identifier. At a time \<open>now\<close> at which \<open>c\<close> has expired and \<open>y\<close> has not, equeue_dequeue returns \<open>y\<close> and \<open>c\<close>, and \<open>y\<close> is
  still the head of the queue as well, to be served a second time after it has been given back. equeue_unqueue follows the
  field \<open>next\<close> of \<open>a\<close>, which equeue_enqueue leaves stale when \<open>c\<close> becomes the head of the slot.
\<close>

theorem equeue_cancel_misfires:
  assumes "eq_queue s q = NULL" "no_update q s" "distinct [NULL, a, y, c]" "id_fits q a s"
    and T: "fire_time (\<lambda>_. tick) s a = t1" "fire_time (\<lambda>_. tick) s y = t2" "fire_time (\<lambda>_. tick) s c = t1"
    and d: "equeue_tickdiff t1 t2 < 0" "0 < equeue_tickdiff t1 (eq_tick s q)" "equeue_tickdiff t1 now \<le> 0" "0 < equeue_tickdiff t2 now"
  shows "\<exists>ident i j s1 s2 s3 s4 s5. equeue_enqueue env q a tick s = Some (ident, s1) \<and> equeue_enqueue env q y tick s1 = Some (i, s2) \<and>
    equeue_enqueue env q c tick s2 = Some (j, s3) \<and> equeue_unqueue q ident s3 = (a, s4) \<and>
    equeue_dequeue q now s4 = Some (y, s5) \<and> chain (ev_next s5) y [y, c] NULL \<and> eq_queue s5 q = y"
proof -
  have n: "a \<noteq> NULL" "y \<noteq> NULL" "c \<noteq> NULL" "a \<noteq> y" "a \<noteq> c" "y \<noteq> c" using assms(3) by auto
  define s1 where "s1 = s\<lparr>ev_target := (ev_target s)(a := t1), ev_generation := (ev_generation s)(a := eq_generation s q),
      ev_next := (ev_next s)(a := NULL), ev_sibling := (ev_sibling s)(a := NULL), eq_queue := (eq_queue s)(q := a), ev_ref := (ev_ref s)(a := PQueue q)\<rparr>"
  let ?ident = "push_bit (eq_npw2 s q) (ucast (ev_id s a)) OR (a - eq_buffer s q)"
  have 1: "equeue_enqueue env q a tick s = Some (?ident, s1)"
    unfolding s1_def by (rule enqueue_empty) (use assms(1,2) T(1) in \<open>simp_all add: fire_time_def\<close>)
  have f1: "eq_queue s1 q = a" "ev_next s1 a = NULL" "ev_target s1 a = t1" "no_update q s1" "ev_sibling s1 a = NULL"
    "t2 = tick + equeue_clampdiff (ev_target s1 y) tick" "t1 = tick + equeue_clampdiff (ev_target s1 c) tick"
    using assms(2) n T by (simp_all add: s1_def no_update_def fire_time_def)
  define s2 where "s2 = s1\<lparr>ev_target := (ev_target s1)(y := t2), ev_generation := (ev_generation s1)(y := eq_generation s1 q),
      ev_next := (ev_next s1)(y := NULL, a := y), ev_sibling := (ev_sibling s1)(y := NULL), ev_ref := (ev_ref s1)(y := PNext a)\<rparr>"
  obtain i where 2: "equeue_enqueue env q y tick s1 = Some (i, s2)"
    unfolding s2_def using enqueue_behind [OF f1(1) n(1) n(4) [symmetric] f1(2,4,6)] f1(3) d(1) by simp
  have f2: "eq_queue s2 q = a" "ev_next s2 a = y" "ev_target s2 a = t1" "ev_target s2 y = t2" "no_update q s2" "ev_sibling s2 a = NULL"
    "ev_sibling s2 y = NULL" "t1 = tick + equeue_clampdiff (ev_target s2 c) tick"
    using f1 n by (simp_all add: s2_def no_update_def)
  define s3 where "s3 = s2\<lparr>ev_target := (ev_target s2)(c := t1), ev_generation := (ev_generation s2)(c := eq_generation s2 q),
      ev_next := (ev_next s2)(c := y), ev_sibling := (ev_sibling s2)(c := a), eq_queue := (eq_queue s2)(q := c),
      ev_ref := (ev_ref s2)(y := PNext c, a := PSibling c, c := PQueue q)\<rparr>"
  obtain j where 3: "equeue_enqueue env q c tick s2 = Some (j, s3)"
    unfolding s3_def using enqueue_joins [OF f2(1) n(1) n(5) [symmetric] f2(2) n(2) n(4) [symmetric] n(6) f2(5,8,3)] by simp
  have f3: "eq_queue s3 q = c" "ev_next s3 a = y" "ev_next s3 c = y" "ev_target s3 a = t1" "ev_target s3 c = t1" "ev_target s3 y = t2"
    "ev_sibling s3 a = NULL" "ev_sibling s3 y = NULL" "ev_ref s3 a = PSibling c"
    using f2 n by (simp_all add: s3_def)
  have "ev_id s3 = ev_id s" "eq_npw2 s3 = eq_npw2 s" "eq_buffer s3 = eq_buffer s" "eq_tick s3 = eq_tick s"
    by (simp_all add: s3_def s2_def s1_def)
  then have "cancellable q a ?ident s3"
    using ident_unpack [of "a - eq_buffer s q" "eq_npw2 s q" "ev_id s a"] assms(4) f3(4) d(2)
    by (simp add: cancellable_def event_of_def id_matches_def id_fits_def)
  note 4 = unqueue_oldest [OF this f3(7,2,9) n(2)]
  let ?s4 = "s3\<lparr>ev_cb := (ev_cb s3)(a := NoFn), ev_period := (ev_period s3)(a := - 1), ev_sibling := (ev_sibling s3)(c := y),
      ev_ref := (ev_ref s3)(y := PSibling c), ev_id := (ev_id s3)(a := next_id (eq_npw2 s3 q) (ev_id s3 a))\<rparr>"
  have "\<exists>s5. equeue_dequeue q now ?s4 = Some (y, s5) \<and> chain (ev_next s5) y [y, c] NULL \<and> eq_queue s5 q = y"
    by (rule dequeue_two) (use n f3 d(3,4) in simp_all)
  then show ?thesis using 1 2 3 4 by blast
qed

text \<open>
  equeue_destroy runs the wrong destructors. With the events \<open>a\<close> and \<open>y\<close> queued for two times, it runs the
  destructor of \<open>a\<close> (which acts on the world as \<open>f\<close>) twice and the one of \<open>y\<close> not at all: the inner loop starts at the head
  of the queue for each slot.
\<close>

theorem equeue_destroy_repeats:
  assumes "eq_queue s q = a" "a \<noteq> NULL" "ev_next s a = y" "y \<noteq> NULL" "ev_next s y = NULL" "ev_sibling s a = NULL" "bg_update s q = NoFn"
    and "ev_dtor s a \<noteq> NoFn" "\<And>s'. env_call env (ev_dtor s a) (a + 36) s' = Some (s'\<lparr>world := f (world s')\<rparr>)"
  shows "equeue_destroy env q s = Some (s\<lparr>world := f (f (world s))\<rparr>)"
proof -
  have slot: "destroy_slot env a u = Some (u\<lparr>world := f (world u)\<rparr>)" if "ev_dtor u = ev_dtor s" "ev_sibling u = ev_sibling s" for u
    using that assms(2,6,8,9) destroy_slot.simps [of env NULL] by (subst destroy_slot.simps) simp
  have slots: "destroy_slots env q NULL u = Some u" for u by (subst destroy_slots.simps) simp
  have "destroy_slots env q y (s\<lparr>world := f (world s)\<rparr>) = Some (s\<lparr>world := f (f (world s))\<rparr>)"
    using assms slot slots by (subst destroy_slots.simps) simp
  then have "destroy_slots env q a s = Some (s\<lparr>world := f (f (world s))\<rparr>)"
    using assms slot by (subst destroy_slots.simps) simp
  then show ?thesis using assms(1,7) by (simp add: equeue_destroy_def)
qed

lemma demo_fields:
  "eq_queue demo_eq q = 0" "no_update q demo_eq" "fire_time (\<lambda>_. 0) demo_eq e = (if e = 0x1000 then 20 else 10)"
  "id_fits q 0x1000 demo_eq" "ev_dtor demo_eq e = NoFn" "bg_update demo_eq q = NoFn" "eq_tick demo_eq q = 0"
  by (simp_all add: demo_eq_def no_update_def fire_time_def clampdiff_spec id_fits_def)

lemma demo_empty: "eq_rep b q demo_eq []" "chunk_rep q demo_eq []"
  by (simp_all add: eq_rep_def slots_ok_def chunk_rep_def sized_def demo_eq_def)

lemma demo_heap: "eq_heap_ok 0x100 0x1000 0x1430 demo_eq {0x1000}"
  by (rule eq_heap_okI [OF _ _ _ _ demo_empty(2) _ refl]) (simp_all add: blocks_ok_def demo_eq_def)

theorem equeue_fires_in_order_witness:
  "\<exists>s1 h s2. put_all (post_at demo_env 0x100 (\<lambda>_. 0)) [0x1000, 0x1040, 0x1080] demo_eq = Some s1 \<and>
    equeue_dequeue 0x100 10 s1 = Some (h, s2) \<and> chain (ev_next s2) h [0x1040, 0x1080] NULL"
proof -
  have "in_window 0 10" "in_window 0 (fire_time (\<lambda>_. 0) demo_eq e)" for e by (simp_all add: in_window_def demo_fields)
  from equeue_fires_in_order [OF demo_fields(1,2) _ _ this, where es = "[0x1000, 0x1040, 0x1080]" and q = "0x100" and env = demo_env]
  show ?thesis by (simp add: demo_fields) blast
qed

theorem equeue_alloc_spec_witness:
  "\<exists>L. eq_heap_ok 0x100 0x1000 0x1430 demo_eq L \<and> (equeue_alloc 0x100 8 demo_eq = Some (NULL, demo_eq) \<or>
    (\<exists>e s'. equeue_alloc 0x100 8 demo_eq = Some (e + 36, s') \<and> e \<notin> L \<and> eq_heap_ok 0x100 0x1000 0x1430 s' (insert e L)))"
proof -
  from equeue_alloc_spec [OF demo_heap, of 8] demo_heap show ?thesis by (intro exI [of _ "{0x1000}"]) auto
qed

theorem equeue_dealloc_reuse_witness:
  "\<exists>s1 s2. equeue_dealloc demo_env 0x100 0x1024 demo_eq = Some s1 \<and> equeue_alloc 0x100 12 s1 = Some (0x1024, s2)"
proof -
  have "eq_block_size 12 = ev_size demo_eq 0x1000" by (simp add: eq_block_size_def demo_eq_def)
  from equeue_dealloc_reuse [OF demo_heap _ demo_fields(5) this, of demo_env] show ?thesis by simp blast
qed

theorem equeue_dispatch_serves_witness:
  "\<exists>s' ss'. equeue_dispatch demo_env 0x100 0 demo_due = Some s' \<and> world s' = (10, [(Client 1, 0x1024)]) \<and>
    eq_rep 0 0x100 s' ss' \<and> flat ss' = [0x1000] \<and> ev_target s' 0x1000 = 15"
proof -
  have R: "eq_rep 0 0x100 demo_due [[0x1000]]"
    by (simp add: eq_rep_def slots_ok_def demo_eq_def in_window_def)
  have C: "chunk_rep 0x100 demo_due []" by (simp add: chunk_rep_def sized_def demo_eq_def)
  have sv: "serve_events demo_env demo_act demo_due [0x1000] (10, []) = ((10, [(Client 1, 0x1024)]), [(0x1000, 15)])"
    by (simp add: demo_env_def demo_act_def demo_eq_def clampdiff_spec)
  have "\<exists>s' ss' cs'. equeue_dispatch demo_env 0x100 0 demo_due = Some s' \<and> world s' = (10, [(Client 1, 0x1024)]) \<and>
    eq_rep 0 0x100 s' ss' \<and> chunk_rep 0x100 s' cs' \<and>
    flat ss' = fold (pinsert (\<lambda>x. - due 0 s' x)) (map fst [(0x1000, 15 :: u32)]) (dropWhile (\<lambda>x. due 0 demo_due x \<le> sint (10 - 0 :: u32)) (flat [[0x1000]])) \<and>
    (\<forall>(e, t)\<in>set [(0x1000, 15)]. ev_target s' e = t) \<and> (\<forall>x. x \<notin> set [0x1000] \<longrightarrow> ev_target s' x = ev_target demo_due x) \<and>
    set (concat cs') = set (concat []) \<union> {e \<in> set [0x1000]. sint (ev_period demo_due e) < 0}"
    by (rule equeue_dispatch_serves [OF R C _ _ _ _ _ _ sv, where now = 10 and then' = 10])
      (simp_all add: demo_env_def demo_eq_def in_window_def due_def world_only_def equeue_tickdiff_def)
  then show ?thesis by (auto simp: due_def demo_eq_def)
qed

theorem equeue_cancel_undoes_post_witness:
  "\<exists>ident s1 s2. equeue_post demo_env 0x100 (Client 2) 0x1024 demo_eq = Some (ident, s1) \<and> ev_target s1 0x1000 = 30 \<and>
    equeue_cancel demo_env 0x100 ident s1 = Some s2 \<and> equeue_cancel demo_env 0x100 ident s2 = Some s2"
proof -
  have t: "env_tick demo_env (world demo_eq) = (10, (10, []))" "30 = 10 + equeue_clampdiff (10 + ev_target demo_eq 0x1000) 10"
    "in_window 0 30" "in_window 0 10" "in_window 0 (eq_tick demo_eq 0x100)" "0 \<le> equeue_tickdiff 10 (eq_tick demo_eq 0x100)"
    by (simp_all add: demo_env_def demo_eq_def clampdiff_spec in_window_def equeue_tickdiff_def)
  have "0x1000 \<notin> set (concat []) \<union> set (concat [])" "(0x1000 :: ptr) \<noteq> NULL" by simp_all
  from equeue_cancel_undoes_post [OF demo_empty _ demo_fields(2) this demo_fields(5,4) t, of "Client 2"]
  show ?thesis by simp blast
qed

theorem equeue_cancel_misfires_witness:
  "\<exists>ident i j s1 s2 s3 s4 s5. equeue_enqueue demo_env 0x100 0x1040 0 demo_eq = Some (ident, s1) \<and> equeue_enqueue demo_env 0x100 0x1000 0 s1 = Some (i, s2) \<and>
    equeue_enqueue demo_env 0x100 0x1080 0 s2 = Some (j, s3) \<and> equeue_unqueue 0x100 ident s3 = (0x1040, s4) \<and>
    equeue_dequeue 0x100 10 s4 = Some (0x1000, s5) \<and> chain (ev_next s5) 0x1000 [0x1000, 0x1080] NULL \<and> eq_queue s5 0x100 = 0x1000"
  by (rule equeue_cancel_misfires [of demo_eq "0x100" "0x1040" "0x1000" "0x1080" 0 10 20 10 demo_env])
    (simp_all add: demo_fields equeue_tickdiff_def id_fits_def, simp_all add: demo_eq_def)

theorem equeue_destroy_repeats_witness:
  "equeue_destroy demo_env 0x100 (demo_eq\<lparr>eq_queue := \<lambda>_. 0x1000, ev_next := (\<lambda>_. 0)(0x1000 := 0x1040), ev_dtor := (\<lambda>_. Client 1)(0x1040 := Client 2)\<rparr>) =
    Some (demo_eq\<lparr>eq_queue := \<lambda>_. 0x1000, ev_next := (\<lambda>_. 0)(0x1000 := 0x1040), ev_dtor := (\<lambda>_. Client 1)(0x1040 := Client 2),
      world := (10, [(Client 1, 0x1024), (Client 1, 0x1024)])\<rparr>)"
  using equeue_destroy_repeats [of "demo_eq\<lparr>eq_queue := \<lambda>_. 0x1000, ev_next := (\<lambda>_. 0)(0x1000 := 0x1040),
      ev_dtor := (\<lambda>_. Client 1)(0x1040 := Client 2)\<rparr>" "0x100" "0x1000" "0x1040" demo_env "demo_act (Client 1) 0x1024"]
  by (simp add: demo_env_def) (simp add: demo_eq_def demo_act_def)

end
