(* ===== verification/Spec2Isabelle.thy ===== *)
theory Spec2Isabelle
  imports KernelCtl TimerInv Board UsTicker GpioHal EQueueInv
begin

text \<open>
  Verification library for the LED firmware of the LNDC01 board (NXP MKE18F, Cortex-M4F) and the parts of mbed
  OS 5 below it: the RTX5 kernel, the HAL ticker and its driver, the GPIO drivers and the event queue library.

  \<^bold>\<open>The program.\<close> main (src/App/main.cpp) configures the pins (src/App/Peripherial/Init_Pins.c), then switches an LED on
  and off with wait_ms for ever. It runs as a thread of RTX5
  (src/mbed-os/rtos/TARGET_CORTEX/rtx5/RTX/Source): application threads reach the kernel by service calls (functions
  \<open>svcRtx...\<close>), interrupt handlers by \<open>isrRtx...\<close>; both change the control blocks and the lists they are linked into,
  choose the thread to run next (\<open>run_next\<close>), and the exception return in irq_cm4f.S switches to it. Interrupt handlers leave
  objects in a ring buffer for the PendSV handler; the tick handler counts delays and timers down. Independent of the kernel, the HAL
  ticker (src/mbed-os/hal/mbed_ticker_api.c) keeps a microsecond clock and timed events over the driver us_ticker.c, and the event
  queue (src/mbed-os/events/equeue/equeue.c) defers callbacks of an application to a time.

  \<^bold>\<open>Conventions.\<close> Every C function is a definition of the same name; a loop inside a function is a recursive definition of its
  own, named after what it looks for. Integers have their C width (\<open>u8\<close>, \<open>u16\<close>, \<open>u32\<close>, \<open>u64\<close>) and wrap as in C;
  priorities, which C keeps as int8_t, are \<open>int\<close> with the conversion written out. Memory is a heap for each field of a control block:
  \<open>p->f\<close> is \<open>f s p\<close>. \<open>'a option\<close> is the result of code that follows pointers: \<open>None\<close> stands for a dereference of
  NULL, for a loop that does not end and for osRtxErrorNotify, so that a theorem saying \<open>Some\<close> also says that the code returns.
  Such loops are partial functions over \<open>option\<close>; no fuel is used anywhere. \<open>x_witness\<close> applies the property \<open>x\<close> at a concrete state.

  \<^bold>\<open>Shared theories.\<close> Prelude: machine types, the failure monad, lemma collections. Links: doubly linked lists in the field heap
  (\<open>dll\<close>, \<open>lists_ok\<close>) and what insertion, removal and splicing do to them. PrioQueue: ordered insertion, and the interfaces
  \<open>put_queue\<close>, \<open>prio_queue\<close> and \<open>deadline_queue\<close>, with the lemmas that filling and draining such a queue is a stable sort.

  \<^bold>\<open>The kernel\<close> (RTX/Source, RTX/Include/rtx_os.h).
  \<^item> RtxState: the control blocks and osRtxInfo as one record \<open>rtx\<close>, status codes, the atomic helpers of rtx_core_cm.h.
  \<^item> RtxLists: osRtxThreadListPut, Get, Sort, Remove, Unlink, the delay and the wait list (rtx_thread.c); each operation refines an
    operation on HOL lists, and the lists of threads are a \<open>prio_queue\<close>.
  \<^item> RtxSched, SchedInv: osRtxThreadSwitch, Dispatch, Block, WaitEnter, WaitExit, the stack check and the context switch. The
    predicate \<open>sched s Q D W\<close> says that the memory \<open>s\<close> holds the lists \<open>Q\<close> (by head), the delay list \<open>D\<close> and the wait
    list \<open>W\<close>; \<open>settled\<close> that the highest ready thread runs. SchedInv has the delay list as a queue of times
    (locale \<open>timed_queue\<close>, interpreted on osRtxThreadDelayTick).
  \<^item> RtxSystem: the ring buffer of rtx_system.c, a \<open>bounded_fifo\<close>, and the object checks all services share.
  \<^item> RtxPriority: changing a priority and sorting the list the thread waits in.
  \<^item> RtxMemory, MemInv: the heap of rtx_memory.c and the block pools of rtx_mempool.c: blocks that do not overlap, coalescing on free,
    a pool as a stack of free blocks (locale \<open>block_pool\<close>). The memory of blocks is a map from word addresses to words, so
    that two words never overlap: the theorems of pools ask for word-aligned memory and block sizes, which is what the API passes
    on, and the headers of messages, which lie in free blocks while these are linked, are fields of their own.
  \<^item> RtxSemaphore, RtxMutex, RtxEvFlags, RtxMemPool, RtxMsgQueue, RtxTimer, RtxThread: one theory for each kind of object, with all its
    service calls, interrupt calls and API functions on every branch, and the functional behaviour of those that wait and wake.
  \<^item> TimerInv: the running timers as a list with the ticks each has left (\<open>timer_rep\<close>); starting, stopping and a tick of the timers.
  \<^item> RtxKernel: initialisation, start, lock, suspend and resume, the tick and PendSV handlers, round robin.
  \<^item> ThreadInv, KernelInv: the invariant \<open>kernel_inv\<close> of the running kernel and the step relation \<open>kernel_step\<close>: application threads,
    which may write any memory of their own, service calls, interrupts, the tick and PendSV. Every step keeps the invariant; from this, in
    every reachable state the running thread is the only running one and no ready thread has a higher priority, and no handler
    hangs (locale \<open>kernel_handler\<close>). The relation has the calls for yield, delay, priority, suspend, resume, semaphores and
    event flags. The kernel lock, mutexes, memory pools, message queues, thread flags, timers and the creation and deletion of objects are not
    steps of it; they have theorems of their own (a locked kernel, for one, keeps a ready thread of a higher priority waiting, as
    KernelCtl shows). The states of the relation have no running timer (\<open>timer_list = NULL\<close>).
  \<^item> KernelCtl: runs of many ticks (\<open>ticks\<close>): the turns of round robin scheduling, the locked kernel, the tick count after
    a suspension, and the enumeration of threads.

  \<^bold>\<open>The HAL.\<close> HalTicker, TickerInv: the 64-bit clock over a counter of 4 to 32 bits, its conversion by shift, multiplication or
  division with the remainder carried over, and the event list, a \<open>prio_queue\<close> whose handler runs the due events in order. The driver
  is a record of functions; \<open>ticker_hw\<close> states what a driver promises, and UsTicker interprets it on the model of us_ticker.c over the LPIT
  registers; the event handler is a parameter that may do anything outside the ticker's queue and registers
  (\<open>outside_only\<close>). PortReg is the pin control register with its lock bit and its write-one-to-clear flag, which GpioHal and Board store
  to. GpioHal: gpio_api.c, port_api.c, pinmap.c, gpio_irq_api.c and the register functions they use, on a record of the PORT and GPIO
  registers.

  \<^bold>\<open>The application.\<close> Board: the pin table, Config_pin, Init_pins, Set_ESC_LED_state and main, on the registers they write; main is
  the trace of its LED and wait calls.

  \<^bold>\<open>The event queue.\<close> EQueue: every function of equeue.c. A place is the address of a link. EQueueInv: the queue as a list of slots
  (\<open>eq_rep\<close>), one for each time, each a stack of events; enqueueing is an ordered insertion, dequeueing takes the expired prefix, so that the
  queue is a \<open>deadline_queue\<close>. The times of all queued events lie in a window of \<open>2 ^ 31\<close> ticks (\<open>in_window\<close>), which is what
  the comparison by difference needs; where the clock stands in 32 bits does not matter. \<open>eq_heap_ok\<close> is the invariant of the
  allocator, \<open>serve_events\<close> the reference for equeue_dispatch.

  \<^bold>\<open>Parameters.\<close> Code outside the sources or chosen by the client is an argument: the driver behind the HAL ticker, the
  handlers of ticker and pin interrupts, the platform layer, callbacks and background timer of the event queue (\<open>eq_env\<close>), the exit address
  of a thread. The theorems that need something of them have it as a hypothesis, and the witnesses give an instance.

  \<^bold>\<open>Not modelled.\<close> The event recorder (trace only); svcRtxKernelGetInfo and the frequency getters (constants of the build); the
  ARMv8-M and Cortex-A ports, lazy floating point state and user SVCs; the start-up code and the C++ classes of mbed OS, which wrap the
  modelled calls; the drivers the application does not use (low power ticker, serial, SPI, I2C, flash, RTC); lwIP, mbed TLS,
  Nanostack, LoRaWAN, cellular, file systems and test frameworks, which are vendored or not linked into this firmware; the vendor
  headers. Preemption of kernel code by interrupts is not modelled below the level of whole handlers: service calls run in handler mode at
  one priority, and what an interrupt handler may touch at the same time, the ring buffer and the atomic counters, is a single step.
\<close>

end
